(* ===== verification/Kcp_Prelude.thy ===== *)
theory Kcp_Prelude
  imports Main "HOL-Library.Word" "HOL-Library.Signed_Division"
begin

section \<open>Shared vocabulary: machine integers, serial numbers, list helpers\<close>

text \<open>
  The types and generic facts every component uses.
  \<^item> \<open>byte\<close>, \<open>u16\<close>, \<open>u32\<close>, \<open>u64\<close> are the unsigned C types of depends/kcp/ikcp.h at their
    width; a C \<open>int\<close> or \<open>IINT32\<close> is an \<open>int\<close> that every store passes through \<open>i32\<close>,
    the conversion to 32-bit two's complement.
  \<^item> \<open>off base x\<close> is the distance from \<open>base\<close> forward to \<open>x\<close> modulo \<open>2 ^ 32\<close>: sequence
    numbers and timestamps of the protocol are compared by signed difference, and the
    comparison is the order of distances as long as these stay below \<open>2 ^ 31\<close>.
  \<^item> \<open>kcp_inv\<close>, \<open>kcp_result\<close>, \<open>kcp_frame\<close> and \<open>wire_simps\<close> are the collections the component theories
    fill: invariant preservation, unchanged fields, and the encoder/decoder equations.
\<close>

unbundle bit_operations_syntax

type_synonym byte = "8 word"
type_synonym u16 = "16 word"
type_synonym u32 = "32 word"
type_synonym u64 = "64 word"

named_theorems kcp_inv "operations that keep a control block well formed"
named_theorems kcp_result "results of fallible operations that are well formed"
named_theorems kcp_frame "fields an operation leaves alone"
named_theorems wire_simps "equations of the encoders and decoders"

subsection \<open>Conversion to a 32-bit signed integer\<close>

definition i32 :: "int \<Rightarrow> int" where
  "i32 x = signed_take_bit 31 x"

lemma i32_lower: "- (2 ^ 31) \<le> i32 x"
  unfolding i32_def by (rule signed_take_bit_int_greater_eq_minus_exp)

lemma i32_upper: "i32 x < 2 ^ 31"
  unfolding i32_def by (rule signed_take_bit_int_less_exp)

lemma i32_id: "- (2 ^ 31) \<le> x \<Longrightarrow> x < 2 ^ 31 \<Longrightarrow> i32 x = x"
  unfolding i32_def by (rule signed_take_bit_int_eq_self)

lemma sint_u32_lower: "- (2 ^ 31) \<le> sint (w :: u32)"
  using sint_ge [of w] by simp

lemma sint_u32_upper: "sint (w :: u32) < 2 ^ 31"
  using sint_lt [of w] by simp

lemma sint_u32_eq: "sint (w :: u32) = i32 (uint w)"
  by (simp add: i32_def sint_uint)

lemma uint_u32_upper: "uint (w :: u32) < 2 ^ 32"
  using uint_lt2p [of w] by simp

lemma unat_less_2p31_iff: "unat (w :: u32) < 2 ^ 31 \<longleftrightarrow> uint w < 2 ^ 31"
  using nat_less_iff [of "uint w" "2 ^ 31"] by simp

lemma sint_small_uint: "uint (w :: u32) < 2 ^ 31 \<Longrightarrow> sint w = uint w"
  unfolding sint_u32_eq by (rule i32_id) (auto intro: order_trans [OF _ uint_ge_0])

lemma sint_small: "unat (w :: u32) < 2 ^ 31 \<Longrightarrow> sint w = int (unat w)"
  unfolding unat_less_2p31_iff by (simp add: sint_small_uint)

lemma i32_minus_2p32: "i32 (x - 2 ^ 32) = i32 x"
proof -
  have "take_bit 32 (x - 2 ^ 32) = take_bit 32 x"
    by (simp add: take_bit_eq_mod)
  then show ?thesis
    by (simp add: i32_def signed_take_bit_eq_iff_take_bit_eq)
qed

lemma sint_large: "2 ^ 31 \<le> uint (w :: u32) \<Longrightarrow> sint w = uint w - 2 ^ 32"
  using i32_id [of "uint w - 2 ^ 32"] uint_u32_upper [of w]
  unfolding sint_u32_eq by (simp add: i32_minus_2p32 [of "uint w", simplified])

lemma sint_nonneg_iff: "0 \<le> sint (w :: u32) \<longleftrightarrow> unat w < 2 ^ 31"
proof (cases "uint w < 2 ^ 31")
  case True
  then show ?thesis by (simp only: sint_small_uint unat_less_2p31_iff) simp
next
  case False
  then have "sint w < 0"
    using sint_large [of w] uint_u32_upper [of w] by simp
  with False show ?thesis
    by (simp only: unat_less_2p31_iff) simp
qed

lemma unat_of_nat_u32: "n < 2 ^ 32 \<Longrightarrow> unat (of_nat n :: u32) = n"
  by (simp add: unat_of_nat)

lemma sint_of_nat_u32: "n < 2 ^ 31 \<Longrightarrow> sint (of_nat n :: u32) = int n"
  by (subst sint_small) (simp_all add: unat_of_nat_u32)

lemma unat_word_of_int_nat:
  "0 \<le> x \<Longrightarrow> x < 2 ^ 31 \<Longrightarrow> unat (word_of_int x :: u32) = nat x"
proof -
  assume x: "0 \<le> x" "x < 2 ^ 31"
  then have "(word_of_int x :: u32) = of_nat (nat x)"
    by simp
  moreover have "nat x < 2 ^ 32"
    using x by (simp add: nat_less_iff)
  ultimately show ?thesis
    by (simp only: unat_of_nat_u32)
qed

subsection \<open>Distances between serial numbers\<close>

definition off :: "u32 \<Rightarrow> u32 \<Rightarrow> nat" where
  "off base x = unat (x - base)"

lemma off_self [simp]: "off b b = 0"
  by (simp add: off_def)

lemma off_lt: "off b x < 2 ^ 32"
  unfolding off_def using unsigned_less [of "x - b", where 'a = nat] by simp

lemma off_add: "off b (b + of_nat n) = n" if "n < 2 ^ 32"
  using that by (simp add: off_def unat_of_nat)

lemma off_inj: "off b x = off b y \<longleftrightarrow> x = y"
  by (simp add: off_def flip: word_unat_eq_iff)

lemma off_recover: "b + of_nat (off b x) = x"
  by (simp add: off_def)

lemma off_eq_0 [simp]: "off b x = 0 \<longleftrightarrow> x = b"
  by (simp add: off_def unat_eq_0)

lemma sint_diff_off:
  assumes "off b x < 2 ^ 31" and "off b y < 2 ^ 31"
  shows "sint (x - y) = int (off b x) - int (off b y)"
proof -
  have "x - y = (x - b) - (y - b)"
    by simp
  also have "\<dots> = word_of_int (int (off b x) - int (off b y))"
    by (simp add: off_def)
  finally have eq: "x - y = word_of_int (int (off b x) - int (off b y))" .
  moreover have "sint (word_of_int k :: u32) = k" if "- (2 ^ 31) \<le> k" and "k < 2 ^ 31" for k
    using i32_id [OF that] by (simp add: i32_def sint_sbintrunc')
  moreover have "int (off b x) < 2 ^ 31" and "int (off b y) < 2 ^ 31"
    using assms by simp_all
  ultimately show ?thesis
    by (smt (verit) of_nat_0_le_iff)
qed

lemma off_unshift:
  assumes "off b c + off c x < 2 ^ 32"
  shows "off b x = off b c + off c x"
proof -
  have "x - b = (c - b) + (x - c)"
    by simp
  moreover have "unat ((c - b) + (x - c)) = unat (c - b) + unat (x - c)"
    using assms unat_add_lem [of "c - b" "x - c"] by (simp add: off_def)
  ultimately show ?thesis
    by (simp add: off_def)
qed

lemma off_shift:
  assumes "off b c \<le> off b x"
  shows "off c x = off b x - off b c"
proof -
  have "x - c = (x - b) - (c - b)"
    by simp
  moreover have "unat ((x - b) - (c - b)) = unat (x - b) - unat (c - b)"
    using assms by (intro unat_sub) (simp add: off_def word_le_nat_alt)
  ultimately show ?thesis
    by (simp add: off_def)
qed

lemma off_succ: "off b (x + 1) = Suc (off b x)" if "off b x < 2 ^ 32 - 1"
  using that off_unshift [of b x "x + 1"] by (simp add: off_def)

subsection \<open>Lists\<close>

lemma sorted_wrt_less_map_snoc:
  "sorted_wrt (<) (map f (xs @ [x])) \<longleftrightarrow>
   sorted_wrt (<) (map f xs) \<and> (\<forall>y \<in> set xs. f y < (f x :: nat))"
  by (auto simp: sorted_wrt_append)

lemma sorted_wrt_dropWhile:
  "sorted_wrt P xs \<Longrightarrow> sorted_wrt P (dropWhile Q xs)"
  by (induction xs) auto

end
