(* ===== verification/Ikcp_Wire.thy ===== *)
theory Ikcp_Wire
  imports Kcp_Prelude "HOL-Library.Monad_Syntax"
begin

section \<open>Byte encoders and decoders (depends/kcp/ikcp.c, lines 46 to 112, 879 to 889, 1249 to 1253)\<close>

text \<open>
  A write pointer is the list of the bytes written so far from the start of the buffer, so
  \<open>*p++ = c\<close> appends; a read pointer is the list of the bytes from it to the end of the
  buffer, and a read past that end is \<open>None\<close>. Every 16- and 32-bit access has the two
  versions of the source: one load or store of the whole integer, which is little-endian
  on the x86 targets that select it, and the byte-by-byte version of the other targets
  (suffix \<open>_bytes\<close>).
\<close>

unbundle bit_operations_syntax

subsection \<open>Integers in memory\<close>

definition mem16 :: "u16 \<Rightarrow> byte list" where
  "mem16 w = [ucast w, ucast (drop_bit 8 w)]"

definition mem32 :: "u32 \<Rightarrow> byte list" where
  "mem32 l = [ucast l, ucast (drop_bit 8 l), ucast (drop_bit 16 l), ucast (drop_bit 24 l)]"

definition load16 :: "byte \<Rightarrow> byte \<Rightarrow> u16" where
  "load16 b0 b1 = ucast b0 OR push_bit 8 (ucast b1)"

definition load32 :: "byte \<Rightarrow> byte \<Rightarrow> byte \<Rightarrow> byte \<Rightarrow> u32" where
  "load32 b0 b1 b2 b3 =
     ucast b0 OR push_bit 8 (ucast b1) OR push_bit 16 (ucast b2) OR push_bit 24 (ucast b3)"

lemma length_mem16 [simp]: "length (mem16 w) = 2"
  by (simp add: mem16_def)

lemma length_mem32 [simp]: "length (mem32 l) = 4"
  by (simp add: mem32_def)

lemma bit_byte_beyond [simp]: "8 \<le> n \<Longrightarrow> \<not> bit (b :: byte) n"
  by (auto dest: bit_imp_le_length)

lemma mask8_eq: "(255 :: 'a :: len word) = mask 8"
  by (simp add: mask_numeral)

lemma load16_mem16: "load16 (ucast w) (ucast (drop_bit 8 w)) = w"
  by (rule bit_word_eqI) (auto simp: load16_def bit_simps)

lemma mem16_load16: "mem16 (load16 b0 b1) = [b0, b1]"
  unfolding mem16_def load16_def
  by (auto intro!: bit_word_eqI simp: bit_simps)

lemma load32_mem32:
  "load32 (ucast l) (ucast (drop_bit 8 l)) (ucast (drop_bit 16 l)) (ucast (drop_bit 24 l)) = l"
proof (rule bit_word_eqI)
  fix n :: nat
  assume "n < LENGTH(32)"
  then consider "n < 8" | "8 \<le> n" "n < 16" | "16 \<le> n" "n < 24" | "24 \<le> n" "n < 32"
    by fastforce
  then show "bit (load32 (ucast l) (ucast (drop_bit 8 l)) (ucast (drop_bit 16 l))
      (ucast (drop_bit 24 l))) n \<longleftrightarrow> bit l n"
    by cases (auto simp: load32_def bit_simps)
qed

lemma mem32_load32: "mem32 (load32 b0 b1 b2 b3) = [b0, b1, b2, b3]"
  unfolding mem32_def load32_def
  by (auto intro!: bit_word_eqI simp: bit_simps)

subsection \<open>The encoders\<close>

definition ikcp_encode8u :: "byte list \<Rightarrow> byte \<Rightarrow> byte list" where
  "ikcp_encode8u p c = p @ [c]"

definition ikcp_encode16u :: "byte list \<Rightarrow> u16 \<Rightarrow> byte list" where
  "ikcp_encode16u p w = p @ mem16 w"

definition ikcp_encode16u_bytes :: "byte list \<Rightarrow> u16 \<Rightarrow> byte list" where
  "ikcp_encode16u_bytes p w = p @ [ucast (w AND 255), ucast (drop_bit 8 w)]"

definition ikcp_encode32u :: "byte list \<Rightarrow> u32 \<Rightarrow> byte list" where
  "ikcp_encode32u p l = p @ mem32 l"

definition ikcp_encode32u_bytes :: "byte list \<Rightarrow> u32 \<Rightarrow> byte list" where
  "ikcp_encode32u_bytes p l =
     p @ [ucast (drop_bit 0 l AND 255), ucast (drop_bit 8 l AND 255),
          ucast (drop_bit 16 l AND 255), ucast (drop_bit 24 l AND 255)]"

subsection \<open>The decoders\<close>

fun ikcp_decode8u :: "byte list \<Rightarrow> (byte \<times> byte list) option" where
  "ikcp_decode8u (c # p) = Some (c, p)"
| "ikcp_decode8u _ = None"

fun ikcp_decode16u :: "byte list \<Rightarrow> (u16 \<times> byte list) option" where
  "ikcp_decode16u (b0 # b1 # p) = Some (load16 b0 b1, p)"
| "ikcp_decode16u _ = None"

fun ikcp_decode16u_bytes :: "byte list \<Rightarrow> (u16 \<times> byte list) option" where
  "ikcp_decode16u_bytes (b0 # b1 # p) = Some (let w = ucast b1 in ucast b0 + push_bit 8 w, p)"
| "ikcp_decode16u_bytes _ = None"

fun ikcp_decode32u :: "byte list \<Rightarrow> (u32 \<times> byte list) option" where
  "ikcp_decode32u (b0 # b1 # b2 # b3 # p) = Some (load32 b0 b1 b2 b3, p)"
| "ikcp_decode32u _ = None"

fun ikcp_decode32u_bytes :: "byte list \<Rightarrow> (u32 \<times> byte list) option" where
  "ikcp_decode32u_bytes (b0 # b1 # b2 # b3 # p) =
     Some (let l = ucast b3; l = ucast b2 + push_bit 8 l; l = ucast b1 + push_bit 8 l
           in ucast b0 + push_bit 8 l, p)"
| "ikcp_decode32u_bytes _ = None"

definition ikcp_getconv :: "byte list \<Rightarrow> u32 option" where
  "ikcp_getconv ptr = map_option fst (ikcp_decode32u ptr)"

lemma encode8u_simp [wire_simps]: "ikcp_encode8u p c = p @ [c]"
  by (simp add: ikcp_encode8u_def)

lemma encode16u_simp [wire_simps]: "ikcp_encode16u p w = p @ mem16 w"
  by (simp add: ikcp_encode16u_def)

lemma encode32u_simp [wire_simps]: "ikcp_encode32u p l = p @ mem32 l"
  by (simp add: ikcp_encode32u_def)

lemma decode8u_append [wire_simps]: "ikcp_decode8u ([c] @ p) = Some (c, p)"
  by simp

lemma decode16u_mem16 [wire_simps]: "ikcp_decode16u (mem16 w @ p) = Some (w, p)"
  by (simp add: mem16_def load16_mem16)

lemma decode32u_mem32 [wire_simps]: "ikcp_decode32u (mem32 l @ p) = Some (l, p)"
  by (simp add: mem32_def load32_mem32)

lemma decode32u_Some_iff: "ikcp_decode32u p = Some (l, q) \<longleftrightarrow> p = mem32 l @ q"
proof
  assume "ikcp_decode32u p = Some (l, q)"
  then show "p = mem32 l @ q"
    by (induction p rule: ikcp_decode32u.induct) (auto simp: mem32_load32)
qed (simp add: decode32u_mem32)

lemma decode16u_Some_iff: "ikcp_decode16u p = Some (w, q) \<longleftrightarrow> p = mem16 w @ q"
proof
  assume "ikcp_decode16u p = Some (w, q)"
  then show "p = mem16 w @ q"
    by (induction p rule: ikcp_decode16u.induct) (auto simp: mem16_load16)
qed (simp add: decode16u_mem16)

text \<open>A decoder with enough bytes before it does not fail.\<close>

lemma decode32u_total: "4 \<le> length p \<Longrightarrow> \<exists>l. ikcp_decode32u p = Some (l, drop 4 p)"
  by (induction p rule: ikcp_decode32u.induct) auto

lemma decode16u_total: "2 \<le> length p \<Longrightarrow> \<exists>w. ikcp_decode16u p = Some (w, drop 2 p)"
  by (induction p rule: ikcp_decode16u.induct) auto

lemma decode8u_total: "1 \<le> length p \<Longrightarrow> \<exists>c. ikcp_decode8u p = Some (c, drop 1 p)"
  by (cases p) auto

text \<open>The byte-by-byte versions compute the same as the whole-word versions.\<close>

lemma encode16u_bytes_eq [wire_simps]: "ikcp_encode16u_bytes p w = ikcp_encode16u p w"
  unfolding ikcp_encode16u_bytes_def ikcp_encode16u_def mem16_def mask8_eq
  by (auto intro!: bit_word_eqI simp: bit_simps)

lemma encode32u_bytes_eq [wire_simps]: "ikcp_encode32u_bytes p l = ikcp_encode32u p l"
  unfolding ikcp_encode32u_bytes_def ikcp_encode32u_def mem32_def mask8_eq
  by (auto intro!: bit_word_eqI simp: bit_simps)

lemma byte_plus_shifted:
  "ucast (b :: byte) + push_bit 8 w = (ucast b OR push_bit 8 w :: 'a :: len word)"
  by (intro disjunctive_add) (auto simp: bit_simps)

lemma decode16u_bytes_eq [wire_simps]: "ikcp_decode16u_bytes p = ikcp_decode16u p"
  by (induction p rule: ikcp_decode16u.induct) (simp_all add: load16_def byte_plus_shifted)

lemma decode32u_bytes_eq [wire_simps]: "ikcp_decode32u_bytes p = ikcp_decode32u p"
  by (induction p rule: ikcp_decode32u.induct)
    (simp_all add: load32_def byte_plus_shifted push_bit_or ac_simps)

lemma decode8u_Some_iff: "ikcp_decode8u p = Some (c, q) \<longleftrightarrow> p = c # q"
  by (cases p) auto

end
