(* ===== verification/Ikcp_State.thy ===== *)
theory Ikcp_State
  imports Ikcp_Wire
begin

section \<open>The KCP control block (depends/kcp/ikcp.h and the set-up part of ikcp.c)\<close>

text \<open>
  The constants and the serial arithmetic of ikcp.c, its two structs as records, and the
  operations that create, configure and release a control block. The four intrusive queues
  are lists (theory Iqueue shows that the pointer macros implement them); a \<open>NULL\<close>-able
  callback is the flag that it is set; \<open>buffer\<close> is the capacity of the output buffer in
  bytes; \<open>acklist\<close> is the array of sequence numbers and timestamps, \<open>None\<close> for \<open>NULL\<close>.
  The allocator is the hook of \<open>ikcp_allocator\<close>, so it is a parameter: which requests it
  grants and what a fresh block holds. An operation whose result is an \<open>option\<close> answers
  \<open>None\<close> where a live \<open>assert\<close>, \<open>abort\<close> or a \<open>NULL\<close> dereference ends the process.
\<close>

unbundle bit_operations_syntax

subsection \<open>Constants (lines 23 to 44)\<close>

definition IKCP_RTO_NDL :: u32 where "IKCP_RTO_NDL = 30"
definition IKCP_RTO_MIN :: u32 where "IKCP_RTO_MIN = 100"
definition IKCP_RTO_DEF :: u32 where "IKCP_RTO_DEF = 200"
definition IKCP_RTO_MAX :: u32 where "IKCP_RTO_MAX = 60000"
definition IKCP_CMD_PUSH :: u32 where "IKCP_CMD_PUSH = 81"
definition IKCP_CMD_ACK :: u32 where "IKCP_CMD_ACK = 82"
definition IKCP_CMD_WASK :: u32 where "IKCP_CMD_WASK = 83"
definition IKCP_CMD_WINS :: u32 where "IKCP_CMD_WINS = 84"
definition IKCP_ASK_SEND :: u32 where "IKCP_ASK_SEND = 1"
definition IKCP_ASK_TELL :: u32 where "IKCP_ASK_TELL = 2"
definition IKCP_WND_SND :: u32 where "IKCP_WND_SND = 32"
definition IKCP_WND_RCV :: u32 where "IKCP_WND_RCV = 128"
definition IKCP_MTU_DEF :: u32 where "IKCP_MTU_DEF = 1400"
definition IKCP_INTERVAL :: u32 where "IKCP_INTERVAL = 100"
definition IKCP_OVERHEAD :: u32 where "IKCP_OVERHEAD = 24"
definition IKCP_DEADLINK :: u32 where "IKCP_DEADLINK = 20"
definition IKCP_THRESH_INIT :: u32 where "IKCP_THRESH_INIT = 2"
definition IKCP_THRESH_MIN :: u32 where "IKCP_THRESH_MIN = 2"
definition IKCP_PROBE_INIT :: u32 where "IKCP_PROBE_INIT = 7000"
definition IKCP_PROBE_LIMIT :: u32 where "IKCP_PROBE_LIMIT = 120000"
definition IKCP_FASTACK_LIMIT :: u32 where "IKCP_FASTACK_LIMIT = 5"

lemmas kcp_consts =
  IKCP_RTO_NDL_def IKCP_RTO_MIN_def IKCP_RTO_DEF_def IKCP_RTO_MAX_def IKCP_CMD_PUSH_def
  IKCP_CMD_ACK_def IKCP_CMD_WASK_def IKCP_CMD_WINS_def IKCP_ASK_SEND_def IKCP_ASK_TELL_def
  IKCP_WND_SND_def IKCP_WND_RCV_def IKCP_MTU_DEF_def IKCP_INTERVAL_def IKCP_OVERHEAD_def
  IKCP_DEADLINK_def IKCP_THRESH_INIT_def IKCP_THRESH_MIN_def IKCP_PROBE_INIT_def
  IKCP_PROBE_LIMIT_def IKCP_FASTACK_LIMIT_def

subsection \<open>Arithmetic helpers (lines 114 to 128)\<close>

definition imin :: "u32 \<Rightarrow> u32 \<Rightarrow> u32" where
  "imin a b = (if a \<le> b then a else b)"

definition imax :: "u32 \<Rightarrow> u32 \<Rightarrow> u32" where
  "imax a b = (if a \<ge> b then a else b)"

definition ibound :: "u32 \<Rightarrow> u32 \<Rightarrow> u32 \<Rightarrow> u32" where
  "ibound lower middle upper = imin (imax lower middle) upper"

definition itimediff :: "u32 \<Rightarrow> u32 \<Rightarrow> int" where
  "itimediff later earlier = sint (later - earlier)"

lemma itimediff_self [simp]: "itimediff a a = 0"
  by (simp add: itimediff_def)

lemma itimediff_off:
  "off b x < 2 ^ 31 \<Longrightarrow> off b y < 2 ^ 31 \<Longrightarrow> itimediff x y = int (off b x) - int (off b y)"
  unfolding itimediff_def by (rule sint_diff_off)

lemma itimediff_nonneg: "0 \<le> itimediff x y \<longleftrightarrow> off y x < 2 ^ 31"
  by (simp only: itimediff_def off_def sint_nonneg_iff)

lemma itimediff_flip:
  assumes "- (2 ^ 31) < itimediff x y"
  shows "itimediff y x = - itimediff x y"
proof -
  have "y - x = word_of_int (- sint (x - y))"
    by simp
  moreover have "sint (word_of_int k :: u32) = k" if "- (2 ^ 31) \<le> k" and "k < 2 ^ 31" for k
    using i32_id [OF that] by (simp add: i32_def sint_sbintrunc')
  ultimately show ?thesis
    using assms sint_u32_lower [of "x - y"] sint_u32_upper [of "x - y"]
    unfolding itimediff_def by (smt (verit))
qed

lemma itimediff_off_self: "0 \<le> itimediff x y \<Longrightarrow> itimediff x y = int (off y x)"
  using itimediff_off [of y x y] by (simp add: itimediff_nonneg)

lemma ibound_upper: "ibound l m u \<le> u"
  by (simp add: ibound_def imin_def)

lemma ibound_lower: "l \<le> u \<Longrightarrow> l \<le> ibound l m u"
  by (auto simp: ibound_def imin_def imax_def)

subsection \<open>The structs (ikcp.h, lines 267 to 314)\<close>

record IKCPSEG =
  seg_conv :: u32
  seg_cmd :: u32
  seg_frg :: u32
  seg_wnd :: u32
  seg_ts :: u32
  seg_sn :: u32
  seg_una :: u32
  seg_len :: u32
  seg_resendts :: u32
  seg_rto :: u32
  seg_fastack :: u32
  seg_xmit :: u32
  seg_data :: "byte list"

record IKCPCB =
  conv :: u32
  mtu :: u32
  mss :: u32
  state :: u32
  snd_una :: u32
  snd_nxt :: u32
  rcv_nxt :: u32
  ts_recent :: u32
  ts_lastack :: u32
  ssthresh :: u32
  rx_rttval :: int
  rx_srtt :: int
  rx_rto :: int
  rx_minrto :: int
  snd_wnd :: u32
  rcv_wnd :: u32
  rmt_wnd :: u32
  cwnd :: u32
  probe :: u32
  current :: u32
  interval :: u32
  ts_flush :: u32
  xmit :: u32
  nrcv_buf :: u32
  nsnd_buf :: u32
  nrcv_que :: u32
  nsnd_que :: u32
  nodelay :: u32
  updated :: u32
  ts_probe :: u32
  probe_wait :: u32
  dead_link :: u32
  incr :: u32
  snd_queue :: "IKCPSEG list"
  rcv_queue :: "IKCPSEG list"
  snd_buf :: "IKCPSEG list"
  rcv_buf :: "IKCPSEG list"
  acklist :: "u32 list option"
  ackcount :: u32
  ackblock :: u32
  buffer :: nat
  fastresend :: int
  fastlimit :: int
  nocwnd :: int
  stream :: int
  logmask :: int
  output_set :: bool
  writelog_set :: bool

subsection \<open>The allocator hook (lines 135 to 168)\<close>

datatype request = Req_kcp | Req_buffer nat | Req_seg nat | Req_acklist nat

record allocator =
  alloc_ok :: "request \<Rightarrow> bool"
  alloc_seg :: IKCPSEG
  alloc_byte :: "nat \<Rightarrow> byte"
  alloc_word :: "nat \<Rightarrow> u32"

definition ikcp_segment_new :: "allocator \<Rightarrow> nat \<Rightarrow> IKCPSEG option" where
  "ikcp_segment_new al n =
     (if alloc_ok al (Req_seg n)
      then Some ((alloc_seg al)\<lparr>seg_data := map (alloc_byte al) [0..<n]\<rparr>) else None)"

text \<open>An allocator that grants every request, and one to run examples with.\<close>

definition grants_all :: "allocator \<Rightarrow> bool" where
  "grants_all al \<longleftrightarrow> (\<forall>r. alloc_ok al r)"

definition blank_seg :: IKCPSEG where
  "blank_seg = \<lparr>seg_conv = 0, seg_cmd = 0, seg_frg = 0, seg_wnd = 0, seg_ts = 0, seg_sn = 0,
     seg_una = 0, seg_len = 0, seg_resendts = 0, seg_rto = 0, seg_fastack = 0, seg_xmit = 0,
     seg_data = []\<rparr>"

definition malloc_all :: allocator where
  "malloc_all = \<lparr>alloc_ok = (\<lambda>_. True), alloc_seg = blank_seg, alloc_byte = (\<lambda>_. 0),
     alloc_word = (\<lambda>_. 0)\<rparr>"

lemma grants_all_malloc_all [simp]: "grants_all malloc_all"
  by (simp add: grants_all_def malloc_all_def)

lemma alloc_ok_malloc_all [simp]: "alloc_ok malloc_all r"
  by (simp add: malloc_all_def)

lemma grants_allD [simp]: "grants_all al \<Longrightarrow> alloc_ok al r"
  by (simp add: grants_all_def)

subsection \<open>Creation and release (lines 218 to 331)\<close>

definition ikcp_create :: "allocator \<Rightarrow> u32 \<Rightarrow> IKCPCB option" where
  "ikcp_create al cv =
     (if \<not> alloc_ok al Req_kcp then None
      else
        let cap = unat ((IKCP_MTU_DEF + IKCP_OVERHEAD) * 3)
        in if \<not> alloc_ok al (Req_buffer cap) then None
        else Some \<lparr>conv = cv, mtu = IKCP_MTU_DEF, mss = IKCP_MTU_DEF - IKCP_OVERHEAD, state = 0,
          snd_una = 0, snd_nxt = 0, rcv_nxt = 0, ts_recent = 0, ts_lastack = 0,
          ssthresh = IKCP_THRESH_INIT,
          rx_rttval = 0, rx_srtt = 0, rx_rto = uint IKCP_RTO_DEF, rx_minrto = uint IKCP_RTO_MIN,
          snd_wnd = IKCP_WND_SND, rcv_wnd = IKCP_WND_RCV, rmt_wnd = IKCP_WND_RCV, cwnd = 0,
          probe = 0, current = 0, interval = IKCP_INTERVAL, ts_flush = IKCP_INTERVAL, xmit = 0,
          nrcv_buf = 0, nsnd_buf = 0, nrcv_que = 0, nsnd_que = 0,
          nodelay = 0, updated = 0, ts_probe = 0, probe_wait = 0,
          dead_link = IKCP_DEADLINK, incr = 0,
          snd_queue = [], rcv_queue = [], snd_buf = [], rcv_buf = [],
          acklist = None, ackcount = 0, ackblock = 0, buffer = cap,
          fastresend = 0, fastlimit = uint IKCP_FASTACK_LIMIT, nocwnd = 0, stream = 0,
          logmask = 0, output_set = False, writelog_set = False\<rparr>)"

datatype block = Blk_seg IKCPSEG | Blk_buffer | Blk_acklist | Blk_kcp

fun release_queue :: "IKCPSEG list \<Rightarrow> block list" where
  "release_queue [] = []"
| "release_queue (seg # q) = Blk_seg seg # release_queue q"

definition ikcp_release :: "IKCPCB \<Rightarrow> block list" where
  "ikcp_release kcp =
     release_queue (snd_buf kcp) @ release_queue (rcv_buf kcp) @
     release_queue (snd_queue kcp) @ release_queue (rcv_queue kcp) @
     [Blk_buffer] @ (if acklist kcp \<noteq> None then [Blk_acklist] else []) @ [Blk_kcp]"

definition ikcp_setoutput :: "IKCPCB \<Rightarrow> bool \<Rightarrow> IKCPCB" where
  "ikcp_setoutput kcp cb = kcp\<lparr>output_set := cb\<rparr>"

subsection \<open>Configuration (lines 1184 to 1246)\<close>

definition ikcp_setmtu :: "allocator \<Rightarrow> IKCPCB \<Rightarrow> int \<Rightarrow> int \<times> IKCPCB" where
  "ikcp_setmtu al kcp m =
     (if m < sint IKCP_OVERHEAD then (- 1, kcp)
      else
        let cap = unat ((word_of_int m + IKCP_OVERHEAD) * 3)
        in if \<not> alloc_ok al (Req_buffer cap) then (- 2, kcp)
        else (0, kcp\<lparr>mtu := word_of_int m, mss := word_of_int m - IKCP_OVERHEAD, buffer := cap\<rparr>))"

definition ikcp_interval :: "IKCPCB \<Rightarrow> int \<Rightarrow> int \<times> IKCPCB" where
  "ikcp_interval kcp i =
     (let i' = (if i > 5000 then 5000 else if i < 10 then 10 else i)
      in (0, kcp\<lparr>interval := word_of_int i'\<rparr>))"

definition ikcp_nodelay :: "IKCPCB \<Rightarrow> int \<Rightarrow> int \<Rightarrow> int \<Rightarrow> int \<Rightarrow> int \<times> IKCPCB" where
  "ikcp_nodelay kcp nd iv resend nc =
     (let kcp = (if nd \<ge> 0
            then kcp\<lparr>nodelay := word_of_int nd,
                     rx_minrto := (if nd \<noteq> 0 then uint IKCP_RTO_NDL else uint IKCP_RTO_MIN)\<rparr>
            else kcp);
          kcp = (if iv \<ge> 0
            then kcp\<lparr>interval := word_of_int (if iv > 5000 then 5000 else if iv < 2 then 2 else iv)\<rparr>
            else kcp);
          kcp = (if resend \<ge> 0 then kcp\<lparr>fastresend := resend\<rparr> else kcp);
          kcp = (if nc \<ge> 0 then kcp\<lparr>nocwnd := nc\<rparr> else kcp)
      in (0, kcp))"

definition ikcp_wndsize :: "IKCPCB \<Rightarrow> int \<Rightarrow> int \<Rightarrow> int \<times> IKCPCB" where
  "ikcp_wndsize kcp sndwnd rcvwnd =
     (let kcp = (if sndwnd > 0 then kcp\<lparr>snd_wnd := word_of_int sndwnd\<rparr> else kcp);
          kcp = (if rcvwnd > 0 then kcp\<lparr>rcv_wnd := imax (word_of_int rcvwnd) IKCP_WND_RCV\<rparr> else kcp)
      in (0, kcp))"

definition ikcp_waitsnd :: "IKCPCB \<Rightarrow> int" where
  "ikcp_waitsnd kcp = sint (nsnd_buf kcp + nsnd_que kcp)"

definition ikcp_wnd_unused :: "IKCPCB \<Rightarrow> int" where
  "ikcp_wnd_unused kcp =
     (if nrcv_que kcp < rcv_wnd kcp then sint (rcv_wnd kcp - nrcv_que kcp) else 0)"

subsection \<open>Output and segment encoding (lines 190 to 199, 879 to 889)\<close>

text \<open>
  The datagrams handed to the output callback, in order: none when there is nothing to
  send, \<open>None\<close> when \<open>assert(kcp->output)\<close> fails.
\<close>

definition ikcp_output :: "IKCPCB \<Rightarrow> byte list \<Rightarrow> byte list list option" where
  "ikcp_output kcp data =
     (if \<not> output_set kcp then None else if data = [] then Some [] else Some [data])"

definition ikcp_encode_seg :: "byte list \<Rightarrow> IKCPSEG \<Rightarrow> byte list" where
  "ikcp_encode_seg ptr seg =
     (let ptr = ikcp_encode32u ptr (seg_conv seg);
          ptr = ikcp_encode8u ptr (ucast (seg_cmd seg));
          ptr = ikcp_encode8u ptr (ucast (seg_frg seg));
          ptr = ikcp_encode16u ptr (ucast (seg_wnd seg));
          ptr = ikcp_encode32u ptr (seg_ts seg);
          ptr = ikcp_encode32u ptr (seg_sn seg);
          ptr = ikcp_encode32u ptr (seg_una seg);
          ptr = ikcp_encode32u ptr (seg_len seg)
      in ptr)"

definition seg_header :: "IKCPSEG \<Rightarrow> byte list" where
  "seg_header seg = ikcp_encode_seg [] seg"

lemma encode_seg_append [wire_simps]: "ikcp_encode_seg ptr seg = ptr @ seg_header seg"
  by (simp add: seg_header_def ikcp_encode_seg_def wire_simps)

lemma length_seg_header [simp]: "length (seg_header seg) = 24"
  by (simp add: seg_header_def ikcp_encode_seg_def wire_simps)

end
