(* ===== verification/Ikcp_Inv.thy ===== *)
theory Ikcp_Inv
  imports Ikcp_State
begin

section \<open>Well-formed control blocks\<close>

text \<open>
  What every operation of ikcp.c keeps of a control block, whatever the peer sends:
  \<^item> the four counters are the lengths of the queues (modulo \<open>2 ^ 32\<close>, as the code counts);
  \<^item> a queued segment's \<open>len\<close> is the length of its data;
  \<^item> \<open>snd_buf\<close> holds distinct sequence numbers in increasing order of their distance from
    \<open>snd_una\<close>, all below \<open>snd_nxt\<close>, and \<open>snd_una\<close> is the number of the first of them;
  \<^item> less than \<open>2 ^ 16\<close> numbers are in flight, because the window a peer advertises is a
    16-bit field;
  \<^item> \<open>rcv_buf\<close> holds distinct sequence numbers in increasing order of their distance from
    \<open>rcv_nxt\<close>, none of them behind it.
\<close>

definition seg_ok :: "IKCPSEG \<Rightarrow> bool" where
  "seg_ok s \<longleftrightarrow> unat (seg_len s) = length (seg_data s) \<and> length (seg_data s) < 2 ^ 31"

definition snd_ok :: "u32 \<Rightarrow> u32 \<Rightarrow> IKCPSEG list \<Rightarrow> bool" where
  "snd_ok una nxt q \<longleftrightarrow>
     una = (case q of [] \<Rightarrow> nxt | s # _ \<Rightarrow> seg_sn s) \<and>
     sorted_wrt (<) (map (\<lambda>s. off una (seg_sn s)) q) \<and>
     (\<forall>s \<in> set q. off una (seg_sn s) < off una nxt) \<and>
     off una nxt < 2 ^ 16"

definition rcv_ok :: "u32 \<Rightarrow> IKCPSEG list \<Rightarrow> bool" where
  "rcv_ok nxt q \<longleftrightarrow>
     sorted_wrt (<) (map (\<lambda>s. off nxt (seg_sn s)) q) \<and>
     (\<forall>s \<in> set q. off nxt (seg_sn s) < 2 ^ 31)"

definition wf_kcp :: "IKCPCB \<Rightarrow> bool" where
  "wf_kcp kcp \<longleftrightarrow>
     nsnd_que kcp = of_nat (length (snd_queue kcp)) \<and>
     nsnd_buf kcp = of_nat (length (snd_buf kcp)) \<and>
     nrcv_que kcp = of_nat (length (rcv_queue kcp)) \<and>
     nrcv_buf kcp = of_nat (length (rcv_buf kcp)) \<and>
     list_all seg_ok (snd_queue kcp) \<and> list_all seg_ok (snd_buf kcp) \<and>
     list_all seg_ok (rcv_queue kcp) \<and> list_all seg_ok (rcv_buf kcp) \<and>
     snd_ok (snd_una kcp) (snd_nxt kcp) (snd_buf kcp) \<and> unat (rmt_wnd kcp) < 2 ^ 16 \<and>
     rcv_ok (rcv_nxt kcp) (rcv_buf kcp) \<and>
     length (rcv_queue kcp) < 2 ^ 31 \<and> unat (rcv_wnd kcp) < 2 ^ 31"

subsection \<open>The set-up operations\<close>

lemma snd_ok_Nil [simp]: "snd_ok una nxt [] \<longleftrightarrow> una = nxt"
  by (auto simp: snd_ok_def)

lemma rcv_ok_Nil [simp]: "rcv_ok nxt []"
  by (simp add: rcv_ok_def)

lemma ikcp_create_wf [kcp_result]: "ikcp_create al cv = Some kcp \<Longrightarrow> wf_kcp kcp"
  by (auto simp: ikcp_create_def wf_kcp_def kcp_consts Let_def split: if_splits)

lemma ikcp_setoutput_wf [kcp_inv]: "wf_kcp kcp \<Longrightarrow> wf_kcp (ikcp_setoutput kcp cb)"
  by (simp add: ikcp_setoutput_def wf_kcp_def)

lemma ikcp_setmtu_wf [kcp_inv]: "wf_kcp kcp \<Longrightarrow> wf_kcp (snd (ikcp_setmtu al kcp m))"
  by (simp add: ikcp_setmtu_def wf_kcp_def Let_def)

lemma ikcp_interval_wf [kcp_inv]: "wf_kcp kcp \<Longrightarrow> wf_kcp (snd (ikcp_interval kcp i))"
  by (simp add: ikcp_interval_def wf_kcp_def Let_def)

lemma ikcp_nodelay_wf [kcp_inv]: "wf_kcp kcp \<Longrightarrow> wf_kcp (snd (ikcp_nodelay kcp a b c d))"
  by (simp add: ikcp_nodelay_def wf_kcp_def Let_def)

lemma unat_word_of_int_pos: "unat (word_of_int x :: u32) < 2 ^ 31" if "0 \<le> x" "x < 2 ^ 31"
proof -
  have "uint (word_of_int x :: u32) = x"
    using that by (simp add: unsigned_of_int take_bit_int_eq_self)
  with that show ?thesis
    by (simp only: unat_less_2p31_iff)
qed

lemma ikcp_wndsize_wf [kcp_inv]:
  assumes "wf_kcp kcp" and "r < 2 ^ 31"
  shows "wf_kcp (snd (ikcp_wndsize kcp s r))"
proof -
  have "unat (imax (word_of_int r) IKCP_WND_RCV) < 2 ^ 31" if "r > 0"
    using unat_word_of_int_pos [of r] that \<open>r < 2 ^ 31\<close> by (simp add: imax_def kcp_consts)
  with assms(1) show ?thesis
    by (simp add: ikcp_wndsize_def wf_kcp_def Let_def)
qed

subsection \<open>A block to run examples on\<close>

text \<open>
  Two segments in flight, one queued, a message of two fragments received, and segment 6
  waiting for numbers 4 and 5.
\<close>

definition demo_seg :: "u32 \<Rightarrow> u32 \<Rightarrow> byte list \<Rightarrow> IKCPSEG" where
  "demo_seg sn frg d = blank_seg\<lparr>seg_conv := 7, seg_cmd := IKCP_CMD_PUSH, seg_sn := sn,
     seg_frg := frg, seg_data := d, seg_len := of_nat (length d)\<rparr>"

definition demo_kcp :: IKCPCB where
  "demo_kcp = (the (ikcp_create malloc_all 7))\<lparr>
     output_set := True, updated := 1, snd_una := 5, snd_nxt := 7, rcv_nxt := 4, cwnd := 4,
     snd_queue := [demo_seg 0 0 [9]], nsnd_que := 1,
     snd_buf := [demo_seg 5 0 [1, 2], demo_seg 6 0 [3]], nsnd_buf := 2,
     rcv_queue := [demo_seg 2 1 [10, 11], demo_seg 3 0 [12]], nrcv_que := 2,
     rcv_buf := [demo_seg 6 0 [13]], nrcv_buf := 1\<rparr>"

lemmas demo_simps = demo_kcp_def demo_seg_def blank_seg_def ikcp_create_def malloc_all_def Let_def
  kcp_consts

lemma demo_fields [simp]:
  "conv demo_kcp = 7" "mss demo_kcp = 1376" "mtu demo_kcp = 1400" "buffer demo_kcp = 4272"
  "updated demo_kcp = 1" "output_set demo_kcp" "stream demo_kcp = 0" "interval demo_kcp = 100"
  "snd_una demo_kcp = 5" "snd_nxt demo_kcp = 7" "rcv_nxt demo_kcp = 4" "ts_flush demo_kcp = 100"
  "ackcount demo_kcp = 0" "acklist demo_kcp = None" "ackblock demo_kcp = 0"
  "snd_queue demo_kcp = [demo_seg 0 0 [9]]" "rcv_wnd demo_kcp = 128" "nrcv_que demo_kcp = 2"
  "snd_buf demo_kcp = [demo_seg 5 0 [1, 2], demo_seg 6 0 [3]]"
  "rcv_queue demo_kcp = [demo_seg 2 1 [10, 11], demo_seg 3 0 [12]]"
  "rcv_buf demo_kcp = [demo_seg 6 0 [13]]"
  by (simp_all add: demo_simps)

lemma demo_seg_fields [simp]:
  "seg_sn (demo_seg n f d) = n" "seg_frg (demo_seg n f d) = f" "seg_data (demo_seg n f d) = d"
  "seg_len (demo_seg n f d) = of_nat (length d)" "seg_conv (demo_seg n f d) = 7"
  "seg_resendts (demo_seg n f d) = 0"
  by (simp_all add: demo_seg_def blank_seg_def)

lemma demo_wf [simp]: "wf_kcp demo_kcp"
proof -
  have "nsnd_que demo_kcp = 1" "nsnd_buf demo_kcp = 2" "nrcv_buf demo_kcp = 1" "rmt_wnd demo_kcp = 128"
    by (simp_all add: demo_simps)
  then show ?thesis
    by (simp add: wf_kcp_def seg_ok_def snd_ok_def rcv_ok_def off_def)
qed

end
