(* ===== verification/Ikcp_Recv.thy ===== *)
theory Ikcp_Recv
  imports Ikcp_Inv
begin

section \<open>Receiving messages: ikcp_peeksize and ikcp_recv (ikcp.c, lines 336 to 443)\<close>

text \<open>
  \<open>ikcp_recv\<close> merges the fragments of the first message of \<open>rcv_queue\<close> into the caller's
  buffer, deletes them unless it only peeks, refills \<open>rcv_queue\<close> from \<open>rcv_buf\<close> and asks for
  a window announcement when the queue had been full. The fragments of the first message
  are \<open>first_msg\<close>, the specification both functions are proved against.
\<close>

unbundle bit_operations_syntax

subsection \<open>The operations\<close>

fun peek_len :: "u32 \<Rightarrow> IKCPSEG list \<Rightarrow> u32" where
  "peek_len len [] = len"
| "peek_len len (seg # p) =
     (let len = len + seg_len seg
      in if seg_frg seg = 0 then len else peek_len len p)"

definition ikcp_peeksize :: "IKCPCB \<Rightarrow> int" where
  "ikcp_peeksize kcp =
     (case rcv_queue kcp of
        [] \<Rightarrow> - 1
      | seg # _ \<Rightarrow>
          if seg_frg seg = 0 then sint (seg_len seg)
          else if nrcv_que kcp < seg_frg seg + 1 then - 1
          else sint (peek_len 0 (rcv_queue kcp)))"

text \<open>The merge loop: the queue position, the block, \<open>len\<close> and the bytes copied so far.\<close>

fun recv_merge :: "bool \<Rightarrow> IKCPSEG list \<Rightarrow> IKCPCB \<Rightarrow> u32 \<Rightarrow> byte list \<Rightarrow> IKCPCB \<times> u32 \<times> byte list"
where
  "recv_merge ispeek [] kcp len out = (kcp, len, out)"
| "recv_merge ispeek (seg # p) kcp len out =
     (let out = out @ take (unat (seg_len seg)) (seg_data seg);
          len = len + seg_len seg;
          kcp = (if ispeek then kcp
                 else kcp\<lparr>rcv_queue := p, nrcv_que := nrcv_que kcp - 1\<rparr>)
      in if seg_frg seg = 0 then (kcp, len, out) else recv_merge ispeek p kcp len out)"

fun move_ready :: "IKCPSEG list \<Rightarrow> IKCPCB \<Rightarrow> IKCPCB" where
  "move_ready [] kcp = kcp"
| "move_ready (seg # rest) kcp =
     (if seg_sn seg = rcv_nxt kcp \<and> nrcv_que kcp < rcv_wnd kcp
      then move_ready rest
             (kcp\<lparr>rcv_buf := rest, nrcv_buf := nrcv_buf kcp - 1,
                  rcv_queue := rcv_queue kcp @ [seg], nrcv_que := nrcv_que kcp + 1,
                  rcv_nxt := rcv_nxt kcp + 1\<rparr>)
      else kcp)"

text \<open>
  The result is the returned integer, the bytes written to the buffer and the block;
  \<open>has_buffer\<close> says that the caller's pointer is not \<open>NULL\<close>.
\<close>

definition ikcp_recv :: "IKCPCB \<Rightarrow> bool \<Rightarrow> int \<Rightarrow> (int \<times> byte list \<times> IKCPCB) option" where
  "ikcp_recv kcp has_buffer len =
     (let ispeek = len < 0
      in if rcv_queue kcp = [] then Some (- 1, [], kcp)
      else
        let len = (if len < 0 then i32 (- len) else len);
            peeksize = ikcp_peeksize kcp
        in if peeksize < 0 then Some (- 2, [], kcp)
        else if peeksize > len then Some (- 3, [], kcp)
        else
          let recover = nrcv_que kcp \<ge> rcv_wnd kcp;
              (kcp, n, out) = recv_merge ispeek (rcv_queue kcp) kcp 0 []
          in if sint n \<noteq> peeksize then None
          else
            let kcp = move_ready (rcv_buf kcp) kcp;
                kcp = (if nrcv_que kcp < rcv_wnd kcp \<and> recover
                       then kcp\<lparr>probe := probe kcp OR IKCP_ASK_TELL\<rparr> else kcp)
            in Some (sint n, if has_buffer then out else [], kcp))"

subsection \<open>The first message of the queue\<close>

fun first_msg :: "IKCPSEG list \<Rightarrow> IKCPSEG list" where
  "first_msg [] = []"
| "first_msg (seg # p) = (if seg_frg seg = 0 then [seg] else seg # first_msg p)"

definition msg_bytes :: "IKCPSEG list \<Rightarrow> byte list" where
  "msg_bytes q = concat (map seg_data q)"

lemma first_msg_split: "q = first_msg q @ drop (length (first_msg q)) q"
  by (induction q) auto

lemma length_first_msg_le: "length (first_msg q) \<le> length q"
  by (induction q) auto

lemma first_msg_nonempty: "q \<noteq> [] \<Longrightarrow> first_msg q \<noteq> []"
  by (cases q) auto

lemma set_first_msg: "set (first_msg q) \<subseteq> set q"
  by (induction q) auto

lemma peek_len_first_msg:
  "peek_len len q = len + sum_list (map seg_len (first_msg q))"
  by (induction q arbitrary: len) (simp_all add: Let_def add.assoc)

lemma recv_merge_peek:
  "recv_merge True q kcp len out =
     (kcp, len + sum_list (map seg_len (first_msg q)),
      out @ concat (map (\<lambda>s. take (unat (seg_len s)) (seg_data s)) (first_msg q)))"
  by (induction q arbitrary: len out) (simp_all add: Let_def add.assoc)

lemma recv_merge_take:
  "recv_merge False q kcp len out =
     (let k = length (first_msg q)
      in (if q = [] then kcp
          else kcp\<lparr>rcv_queue := drop k q, nrcv_que := nrcv_que kcp - of_nat k\<rparr>,
          len + sum_list (map seg_len (first_msg q)),
          out @ concat (map (\<lambda>s. take (unat (seg_len s)) (seg_data s)) (first_msg q))))"
proof (induction q arbitrary: kcp len out)
  case Nil
  then show ?case by simp
next
  case (Cons seg p)
  show ?case
  proof (cases "seg_frg seg = 0")
    case True
    then show ?thesis by (simp add: Let_def)
  next
    case False
    with Cons.IH show ?thesis
      by (cases "p = []") (simp_all add: Let_def add.assoc diff_diff_eq)
  qed
qed

lemma seg_ok_take: "seg_ok s \<Longrightarrow> take (unat (seg_len s)) (seg_data s) = seg_data s"
  by (simp add: seg_ok_def)

lemma seg_ok_len: "seg_ok s \<Longrightarrow> seg_len s = of_nat (length (seg_data s))"
proof -
  assume "seg_ok s"
  then have "(of_nat (length (seg_data s)) :: u32) = of_nat (unat (seg_len s))"
    by (simp add: seg_ok_def)
  then show ?thesis by simp
qed

lemma first_msg_lens:
  "list_all seg_ok q \<Longrightarrow>
   sum_list (map seg_len (first_msg q)) = of_nat (length (msg_bytes (first_msg q)))"
  by (induction q) (simp_all add: msg_bytes_def seg_ok_len)

lemma first_msg_bytes:
  "list_all seg_ok q \<Longrightarrow>
   concat (map (\<lambda>s. take (unat (seg_len s)) (seg_data s)) (first_msg q)) = msg_bytes (first_msg q)"
  by (induction q) (simp_all add: msg_bytes_def seg_ok_take)

subsection \<open>Refilling the queue\<close>

text \<open>How many segments at the head of \<open>rcv_buf\<close> are next in sequence and find room.\<close>

fun ready_len :: "IKCPSEG list \<Rightarrow> u32 \<Rightarrow> u32 \<Rightarrow> u32 \<Rightarrow> nat" where
  "ready_len [] nxt que wnd = 0"
| "ready_len (seg # q) nxt que wnd =
     (if seg_sn seg = nxt \<and> que < wnd then Suc (ready_len q (nxt + 1) (que + 1) wnd) else 0)"

lemma ready_len_le: "ready_len q nxt que wnd \<le> length q"
  by (induction q arbitrary: nxt que) auto

lemma ready_len_sn:
  "i < ready_len q nxt que wnd \<Longrightarrow> seg_sn (q ! i) = nxt + of_nat i"
proof (induction q arbitrary: nxt que i)
  case (Cons seg q)
  then show ?case by (cases i) (auto split: if_splits)
qed simp

lemma move_ready_eq:
  "rcv_buf kcp = q \<Longrightarrow>
   move_ready q kcp =
     (let k = ready_len q (rcv_nxt kcp) (nrcv_que kcp) (rcv_wnd kcp)
      in kcp\<lparr>rcv_buf := drop k q, nrcv_buf := nrcv_buf kcp - of_nat k,
             rcv_queue := rcv_queue kcp @ take k q, nrcv_que := nrcv_que kcp + of_nat k,
             rcv_nxt := rcv_nxt kcp + of_nat k\<rparr>)"
  by (induction q arbitrary: kcp) (simp_all add: Let_def algebra_simps)

lemma move_ready_frame [kcp_frame, simp]:
  "conv (move_ready (rcv_buf kcp) kcp) = conv kcp"
  "mtu (move_ready (rcv_buf kcp) kcp) = mtu kcp" "mss (move_ready (rcv_buf kcp) kcp) = mss kcp"
  "state (move_ready (rcv_buf kcp) kcp) = state kcp"
  "snd_una (move_ready (rcv_buf kcp) kcp) = snd_una kcp"
  "snd_nxt (move_ready (rcv_buf kcp) kcp) = snd_nxt kcp"
  "ssthresh (move_ready (rcv_buf kcp) kcp) = ssthresh kcp"
  "rx_rttval (move_ready (rcv_buf kcp) kcp) = rx_rttval kcp"
  "rx_srtt (move_ready (rcv_buf kcp) kcp) = rx_srtt kcp"
  "rx_rto (move_ready (rcv_buf kcp) kcp) = rx_rto kcp"
  "rx_minrto (move_ready (rcv_buf kcp) kcp) = rx_minrto kcp"
  "snd_wnd (move_ready (rcv_buf kcp) kcp) = snd_wnd kcp"
  "rcv_wnd (move_ready (rcv_buf kcp) kcp) = rcv_wnd kcp"
  "rmt_wnd (move_ready (rcv_buf kcp) kcp) = rmt_wnd kcp"
  "cwnd (move_ready (rcv_buf kcp) kcp) = cwnd kcp"
  "probe (move_ready (rcv_buf kcp) kcp) = probe kcp"
  "current (move_ready (rcv_buf kcp) kcp) = current kcp"
  "interval (move_ready (rcv_buf kcp) kcp) = interval kcp"
  "ts_flush (move_ready (rcv_buf kcp) kcp) = ts_flush kcp"
  "xmit (move_ready (rcv_buf kcp) kcp) = xmit kcp"
  "nsnd_buf (move_ready (rcv_buf kcp) kcp) = nsnd_buf kcp"
  "nsnd_que (move_ready (rcv_buf kcp) kcp) = nsnd_que kcp"
  "nodelay (move_ready (rcv_buf kcp) kcp) = nodelay kcp"
  "updated (move_ready (rcv_buf kcp) kcp) = updated kcp"
  "ts_probe (move_ready (rcv_buf kcp) kcp) = ts_probe kcp"
  "probe_wait (move_ready (rcv_buf kcp) kcp) = probe_wait kcp"
  "dead_link (move_ready (rcv_buf kcp) kcp) = dead_link kcp"
  "incr (move_ready (rcv_buf kcp) kcp) = incr kcp"
  "snd_queue (move_ready (rcv_buf kcp) kcp) = snd_queue kcp"
  "snd_buf (move_ready (rcv_buf kcp) kcp) = snd_buf kcp"
  "acklist (move_ready (rcv_buf kcp) kcp) = acklist kcp"
  "ackcount (move_ready (rcv_buf kcp) kcp) = ackcount kcp"
  "ackblock (move_ready (rcv_buf kcp) kcp) = ackblock kcp"
  "buffer (move_ready (rcv_buf kcp) kcp) = buffer kcp"
  "fastresend (move_ready (rcv_buf kcp) kcp) = fastresend kcp"
  "fastlimit (move_ready (rcv_buf kcp) kcp) = fastlimit kcp"
  "nocwnd (move_ready (rcv_buf kcp) kcp) = nocwnd kcp"
  "stream (move_ready (rcv_buf kcp) kcp) = stream kcp"
  "output_set (move_ready (rcv_buf kcp) kcp) = output_set kcp"
  by (simp_all add: move_ready_eq Let_def)

lemma rcv_ok_Cons_tl:
  assumes ok: "rcv_ok nxt (s # q)" and sn: "seg_sn s = nxt"
  shows "rcv_ok (nxt + 1) q"
proof -
  have one: "off nxt (nxt + 1) = 1"
    using off_add [of 1 nxt] by simp
  have pos: "1 \<le> off nxt (seg_sn t)" if "t \<in> set q" for t
    using ok sn that by (auto simp: rcv_ok_def Suc_le_eq)
  have shift: "off (nxt + 1) (seg_sn t) = off nxt (seg_sn t) - 1" if "t \<in> set q" for t
    using off_shift [of nxt "nxt + 1" "seg_sn t"] pos [OF that] one by simp
  have "sorted_wrt (<) (map (\<lambda>t. off nxt (seg_sn t)) q)"
    using ok by (simp add: rcv_ok_def)
  then have "sorted_wrt (<) (map (\<lambda>t. off (nxt + 1) (seg_sn t)) q)"
    unfolding sorted_wrt_map
    by (rule sorted_wrt_mono_rel [rotated])
      (use pos shift in \<open>auto intro!: diff_less_mono simp: Suc_le_eq\<close>)
  moreover have "off (nxt + 1) (seg_sn t) < 2 ^ 31" if "t \<in> set q" for t
    using ok shift [OF that] that by (auto simp: rcv_ok_def less_imp_diff_less)
  ultimately show ?thesis
    by (simp add: rcv_ok_def)
qed

lemma move_ready_wf [kcp_inv]:
  "rcv_buf kcp = q \<Longrightarrow> wf_kcp kcp \<Longrightarrow> wf_kcp (move_ready q kcp)"
proof (induction q arbitrary: kcp)
  case Nil
  then show ?case by simp
next
  case (Cons seg q)
  show ?case
  proof (cases "seg_sn seg = rcv_nxt kcp \<and> nrcv_que kcp < rcv_wnd kcp")
    case False
    with Cons.prems show ?thesis by auto
  next
    case True
    have wf: "wf_kcp kcp" and buf: "rcv_buf kcp = seg # q"
      using Cons.prems by simp_all
    have "unat (nrcv_que kcp) < unat (rcv_wnd kcp)" "unat (rcv_wnd kcp) < 2 ^ 31"
      using True wf by (simp_all add: word_less_nat_alt wf_kcp_def)
    moreover have "unat (nrcv_que kcp) = length (rcv_queue kcp)"
      using wf by (simp add: wf_kcp_def unat_of_nat_u32)
    ultimately have "Suc (length (rcv_queue kcp)) < 2 ^ 31"
      by simp
    moreover have "rcv_ok (rcv_nxt kcp + 1) q"
      using wf True by (intro rcv_ok_Cons_tl [of _ seg]) (simp_all add: wf_kcp_def buf)
    ultimately have "wf_kcp (kcp\<lparr>rcv_buf := q, nrcv_buf := nrcv_buf kcp - 1,
        rcv_queue := rcv_queue kcp @ [seg], nrcv_que := nrcv_que kcp + 1,
        rcv_nxt := rcv_nxt kcp + 1\<rparr>)"
      using wf by (simp add: wf_kcp_def buf)
    with True show ?thesis
      by (simp add: Cons.IH)
  qed
qed

subsection \<open>What ikcp_recv does\<close>

text \<open>A whole first message is queued: one fragment, or as many as its first one announces.\<close>

definition msg_complete :: "IKCPCB \<Rightarrow> bool" where
  "msg_complete kcp \<longleftrightarrow>
     (case rcv_queue kcp of [] \<Rightarrow> False
      | seg # _ \<Rightarrow> seg_frg seg = 0 \<or> seg_frg seg + 1 \<le> nrcv_que kcp)"

definition recv_msg :: "IKCPCB \<Rightarrow> byte list" where
  "recv_msg kcp = msg_bytes (first_msg (rcv_queue kcp))"

text \<open>The block after the fragments of the first message are deleted and the queue refilled.\<close>

definition recv_pop :: "IKCPCB \<Rightarrow> IKCPCB" where
  "recv_pop kcp =
     (let n = length (first_msg (rcv_queue kcp))
      in kcp\<lparr>rcv_queue := drop n (rcv_queue kcp), nrcv_que := nrcv_que kcp - of_nat n\<rparr>)"

definition recv_refill :: "bool \<Rightarrow> IKCPCB \<Rightarrow> IKCPCB" where
  "recv_refill recover kcp =
     (let kcp = move_ready (rcv_buf kcp) kcp
      in if nrcv_que kcp < rcv_wnd kcp \<and> recover
         then kcp\<lparr>probe := probe kcp OR IKCP_ASK_TELL\<rparr> else kcp)"

lemma peeksize_cases:
  assumes wf: "wf_kcp kcp" and small: "length (recv_msg kcp) < 2 ^ 31"
  shows "ikcp_peeksize kcp = (if msg_complete kcp then int (length (recv_msg kcp)) else - 1)"
proof (cases "rcv_queue kcp")
  case Nil
  then show ?thesis by (simp add: ikcp_peeksize_def msg_complete_def)
next
  case (Cons seg q)
  have ok: "list_all seg_ok (rcv_queue kcp)"
    using wf by (simp add: wf_kcp_def)
  have len: "peek_len 0 (rcv_queue kcp) = of_nat (length (recv_msg kcp))"
    using ok by (simp add: peek_len_first_msg first_msg_lens recv_msg_def)
  show ?thesis
  proof (cases "seg_frg seg = 0")
    case True
    then have "seg_len seg = of_nat (length (recv_msg kcp))"
      using ok by (simp add: Cons recv_msg_def msg_bytes_def seg_ok_len)
    with True show ?thesis
      by (simp add: ikcp_peeksize_def msg_complete_def Cons sint_of_nat_u32 [OF small])
  next
    case False
    with len show ?thesis
      by (auto simp: ikcp_peeksize_def msg_complete_def Cons sint_of_nat_u32 [OF small])
  qed
qed

lemma recv_merge_block:
  "rcv_queue kcp \<noteq> [] \<Longrightarrow>
   recv_merge ispeek (rcv_queue kcp) kcp 0 [] =
     (if ispeek then kcp else recv_pop kcp, peek_len 0 (rcv_queue kcp),
      concat (map (\<lambda>s. take (unat (seg_len s)) (seg_data s)) (first_msg (rcv_queue kcp))))"
  by (cases ispeek)
    (simp_all add: recv_merge_peek recv_merge_take recv_pop_def peek_len_first_msg Let_def)

text \<open>The assertion \<open>len == peeksize\<close> never fails, in any block.\<close>

lemma peeksize_peek_len:
  "0 \<le> ikcp_peeksize kcp \<Longrightarrow> sint (peek_len 0 (rcv_queue kcp)) = ikcp_peeksize kcp"
  by (auto simp: ikcp_peeksize_def Let_def split: list.splits if_splits)

text \<open>The whole function in closed form, every branch included.\<close>

lemma ikcp_recv_eq:
  "ikcp_recv kcp has_buffer len =
     (if rcv_queue kcp = [] then Some (- 1, [], kcp)
      else if ikcp_peeksize kcp < 0 then Some (- 2, [], kcp)
      else if ikcp_peeksize kcp > (if len < 0 then i32 (- len) else len) then Some (- 3, [], kcp)
      else Some (ikcp_peeksize kcp,
             if has_buffer
             then concat (map (\<lambda>s. take (unat (seg_len s)) (seg_data s)) (first_msg (rcv_queue kcp)))
             else [],
             recv_refill (nrcv_que kcp \<ge> rcv_wnd kcp) (if len < 0 then kcp else recv_pop kcp)))"
  by (simp add: ikcp_recv_def Let_def recv_merge_block peeksize_peek_len recv_refill_def
      split del: if_split cong: if_cong)

lemma recv_pop_wf [kcp_inv]:
  assumes "wf_kcp kcp"
  shows "wf_kcp (recv_pop kcp)"
proof -
  let ?n = "length (first_msg (rcv_queue kcp))"
  have "?n \<le> length (rcv_queue kcp)"
    by (rule length_first_msg_le)
  then have "(of_nat (length (rcv_queue kcp)) - of_nat ?n :: u32) = of_nat (length (rcv_queue kcp) - ?n)"
    by (simp add: of_nat_diff)
  with assms show ?thesis
    by (auto simp: wf_kcp_def recv_pop_def Let_def list_all_iff dest: in_set_dropD)
qed

lemma recv_refill_wf [kcp_inv]: "wf_kcp kcp \<Longrightarrow> wf_kcp (recv_refill recover kcp)"
  using move_ready_wf [OF refl] by (simp add: recv_refill_def Let_def wf_kcp_def)

lemma ikcp_recv_wf [kcp_result]:
  "wf_kcp kcp \<Longrightarrow> ikcp_recv kcp b len = Some (r, out, kcp') \<Longrightarrow> wf_kcp kcp'"
  by (auto simp: ikcp_recv_eq split: if_splits intro: recv_refill_wf recv_pop_wf)

subsection \<open>Properties\<close>

text \<open>
  C9: On a well-formed block \<open>ikcp_recv\<close> returns exactly one whole message: -1 when the
  queue is empty, -2 when the first message is not complete yet, -3 when the buffer is too
  small, and otherwise the bytes of the first message, which it removes before it refills
  the queue; no error branch changes the block.
\<close>

theorem ikcp_recv_message:
  assumes "wf_kcp kcp" and "length (recv_msg kcp) < 2 ^ 31" and "0 \<le> len"
  shows "ikcp_recv kcp True len =
     (if rcv_queue kcp = [] then Some (- 1, [], kcp)
      else if \<not> msg_complete kcp then Some (- 2, [], kcp)
      else if len < int (length (recv_msg kcp)) then Some (- 3, [], kcp)
      else Some (int (length (recv_msg kcp)), recv_msg kcp,
                 recv_refill (rcv_wnd kcp \<le> nrcv_que kcp) (recv_pop kcp)))"
  using assms first_msg_bytes [of "rcv_queue kcp"]
  by (simp add: ikcp_recv_eq peeksize_cases recv_msg_def wf_kcp_def split del: if_split cong: if_cong)
    simp

theorem ikcp_recv_message_witness:
  "\<exists>kcp'. ikcp_recv demo_kcp True 10 = Some (3, [10, 11, 12], kcp')"
  using ikcp_recv_message [of demo_kcp 10]
  by (simp add: recv_msg_def msg_bytes_def msg_complete_def)

text \<open>
  The assertion \<open>len == peeksize\<close> of \<open>ikcp_recv\<close> never fails, whatever the block and the
  arguments, so the function always returns.
\<close>

theorem ikcp_recv_never_aborts: "ikcp_recv kcp has_buffer len \<noteq> None"
  by (simp add: ikcp_recv_eq)

end
