(* ===== verification/Ikcp_Send.thy ===== *)
theory Ikcp_Send
  imports Ikcp_Recv
begin

section \<open>Sending messages: ikcp_send (ikcp.c, lines 448 to 520)\<close>

text \<open>
  \<open>ikcp_send\<close> splits a message into fragments of at most \<open>mss\<close> bytes, numbers them down
  to 0 and queues them; in stream mode it first tops up the last queued segment and numbers
  every fragment 0. \<open>frags\<close> is the specification of the split.
\<close>

subsection \<open>The operation\<close>

text \<open>
  The caller's buffer is \<open>None\<close> for \<open>NULL\<close>; then the data of a segment is what the
  allocator left in it. \<open>send_frags\<close> is the loop of lines 498 to 517 with \<open>n = count - i\<close>
  rounds to go.
\<close>

fun send_frags :: "allocator \<Rightarrow> nat \<Rightarrow> IKCPCB \<Rightarrow> byte list option \<Rightarrow> int \<Rightarrow> IKCPCB option" where
  "send_frags al 0 kcp buf len = Some kcp"
| "send_frags al (Suc n) kcp buf len =
     (let sz = (if len > sint (mss kcp) then sint (mss kcp) else len)
      in case ikcp_segment_new al (nat sz) of
           None \<Rightarrow> None
         | Some seg \<Rightarrow>
             let seg = (case buf of
                    Some b \<Rightarrow> if len > 0 then seg\<lparr>seg_data := take (nat sz) b\<rparr> else seg
                  | None \<Rightarrow> seg);
                 seg = seg\<lparr>seg_len := word_of_int sz,
                           seg_frg := (if stream kcp = 0 then of_nat n else 0)\<rparr>
             in send_frags al n
                  (kcp\<lparr>snd_queue := snd_queue kcp @ [seg], nsnd_que := nsnd_que kcp + 1\<rparr>)
                  (map_option (drop (nat sz)) buf) (len - sz))"

text \<open>Lines 456 to 480: fill up the last queued segment; the bytes taken from the message.\<close>

definition send_extend ::
  "allocator \<Rightarrow> IKCPCB \<Rightarrow> byte list option \<Rightarrow> int \<Rightarrow> (int \<times> IKCPCB) option" where
  "send_extend al kcp buf len =
     (if snd_queue kcp = [] then Some (0, kcp)
      else
        let old = last (snd_queue kcp)
        in if \<not> seg_len old < mss kcp then Some (0, kcp)
        else
          let capacity = sint (mss kcp - seg_len old);
              extend = (if len < capacity then len else capacity);
              total = seg_len old + word_of_int extend
          in case ikcp_segment_new al (nat (sint total)) of
               None \<Rightarrow> None
             | Some seg \<Rightarrow>
                 let keep = take (unat (seg_len old)) (seg_data old);
                     added = (case buf of Some b \<Rightarrow> take (nat extend) b
                              | None \<Rightarrow> drop (length keep) (seg_data seg));
                     seg = seg\<lparr>seg_data := keep @ added, seg_len := total, seg_frg := 0\<rparr>
                 in Some (extend, kcp\<lparr>snd_queue := butlast (snd_queue kcp) @ [seg]\<rparr>))"

definition frag_count :: "IKCPCB \<Rightarrow> int \<Rightarrow> int" where
  "frag_count kcp len =
     (if len \<le> sint (mss kcp) then 1
      else sint ((word_of_int len + mss kcp - 1) div mss kcp))"

text \<open>Lines 481 to 519: the rest of the message, fragmented.\<close>

definition send_rest :: "allocator \<Rightarrow> IKCPCB \<Rightarrow> byte list option \<Rightarrow> int \<Rightarrow> (int \<times> IKCPCB) option"
where
  "send_rest al kcp buf len =
     (if stream kcp \<noteq> 0 \<and> len \<le> 0 then Some (0, kcp)
      else
        let count = frag_count kcp len
        in if count \<ge> sint IKCP_WND_RCV then Some (- 2, kcp)
        else
          let count = (if count = 0 then 1 else count)
          in map_option (\<lambda>kcp. (0, kcp)) (send_frags al (nat count) kcp buf len))"

definition ikcp_send :: "allocator \<Rightarrow> IKCPCB \<Rightarrow> byte list option \<Rightarrow> int \<Rightarrow> (int \<times> IKCPCB) option"
where
  "ikcp_send al kcp buf len =
     (if mss kcp = 0 then None
      else if len < 0 then Some (- 1, kcp)
      else
        case (if stream kcp \<noteq> 0 then send_extend al kcp buf len else Some (0, kcp)) of
          None \<Rightarrow> None
        | Some (taken, kcp) \<Rightarrow>
            send_rest al kcp (map_option (drop (nat taken)) buf) (len - taken))"

declare send_frags.simps(2) [simp del]

subsection \<open>The specification of the split\<close>

function chunks :: "nat \<Rightarrow> 'a list \<Rightarrow> 'a list list" where
  "chunks m xs = (if m = 0 \<or> length xs \<le> m then [xs] else take m xs # chunks m (drop m xs))"
  by pat_completeness auto
termination
  by (relation "measure (\<lambda>(m, xs). length xs)") auto

declare chunks.simps [simp del]

lemma chunks_small: "length xs \<le> m \<Longrightarrow> chunks m xs = [xs]"
  by (subst chunks.simps) simp

lemma chunks_large: "0 < m \<Longrightarrow> m < length xs \<Longrightarrow> chunks m xs = take m xs # chunks m (drop m xs)"
  by (subst chunks.simps) simp

lemma concat_chunks [simp]: "concat (chunks m xs) = xs"
proof (induction m xs rule: chunks.induct)
  case (1 m xs)
  then show ?case by (subst chunks.simps) auto
qed

lemma chunks_bound: "0 < m \<Longrightarrow> c \<in> set (chunks m xs) \<Longrightarrow> length c \<le> m"
proof (induction m xs rule: chunks.induct)
  case (1 m xs)
  then show ?case by (subst (asm) (2) chunks.simps) (auto split: if_splits)
qed

lemma length_chunks:
  assumes "0 < m"
  shows "length (chunks m xs) = (if xs = [] then 1 else (length xs + m - 1) div m)"
  using assms
proof (induction m xs rule: chunks.induct)
  case (1 m xs)
  show ?case
  proof (cases "length xs \<le> m")
    case True
    then have "(length xs + m - 1) div m = 1" if "xs \<noteq> []"
      using that "1.prems" by (cases xs) (auto intro!: div_nat_eqI)
    with True show ?thesis by (subst chunks.simps) simp
  next
    case False
    then have "length (chunks m (drop m xs)) = (length xs - m + m - 1) div m"
      using "1.IH" "1.prems" by simp
    moreover have "length xs + m - 1 = (length xs - m + m - 1) + m"
      using False by simp
    moreover from this have "(length xs + m - 1) div m = Suc ((length xs - m + m - 1) div m)"
      using "1.prems" by (simp only: div_add_self2)
    ultimately show ?thesis
      using False "1.prems" by (subst chunks.simps) auto
  qed
qed

lemma length_chunks_le: "xs \<noteq> [] \<Longrightarrow> 0 < m \<Longrightarrow> length (chunks m xs) \<le> length xs"
proof (induction m xs rule: chunks.induct)
  case (1 m xs)
  then show ?case
    by (cases "length xs \<le> m") (auto simp: chunks_small chunks_large Suc_le_eq)
qed

text \<open>The fragments of a message with their numbers, counting down to 0.\<close>

definition frags :: "nat \<Rightarrow> byte list \<Rightarrow> (byte list \<times> nat) list" where
  "frags m xs = (let cs = chunks m xs in zip cs (rev [0..<length cs]))"

definition frag_of :: "IKCPSEG \<Rightarrow> byte list \<times> nat" where
  "frag_of s = (seg_data s, unat (seg_frg s))"

definition frag_seg :: "allocator \<Rightarrow> byte list \<times> nat \<Rightarrow> IKCPSEG" where
  "frag_seg al f =
     (alloc_seg al)\<lparr>seg_data := fst f, seg_len := of_nat (length (fst f)), seg_frg := of_nat (snd f)\<rparr>"

definition send_queue :: "IKCPCB \<Rightarrow> IKCPSEG list \<Rightarrow> IKCPCB" where
  "send_queue kcp segs =
     kcp\<lparr>snd_queue := snd_queue kcp @ segs, nsnd_que := nsnd_que kcp + of_nat (length segs)\<rparr>"

lemma length_frags [simp]: "length (frags m xs) = length (chunks m xs)"
  by (simp add: frags_def Let_def)

lemma map_fst_frags [simp]: "map fst (frags m xs) = chunks m xs"
  by (simp add: frags_def Let_def)

lemma chunks_not_Nil [simp]: "chunks m xs \<noteq> []"
  by (subst chunks.simps) simp

lemma frags_small: "length xs \<le> m \<Longrightarrow> frags m xs = [(xs, 0)]"
  by (simp add: frags_def chunks_small Let_def)

lemma frags_large:
  "0 < m \<Longrightarrow> m < length xs \<Longrightarrow>
   frags m xs = (take m xs, length (chunks m (drop m xs))) # frags m (drop m xs)"
  by (simp add: frags_def chunks_large Let_def)

lemma sint_mss:
  "unat (mss kcp) < 2 ^ 31 \<Longrightarrow> sint (mss kcp) = int (unat (mss kcp))"
  by (rule sint_small)

lemma new_seg_Some: "grants_all al \<Longrightarrow>
  ikcp_segment_new al n = Some ((alloc_seg al)\<lparr>seg_data := map (alloc_byte al) [0..<n]\<rparr>)"
  by (simp add: ikcp_segment_new_def)

lemma send_frags_eq:
  assumes "grants_all al" and "0 < m"
    and "unat (mss kcp) = m" and "m < 2 ^ 31" and "stream kcp = 0"
  shows "send_frags al (length (chunks m b)) kcp (Some b) (int (length b)) =
     Some (send_queue kcp (map (frag_seg al) (frags m b)))"
  using assms
proof (induction m b arbitrary: kcp rule: chunks.induct)
  case (1 m b)
  have mss: "sint (mss kcp) = int m"
    using sint_mss [of kcp] "1.prems" by simp
  show ?case
  proof (cases "length b \<le> m")
    case True
    with "1.prems" mss show ?thesis
      by (cases "b = []")
        (simp_all add: send_frags.simps(2) chunks_small frags_small new_seg_Some frag_seg_def send_queue_def)
  next
    case False
    then have nonempty: "b \<noteq> []"
      by auto
    let ?seg = "frag_seg al (take m b, length (chunks m (drop m b)))"
    let ?kcp = "kcp\<lparr>snd_queue := snd_queue kcp @ [?seg], nsnd_que := nsnd_que kcp + 1\<rparr>"
    have "send_frags al (length (chunks m b)) kcp (Some b) (int (length b)) =
        send_frags al (length (chunks m (drop m b))) ?kcp (Some (drop m b)) (int (length b) - int m)"
      using False "1.prems" mss nonempty
      by (simp add: send_frags.simps(2) chunks_large [of m b] new_seg_Some frag_seg_def Let_def)
    also have "int (length b) - int m = int (length (drop m b))"
      using False by simp
    also have "send_frags al (length (chunks m (drop m b))) ?kcp (Some (drop m b)) \<dots> =
        Some (send_queue ?kcp (map (frag_seg al) (frags m (drop m b))))"
      using "1.prems" False by (intro "1.IH") simp_all
    finally show ?thesis
      using False "1.prems" by (simp add: frags_large send_queue_def add.assoc)
  qed
qed

lemma frag_count_eq:
  assumes m: "0 < m" "m < 2 ^ 31" "unat (mss kcp) = m" and len: "length b < 2 ^ 31"
  shows "frag_count kcp (int (length b)) = int (length (chunks m b))"
proof (cases "length b \<le> m")
  case True
  then show ?thesis
    using m sint_mss [of kcp] by (simp add: frag_count_def chunks_small)
next
  case False
  let ?w = "word_of_int (int (length b)) + mss kcp - 1 :: u32"
  have "?w = of_nat (length b) + of_nat m - 1"
    using m by auto
  also have "\<dots> = of_nat (length b + m - 1)"
    using m by (simp add: of_nat_diff)
  finally have "unat ?w = length b + m - 1"
    using m len by (simp only:) (rule unat_of_nat_u32, simp)
  then have "unat (?w div mss kcp) = (length b + m - 1) div m"
    using m by (simp add: unat_div)
  also have "\<dots> = length (chunks m b)"
    using m False by (subst length_chunks) auto
  finally have eq: "unat (?w div mss kcp) = length (chunks m b)" .
  have "length (chunks m b) \<le> length b"
    using m False by (intro length_chunks_le) auto
  then have "unat (?w div mss kcp) < 2 ^ 31"
    using eq len by simp
  then show ?thesis
    using False m sint_mss [of kcp] eq by (simp add: frag_count_def sint_small)
qed

subsection \<open>Well-formedness\<close>

text \<open>The caller's buffer is \<open>NULL\<close> or holds exactly \<open>len\<close> bytes.\<close>

definition buf_ok :: "byte list option \<Rightarrow> int \<Rightarrow> bool" where
  "buf_ok buf len \<longleftrightarrow> (\<forall>b. buf = Some b \<longrightarrow> int (length b) = len)"

lemma seg_ok_sized:
  "0 \<le> x \<Longrightarrow> x < 2 ^ 31 \<Longrightarrow> seg_len s = word_of_int x \<Longrightarrow> length (seg_data s) = nat x \<Longrightarrow> seg_ok s"
  by (simp add: seg_ok_def unat_word_of_int_nat)

lemma wf_send_queue [kcp_inv]:
  "wf_kcp kcp \<Longrightarrow> list_all seg_ok segs \<Longrightarrow> wf_kcp (send_queue kcp segs)"
  by (simp add: wf_kcp_def send_queue_def)

lemma mss_send_queue [kcp_frame, simp]: "mss (send_queue kcp segs) = mss kcp"
  by (simp add: send_queue_def)

text \<open>Sending changes nothing but \<open>snd_queue\<close>, by segments of at most \<open>mss\<close> bytes.\<close>

definition send_adds :: "IKCPCB \<Rightarrow> IKCPCB \<Rightarrow> bool" where
  "send_adds k k' \<longleftrightarrow> k' = k\<lparr>nsnd_que := nsnd_que k', snd_queue := snd_queue k'\<rparr> \<and>
     (\<forall>s \<in> set (snd_queue k'). s \<in> set (snd_queue k) \<or> unat (seg_len s) \<le> unat (mss k))"

lemma send_adds_refl [simp]: "send_adds k k"
  by (simp add: send_adds_def)

lemma send_adds_mss: "send_adds k k' \<Longrightarrow> mss k' = mss k"
  unfolding send_adds_def by (elim conjE, erule ssubst) simp

lemma send_adds_trans:
  assumes "send_adds k k'" and "send_adds k' k''"
  shows "send_adds k k''"
proof -
  obtain a b c d where "k' = k\<lparr>nsnd_que := a, snd_queue := b\<rparr>" "k'' = k'\<lparr>nsnd_que := c, snd_queue := d\<rparr>"
    using assms unfolding send_adds_def by blast
  then have "k'' = k\<lparr>nsnd_que := c, snd_queue := d\<rparr>"
    by simp
  with assms send_adds_mss [OF assms(1)] show ?thesis
    unfolding send_adds_def by auto
qed

lemma send_frags_wf:
  assumes "wf_kcp kcp" and "0 \<le> len" and "len < 2 ^ 31" and "0 \<le> sint (mss kcp)"
    and "buf_ok buf len" and "send_frags al n kcp buf len = Some kcp'"
  shows "wf_kcp kcp' \<and> send_adds kcp kcp'"
  using assms
proof (induction n arbitrary: kcp buf len)
  case 0
  then show ?case by simp
next
  case (Suc n)
  define sz where "sz = (if len > sint (mss kcp) then sint (mss kcp) else len)"
  have sz: "0 \<le> sz" "sz \<le> len" "len \<le> 0 \<Longrightarrow> sz = 0"
    using Suc.prems by (auto simp: sz_def)
  obtain seg0 where seg0: "ikcp_segment_new al (nat sz) = Some seg0"
    using Suc.prems(6) by (auto simp: send_frags.simps(2) sz_def Let_def split: option.splits)
  then have len0: "length (seg_data seg0) = nat sz"
    by (auto simp: ikcp_segment_new_def split: if_splits)
  define seg where "seg = (case buf of
        Some b \<Rightarrow> if len > 0 then seg0\<lparr>seg_data := take (nat sz) b\<rparr> else seg0
      | None \<Rightarrow> seg0)\<lparr>seg_len := word_of_int sz, seg_frg := (if stream kcp = 0 then of_nat n else 0)\<rparr>"
  have data: "length (seg_data seg) = nat sz"
    using Suc.prems(5) sz len0 by (auto simp: seg_def buf_ok_def split: option.split)
  have ok: "seg_ok seg"
    by (rule seg_ok_sized [of sz]) (use sz Suc.prems data in \<open>auto simp: seg_def\<close>)
  have rest: "send_frags al n (send_queue kcp [seg]) (map_option (drop (nat sz)) buf) (len - sz) = Some kcp'"
    using Suc.prems(6) seg0 by (simp add: send_frags.simps(2) sz_def [symmetric] seg_def Let_def send_queue_def)
  have wf1: "wf_kcp (send_queue kcp [seg])"
    using Suc.prems(1) ok by (simp add: wf_send_queue)
  have later: "wf_kcp kcp' \<and> send_adds (send_queue kcp [seg]) kcp'"
    by (rule Suc.IH [OF wf1 _ _ _ _ rest]) (use Suc.prems(2-5) sz in \<open>auto simp: buf_ok_def\<close>)
  have "seg_len seg = word_of_int sz" "sz \<le> sint (mss kcp)"
    by (auto simp: seg_def sz_def)
  then have "unat (seg_len seg) \<le> unat (mss kcp)"
    using sz Suc.prems(3,4) unat_word_of_int_nat [of sz] sint_small [of "mss kcp"]
    by (simp only: sint_nonneg_iff)
  then have "send_adds kcp (send_queue kcp [seg])"
    by (auto simp: send_adds_def send_queue_def)
  with later show ?case
    using send_adds_trans by blast
qed

lemma send_extend_wf:
  assumes wf: "wf_kcp kcp" and len: "0 \<le> len" and buf: "buf_ok buf len"
    and mss: "0 \<le> sint (mss kcp)"
    and eq: "send_extend al kcp buf len = Some (taken, kcp')"
  shows "wf_kcp kcp' \<and> 0 \<le> taken \<and> taken \<le> len \<and> send_adds kcp kcp'"
proof (cases "snd_queue kcp = [] \<or> \<not> seg_len (last (snd_queue kcp)) < mss kcp")
  case True
  then have "send_extend al kcp buf len = Some (0, kcp)"
    by (cases "snd_queue kcp = []") (simp_all add: send_extend_def Let_def)
  then show ?thesis
    using eq wf len by simp
next
  case False
  define old where "old = last (snd_queue kcp)"
  have room: "seg_len old < mss kcp" and ne: "snd_queue kcp \<noteq> []"
    using False by (auto simp: old_def)
  have old_ok: "seg_ok old"
    using wf ne by (auto simp: wf_kcp_def list_all_iff old_def)
  define cap where "cap = sint (mss kcp - seg_len old)"
  have m31: "unat (mss kcp) < 2 ^ 31"
    using mss by (simp only: sint_nonneg_iff)
  have diff: "unat (mss kcp - seg_len old) = unat (mss kcp) - unat (seg_len old)"
    using room by (intro unat_sub) simp
  define m l where "m = unat (mss kcp)" and "l = unat (seg_len old)"
  have lm: "l < m" "m < 2 ^ 31"
    using room m31 by (simp_all add: m_def l_def word_less_nat_alt)
  have "unat (mss kcp - seg_len old) = m - l"
    by (simp only: diff m_def l_def)
  then have cap: "cap = int m - int l"
    unfolding cap_def using lm sint_small [of "mss kcp - seg_len old"] by simp
  define ext where "ext = (if len < cap then len else cap)"
  have ext: "0 \<le> ext" "ext \<le> len" "int l + ext < 2 ^ 31"
    using len cap lm by (auto simp: ext_def)
  define total where "total = seg_len old + word_of_int ext"
  have "total = word_of_int (int l + ext)"
    by (simp add: total_def l_def)
  then have "unat total = nat (int l + ext)"
    using ext by (simp only:) (rule unat_word_of_int_nat, simp_all)
  then have utotal: "unat total = l + nat ext"
    using ext by (simp add: nat_add_distrib)
  moreover have lext: "l + nat ext < 2 ^ 31"
    using ext of_nat_less_iff [of "l + nat ext" "2 ^ 31", where ?'a = int] by simp
  ultimately have stotal: "nat (sint total) = l + nat ext"
    using sint_small [of total] by (simp only: nat_int)
  obtain seg where seg: "ikcp_segment_new al (nat (sint total)) = Some seg"
    using eq ne room
    by (auto simp: send_extend_def Let_def old_def [symmetric] cap_def [symmetric]
        ext_def [symmetric] total_def [symmetric] split: option.splits)
  define keep where "keep = take (unat (seg_len old)) (seg_data old)"
  define added where "added = (case buf of Some b \<Rightarrow> take (nat ext) b
                              | None \<Rightarrow> drop (length keep) (seg_data seg))"
  have keep: "length keep = l"
    using old_ok by (simp add: keep_def seg_ok_def l_def)
  have "length added = nat ext"
    using buf ext seg keep stotal
    by (auto simp: added_def buf_ok_def ikcp_segment_new_def split: option.splits if_splits)
  with keep utotal have "seg_ok (seg\<lparr>seg_data := keep @ added, seg_len := total, seg_frg := 0\<rparr>)"
    using lext by (simp add: seg_ok_def)
  moreover have "kcp' = kcp\<lparr>snd_queue := butlast (snd_queue kcp) @
      [seg\<lparr>seg_data := keep @ added, seg_len := total, seg_frg := 0\<rparr>]\<rparr>" and "taken = ext"
    using eq ne room seg
    by (auto simp: send_extend_def Let_def old_def [symmetric] cap_def [symmetric]
        ext_def [symmetric] total_def [symmetric] keep_def [symmetric] added_def
        cong: option.case_cong)
  moreover have "int (l + nat ext) \<le> int m"
    using ext cap by (auto simp: ext_def)
  then have "unat total \<le> unat (mss kcp)"
    unfolding utotal m_def [symmetric] by (simp only: of_nat_le_iff)
  ultimately show ?thesis
    using wf ext ne by (auto simp: wf_kcp_def list_all_iff send_adds_def dest: in_set_butlastD)
qed

lemma send_rest_wf:
  assumes "wf_kcp kcp" and "0 \<le> len" and "len < 2 ^ 31" and "0 \<le> sint (mss kcp)"
    and "buf_ok buf len" and eq: "send_rest al kcp buf len = Some (r, kcp')"
  shows "wf_kcp kcp' \<and> send_adds kcp kcp'"
proof (cases "stream kcp \<noteq> 0 \<and> len \<le> 0 \<or> sint IKCP_WND_RCV \<le> frag_count kcp len")
  case True
  with eq assms(1) show ?thesis
    by (auto simp: send_rest_def split: if_splits)
next
  case False
  then obtain n where "send_frags al n kcp buf len = Some kcp'"
    using eq unfolding send_rest_def Let_def by (auto split: if_splits)
  with assms show ?thesis
    by (intro send_frags_wf)
qed

lemma ikcp_send_wf [kcp_result]:
  assumes wf: "wf_kcp kcp" and mss: "0 \<le> sint (mss kcp)" and len: "len < 2 ^ 31"
    and buf: "buf_ok buf len" and eq: "ikcp_send al kcp buf len = Some (r, kcp')"
  shows "wf_kcp kcp' \<and> send_adds kcp kcp'"
proof (cases "len < 0")
  case True
  then show ?thesis
    using eq wf by (simp add: ikcp_send_def split: if_splits)
next
  case False
  obtain taken k where ext: "wf_kcp k" "0 \<le> taken" "taken \<le> len" "send_adds kcp k"
    and rest: "send_rest al k (map_option (drop (nat taken)) buf) (len - taken) = Some (r, kcp')"
  proof (cases "stream kcp = 0")
    case True
    then show thesis
      using that [of kcp 0] eq False wf by (simp add: ikcp_send_def split: if_splits)
  next
    case nz: False
    then obtain taken k where *: "send_extend al kcp buf len = Some (taken, k)"
      and "send_rest al k (map_option (drop (nat taken)) buf) (len - taken) = Some (r, kcp')"
      using eq False by (auto simp: ikcp_send_def split: if_splits option.splits)
    then show thesis
      using that [of k taken] send_extend_wf [OF wf _ buf mss *] False by auto
  qed
  have "wf_kcp kcp' \<and> send_adds k kcp'"
    by (rule send_rest_wf [OF _ _ _ _ _ rest])
      (use ext mss len buf in \<open>auto simp: buf_ok_def send_adds_mss\<close>)
  with ext(4) show ?thesis
    using send_adds_trans by blast
qed

lemma send_frags_total: "grants_all al \<Longrightarrow> \<exists>kcp'. send_frags al n kcp buf len = Some kcp'"
  by (induction n arbitrary: kcp buf len) (simp_all add: send_frags.simps(2) new_seg_Some Let_def)

lemma ikcp_send_total:
  assumes "grants_all al" and "mss kcp \<noteq> 0"
  shows "\<exists>r kcp'. ikcp_send al kcp buf len = Some (r, kcp')"
proof -
  have rest: "\<exists>r kcp'. send_rest al k b l = Some (r, kcp')" for k b l
    using send_frags_total [OF assms(1)] by (auto simp: send_rest_def Let_def)
  have "\<exists>r kcp'. send_extend al kcp buf len = Some (r, kcp')"
    using assms(1) by (auto simp: send_extend_def Let_def new_seg_Some)
  with rest assms(2) show ?thesis
    by (auto simp: ikcp_send_def)
qed

subsection \<open>Message mode\<close>

lemma ikcp_send_eq:
  assumes "grants_all al" and "0 < m" and "unat (mss kcp) = m" and "m < 2 ^ 31"
    and "stream kcp = 0" and "length b < 2 ^ 31"
  shows "ikcp_send al kcp (Some b) (int (length b)) =
     (if 128 \<le> length (chunks m b) then Some (- 2, kcp)
      else Some (0, send_queue kcp (map (frag_seg al) (frags m b))))"
proof -
  have mss: "mss kcp \<noteq> 0"
    using assms(2,3) by auto
  have pos: "0 < length (chunks m b)"
    by simp
  have count: "frag_count kcp (int (length b)) = int (length (chunks m b))"
    using assms by (intro frag_count_eq)
  have frags: "send_frags al (length (chunks m b)) kcp (Some b) (int (length b)) =
      Some (send_queue kcp (map (frag_seg al) (frags m b)))"
    using assms by (intro send_frags_eq)
  show ?thesis
    using mss pos frags assms(5)
    by (simp add: ikcp_send_def send_rest_def count IKCP_WND_RCV_def)
qed

subsection \<open>Properties\<close>

text \<open>
  C10: In message mode \<open>ikcp_send\<close> queues exactly the fragments of the message, in order and
  numbered down to 0, or refuses a message of 128 fragments or more with -2 and leaves the
  block alone.
\<close>

theorem ikcp_send_message:
  assumes "grants_all al" and "0 < m" and "unat (mss kcp) = m" and "m < 2 ^ 31"
    and "stream kcp = 0" and "length b < 2 ^ 31"
  shows "ikcp_send al kcp (Some b) (int (length b)) =
     (if 128 \<le> length (chunks m b) then Some (- 2, kcp)
      else Some (0, send_queue kcp (map (frag_seg al) (frags m b))))"
  using assms by (rule ikcp_send_eq)

theorem ikcp_send_message_witness:
  "ikcp_send malloc_all demo_kcp (Some [1, 2, 3]) 3 =
     Some (0, send_queue demo_kcp (map (frag_seg malloc_all) (frags 1376 [1, 2, 3])))"
  using ikcp_send_message [of malloc_all 1376 demo_kcp "[1, 2, 3]"] by (simp add: chunks_small)

text \<open>
  The segments that a successful \<open>ikcp_send\<close> queues carry the bytes of the message in
  order, at most \<open>mss\<close> of them each, fewer than 128 segments, whose fragment numbers count
  down to 0.
\<close>

theorem ikcp_send_fragments:
  assumes "grants_all al" and "0 < m" and "unat (mss kcp) = m" and "m < 2 ^ 31"
    and "stream kcp = 0" and "length b < 2 ^ 31"
    and "ikcp_send al kcp (Some b) (int (length b)) = Some (0, kcp')"
  shows "\<exists>segs. snd_queue kcp' = snd_queue kcp @ segs \<and> concat (map seg_data segs) = b \<and>
     (\<forall>s \<in> set segs. unat (seg_len s) = length (seg_data s) \<and> length (seg_data s) \<le> m) \<and>
     length segs < 128 \<and> map (\<lambda>s. unat (seg_frg s)) segs = rev [0..<length segs]"
proof -
  let ?segs = "map (frag_seg al) (frags m b)"
  have kcp': "kcp' = send_queue kcp ?segs" and count: "length (chunks m b) < 128"
    using assms(7) unfolding ikcp_send_eq [OF assms(1-6)] by (auto split: if_splits)
  have len: "length (fst f) \<le> m" if "f \<in> set (frags m b)" for f
    using chunks_bound [OF assms(2)] that by (metis image_eqI list.set_map map_fst_frags)
  have "unat (seg_len (frag_seg al f)) = length (fst f)" if "f \<in> set (frags m b)" for f
    using len [OF that] assms(4) by (simp add: frag_seg_def unat_of_nat_u32)
  moreover have "map (\<lambda>s. unat (seg_frg s)) ?segs = rev [0..<length ?segs]"
  proof -
    have "map (\<lambda>s. unat (seg_frg s)) ?segs = map (unat \<circ> (of_nat :: nat \<Rightarrow> u32)) (map snd (frags m b))"
      by (simp add: frag_seg_def)
    also have "\<dots> = rev [0..<length (chunks m b)]"
      using count by (simp add: frags_def Let_def del: map_map) (auto intro!: map_idI simp: unat_of_nat_u32)
    finally show ?thesis by simp
  qed
  moreover have "concat (map seg_data ?segs) = concat (map fst (frags m b))"
    by (simp add: frag_seg_def comp_def)
  ultimately show ?thesis
    using len count
    by (intro exI [of _ ?segs] conjI) (auto simp: kcp' send_queue_def comp_def frag_seg_def [of _ "(_, _)"])
qed

theorem ikcp_send_fragments_witness:
  "\<exists>kcp' segs. ikcp_send malloc_all demo_kcp (Some [1, 2, 3]) 3 = Some (0, kcp') \<and>
     snd_queue kcp' = snd_queue demo_kcp @ segs \<and> concat (map seg_data segs) = [1, 2, 3]"
proof -
  obtain kcp' where "ikcp_send malloc_all demo_kcp (Some [1, 2, 3]) (int (length [1, 2, 3 :: byte])) = Some (0, kcp')"
    using ikcp_send_eq [of malloc_all 1376 demo_kcp "[1, 2, 3]"] by (simp add: chunks_small)
  with ikcp_send_fragments [of malloc_all 1376 demo_kcp "[1, 2, 3]" kcp'] show ?thesis
    by fastforce
qed

end
