(* ===== verification/Ikcp_Ack.thy ===== *)
theory Ikcp_Ack
  imports Ikcp_Inv
begin

section \<open>Acknowledgements (ikcp.c, lines 525 to 655)\<close>

text \<open>
  The round-trip estimator, the three ways an acknowledgement changes \<open>snd_buf\<close> (a
  cumulative \<open>una\<close>, a single number, the count of segments overtaken), and the growing array
  of acknowledgements that wait to be sent.
\<close>

unbundle bit_operations_syntax

subsection \<open>Round-trip time (lines 525 to 541)\<close>

text \<open>The C divisions truncate (\<open>sdiv\<close>); a signed overflow is taken to wrap.\<close>

definition update_srtt :: "IKCPCB \<Rightarrow> int \<Rightarrow> IKCPCB" where
  "update_srtt kcp rtt =
     (if rx_srtt kcp = 0
      then kcp\<lparr>rx_srtt := rtt, rx_rttval := rtt sdiv 2\<rparr>
      else
        let delta = i32 (rtt - rx_srtt kcp);
            delta = (if delta < 0 then - delta else delta);
            kcp = kcp\<lparr>rx_rttval := i32 ((i32 (3 * rx_rttval kcp) + delta) sdiv 4)\<rparr>;
            kcp = kcp\<lparr>rx_srtt := i32 (7 * rx_srtt kcp + rtt) sdiv 8\<rparr>
        in if rx_srtt kcp < 1 then kcp\<lparr>rx_srtt := 1\<rparr> else kcp)"

definition ikcp_update_ack :: "IKCPCB \<Rightarrow> int \<Rightarrow> IKCPCB" where
  "ikcp_update_ack kcp rtt =
     (let kcp = update_srtt kcp rtt;
          rto = sint (word_of_int (rx_srtt kcp) +
                      imax (interval kcp) (word_of_int (4 * rx_rttval kcp)))
      in kcp\<lparr>rx_rto := sint (ibound (word_of_int (rx_minrto kcp)) (word_of_int rto) IKCP_RTO_MAX)\<rparr>)"

subsection \<open>The send buffer (lines 543 to 609)\<close>

definition ikcp_shrink_buf :: "IKCPCB \<Rightarrow> IKCPCB" where
  "ikcp_shrink_buf kcp =
     kcp\<lparr>snd_una := (case snd_buf kcp of seg # _ \<Rightarrow> seg_sn seg | [] \<Rightarrow> snd_nxt kcp)\<rparr>"

text \<open>The search loop: the queue without the segment, \<open>None\<close> when it stops without one.\<close>

fun ack_remove :: "u32 \<Rightarrow> IKCPSEG list \<Rightarrow> IKCPSEG list option" where
  "ack_remove sn [] = None"
| "ack_remove sn (seg # q) =
     (if sn = seg_sn seg then Some q
      else if itimediff sn (seg_sn seg) < 0 then None
      else map_option (Cons seg) (ack_remove sn q))"

definition ikcp_parse_ack :: "IKCPCB \<Rightarrow> u32 \<Rightarrow> IKCPCB" where
  "ikcp_parse_ack kcp sn =
     (if itimediff sn (snd_una kcp) < 0 \<or> itimediff sn (snd_nxt kcp) \<ge> 0 then kcp
      else case ack_remove sn (snd_buf kcp) of
             None \<Rightarrow> kcp
           | Some q \<Rightarrow> kcp\<lparr>snd_buf := q, nsnd_buf := nsnd_buf kcp - 1\<rparr>)"

fun una_loop :: "u32 \<Rightarrow> IKCPSEG list \<Rightarrow> IKCPCB \<Rightarrow> IKCPCB" where
  "una_loop una [] kcp = kcp"
| "una_loop una (seg # q) kcp =
     (if itimediff una (seg_sn seg) > 0
      then una_loop una q (kcp\<lparr>snd_buf := q, nsnd_buf := nsnd_buf kcp - 1\<rparr>)
      else kcp)"

definition ikcp_parse_una :: "IKCPCB \<Rightarrow> u32 \<Rightarrow> IKCPCB" where
  "ikcp_parse_una kcp una = una_loop una (snd_buf kcp) kcp"

fun fastack_loop :: "u32 \<Rightarrow> IKCPSEG list \<Rightarrow> IKCPSEG list" where
  "fastack_loop sn [] = []"
| "fastack_loop sn (seg # q) =
     (if itimediff sn (seg_sn seg) < 0 then seg # q
      else if sn \<noteq> seg_sn seg
      then seg\<lparr>seg_fastack := seg_fastack seg + 1\<rparr> # fastack_loop sn q
      else seg # fastack_loop sn q)"

definition ikcp_parse_fastack :: "IKCPCB \<Rightarrow> u32 \<Rightarrow> u32 \<Rightarrow> IKCPCB" where
  "ikcp_parse_fastack kcp sn ts =
     (if itimediff sn (snd_una kcp) < 0 \<or> itimediff sn (snd_nxt kcp) \<ge> 0 then kcp
      else kcp\<lparr>snd_buf := fastack_loop sn (snd_buf kcp)\<rparr>)"

subsection \<open>The list of pending acknowledgements (lines 614 to 655)\<close>

text \<open>The loop that finds the new block size; it doubles, so it ends for a start above 0.\<close>

function ack_block :: "nat \<Rightarrow> nat \<Rightarrow> nat" where
  "ack_block newblock newsize =
     (if 0 < newblock \<and> newblock < newsize then ack_block (2 * newblock) newsize else newblock)"
  by pat_completeness auto
termination
  by (relation "measure (\<lambda>(b, n). n - b)") auto

declare ack_block.simps [simp del]

definition ack_grow :: "allocator \<Rightarrow> IKCPCB \<Rightarrow> IKCPCB option" where
  "ack_grow al kcp =
     (let newsize = unat (ackcount kcp + 1)
      in if newsize > unat (ackblock kcp)
         then
           let newblock = ack_block 8 newsize
           in if \<not> alloc_ok al (Req_acklist newblock) then None
              else
                let n = 2 * unat (ackcount kcp);
                    fresh = map (alloc_word al) [0..<2 * newblock];
                    acks = (case acklist kcp of
                              Some old \<Rightarrow> take n old @ drop n fresh
                            | None \<Rightarrow> fresh)
                in Some (kcp\<lparr>acklist := Some acks, ackblock := of_nat newblock\<rparr>)
         else Some kcp)"

definition ikcp_ack_push :: "allocator \<Rightarrow> IKCPCB \<Rightarrow> u32 \<Rightarrow> u32 \<Rightarrow> IKCPCB option" where
  "ikcp_ack_push al kcp sn ts =
     (case ack_grow al kcp of
        None \<Rightarrow> None
      | Some kcp \<Rightarrow>
          (case acklist kcp of
             None \<Rightarrow> None
           | Some acks \<Rightarrow>
               let p = unat (ackcount kcp * 2)
               in Some (kcp\<lparr>acklist := Some (acks[p := sn, p + 1 := ts]),
                            ackcount := ackcount kcp + 1\<rparr>)))"

definition ikcp_ack_get :: "IKCPCB \<Rightarrow> nat \<Rightarrow> u32 \<times> u32" where
  "ikcp_ack_get kcp p = (the (acklist kcp) ! (p * 2), the (acklist kcp) ! (p * 2 + 1))"

subsection \<open>Bounds of the estimator\<close>

lemma sint_le_60000: "(w :: u32) \<le> 60000 \<Longrightarrow> sint w = uint w \<and> uint w \<le> 60000"
  using sint_small_uint [of w] by (simp add: word_le_def)

lemma rx_rto_bounds:
  assumes "rx_rto k = sint (ibound (word_of_int lo) w IKCP_RTO_MAX)"
  shows "0 \<le> rx_rto k \<and> rx_rto k \<le> 60000 \<and> (0 \<le> lo \<and> lo \<le> 60000 \<longrightarrow> lo \<le> rx_rto k)"
proof -
  let ?b = "ibound (word_of_int lo) w IKCP_RTO_MAX"
  have "?b \<le> 60000"
    using ibound_upper [of _ _ IKCP_RTO_MAX] by (simp add: IKCP_RTO_MAX_def)
  then have b: "sint ?b = uint ?b" "uint ?b \<le> 60000"
    by (simp_all add: sint_le_60000)
  have "lo \<le> uint ?b" if "0 \<le> lo" "lo \<le> 60000"
  proof -
    have lo: "uint (word_of_int lo :: u32) = lo"
      using that by (simp add: unsigned_of_int take_bit_int_eq_self)
    then have "(word_of_int lo :: u32) \<le> IKCP_RTO_MAX"
      using that by (simp add: word_le_def IKCP_RTO_MAX_def)
    then have "(word_of_int lo :: u32) \<le> ?b"
      by (rule ibound_lower)
    then show ?thesis
      by (simp add: word_le_def lo)
  qed
  with b show ?thesis
    by (simp add: assms)
qed

lemma ikcp_update_ack_rto:
  "0 \<le> rx_rto (ikcp_update_ack kcp rtt) \<and> rx_rto (ikcp_update_ack kcp rtt) \<le> 60000 \<and>
   (0 \<le> rx_minrto kcp \<and> rx_minrto kcp \<le> 60000 \<longrightarrow>
      rx_minrto kcp \<le> rx_rto (ikcp_update_ack kcp rtt))"
proof -
  have "rx_minrto (update_srtt kcp rtt) = rx_minrto kcp"
    by (simp add: update_srtt_def Let_def)
  then obtain w where "rx_rto (ikcp_update_ack kcp rtt) =
      sint (ibound (word_of_int (rx_minrto kcp)) w IKCP_RTO_MAX)"
    by (simp add: ikcp_update_ack_def Let_def)
  then show ?thesis by (rule rx_rto_bounds)
qed

lemma sdiv_pos: "0 \<le> (x :: int) \<Longrightarrow> 0 < d \<Longrightarrow> x sdiv d = x div d"
  by (cases "x = 0") (simp_all add: signed_divide_int_def)

lemma ikcp_update_ack_srtt:
  assumes "0 < rx_srtt kcp" and "rx_srtt kcp < 2 ^ 27" and "0 < rtt" and "rtt < 2 ^ 27"
  shows "min (rx_srtt kcp) rtt \<le> rx_srtt (ikcp_update_ack kcp rtt) \<and>
         rx_srtt (ikcp_update_ack kcp rtt) \<le> max (rx_srtt kcp) rtt"
proof -
  let ?s = "rx_srtt kcp"
  have "i32 (7 * ?s + rtt) = 7 * ?s + rtt"
    using assms by (intro i32_id) simp_all
  then have d: "i32 (7 * ?s + rtt) sdiv 8 = (7 * ?s + rtt) div 8"
    using assms by (simp add: sdiv_pos)
  have "min ?s rtt \<le> (7 * ?s + rtt) div 8" "(7 * ?s + rtt) div 8 \<le> max ?s rtt"
    by (simp_all add: min_def max_def) linarith+
  moreover from this have "1 \<le> (7 * ?s + rtt) div 8"
    using assms by (auto simp: min_def split: if_splits)
  ultimately show ?thesis
    using assms(1) by (simp add: ikcp_update_ack_def update_srtt_def Let_def d)
qed

lemma ikcp_update_ack_wf [kcp_inv]: "wf_kcp kcp \<Longrightarrow> wf_kcp (ikcp_update_ack kcp rtt)"
  by (simp add: ikcp_update_ack_def update_srtt_def Let_def wf_kcp_def)

subsection \<open>The send buffer keeps its shape\<close>

lemma snd_okD:
  assumes "snd_ok una nxt q"
  shows "una = (case q of [] \<Rightarrow> nxt | s # _ \<Rightarrow> seg_sn s)"
    and "sorted_wrt (<) (map (\<lambda>s. off una (seg_sn s)) q)"
    and "s \<in> set q \<Longrightarrow> off una (seg_sn s) < off una nxt"
    and "off una nxt < 2 ^ 16"
  using assms unfolding snd_ok_def by blast+

lemma snd_ok_sub:
  assumes ok: "snd_ok una nxt q" and sub: "set q' \<subseteq> set q"
    and srt: "sorted_wrt (<) (map (\<lambda>s. off una (seg_sn s)) q')"
    and una': "una' = (case q' of [] \<Rightarrow> nxt | s # _ \<Rightarrow> seg_sn s)"
  shows "snd_ok una' nxt q'"
proof (cases q')
  case Nil
  then show ?thesis using una' by simp
next
  case (Cons s r)
  have lt: "off una (seg_sn t) < off una nxt" if "t \<in> set q'" for t
    using snd_okD(3) [OF ok] sub that by blast
  have ge: "off una una' \<le> off una (seg_sn t)" if "t \<in> set q'" for t
    using srt that by (auto simp: una' Cons)
  have shift: "off una' (seg_sn t) = off una (seg_sn t) - off una una'" if "t \<in> set q'" for t
    using off_shift [OF ge [OF that]] .
  have nxt: "off una' nxt = off una nxt - off una una'"
    using off_shift [of una una' nxt] lt [of s] by (simp add: Cons una')
  have "sorted_wrt (<) (map (\<lambda>s. off una' (seg_sn s)) q')"
    using srt unfolding sorted_wrt_map
    by (rule sorted_wrt_mono_rel [rotated])
      (use shift ge in \<open>auto intro!: diff_less_mono\<close>)
  moreover have "off una' (seg_sn t) < off una' nxt" if "t \<in> set q'" for t
    using shift [OF that] nxt lt [OF that] ge [OF that] by simp
  moreover have "off una' nxt < 2 ^ 16"
    using nxt snd_okD(4) [OF ok] by simp
  ultimately show ?thesis
    by (simp add: snd_ok_def una' Cons)
qed

lemma snd_ok_suffix:
  assumes "snd_ok una nxt (xs @ q)" and "una' = (case q of [] \<Rightarrow> nxt | s # _ \<Rightarrow> seg_sn s)"
  shows "snd_ok una' nxt q"
  by (rule snd_ok_sub [OF assms(1) _ _ assms(2)])
    (use snd_okD(2) [OF assms(1)] in \<open>auto simp: sorted_wrt_append\<close>)

lemma snd_ok_remove:
  assumes "snd_ok una nxt (xs @ s # q)"
    and "una' = (case xs @ q of [] \<Rightarrow> nxt | s # _ \<Rightarrow> seg_sn s)"
  shows "snd_ok una' nxt (xs @ q)"
  by (rule snd_ok_sub [OF assms(1) _ _ assms(2)])
    (use snd_okD(2) [OF assms(1)] in \<open>auto simp: sorted_wrt_append\<close>)

lemma snd_ok_map:
  assumes "map seg_sn q' = map seg_sn q"
  shows "snd_ok una nxt q' \<longleftrightarrow> snd_ok una nxt q"
proof -
  have "map (off una) (map seg_sn q') = map (off una) (map seg_sn q)"
    using assms by simp
  moreover have "(\<forall>s \<in> set q'. off una (seg_sn s) < off una nxt) \<longleftrightarrow>
      (\<forall>s \<in> set q. off una (seg_sn s) < off una nxt)"
    using arg_cong [OF assms, of "\<lambda>xs. \<forall>n \<in> set xs. off una n < off una nxt"] by simp
  moreover have "(case q' of [] \<Rightarrow> nxt | s # _ \<Rightarrow> seg_sn s) = (case q of [] \<Rightarrow> nxt | s # _ \<Rightarrow> seg_sn s)"
    using assms by (cases q; cases q') auto
  ultimately show ?thesis
    by (simp add: snd_ok_def comp_def)
qed

lemma ack_remove_split:
  "ack_remove sn q = Some q' \<Longrightarrow> \<exists>xs s ys. q = xs @ s # ys \<and> q' = xs @ ys \<and> seg_sn s = sn"
proof (induction q arbitrary: q')
  case Nil
  then show ?case by simp
next
  case (Cons t q)
  show ?case
  proof (cases "sn = seg_sn t")
    case True
    with Cons.prems have "t # q = [] @ t # q \<and> q' = [] @ q \<and> seg_sn t = sn"
      by simp
    then show ?thesis by blast
  next
    case False
    with Cons.prems obtain r where r: "ack_remove sn q = Some r" "q' = t # r"
      by (auto split: if_splits)
    from Cons.IH [OF r(1)] obtain xs s ys where "q = xs @ s # ys \<and> r = xs @ ys \<and> seg_sn s = sn"
      by blast
    with r(2) have "t # q = (t # xs) @ s # ys \<and> q' = (t # xs) @ ys \<and> seg_sn s = sn"
      by simp
    then show ?thesis by blast
  qed
qed

lemma wf_shrinkI:
  assumes "wf_kcp kcp" and "list_all seg_ok q" and "c = of_nat (length q)"
    and "snd_ok (case q of [] \<Rightarrow> snd_nxt kcp | s # _ \<Rightarrow> seg_sn s) (snd_nxt kcp) q"
  shows "wf_kcp (ikcp_shrink_buf (kcp\<lparr>snd_buf := q, nsnd_buf := c\<rparr>))"
  using assms by (simp add: ikcp_shrink_buf_def wf_kcp_def cong: list.case_cong)

lemma parse_ack_shrink_wf [kcp_inv]:
  assumes wf: "wf_kcp kcp"
  shows "wf_kcp (ikcp_shrink_buf (ikcp_parse_ack kcp sn))"
proof (cases "ikcp_parse_ack kcp sn = kcp")
  case True
  have "snd_una kcp = (case snd_buf kcp of [] \<Rightarrow> snd_nxt kcp | s # _ \<Rightarrow> seg_sn s)"
    using wf snd_okD(1) by (auto simp: wf_kcp_def)
  then have "ikcp_shrink_buf kcp = kcp"
    by (simp add: ikcp_shrink_buf_def)
  with True wf show ?thesis by simp
next
  case False
  then obtain q where "ack_remove sn (snd_buf kcp) = Some q"
    and eq: "ikcp_parse_ack kcp sn = kcp\<lparr>snd_buf := q, nsnd_buf := nsnd_buf kcp - 1\<rparr>"
    by (auto simp: ikcp_parse_ack_def split: if_splits option.splits)
  then obtain xs s ys where buf: "snd_buf kcp = xs @ s # ys" and q: "q = xs @ ys"
    using ack_remove_split by blast
  have ok: "snd_ok (snd_una kcp) (snd_nxt kcp) (xs @ s # ys)"
    using wf by (simp add: wf_kcp_def buf)
  show ?thesis
    unfolding eq by (rule wf_shrinkI [OF wf])
      (use wf snd_ok_remove [OF ok refl] in \<open>simp_all add: wf_kcp_def buf q\<close>)
qed

lemma una_loop_eq:
  "snd_buf kcp = q \<Longrightarrow>
   una_loop una q kcp =
     (let p = \<lambda>s. itimediff una (seg_sn s) > 0
      in kcp\<lparr>snd_buf := dropWhile p q, nsnd_buf := nsnd_buf kcp - of_nat (length (takeWhile p q))\<rparr>)"
  by (induction q arbitrary: kcp) (simp_all add: Let_def algebra_simps)

lemma parse_una_shrink_wf [kcp_inv]:
  assumes wf: "wf_kcp kcp"
  shows "wf_kcp (ikcp_shrink_buf (ikcp_parse_una kcp una))"
proof -
  let ?p = "\<lambda>s. itimediff una (seg_sn s) > 0"
  let ?q = "dropWhile ?p (snd_buf kcp)"
  have split: "snd_buf kcp = takeWhile ?p (snd_buf kcp) @ ?q"
    by simp
  have "snd_ok (case ?q of [] \<Rightarrow> snd_nxt kcp | s # _ \<Rightarrow> seg_sn s) (snd_nxt kcp) ?q"
    by (rule snd_ok_suffix [of "snd_una kcp" _ "takeWhile ?p (snd_buf kcp)"])
      (use wf in \<open>simp_all add: wf_kcp_def\<close>)
  moreover have "nsnd_buf kcp - of_nat (length (takeWhile ?p (snd_buf kcp))) = of_nat (length ?q)"
    using wf arg_cong [OF split, of "\<lambda>xs. of_nat (length xs) :: u32"]
    by (simp add: wf_kcp_def del: takeWhile_dropWhile_id)
  moreover have "list_all seg_ok ?q"
    using wf set_dropWhileD by (fastforce simp: wf_kcp_def list_all_iff)
  ultimately show ?thesis
    using wf by (simp only: ikcp_parse_una_def una_loop_eq Let_def wf_shrinkI)
qed

lemma fastack_loop_sn: "map seg_sn (fastack_loop sn q) = map seg_sn q"
  by (induction q) auto

lemma fastack_loop_ok: "list_all seg_ok (fastack_loop sn q) \<longleftrightarrow> list_all seg_ok q"
  by (induction q) (auto simp: seg_ok_def)

lemma length_fastack_loop [simp]: "length (fastack_loop sn q) = length q"
  using arg_cong [OF fastack_loop_sn, of length] by simp

lemma parse_fastack_wf [kcp_inv]: "wf_kcp kcp \<Longrightarrow> wf_kcp (ikcp_parse_fastack kcp sn ts)"
  by (simp add: ikcp_parse_fastack_def wf_kcp_def fastack_loop_ok
      snd_ok_map [OF fastack_loop_sn])

subsection \<open>Fields the acknowledgement code leaves alone\<close>

lemma shrink_buf_frame [kcp_frame, simp]:
  "conv (ikcp_shrink_buf kcp) = conv kcp" "mtu (ikcp_shrink_buf kcp) = mtu kcp"
  "mss (ikcp_shrink_buf kcp) = mss kcp" "state (ikcp_shrink_buf kcp) = state kcp"
  "snd_nxt (ikcp_shrink_buf kcp) = snd_nxt kcp" "rcv_nxt (ikcp_shrink_buf kcp) = rcv_nxt kcp"
  "ssthresh (ikcp_shrink_buf kcp) = ssthresh kcp"
  "rx_rttval (ikcp_shrink_buf kcp) = rx_rttval kcp"
  "rx_srtt (ikcp_shrink_buf kcp) = rx_srtt kcp" "rx_rto (ikcp_shrink_buf kcp) = rx_rto kcp"
  "rx_minrto (ikcp_shrink_buf kcp) = rx_minrto kcp"
  "snd_wnd (ikcp_shrink_buf kcp) = snd_wnd kcp" "rcv_wnd (ikcp_shrink_buf kcp) = rcv_wnd kcp"
  "rmt_wnd (ikcp_shrink_buf kcp) = rmt_wnd kcp" "cwnd (ikcp_shrink_buf kcp) = cwnd kcp"
  "probe (ikcp_shrink_buf kcp) = probe kcp" "current (ikcp_shrink_buf kcp) = current kcp"
  "interval (ikcp_shrink_buf kcp) = interval kcp"
  "ts_flush (ikcp_shrink_buf kcp) = ts_flush kcp" "xmit (ikcp_shrink_buf kcp) = xmit kcp"
  "nrcv_buf (ikcp_shrink_buf kcp) = nrcv_buf kcp"
  "nsnd_buf (ikcp_shrink_buf kcp) = nsnd_buf kcp"
  "nrcv_que (ikcp_shrink_buf kcp) = nrcv_que kcp"
  "nsnd_que (ikcp_shrink_buf kcp) = nsnd_que kcp" "nodelay (ikcp_shrink_buf kcp) = nodelay kcp"
  "updated (ikcp_shrink_buf kcp) = updated kcp" "ts_probe (ikcp_shrink_buf kcp) = ts_probe kcp"
  "probe_wait (ikcp_shrink_buf kcp) = probe_wait kcp"
  "dead_link (ikcp_shrink_buf kcp) = dead_link kcp" "incr (ikcp_shrink_buf kcp) = incr kcp"
  "snd_queue (ikcp_shrink_buf kcp) = snd_queue kcp"
  "rcv_queue (ikcp_shrink_buf kcp) = rcv_queue kcp"
  "snd_buf (ikcp_shrink_buf kcp) = snd_buf kcp" "rcv_buf (ikcp_shrink_buf kcp) = rcv_buf kcp"
  "acklist (ikcp_shrink_buf kcp) = acklist kcp" "ackcount (ikcp_shrink_buf kcp) = ackcount kcp"
  "ackblock (ikcp_shrink_buf kcp) = ackblock kcp" "buffer (ikcp_shrink_buf kcp) = buffer kcp"
  "fastresend (ikcp_shrink_buf kcp) = fastresend kcp"
  "fastlimit (ikcp_shrink_buf kcp) = fastlimit kcp" "nocwnd (ikcp_shrink_buf kcp) = nocwnd kcp"
  "stream (ikcp_shrink_buf kcp) = stream kcp"
  "output_set (ikcp_shrink_buf kcp) = output_set kcp"
  by (simp_all add: ikcp_shrink_buf_def)

lemma parse_una_frame [kcp_frame, simp]:
  "conv (ikcp_parse_una kcp una) = conv kcp" "mtu (ikcp_parse_una kcp una) = mtu kcp"
  "mss (ikcp_parse_una kcp una) = mss kcp" "state (ikcp_parse_una kcp una) = state kcp"
  "snd_una (ikcp_parse_una kcp una) = snd_una kcp"
  "snd_nxt (ikcp_parse_una kcp una) = snd_nxt kcp"
  "rcv_nxt (ikcp_parse_una kcp una) = rcv_nxt kcp"
  "ssthresh (ikcp_parse_una kcp una) = ssthresh kcp"
  "rx_rttval (ikcp_parse_una kcp una) = rx_rttval kcp"
  "rx_srtt (ikcp_parse_una kcp una) = rx_srtt kcp"
  "rx_rto (ikcp_parse_una kcp una) = rx_rto kcp"
  "rx_minrto (ikcp_parse_una kcp una) = rx_minrto kcp"
  "snd_wnd (ikcp_parse_una kcp una) = snd_wnd kcp"
  "rcv_wnd (ikcp_parse_una kcp una) = rcv_wnd kcp"
  "rmt_wnd (ikcp_parse_una kcp una) = rmt_wnd kcp" "cwnd (ikcp_parse_una kcp una) = cwnd kcp"
  "probe (ikcp_parse_una kcp una) = probe kcp" "current (ikcp_parse_una kcp una) = current kcp"
  "interval (ikcp_parse_una kcp una) = interval kcp"
  "ts_flush (ikcp_parse_una kcp una) = ts_flush kcp" "xmit (ikcp_parse_una kcp una) = xmit kcp"
  "nrcv_buf (ikcp_parse_una kcp una) = nrcv_buf kcp"
  "nrcv_que (ikcp_parse_una kcp una) = nrcv_que kcp"
  "nsnd_que (ikcp_parse_una kcp una) = nsnd_que kcp"
  "nodelay (ikcp_parse_una kcp una) = nodelay kcp"
  "updated (ikcp_parse_una kcp una) = updated kcp"
  "ts_probe (ikcp_parse_una kcp una) = ts_probe kcp"
  "probe_wait (ikcp_parse_una kcp una) = probe_wait kcp"
  "dead_link (ikcp_parse_una kcp una) = dead_link kcp"
  "incr (ikcp_parse_una kcp una) = incr kcp"
  "snd_queue (ikcp_parse_una kcp una) = snd_queue kcp"
  "rcv_queue (ikcp_parse_una kcp una) = rcv_queue kcp"
  "rcv_buf (ikcp_parse_una kcp una) = rcv_buf kcp"
  "acklist (ikcp_parse_una kcp una) = acklist kcp"
  "ackcount (ikcp_parse_una kcp una) = ackcount kcp"
  "ackblock (ikcp_parse_una kcp una) = ackblock kcp"
  "buffer (ikcp_parse_una kcp una) = buffer kcp"
  "fastresend (ikcp_parse_una kcp una) = fastresend kcp"
  "fastlimit (ikcp_parse_una kcp una) = fastlimit kcp"
  "nocwnd (ikcp_parse_una kcp una) = nocwnd kcp" "stream (ikcp_parse_una kcp una) = stream kcp"
  "output_set (ikcp_parse_una kcp una) = output_set kcp"
  by (simp_all add: ikcp_parse_una_def una_loop_eq Let_def)

lemma parse_ack_frame [kcp_frame, simp]:
  "conv (ikcp_parse_ack kcp sn) = conv kcp" "mtu (ikcp_parse_ack kcp sn) = mtu kcp"
  "mss (ikcp_parse_ack kcp sn) = mss kcp" "state (ikcp_parse_ack kcp sn) = state kcp"
  "snd_una (ikcp_parse_ack kcp sn) = snd_una kcp"
  "snd_nxt (ikcp_parse_ack kcp sn) = snd_nxt kcp"
  "rcv_nxt (ikcp_parse_ack kcp sn) = rcv_nxt kcp"
  "ssthresh (ikcp_parse_ack kcp sn) = ssthresh kcp"
  "rx_rttval (ikcp_parse_ack kcp sn) = rx_rttval kcp"
  "rx_srtt (ikcp_parse_ack kcp sn) = rx_srtt kcp" "rx_rto (ikcp_parse_ack kcp sn) = rx_rto kcp"
  "rx_minrto (ikcp_parse_ack kcp sn) = rx_minrto kcp"
  "snd_wnd (ikcp_parse_ack kcp sn) = snd_wnd kcp"
  "rcv_wnd (ikcp_parse_ack kcp sn) = rcv_wnd kcp"
  "rmt_wnd (ikcp_parse_ack kcp sn) = rmt_wnd kcp" "cwnd (ikcp_parse_ack kcp sn) = cwnd kcp"
  "probe (ikcp_parse_ack kcp sn) = probe kcp" "current (ikcp_parse_ack kcp sn) = current kcp"
  "interval (ikcp_parse_ack kcp sn) = interval kcp"
  "ts_flush (ikcp_parse_ack kcp sn) = ts_flush kcp" "xmit (ikcp_parse_ack kcp sn) = xmit kcp"
  "nrcv_buf (ikcp_parse_ack kcp sn) = nrcv_buf kcp"
  "nrcv_que (ikcp_parse_ack kcp sn) = nrcv_que kcp"
  "nsnd_que (ikcp_parse_ack kcp sn) = nsnd_que kcp"
  "nodelay (ikcp_parse_ack kcp sn) = nodelay kcp"
  "updated (ikcp_parse_ack kcp sn) = updated kcp"
  "ts_probe (ikcp_parse_ack kcp sn) = ts_probe kcp"
  "probe_wait (ikcp_parse_ack kcp sn) = probe_wait kcp"
  "dead_link (ikcp_parse_ack kcp sn) = dead_link kcp" "incr (ikcp_parse_ack kcp sn) = incr kcp"
  "snd_queue (ikcp_parse_ack kcp sn) = snd_queue kcp"
  "rcv_queue (ikcp_parse_ack kcp sn) = rcv_queue kcp"
  "rcv_buf (ikcp_parse_ack kcp sn) = rcv_buf kcp"
  "acklist (ikcp_parse_ack kcp sn) = acklist kcp"
  "ackcount (ikcp_parse_ack kcp sn) = ackcount kcp"
  "ackblock (ikcp_parse_ack kcp sn) = ackblock kcp"
  "buffer (ikcp_parse_ack kcp sn) = buffer kcp"
  "fastresend (ikcp_parse_ack kcp sn) = fastresend kcp"
  "fastlimit (ikcp_parse_ack kcp sn) = fastlimit kcp"
  "nocwnd (ikcp_parse_ack kcp sn) = nocwnd kcp" "stream (ikcp_parse_ack kcp sn) = stream kcp"
  "output_set (ikcp_parse_ack kcp sn) = output_set kcp"
  by (simp_all add: ikcp_parse_ack_def split: option.split)

lemma parse_fastack_frame [kcp_frame, simp]:
  "conv (ikcp_parse_fastack kcp sn ts) = conv kcp"
  "mtu (ikcp_parse_fastack kcp sn ts) = mtu kcp" "mss (ikcp_parse_fastack kcp sn ts) = mss kcp"
  "state (ikcp_parse_fastack kcp sn ts) = state kcp"
  "snd_una (ikcp_parse_fastack kcp sn ts) = snd_una kcp"
  "snd_nxt (ikcp_parse_fastack kcp sn ts) = snd_nxt kcp"
  "rcv_nxt (ikcp_parse_fastack kcp sn ts) = rcv_nxt kcp"
  "ssthresh (ikcp_parse_fastack kcp sn ts) = ssthresh kcp"
  "rx_rttval (ikcp_parse_fastack kcp sn ts) = rx_rttval kcp"
  "rx_srtt (ikcp_parse_fastack kcp sn ts) = rx_srtt kcp"
  "rx_rto (ikcp_parse_fastack kcp sn ts) = rx_rto kcp"
  "rx_minrto (ikcp_parse_fastack kcp sn ts) = rx_minrto kcp"
  "snd_wnd (ikcp_parse_fastack kcp sn ts) = snd_wnd kcp"
  "rcv_wnd (ikcp_parse_fastack kcp sn ts) = rcv_wnd kcp"
  "rmt_wnd (ikcp_parse_fastack kcp sn ts) = rmt_wnd kcp"
  "cwnd (ikcp_parse_fastack kcp sn ts) = cwnd kcp"
  "probe (ikcp_parse_fastack kcp sn ts) = probe kcp"
  "current (ikcp_parse_fastack kcp sn ts) = current kcp"
  "interval (ikcp_parse_fastack kcp sn ts) = interval kcp"
  "ts_flush (ikcp_parse_fastack kcp sn ts) = ts_flush kcp"
  "xmit (ikcp_parse_fastack kcp sn ts) = xmit kcp"
  "nrcv_buf (ikcp_parse_fastack kcp sn ts) = nrcv_buf kcp"
  "nsnd_buf (ikcp_parse_fastack kcp sn ts) = nsnd_buf kcp"
  "nrcv_que (ikcp_parse_fastack kcp sn ts) = nrcv_que kcp"
  "nsnd_que (ikcp_parse_fastack kcp sn ts) = nsnd_que kcp"
  "nodelay (ikcp_parse_fastack kcp sn ts) = nodelay kcp"
  "updated (ikcp_parse_fastack kcp sn ts) = updated kcp"
  "ts_probe (ikcp_parse_fastack kcp sn ts) = ts_probe kcp"
  "probe_wait (ikcp_parse_fastack kcp sn ts) = probe_wait kcp"
  "dead_link (ikcp_parse_fastack kcp sn ts) = dead_link kcp"
  "incr (ikcp_parse_fastack kcp sn ts) = incr kcp"
  "snd_queue (ikcp_parse_fastack kcp sn ts) = snd_queue kcp"
  "rcv_queue (ikcp_parse_fastack kcp sn ts) = rcv_queue kcp"
  "rcv_buf (ikcp_parse_fastack kcp sn ts) = rcv_buf kcp"
  "acklist (ikcp_parse_fastack kcp sn ts) = acklist kcp"
  "ackcount (ikcp_parse_fastack kcp sn ts) = ackcount kcp"
  "ackblock (ikcp_parse_fastack kcp sn ts) = ackblock kcp"
  "buffer (ikcp_parse_fastack kcp sn ts) = buffer kcp"
  "fastresend (ikcp_parse_fastack kcp sn ts) = fastresend kcp"
  "fastlimit (ikcp_parse_fastack kcp sn ts) = fastlimit kcp"
  "nocwnd (ikcp_parse_fastack kcp sn ts) = nocwnd kcp"
  "stream (ikcp_parse_fastack kcp sn ts) = stream kcp"
  "output_set (ikcp_parse_fastack kcp sn ts) = output_set kcp"
  by (simp_all add: ikcp_parse_fastack_def)

lemma update_srtt_frame [kcp_frame, simp]:
  "conv (update_srtt kcp rtt) = conv kcp" "mtu (update_srtt kcp rtt) = mtu kcp"
  "mss (update_srtt kcp rtt) = mss kcp" "state (update_srtt kcp rtt) = state kcp"
  "snd_una (update_srtt kcp rtt) = snd_una kcp" "snd_nxt (update_srtt kcp rtt) = snd_nxt kcp"
  "rcv_nxt (update_srtt kcp rtt) = rcv_nxt kcp" "ssthresh (update_srtt kcp rtt) = ssthresh kcp"
  "rx_rto (update_srtt kcp rtt) = rx_rto kcp" "rx_minrto (update_srtt kcp rtt) = rx_minrto kcp"
  "snd_wnd (update_srtt kcp rtt) = snd_wnd kcp" "rcv_wnd (update_srtt kcp rtt) = rcv_wnd kcp"
  "rmt_wnd (update_srtt kcp rtt) = rmt_wnd kcp" "cwnd (update_srtt kcp rtt) = cwnd kcp"
  "probe (update_srtt kcp rtt) = probe kcp" "current (update_srtt kcp rtt) = current kcp"
  "interval (update_srtt kcp rtt) = interval kcp"
  "ts_flush (update_srtt kcp rtt) = ts_flush kcp" "xmit (update_srtt kcp rtt) = xmit kcp"
  "nrcv_buf (update_srtt kcp rtt) = nrcv_buf kcp"
  "nsnd_buf (update_srtt kcp rtt) = nsnd_buf kcp"
  "nrcv_que (update_srtt kcp rtt) = nrcv_que kcp"
  "nsnd_que (update_srtt kcp rtt) = nsnd_que kcp" "nodelay (update_srtt kcp rtt) = nodelay kcp"
  "updated (update_srtt kcp rtt) = updated kcp" "ts_probe (update_srtt kcp rtt) = ts_probe kcp"
  "probe_wait (update_srtt kcp rtt) = probe_wait kcp"
  "dead_link (update_srtt kcp rtt) = dead_link kcp" "incr (update_srtt kcp rtt) = incr kcp"
  "snd_queue (update_srtt kcp rtt) = snd_queue kcp"
  "rcv_queue (update_srtt kcp rtt) = rcv_queue kcp"
  "snd_buf (update_srtt kcp rtt) = snd_buf kcp" "rcv_buf (update_srtt kcp rtt) = rcv_buf kcp"
  "acklist (update_srtt kcp rtt) = acklist kcp" "ackcount (update_srtt kcp rtt) = ackcount kcp"
  "ackblock (update_srtt kcp rtt) = ackblock kcp" "buffer (update_srtt kcp rtt) = buffer kcp"
  "fastresend (update_srtt kcp rtt) = fastresend kcp"
  "fastlimit (update_srtt kcp rtt) = fastlimit kcp" "nocwnd (update_srtt kcp rtt) = nocwnd kcp"
  "stream (update_srtt kcp rtt) = stream kcp"
  "output_set (update_srtt kcp rtt) = output_set kcp"
  by (simp_all add: update_srtt_def Let_def)

lemma update_ack_frame [kcp_frame, simp]:
  "conv (ikcp_update_ack kcp rtt) = conv kcp" "mtu (ikcp_update_ack kcp rtt) = mtu kcp"
  "mss (ikcp_update_ack kcp rtt) = mss kcp" "state (ikcp_update_ack kcp rtt) = state kcp"
  "snd_una (ikcp_update_ack kcp rtt) = snd_una kcp"
  "snd_nxt (ikcp_update_ack kcp rtt) = snd_nxt kcp"
  "rcv_nxt (ikcp_update_ack kcp rtt) = rcv_nxt kcp"
  "ssthresh (ikcp_update_ack kcp rtt) = ssthresh kcp"
  "rx_minrto (ikcp_update_ack kcp rtt) = rx_minrto kcp"
  "snd_wnd (ikcp_update_ack kcp rtt) = snd_wnd kcp"
  "rcv_wnd (ikcp_update_ack kcp rtt) = rcv_wnd kcp"
  "rmt_wnd (ikcp_update_ack kcp rtt) = rmt_wnd kcp" "cwnd (ikcp_update_ack kcp rtt) = cwnd kcp"
  "probe (ikcp_update_ack kcp rtt) = probe kcp"
  "current (ikcp_update_ack kcp rtt) = current kcp"
  "interval (ikcp_update_ack kcp rtt) = interval kcp"
  "ts_flush (ikcp_update_ack kcp rtt) = ts_flush kcp"
  "xmit (ikcp_update_ack kcp rtt) = xmit kcp"
  "nrcv_buf (ikcp_update_ack kcp rtt) = nrcv_buf kcp"
  "nsnd_buf (ikcp_update_ack kcp rtt) = nsnd_buf kcp"
  "nrcv_que (ikcp_update_ack kcp rtt) = nrcv_que kcp"
  "nsnd_que (ikcp_update_ack kcp rtt) = nsnd_que kcp"
  "nodelay (ikcp_update_ack kcp rtt) = nodelay kcp"
  "updated (ikcp_update_ack kcp rtt) = updated kcp"
  "ts_probe (ikcp_update_ack kcp rtt) = ts_probe kcp"
  "probe_wait (ikcp_update_ack kcp rtt) = probe_wait kcp"
  "dead_link (ikcp_update_ack kcp rtt) = dead_link kcp"
  "incr (ikcp_update_ack kcp rtt) = incr kcp"
  "snd_queue (ikcp_update_ack kcp rtt) = snd_queue kcp"
  "rcv_queue (ikcp_update_ack kcp rtt) = rcv_queue kcp"
  "snd_buf (ikcp_update_ack kcp rtt) = snd_buf kcp"
  "rcv_buf (ikcp_update_ack kcp rtt) = rcv_buf kcp"
  "acklist (ikcp_update_ack kcp rtt) = acklist kcp"
  "ackcount (ikcp_update_ack kcp rtt) = ackcount kcp"
  "ackblock (ikcp_update_ack kcp rtt) = ackblock kcp"
  "buffer (ikcp_update_ack kcp rtt) = buffer kcp"
  "fastresend (ikcp_update_ack kcp rtt) = fastresend kcp"
  "fastlimit (ikcp_update_ack kcp rtt) = fastlimit kcp"
  "nocwnd (ikcp_update_ack kcp rtt) = nocwnd kcp"
  "stream (ikcp_update_ack kcp rtt) = stream kcp"
  "output_set (ikcp_update_ack kcp rtt) = output_set kcp"
  by (simp_all add: ikcp_update_ack_def Let_def)

subsection \<open>What an acknowledgement removes\<close>

text \<open>
  The loops of the code stop at the first segment that a number cannot concern; on a
  well-formed block that is the same as looking at all of them. A number is acknowledged
  validly when it is one of those in flight.
\<close>

lemma in_flight_off:
  assumes "off una nxt < 2 ^ 16"
  shows "itimediff sn una < 0 \<or> itimediff sn nxt \<ge> 0 \<longleftrightarrow> \<not> off una sn < off una nxt"
proof (cases "off una sn < 2 ^ 31")
  case True
  then have "itimediff sn una = int (off una sn)"
    using itimediff_off [of una sn una] by simp
  moreover have "itimediff sn nxt = int (off una sn) - int (off una nxt)"
    using True assms by (intro itimediff_off) simp_all
  ultimately show ?thesis by auto
next
  case False
  then have "itimediff sn una < 0"
    using itimediff_nonneg [of sn una] by (simp add: not_le [symmetric])
  with False assms show ?thesis by simp
qed

lemma itimediff_snd:
  assumes ok: "snd_ok una nxt q" and s: "s \<in> set q" and sn: "off una sn \<le> off una nxt"
  shows "itimediff sn (seg_sn s) = int (off una sn) - int (off una (seg_sn s))"
  using snd_okD(3) [OF ok s] snd_okD(4) [OF ok] sn by (intro itimediff_off) simp_all

lemma off_sorted_notin:
  assumes "sorted_wrt (<) (map (\<lambda>s. off una (seg_sn s)) (t # q))"
    and "off una sn \<le> off una (seg_sn t)"
  shows "filter (\<lambda>s. seg_sn s \<noteq> sn) q = q"
  using assms by (auto simp: filter_id_conv)

lemma ack_remove_filter:
  assumes "sorted_wrt (<) (map (\<lambda>s. off una (seg_sn s)) q)"
    and "\<forall>s \<in> set q. itimediff sn (seg_sn s) = int (off una sn) - int (off una (seg_sn s))"
  shows "(case ack_remove sn q of None \<Rightarrow> q | Some q' \<Rightarrow> q') = filter (\<lambda>s. seg_sn s \<noteq> sn) q"
  using assms
proof (induction q)
  case Nil
  then show ?case by simp
next
  case (Cons t q)
  show ?case
  proof (cases "off una sn \<le> off una (seg_sn t)")
    case True
    then show ?thesis
      using off_sorted_notin [OF Cons.prems(1) True] Cons.prems(2)
      by (auto simp: off_inj)
  next
    case False
    then show ?thesis
      using Cons by (cases "ack_remove sn q") auto
  qed
qed

lemma parse_ack_filter:
  assumes wf: "wf_kcp kcp"
  shows "snd_buf (ikcp_parse_ack kcp sn) = filter (\<lambda>s. seg_sn s \<noteq> sn) (snd_buf kcp)"
proof -
  have ok: "snd_ok (snd_una kcp) (snd_nxt kcp) (snd_buf kcp)"
    using wf by (simp add: wf_kcp_def)
  show ?thesis
  proof (cases "off (snd_una kcp) sn < off (snd_una kcp) (snd_nxt kcp)")
    case True
    then have "snd_buf (ikcp_parse_ack kcp sn) =
        (case ack_remove sn (snd_buf kcp) of None \<Rightarrow> snd_buf kcp | Some q' \<Rightarrow> q')"
      using in_flight_off [OF snd_okD(4) [OF ok], of sn]
      by (auto simp: ikcp_parse_ack_def split: option.split)
    also have "\<dots> = filter (\<lambda>s. seg_sn s \<noteq> sn) (snd_buf kcp)"
      using itimediff_snd [OF ok] True
      by (intro ack_remove_filter [OF snd_okD(2) [OF ok]]) auto
    finally show ?thesis .
  next
    case False
    then have "ikcp_parse_ack kcp sn = kcp"
      using in_flight_off [OF snd_okD(4) [OF ok], of sn] by (auto simp: ikcp_parse_ack_def)
    moreover have "\<forall>s \<in> set (snd_buf kcp). seg_sn s \<noteq> sn"
      using False snd_okD(3) [OF ok] by auto
    ultimately show ?thesis
      by (simp add: filter_id_conv)
  qed
qed

lemma dropWhile_filter_sorted:
  assumes "sorted_wrt (<) (map f q)"
  shows "dropWhile (\<lambda>s. f s < (n :: nat)) q = filter (\<lambda>s. n \<le> f s) q"
  using assms
proof (induction q)
  case (Cons t q)
  show ?case
  proof (cases "f t < n")
    case True
    with Cons show ?thesis by simp
  next
    case False
    with Cons.prems have "\<forall>s \<in> set q. n \<le> f s" by auto
    with False show ?thesis by simp
  qed
qed simp

lemma parse_una_filter:
  assumes wf: "wf_kcp kcp" and una: "off (snd_una kcp) una \<le> off (snd_una kcp) (snd_nxt kcp)"
  shows "snd_buf (ikcp_parse_una kcp una) =
     filter (\<lambda>s. off (snd_una kcp) una \<le> off (snd_una kcp) (seg_sn s)) (snd_buf kcp)"
proof -
  have ok: "snd_ok (snd_una kcp) (snd_nxt kcp) (snd_buf kcp)"
    using wf by (simp add: wf_kcp_def)
  have "dropWhile (\<lambda>s. itimediff una (seg_sn s) > 0) (snd_buf kcp) =
      dropWhile (\<lambda>s. off (snd_una kcp) (seg_sn s) < off (snd_una kcp) una) (snd_buf kcp)"
    using itimediff_snd [OF ok _ una] by (intro dropWhile_cong) auto
  then show ?thesis
    by (simp add: ikcp_parse_una_def una_loop_eq Let_def dropWhile_filter_sorted [OF snd_okD(2) [OF ok]])
qed

lemma fastack_loop_map:
  assumes "sorted_wrt (<) (map (\<lambda>s. off una (seg_sn s)) q)"
    and "\<forall>s \<in> set q. itimediff sn (seg_sn s) = int (off una sn) - int (off una (seg_sn s))"
  shows "fastack_loop sn q =
     map (\<lambda>s. if off una (seg_sn s) < off una sn
              then s\<lparr>seg_fastack := seg_fastack s + 1\<rparr> else s) q"
  using assms
proof (induction q)
  case Nil
  then show ?case by simp
next
  case (Cons t q)
  show ?case
  proof (cases "off una sn < off una (seg_sn t)")
    case True
    with Cons.prems have "\<forall>s \<in> set q. \<not> off una (seg_sn s) < off una sn" by auto
    then have "map (\<lambda>s. if off una (seg_sn s) < off una sn
        then s\<lparr>seg_fastack := seg_fastack s + 1\<rparr> else s) q = q"
      by (intro map_idI) simp
    with True Cons.prems(2) show ?thesis by simp
  next
    case False
    then have le: "\<not> itimediff sn (seg_sn t) < 0"
      using Cons.prems(2) by simp
    have ne: "sn \<noteq> seg_sn t \<longleftrightarrow> off una (seg_sn t) < off una sn"
      using False by (auto simp: off_inj [of una, symmetric])
    have "fastack_loop sn q = map (\<lambda>s. if off una (seg_sn s) < off una sn
        then s\<lparr>seg_fastack := seg_fastack s + 1\<rparr> else s) q"
      using Cons.prems by (intro Cons.IH) simp_all
    then show ?thesis
      by (simp only: fastack_loop.simps le ne if_False list.map split: if_split) simp
  qed
qed

subsection \<open>The growing array\<close>

definition acks_wf :: "IKCPCB \<Rightarrow> bool" where
  "acks_wf kcp \<longleftrightarrow>
     (case acklist kcp of
        None \<Rightarrow> ackcount kcp = 0 \<and> ackblock kcp = 0
      | Some acks \<Rightarrow> length acks = 2 * unat (ackblock kcp) \<and> ackcount kcp \<le> ackblock kcp)"

definition pending_acks :: "IKCPCB \<Rightarrow> (u32 \<times> u32) list" where
  "pending_acks kcp = map (ikcp_ack_get kcp) [0..<unat (ackcount kcp)]"

lemma ack_block_ge: "0 < b \<Longrightarrow> n \<le> ack_block b n"
proof (induction b n rule: ack_block.induct)
  case (1 b n)
  then show ?case by (subst ack_block.simps) auto
qed

lemma ack_block_lt: "0 < b \<Longrightarrow> b < 2 * n \<Longrightarrow> ack_block b n < 2 * n"
proof (induction b n rule: ack_block.induct)
  case (1 b n)
  then show ?case by (subst ack_block.simps) auto
qed

lemma ack_block_start: "n \<le> b \<Longrightarrow> ack_block b n = b"
  by (subst ack_block.simps) simp

lemma ack_block_bound: "n \<le> 2 ^ 31 \<Longrightarrow> ack_block 8 n < 2 ^ 32"
  using ack_block_lt [of 8 n] ack_block_start [of n 8] by (cases "n \<le> 4") auto

lemma ack_grow_Some:
  assumes wf: "acks_wf kcp" and al: "grants_all al" and small: "unat (ackcount kcp) < 2 ^ 31"
  obtains kcp' acks where "ack_grow al kcp = Some kcp'" and "acklist kcp' = Some acks"
    and "length acks = 2 * unat (ackblock kcp')" and "unat (ackcount kcp) < unat (ackblock kcp')"
    and "take (2 * unat (ackcount kcp)) acks = take (2 * unat (ackcount kcp)) (case acklist kcp of None \<Rightarrow> [] | Some a \<Rightarrow> a)"
    and "kcp' = kcp\<lparr>acklist := acklist kcp', ackblock := ackblock kcp'\<rparr>"
proof -
  let ?c = "unat (ackcount kcp)"
  have succ: "unat (ackcount kcp + 1) = Suc ?c"
    using small unat_add_lem [of "ackcount kcp" 1] by simp
  show thesis
  proof (cases "Suc ?c > unat (ackblock kcp)")
    case False
    then have "0 < unat (ackblock kcp)" by simp
    then obtain a where a: "acklist kcp = Some a"
      using wf by (cases "acklist kcp") (auto simp: acks_wf_def)
    with False wf succ show thesis
      by (intro that [of kcp a]) (simp_all add: ack_grow_def acks_wf_def)
  next
    case True
    let ?b = "ack_block 8 (Suc ?c)"
    have b: "Suc ?c \<le> ?b" "?b < 2 ^ 32"
      using ack_block_ge [of 8 "Suc ?c"] ack_block_bound [of "Suc ?c"] small by simp_all
    then have ub: "unat (of_nat ?b :: u32) = ?b"
      by (intro unat_of_nat_u32) simp
    let ?fresh = "map (alloc_word al) [0..<2 * ?b]"
    let ?acks = "case acklist kcp of Some old \<Rightarrow> take (2 * ?c) old @ drop (2 * ?c) ?fresh | None \<Rightarrow> ?fresh"
    have old: "2 * ?c \<le> length old" if "acklist kcp = Some old" for old
      using wf that by (simp add: acks_wf_def word_le_nat_alt)
    have none: "?c = 0" if "acklist kcp = None"
      using wf that by (simp add: acks_wf_def)
    have "ack_grow al kcp = Some (kcp\<lparr>acklist := Some ?acks, ackblock := of_nat ?b\<rparr>)"
      using True succ al by (simp add: ack_grow_def Let_def)
    then show thesis
      by (rule that [of _ ?acks])
        (use old none b ub in \<open>auto split: option.splits\<close>)
  qed
qed

lemma take_eq_nth: "take n xs = take n ys \<Longrightarrow> i < n \<Longrightarrow> xs ! i = ys ! i"
  by (metis nth_take)

lemma ikcp_ack_push_append:
  assumes wf: "acks_wf kcp" and al: "grants_all al" and small: "unat (ackcount kcp) < 2 ^ 31"
  obtains kcp' where "ikcp_ack_push al kcp sn ts = Some kcp'"
    and "pending_acks kcp' = pending_acks kcp @ [(sn, ts)]" and "acks_wf kcp'"
proof -
  let ?c = "unat (ackcount kcp)"
  obtain k acks where k: "ack_grow al kcp = Some k" "acklist k = Some acks"
      "length acks = 2 * unat (ackblock k)" "?c < unat (ackblock k)"
    and old: "take (2 * ?c) acks = take (2 * ?c) (case acklist kcp of None \<Rightarrow> [] | Some a \<Rightarrow> a)"
    and frame: "k = kcp\<lparr>acklist := acklist k, ackblock := ackblock k\<rparr>"
    using ack_grow_Some [OF assms] by blast
  have c: "ackcount k = ackcount kcp"
    by (subst frame) simp
  have succ: "unat (ackcount kcp + 1) = Suc ?c"
    using small unat_add_lem [of "ackcount kcp" 1] by simp
  have double: "ackcount kcp * 2 = of_nat (2 * ?c)"
    by simp
  have p: "unat (ackcount kcp * 2) = 2 * ?c"
    unfolding double by (rule unat_of_nat_u32) (use small in simp)
  let ?acks = "acks[2 * ?c := sn, 2 * ?c + 1 := ts]"
  let ?kcp = "k\<lparr>acklist := Some ?acks, ackcount := ackcount kcp + 1\<rparr>"
  have "ikcp_ack_push al kcp sn ts = Some ?kcp"
    by (simp add: ikcp_ack_push_def k c p Let_def)
  moreover have "acks_wf ?kcp"
    using k succ by (simp add: acks_wf_def word_le_nat_alt)
  moreover have "pending_acks ?kcp = pending_acks kcp @ [(sn, ts)]"
  proof -
    have "ikcp_ack_get ?kcp i = ikcp_ack_get kcp i" if "i < ?c" for i
    proof -
      have "acklist kcp \<noteq> None"
        using wf that by (auto simp: acks_wf_def split: option.splits)
      then obtain a where a: "acklist kcp = Some a" by blast
      have "acks ! j = a ! j" if "j < 2 * ?c" for j
        using take_eq_nth [OF old that] by (simp add: a)
      with that show ?thesis
        by (simp add: ikcp_ack_get_def a nth_list_update)
    qed
    moreover have "ikcp_ack_get ?kcp ?c = (sn, ts)"
      using k by (simp add: ikcp_ack_get_def nth_list_update)
    ultimately show ?thesis
      by (simp add: pending_acks_def succ)
  qed
  ultimately show thesis
    by (intro that)
qed

lemma ack_grow_frame:
  "ack_grow al kcp = Some kcp' \<Longrightarrow>
   kcp' = kcp\<lparr>acklist := acklist kcp', ackblock := ackblock kcp'\<rparr>"
  by (auto simp: ack_grow_def Let_def split: if_splits)

lemma ack_push_frame:
  assumes "ikcp_ack_push al kcp sn ts = Some kcp'"
  shows "kcp' = kcp\<lparr>acklist := acklist kcp', ackblock := ackblock kcp', ackcount := ackcount kcp'\<rparr>"
proof -
  obtain k where k: "ack_grow al kcp = Some k"
    using assms by (auto simp: ikcp_ack_push_def split: option.splits)
  then obtain l b where "k = kcp\<lparr>acklist := l, ackblock := b\<rparr>"
    using ack_grow_frame by blast
  with assms k show ?thesis
    by (auto simp: ikcp_ack_push_def Let_def split: option.splits)
qed

lemma ack_push_wf [kcp_result]: "ikcp_ack_push al kcp sn ts = Some kcp' \<Longrightarrow> wf_kcp kcp \<Longrightarrow> wf_kcp kcp'"
  by (subst ack_push_frame) (simp_all add: wf_kcp_def)

subsection \<open>Properties\<close>

text \<open>
  C25: The retransmission timeout stays within its bounds whatever round trip a peer
  pretends: at most 60 s and, for a minimum the code sets, at least that minimum.
\<close>

theorem ikcp_update_ack_bounds:
  "rx_rto (ikcp_update_ack kcp rtt) \<le> 60000 \<and>
   (0 \<le> rx_minrto kcp \<and> rx_minrto kcp \<le> 60000 \<longrightarrow>
      rx_minrto kcp \<le> rx_rto (ikcp_update_ack kcp rtt))"
  using ikcp_update_ack_rto by blast

theorem ikcp_update_ack_bounds_witness:
  "\<exists>kcp. ikcp_create malloc_all 7 = Some kcp \<and> 100 \<le> rx_rto (ikcp_update_ack kcp 5)"
proof -
  obtain kcp where kcp: "ikcp_create malloc_all 7 = Some kcp"
    by (auto simp: ikcp_create_def Let_def)
  then have "rx_minrto kcp = 100"
    by (auto simp: ikcp_create_def Let_def kcp_consts)
  with ikcp_update_ack_bounds [of kcp 5] kcp show ?thesis by auto
qed

text \<open>
  C23: On a well-formed block the early exits of the acknowledgement loop lose nothing: the
  acknowledged number is gone from \<open>snd_buf\<close>, every other segment stays, and once
  \<open>ikcp_shrink_buf\<close> has run the block is well formed again.
\<close>

theorem ikcp_parse_ack_removes:
  assumes "wf_kcp kcp"
  shows "snd_buf (ikcp_parse_ack kcp sn) = filter (\<lambda>s. seg_sn s \<noteq> sn) (snd_buf kcp) \<and>
         wf_kcp (ikcp_shrink_buf (ikcp_parse_ack kcp sn))"
  using assms by (simp add: parse_ack_filter kcp_inv)

theorem ikcp_parse_ack_removes_witness:
  "snd_buf (ikcp_parse_ack demo_kcp 5) = [demo_seg 6 0 [3]] \<and>
   wf_kcp (ikcp_shrink_buf (ikcp_parse_ack demo_kcp 5))"
  using ikcp_parse_ack_removes [of demo_kcp 5] by simp

text \<open>
  A cumulative acknowledgement of numbers in flight removes exactly the segments below
  \<open>una\<close>; \<open>ikcp_shrink_buf\<close> then leaves a well-formed block.
\<close>

theorem ikcp_parse_una_removes:
  assumes "wf_kcp kcp" and "off (snd_una kcp) una \<le> off (snd_una kcp) (snd_nxt kcp)"
  shows "snd_buf (ikcp_parse_una kcp una) =
           filter (\<lambda>s. off (snd_una kcp) una \<le> off (snd_una kcp) (seg_sn s)) (snd_buf kcp) \<and>
         wf_kcp (ikcp_shrink_buf (ikcp_parse_una kcp una))"
  using assms by (simp add: parse_una_filter kcp_inv)

theorem ikcp_parse_una_removes_witness:
  "snd_buf (ikcp_parse_una demo_kcp 6) = [demo_seg 6 0 [3]] \<and>
   wf_kcp (ikcp_shrink_buf (ikcp_parse_una demo_kcp 6))"
  using ikcp_parse_una_removes [of demo_kcp 6] by (simp add: off_def)

text \<open>
  C24: Pending acknowledgements are kept in order: a push appends one entry to those the
  array holds, through every growth of the array, and never writes outside it.
\<close>

theorem ikcp_ack_push_appends:
  assumes "acks_wf kcp" and "grants_all al" and "unat (ackcount kcp) < 2 ^ 31"
  shows "\<exists>kcp'. ikcp_ack_push al kcp sn ts = Some kcp' \<and> acks_wf kcp' \<and>
     pending_acks kcp' = pending_acks kcp @ [(sn, ts)]"
  using ikcp_ack_push_append [OF assms] by metis

theorem ikcp_ack_push_appends_witness:
  "\<exists>kcp'. ikcp_ack_push malloc_all demo_kcp 8 9 = Some kcp' \<and> acks_wf kcp' \<and>
     pending_acks kcp' = [(8, 9)]"
  using ikcp_ack_push_appends [of demo_kcp malloc_all 8 9]
  by (simp add: acks_wf_def pending_acks_def)

end
