(* ===== verification/Ikcp_Input.thy ===== *)
theory Ikcp_Input
  imports Ikcp_Recv Ikcp_Ack
begin

section \<open>Input of datagrams (ikcp.c, lines 660 to 874)\<close>

text \<open>
  \<open>ikcp_parse_data\<close> files one data segment; \<open>ikcp_input\<close> walks a datagram segment by segment,
  applies each one, and adapts the congestion window at the end. An early return keeps what
  the segments before it did. The log callback has no effect on the block and is left out;
  the macro IKCP_FASTACK_CONSERVE is not set by the build.
\<close>

unbundle bit_operations_syntax

subsection \<open>Filing a data segment (lines 660 to 718)\<close>

text \<open>
  The search from the tail of \<open>rcv_buf\<close>: the segments still to look at (nearest first) and
  those passed. The answer is the place to insert at, \<open>None\<close> when the number is there.
\<close>

fun rcv_place :: "u32 \<Rightarrow> IKCPSEG list \<Rightarrow> IKCPSEG list \<Rightarrow> (IKCPSEG list \<times> IKCPSEG list) option"
where
  "rcv_place sn [] after = Some ([], after)"
| "rcv_place sn (seg # before) after =
     (if seg_sn seg = sn then None
      else if itimediff sn (seg_sn seg) > 0 then Some (rev (seg # before), after)
      else rcv_place sn before (seg # after))"

definition rcv_insert :: "IKCPCB \<Rightarrow> IKCPSEG \<Rightarrow> IKCPCB" where
  "rcv_insert kcp newseg =
     (case rcv_place (seg_sn newseg) (rev (rcv_buf kcp)) [] of
        None \<Rightarrow> kcp
      | Some (before, after) \<Rightarrow>
          kcp\<lparr>rcv_buf := before @ newseg # after, nrcv_buf := nrcv_buf kcp + 1\<rparr>)"

definition ikcp_parse_data :: "IKCPCB \<Rightarrow> IKCPSEG \<Rightarrow> IKCPCB" where
  "ikcp_parse_data kcp newseg =
     (let sn = seg_sn newseg
      in if itimediff sn (rcv_nxt kcp + rcv_wnd kcp) \<ge> 0 \<or> itimediff sn (rcv_nxt kcp) < 0 then kcp
      else
        let kcp = rcv_insert kcp newseg
        in move_ready (rcv_buf kcp) kcp)"

subsection \<open>The segment header\<close>

record in_header =
  h_conv :: u32
  h_cmd :: byte
  h_frg :: byte
  h_wnd :: u16
  h_ts :: u32
  h_sn :: u32
  h_una :: u32
  h_len :: u32

definition decode_header :: "byte list \<Rightarrow> (in_header \<times> byte list) option" where
  "decode_header d = do {
     (cv, d) \<leftarrow> ikcp_decode32u d;
     (cmd, d) \<leftarrow> ikcp_decode8u d;
     (frg, d) \<leftarrow> ikcp_decode8u d;
     (wnd, d) \<leftarrow> ikcp_decode16u d;
     (ts, d) \<leftarrow> ikcp_decode32u d;
     (sn, d) \<leftarrow> ikcp_decode32u d;
     (una, d) \<leftarrow> ikcp_decode32u d;
     (len, d) \<leftarrow> ikcp_decode32u d;
     Some (\<lparr>h_conv = cv, h_cmd = cmd, h_frg = frg, h_wnd = wnd, h_ts = ts, h_sn = sn,
            h_una = una, h_len = len\<rparr>, d)}"

definition header_bytes :: "in_header \<Rightarrow> byte list" where
  "header_bytes h =
     mem32 (h_conv h) @ [h_cmd h, h_frg h] @ mem16 (h_wnd h) @ mem32 (h_ts h) @ mem32 (h_sn h) @
     mem32 (h_una h) @ mem32 (h_len h)"

lemma length_header_bytes [simp]: "length (header_bytes h) = 24"
  by (simp add: header_bytes_def)

lemma decode_header_bytes [wire_simps]: "decode_header (header_bytes h @ d) = Some (h, d)"
  by (simp add: decode_header_def header_bytes_def decode32u_mem32 decode16u_mem16)

lemma decode_header_Some_iff: "decode_header d = Some (h, r) \<longleftrightarrow> d = header_bytes h @ r"
  by (auto simp: decode_header_bytes)
    (auto simp: decode_header_def header_bytes_def decode32u_Some_iff decode16u_Some_iff
      decode8u_Some_iff split: bind_splits)

lemma getconv_header: "ikcp_getconv (header_bytes h @ r) = Some (h_conv h)"
  by (simp add: ikcp_getconv_def header_bytes_def decode32u_mem32)

lemma decode_header_total:
  assumes "24 \<le> length d"
  obtains h where "decode_header d = Some (h, drop 24 d)"
proof -
  have w: "\<exists>l. ikcp_decode32u (drop n d) = Some (l, drop (n + 4) d)" if "n \<le> 20" for n
    using decode32u_total [of "drop n d"] that assms by (simp add: add.commute)
  obtain a e f g i where
    "ikcp_decode32u d = Some (a, drop 4 d)" "ikcp_decode32u (drop 8 d) = Some (e, drop 12 d)"
    "ikcp_decode32u (drop 12 d) = Some (f, drop 16 d)"
    "ikcp_decode32u (drop 16 d) = Some (g, drop 20 d)"
    "ikcp_decode32u (drop 20 d) = Some (i, drop 24 d)"
    using w [of 0] w [of 8] w [of 12] w [of 16] w [of 20] by auto
  moreover have l4: "1 \<le> length (drop 4 d)" and l5: "1 \<le> length (drop 5 d)"
    and l6: "2 \<le> length (drop 6 d)"
    using assms by simp_all
  moreover obtain b c where
    "ikcp_decode8u (drop 4 d) = Some (b, drop 5 d)" "ikcp_decode8u (drop 5 d) = Some (c, drop 6 d)"
    using decode8u_total [of "drop 4 d", OF l4] decode8u_total [of "drop 5 d", OF l5] by auto
  moreover obtain h where "ikcp_decode16u (drop 6 d) = Some (h, drop 8 d)"
    using decode16u_total [of "drop 6 d", OF l6] by auto
  ultimately show thesis
    by (intro that) (simp add: decode_header_def)
qed

text \<open>The header that \<open>ikcp_encode_seg\<close> writes, as the decoder sees it.\<close>

definition seg_hdr :: "IKCPSEG \<Rightarrow> in_header" where
  "seg_hdr s = \<lparr>h_conv = seg_conv s, h_cmd = ucast (seg_cmd s), h_frg = ucast (seg_frg s),
     h_wnd = ucast (seg_wnd s), h_ts = seg_ts s, h_sn = seg_sn s, h_una = seg_una s,
     h_len = seg_len s\<rparr>"

lemma seg_header_eq: "seg_header s = header_bytes (seg_hdr s)"
  by (simp add: seg_header_def ikcp_encode_seg_def seg_hdr_def header_bytes_def wire_simps)

subsection \<open>One segment (lines 766 to 842)\<close>

text \<open>The bookkeeping of acknowledgements in one datagram: \<open>flag\<close>, \<open>maxack\<close>, \<open>latest_ts\<close>.\<close>

record ack_track =
  ack_flag :: bool
  maxack :: u32
  latest_ts :: u32

definition track_ack :: "ack_track \<Rightarrow> u32 \<Rightarrow> u32 \<Rightarrow> ack_track" where
  "track_ack tr sn ts =
     (if \<not> ack_flag tr then \<lparr>ack_flag = True, maxack = sn, latest_ts = ts\<rparr>
      else if itimediff sn (maxack tr) > 0 then tr\<lparr>maxack := sn, latest_ts := ts\<rparr>
      else tr)"

definition input_ack :: "IKCPCB \<Rightarrow> u32 \<Rightarrow> u32 \<Rightarrow> IKCPCB" where
  "input_ack kcp sn ts =
     (let kcp = (if itimediff (current kcp) ts \<ge> 0
                 then ikcp_update_ack kcp (itimediff (current kcp) ts) else kcp)
      in ikcp_shrink_buf (ikcp_parse_ack kcp sn))"

definition header_seg :: "IKCPSEG \<Rightarrow> in_header \<Rightarrow> byte list \<Rightarrow> IKCPSEG" where
  "header_seg seg h d =
     (let seg = seg\<lparr>seg_conv := h_conv h, seg_cmd := ucast (h_cmd h), seg_frg := ucast (h_frg h),
            seg_wnd := ucast (h_wnd h), seg_ts := h_ts h, seg_sn := h_sn h, seg_una := h_una h,
            seg_len := h_len h\<rparr>
      in if h_len h > 0 then seg\<lparr>seg_data := take (unat (h_len h)) d\<rparr> else seg)"

definition input_push :: "allocator \<Rightarrow> IKCPCB \<Rightarrow> in_header \<Rightarrow> byte list \<Rightarrow> IKCPCB option" where
  "input_push al kcp h d =
     (if itimediff (h_sn h) (rcv_nxt kcp + rcv_wnd kcp) < 0
      then
        case ikcp_ack_push al kcp (h_sn h) (h_ts h) of
          None \<Rightarrow> None
        | Some kcp \<Rightarrow>
            if itimediff (h_sn h) (rcv_nxt kcp) \<ge> 0
            then
              case ikcp_segment_new al (unat (h_len h)) of
                None \<Rightarrow> None
              | Some seg \<Rightarrow> Some (ikcp_parse_data kcp (header_seg seg h d))
            else Some kcp
      else Some kcp)"

text \<open>Every header is applied first: the advertised window and the cumulative number.\<close>

definition input_header :: "IKCPCB \<Rightarrow> in_header \<Rightarrow> IKCPCB" where
  "input_header kcp h =
     (let kcp = kcp\<lparr>rmt_wnd := ucast (h_wnd h)\<rparr>;
          kcp = ikcp_parse_una kcp (h_una h)
      in ikcp_shrink_buf kcp)"

definition input_command ::
  "allocator \<Rightarrow> IKCPCB \<Rightarrow> in_header \<Rightarrow> byte list \<Rightarrow> ack_track \<Rightarrow> (IKCPCB \<times> ack_track) option"
where
  "input_command al kcp h d tr =
     (if ucast (h_cmd h) = IKCP_CMD_ACK
      then Some (input_ack kcp (h_sn h) (h_ts h), track_ack tr (h_sn h) (h_ts h))
      else if ucast (h_cmd h) = IKCP_CMD_PUSH
      then map_option (\<lambda>kcp. (kcp, tr)) (input_push al kcp h d)
      else if ucast (h_cmd h) = IKCP_CMD_WASK
      then Some (kcp\<lparr>probe := probe kcp OR IKCP_ASK_TELL\<rparr>, tr)
      else Some (kcp, tr))"

definition input_segment ::
  "allocator \<Rightarrow> IKCPCB \<Rightarrow> in_header \<Rightarrow> byte list \<Rightarrow> ack_track \<Rightarrow> (IKCPCB \<times> ack_track) option"
where
  "input_segment al kcp h d tr = input_command al (input_header kcp h) h d tr"

subsection \<open>The loop and the congestion window (lines 737 to 874)\<close>

definition known_cmd :: "byte \<Rightarrow> bool" where
  "known_cmd c \<longleftrightarrow>
     ucast c = IKCP_CMD_PUSH \<or> ucast c = IKCP_CMD_ACK \<or> ucast c = IKCP_CMD_WASK \<or>
     ucast c = IKCP_CMD_WINS"

text \<open>
  The result is the code of an early return, \<open>0\<close> when the loop ended, with the block and
  the acknowledgement bookkeeping at that point.
\<close>

function input_loop ::
  "allocator \<Rightarrow> IKCPCB \<Rightarrow> byte list \<Rightarrow> ack_track \<Rightarrow> (int \<times> IKCPCB \<times> ack_track) option"
where
  "input_loop al kcp d tr =
     (if length d < 24 then Some (0, kcp, tr)
      else case decode_header d of
        None \<Rightarrow> None
      | Some (h, d') \<Rightarrow>
          if h_conv h \<noteq> conv kcp then Some (- 1, kcp, tr)
          else if int (length d') < uint (h_len h) \<or> sint (h_len h) < 0 then Some (- 2, kcp, tr)
          else if \<not> known_cmd (h_cmd h) then Some (- 3, kcp, tr)
          else case input_segment al kcp h d' tr of
                 None \<Rightarrow> None
               | Some (kcp, tr) \<Rightarrow> input_loop al kcp (drop (unat (h_len h)) d') tr)"
  by pat_completeness auto
termination
  by (relation "measure (\<lambda>(al, kcp, d, tr). length d)") (auto simp: decode_header_Some_iff)

declare input_loop.simps [simp del]

text \<open>The division by \<open>incr\<close> traps when it is 0, which needs an \<open>mss\<close> of 0.\<close>

definition cwnd_grow :: "IKCPCB \<Rightarrow> IKCPCB option" where
  "cwnd_grow kcp =
     (let m = mss kcp
      in if cwnd kcp < ssthresh kcp
         then Some (kcp\<lparr>cwnd := cwnd kcp + 1, incr := incr kcp + m\<rparr>)
         else
           let kcp = (if incr kcp < m then kcp\<lparr>incr := m\<rparr> else kcp)
           in if incr kcp = 0 then None
           else
             let kcp = kcp\<lparr>incr := incr kcp + ((m * m) div incr kcp + m div 16)\<rparr>
             in Some (if (cwnd kcp + 1) * m \<le> incr kcp
                      then kcp\<lparr>cwnd := (incr kcp + m - 1) div (if m > 0 then m else 1)\<rparr>
                      else kcp))"

definition input_cwnd :: "IKCPCB \<Rightarrow> IKCPCB option" where
  "input_cwnd kcp =
     (if cwnd kcp < rmt_wnd kcp
      then map_option (\<lambda>kcp. if cwnd kcp > rmt_wnd kcp
             then kcp\<lparr>cwnd := rmt_wnd kcp, incr := rmt_wnd kcp * mss kcp\<rparr> else kcp)
             (cwnd_grow kcp)
      else Some kcp)"

definition ikcp_input :: "allocator \<Rightarrow> IKCPCB \<Rightarrow> byte list option \<Rightarrow> (int \<times> IKCPCB) option" where
  "ikcp_input al kcp buf =
     (case buf of
        None \<Rightarrow> Some (- 1, kcp)
      | Some d \<Rightarrow>
          if i32 (int (length d)) < sint IKCP_OVERHEAD then Some (- 1, kcp)
          else
            let prev_una = snd_una kcp
            in case input_loop al kcp d \<lparr>ack_flag = False, maxack = 0, latest_ts = 0\<rparr> of
                 None \<Rightarrow> None
               | Some (r, kcp, tr) \<Rightarrow>
                   if r \<noteq> 0 then Some (r, kcp)
                   else
                     let kcp = (if ack_flag tr
                                then ikcp_parse_fastack kcp (maxack tr) (latest_ts tr) else kcp)
                     in map_option (Pair 0)
                          (if itimediff (snd_una kcp) prev_una > 0
                           then input_cwnd kcp else Some kcp))"

subsection \<open>Filing a segment keeps the block well formed\<close>

lemma rcv_place_split:
  assumes "rcv_place sn before after = Some (b, a)"
  shows "b @ a = rev before @ after \<and> (\<forall>s \<in> set a. s \<in> set after \<or> itimediff sn (seg_sn s) \<le> 0 \<and> seg_sn s \<noteq> sn) \<and>
     (b = [] \<or> itimediff sn (seg_sn (last b)) > 0)"
  using assms
proof (induction sn before after rule: rcv_place.induct)
  case (2 sn seg before after)
  show ?case
  proof (cases "seg_sn seg \<noteq> sn \<and> itimediff sn (seg_sn seg) \<le> 0")
    case True
    with 2 show ?thesis by auto
  next
    case False
    with "2.prems" show ?thesis by (auto split: if_splits)
  qed
qed simp

lemma itimediff_rcv:
  assumes ok: "rcv_ok nxt q" and s: "s \<in> set q" and sn: "off nxt sn < 2 ^ 31"
  shows "itimediff sn (seg_sn s) = int (off nxt sn) - int (off nxt (seg_sn s))"
  using ok s sn by (intro itimediff_off) (simp_all add: rcv_ok_def)

lemma rcv_place_None:
  assumes "rcv_place sn before after = None"
  shows "\<exists>s \<in> set before. seg_sn s = sn"
  using assms
  by (induction sn before after rule: rcv_place.induct) (auto split: if_splits)

text \<open>
  On a sorted buffer the search is exact: it finds no place only for a number that is
  there, and otherwise it splits the buffer into the numbers below and above.
\<close>

lemma rcv_place_sorted:
  assumes ok: "rcv_ok nxt q" and sn: "off nxt sn < 2 ^ 31"
    and place: "rcv_place sn (rev q) [] = Some (b, a)"
  shows "q = b @ a" and "\<forall>s \<in> set b. off nxt (seg_sn s) < off nxt sn"
    and "\<forall>s \<in> set a. off nxt sn < off nxt (seg_sn s)"
proof -
  show q: "q = b @ a"
    using rcv_place_split [OF place] by simp
  have a: "itimediff sn (seg_sn s) \<le> 0 \<and> seg_sn s \<noteq> sn" if "s \<in> set a" for s
    using rcv_place_split [OF place] that by simp
  show "\<forall>s \<in> set a. off nxt sn < off nxt (seg_sn s)"
  proof
    fix s
    assume s: "s \<in> set a"
    then have "off nxt sn \<le> off nxt (seg_sn s)"
      using a [OF s] itimediff_rcv [OF ok _ sn, of s] by (simp add: q)
    moreover have "off nxt sn \<noteq> off nxt (seg_sn s)"
      using a [OF s] by (auto simp: off_inj)
    ultimately show "off nxt sn < off nxt (seg_sn s)" by simp
  qed
  show "\<forall>s \<in> set b. off nxt (seg_sn s) < off nxt sn"
  proof (cases b rule: rev_cases)
    case (snoc b' t)
    then have "itimediff sn (seg_sn t) > 0"
      using rcv_place_split [OF place] by simp
    then have l: "off nxt (seg_sn t) < off nxt sn"
      using itimediff_rcv [OF ok _ sn, of t] by (simp add: q snoc)
    have "off nxt (seg_sn s) < off nxt (seg_sn t)" if "s \<in> set b'" for s
      using ok that by (auto simp: rcv_ok_def q snoc sorted_wrt_append)
    with l show ?thesis
      by (auto simp: snoc intro: less_trans)
  qed simp
qed

lemma rcv_insert_ok:
  assumes ok: "rcv_ok nxt q" and sn: "off nxt (seg_sn s) < 2 ^ 31"
    and place: "rcv_place (seg_sn s) (rev q) [] = Some (b, a)"
  shows "rcv_ok nxt (b @ s # a)"
  using ok sn rcv_place_sorted [OF ok sn place]
  by (auto simp: rcv_ok_def sorted_wrt_append)

lemma rcv_insert_wf [kcp_inv]:
  assumes wf: "wf_kcp kcp" and sn: "itimediff (seg_sn s) (rcv_nxt kcp) \<ge> 0" and s: "seg_ok s"
  shows "wf_kcp (rcv_insert kcp s)"
proof (cases "rcv_place (seg_sn s) (rev (rcv_buf kcp)) []")
  case None
  with wf show ?thesis by (simp add: rcv_insert_def)
next
  case (Some p)
  obtain b a where p: "p = (b, a)" by force
  have o: "off (rcv_nxt kcp) (seg_sn s) < 2 ^ 31"
    using sn by (simp only: itimediff_nonneg)
  have ok: "rcv_ok (rcv_nxt kcp) (rcv_buf kcp)"
    using wf by (simp add: wf_kcp_def)
  have place: "rcv_place (seg_sn s) (rev (rcv_buf kcp)) [] = Some (b, a)"
    using Some p by simp
  have ins: "rcv_ok (rcv_nxt kcp) (b @ s # a)"
    by (rule rcv_insert_ok [OF ok o place])
  have "rcv_buf kcp = b @ a"
    by (rule rcv_place_sorted [OF ok o place])
  with wf s ins place show ?thesis
    by (auto simp: rcv_insert_def wf_kcp_def)
qed

lemma rcv_insert_frame [kcp_frame, simp]:
  "conv (rcv_insert kcp s) = conv kcp" "mtu (rcv_insert kcp s) = mtu kcp"
  "mss (rcv_insert kcp s) = mss kcp" "state (rcv_insert kcp s) = state kcp"
  "snd_una (rcv_insert kcp s) = snd_una kcp" "snd_nxt (rcv_insert kcp s) = snd_nxt kcp"
  "rcv_nxt (rcv_insert kcp s) = rcv_nxt kcp" "ssthresh (rcv_insert kcp s) = ssthresh kcp"
  "rx_rttval (rcv_insert kcp s) = rx_rttval kcp" "rx_srtt (rcv_insert kcp s) = rx_srtt kcp"
  "rx_rto (rcv_insert kcp s) = rx_rto kcp" "rx_minrto (rcv_insert kcp s) = rx_minrto kcp"
  "snd_wnd (rcv_insert kcp s) = snd_wnd kcp" "rcv_wnd (rcv_insert kcp s) = rcv_wnd kcp"
  "rmt_wnd (rcv_insert kcp s) = rmt_wnd kcp" "cwnd (rcv_insert kcp s) = cwnd kcp"
  "probe (rcv_insert kcp s) = probe kcp" "current (rcv_insert kcp s) = current kcp"
  "interval (rcv_insert kcp s) = interval kcp" "ts_flush (rcv_insert kcp s) = ts_flush kcp"
  "xmit (rcv_insert kcp s) = xmit kcp" "nsnd_buf (rcv_insert kcp s) = nsnd_buf kcp"
  "nrcv_que (rcv_insert kcp s) = nrcv_que kcp" "nsnd_que (rcv_insert kcp s) = nsnd_que kcp"
  "nodelay (rcv_insert kcp s) = nodelay kcp" "updated (rcv_insert kcp s) = updated kcp"
  "ts_probe (rcv_insert kcp s) = ts_probe kcp" "probe_wait (rcv_insert kcp s) = probe_wait kcp"
  "dead_link (rcv_insert kcp s) = dead_link kcp" "incr (rcv_insert kcp s) = incr kcp"
  "snd_queue (rcv_insert kcp s) = snd_queue kcp" "rcv_queue (rcv_insert kcp s) = rcv_queue kcp"
  "snd_buf (rcv_insert kcp s) = snd_buf kcp" "acklist (rcv_insert kcp s) = acklist kcp"
  "ackcount (rcv_insert kcp s) = ackcount kcp" "ackblock (rcv_insert kcp s) = ackblock kcp"
  "buffer (rcv_insert kcp s) = buffer kcp" "fastresend (rcv_insert kcp s) = fastresend kcp"
  "fastlimit (rcv_insert kcp s) = fastlimit kcp" "nocwnd (rcv_insert kcp s) = nocwnd kcp"
  "stream (rcv_insert kcp s) = stream kcp" "output_set (rcv_insert kcp s) = output_set kcp"
  by (simp_all add: rcv_insert_def split: option.split)

lemma parse_data_frame [kcp_frame, simp]:
  "conv (ikcp_parse_data kcp s) = conv kcp" "mtu (ikcp_parse_data kcp s) = mtu kcp"
  "mss (ikcp_parse_data kcp s) = mss kcp" "state (ikcp_parse_data kcp s) = state kcp"
  "snd_una (ikcp_parse_data kcp s) = snd_una kcp"
  "snd_nxt (ikcp_parse_data kcp s) = snd_nxt kcp"
  "ssthresh (ikcp_parse_data kcp s) = ssthresh kcp"
  "rx_rttval (ikcp_parse_data kcp s) = rx_rttval kcp"
  "rx_srtt (ikcp_parse_data kcp s) = rx_srtt kcp" "rx_rto (ikcp_parse_data kcp s) = rx_rto kcp"
  "rx_minrto (ikcp_parse_data kcp s) = rx_minrto kcp"
  "snd_wnd (ikcp_parse_data kcp s) = snd_wnd kcp"
  "rcv_wnd (ikcp_parse_data kcp s) = rcv_wnd kcp"
  "rmt_wnd (ikcp_parse_data kcp s) = rmt_wnd kcp" "cwnd (ikcp_parse_data kcp s) = cwnd kcp"
  "probe (ikcp_parse_data kcp s) = probe kcp" "current (ikcp_parse_data kcp s) = current kcp"
  "interval (ikcp_parse_data kcp s) = interval kcp"
  "ts_flush (ikcp_parse_data kcp s) = ts_flush kcp" "xmit (ikcp_parse_data kcp s) = xmit kcp"
  "nsnd_buf (ikcp_parse_data kcp s) = nsnd_buf kcp"
  "nsnd_que (ikcp_parse_data kcp s) = nsnd_que kcp"
  "nodelay (ikcp_parse_data kcp s) = nodelay kcp"
  "updated (ikcp_parse_data kcp s) = updated kcp"
  "ts_probe (ikcp_parse_data kcp s) = ts_probe kcp"
  "probe_wait (ikcp_parse_data kcp s) = probe_wait kcp"
  "dead_link (ikcp_parse_data kcp s) = dead_link kcp" "incr (ikcp_parse_data kcp s) = incr kcp"
  "snd_queue (ikcp_parse_data kcp s) = snd_queue kcp"
  "snd_buf (ikcp_parse_data kcp s) = snd_buf kcp"
  "acklist (ikcp_parse_data kcp s) = acklist kcp"
  "ackcount (ikcp_parse_data kcp s) = ackcount kcp"
  "ackblock (ikcp_parse_data kcp s) = ackblock kcp"
  "buffer (ikcp_parse_data kcp s) = buffer kcp"
  "fastresend (ikcp_parse_data kcp s) = fastresend kcp"
  "fastlimit (ikcp_parse_data kcp s) = fastlimit kcp"
  "nocwnd (ikcp_parse_data kcp s) = nocwnd kcp" "stream (ikcp_parse_data kcp s) = stream kcp"
  "output_set (ikcp_parse_data kcp s) = output_set kcp"
  by (simp_all add: ikcp_parse_data_def Let_def)

lemma parse_data_wf [kcp_inv]:
  "wf_kcp kcp \<Longrightarrow> seg_ok s \<Longrightarrow> wf_kcp (ikcp_parse_data kcp s)"
  using rcv_insert_wf [of kcp s] move_ready_wf [OF refl]
  by (simp add: ikcp_parse_data_def Let_def not_less)

subsection \<open>Well-formedness of the whole input\<close>

lemma unat_ucast_u16 [simp]: "unat (ucast (w :: u16) :: u32) = unat w"
  by transfer simp

lemma wf_rmt_wnd [kcp_inv]: "wf_kcp kcp \<Longrightarrow> wf_kcp (kcp\<lparr>rmt_wnd := ucast (w :: u16)\<rparr>)"
  using unsigned_less [of w, where 'a = nat] by (simp add: wf_kcp_def)

lemma wf_probe [kcp_inv]: "wf_kcp kcp \<Longrightarrow> wf_kcp (kcp\<lparr>probe := p\<rparr>)"
  by (simp add: wf_kcp_def)

lemma input_ack_wf [kcp_inv]: "wf_kcp kcp \<Longrightarrow> wf_kcp (input_ack kcp sn ts)"
  by (simp add: input_ack_def Let_def kcp_inv)

lemma sint_nonneg_uint: "0 \<le> sint (w :: u32) \<Longrightarrow> uint w < 2 ^ 31"
  by (simp only: sint_nonneg_iff unat_less_2p31_iff)

lemma header_seg_ok:
  assumes "int (length d) \<ge> uint (h_len h)" and "0 \<le> sint (h_len h)"
    and "length (seg_data seg) = unat (h_len h)"
  shows "seg_ok (header_seg seg h d)"
proof -
  have "unat (h_len h) < 2 ^ 31"
    using assms(2) by (simp only: sint_nonneg_iff)
  moreover have "int (unat (h_len h)) \<le> int (length d)"
    using assms(1) by simp
  then have "unat (h_len h) \<le> length d"
    by (simp only: of_nat_le_iff)
  ultimately show ?thesis
    using assms(3) by (simp add: header_seg_def seg_ok_def Let_def)
qed

text \<open>The two length checks of the loop.\<close>

definition len_ok :: "in_header \<Rightarrow> byte list \<Rightarrow> bool" where
  "len_ok h d \<longleftrightarrow> \<not> (int (length d) < uint (h_len h) \<or> sint (h_len h) < 0)"

lemma length_new_seg: "ikcp_segment_new al n = Some seg \<Longrightarrow> length (seg_data seg) = n"
  by (auto simp: ikcp_segment_new_def split: if_splits)

lemma input_push_wf [kcp_result]:
  assumes "wf_kcp kcp" and "len_ok h d" and "input_push al kcp h d = Some kcp'"
  shows "wf_kcp kcp'"
  using assms
  by (auto simp: input_push_def len_ok_def not_less split: if_splits option.splits
      dest!: length_new_seg intro: ack_push_wf intro!: parse_data_wf header_seg_ok)

lemma input_header_frame [kcp_frame, simp]:
  "conv (input_header kcp h) = conv kcp" "mtu (input_header kcp h) = mtu kcp"
  "mss (input_header kcp h) = mss kcp" "state (input_header kcp h) = state kcp"
  "snd_nxt (input_header kcp h) = snd_nxt kcp" "rcv_nxt (input_header kcp h) = rcv_nxt kcp"
  "ssthresh (input_header kcp h) = ssthresh kcp"
  "rx_rttval (input_header kcp h) = rx_rttval kcp" "rx_srtt (input_header kcp h) = rx_srtt kcp"
  "rx_rto (input_header kcp h) = rx_rto kcp" "rx_minrto (input_header kcp h) = rx_minrto kcp"
  "snd_wnd (input_header kcp h) = snd_wnd kcp" "rcv_wnd (input_header kcp h) = rcv_wnd kcp"
  "cwnd (input_header kcp h) = cwnd kcp" "probe (input_header kcp h) = probe kcp"
  "current (input_header kcp h) = current kcp" "interval (input_header kcp h) = interval kcp"
  "ts_flush (input_header kcp h) = ts_flush kcp" "xmit (input_header kcp h) = xmit kcp"
  "nrcv_buf (input_header kcp h) = nrcv_buf kcp" "nrcv_que (input_header kcp h) = nrcv_que kcp"
  "nsnd_que (input_header kcp h) = nsnd_que kcp" "nodelay (input_header kcp h) = nodelay kcp"
  "updated (input_header kcp h) = updated kcp" "ts_probe (input_header kcp h) = ts_probe kcp"
  "probe_wait (input_header kcp h) = probe_wait kcp"
  "dead_link (input_header kcp h) = dead_link kcp" "incr (input_header kcp h) = incr kcp"
  "snd_queue (input_header kcp h) = snd_queue kcp"
  "rcv_queue (input_header kcp h) = rcv_queue kcp" "rcv_buf (input_header kcp h) = rcv_buf kcp"
  "acklist (input_header kcp h) = acklist kcp" "ackcount (input_header kcp h) = ackcount kcp"
  "ackblock (input_header kcp h) = ackblock kcp" "buffer (input_header kcp h) = buffer kcp"
  "fastresend (input_header kcp h) = fastresend kcp"
  "fastlimit (input_header kcp h) = fastlimit kcp" "nocwnd (input_header kcp h) = nocwnd kcp"
  "stream (input_header kcp h) = stream kcp" "output_set (input_header kcp h) = output_set kcp"
  by (simp_all add: input_header_def Let_def)

lemma input_ack_frame [kcp_frame, simp]:
  "conv (input_ack kcp sn ts) = conv kcp" "mtu (input_ack kcp sn ts) = mtu kcp"
  "mss (input_ack kcp sn ts) = mss kcp" "state (input_ack kcp sn ts) = state kcp"
  "snd_nxt (input_ack kcp sn ts) = snd_nxt kcp" "rcv_nxt (input_ack kcp sn ts) = rcv_nxt kcp"
  "ssthresh (input_ack kcp sn ts) = ssthresh kcp"
  "rx_minrto (input_ack kcp sn ts) = rx_minrto kcp"
  "snd_wnd (input_ack kcp sn ts) = snd_wnd kcp" "rcv_wnd (input_ack kcp sn ts) = rcv_wnd kcp"
  "rmt_wnd (input_ack kcp sn ts) = rmt_wnd kcp" "cwnd (input_ack kcp sn ts) = cwnd kcp"
  "probe (input_ack kcp sn ts) = probe kcp" "current (input_ack kcp sn ts) = current kcp"
  "interval (input_ack kcp sn ts) = interval kcp"
  "ts_flush (input_ack kcp sn ts) = ts_flush kcp" "xmit (input_ack kcp sn ts) = xmit kcp"
  "nrcv_buf (input_ack kcp sn ts) = nrcv_buf kcp"
  "nrcv_que (input_ack kcp sn ts) = nrcv_que kcp"
  "nsnd_que (input_ack kcp sn ts) = nsnd_que kcp" "nodelay (input_ack kcp sn ts) = nodelay kcp"
  "updated (input_ack kcp sn ts) = updated kcp" "ts_probe (input_ack kcp sn ts) = ts_probe kcp"
  "probe_wait (input_ack kcp sn ts) = probe_wait kcp"
  "dead_link (input_ack kcp sn ts) = dead_link kcp" "incr (input_ack kcp sn ts) = incr kcp"
  "snd_queue (input_ack kcp sn ts) = snd_queue kcp"
  "rcv_queue (input_ack kcp sn ts) = rcv_queue kcp"
  "rcv_buf (input_ack kcp sn ts) = rcv_buf kcp" "acklist (input_ack kcp sn ts) = acklist kcp"
  "ackcount (input_ack kcp sn ts) = ackcount kcp"
  "ackblock (input_ack kcp sn ts) = ackblock kcp" "buffer (input_ack kcp sn ts) = buffer kcp"
  "fastresend (input_ack kcp sn ts) = fastresend kcp"
  "fastlimit (input_ack kcp sn ts) = fastlimit kcp" "nocwnd (input_ack kcp sn ts) = nocwnd kcp"
  "stream (input_ack kcp sn ts) = stream kcp"
  "output_set (input_ack kcp sn ts) = output_set kcp"
  by (simp_all add: input_ack_def Let_def)

lemma input_header_wf [kcp_inv]: "wf_kcp kcp \<Longrightarrow> wf_kcp (input_header kcp h)"
  unfolding input_header_def Let_def by (intro kcp_inv)

lemma input_command_cases:
  assumes "input_command al k h d tr = Some (kcp', tr')"
  shows "kcp' = input_ack k (h_sn h) (h_ts h) \<or> input_push al k h d = Some kcp' \<or>
     kcp' = k\<lparr>probe := probe k OR IKCP_ASK_TELL\<rparr> \<or> kcp' = k"
  using assms by (cases "input_push al k h d") (auto simp: input_command_def split: if_splits)

lemma input_segment_wf [kcp_result]:
  assumes "wf_kcp kcp" and "len_ok h d" and "input_segment al kcp h d tr = Some (kcp', tr')"
  shows "wf_kcp kcp'"
  using input_command_cases [OF assms(3) [unfolded input_segment_def]]
    input_header_wf [OF assms(1)] assms(2) input_ack_wf wf_probe input_push_wf by blast

text \<open>
  Rule for invariants of the loop: a property that every segment of the datagram keeps
  holds when the loop ends. \<open>dgram_segs\<close> lists the segments the loop can reach.
\<close>

function dgram_segs :: "byte list \<Rightarrow> (in_header \<times> byte list) list" where
  "dgram_segs d =
     (if length d < 24 then []
      else case decode_header d of
        None \<Rightarrow> []
      | Some (h, d') \<Rightarrow> (h, d') # dgram_segs (drop (unat (h_len h)) d'))"
  by pat_completeness auto
termination
  by (relation "measure length") (auto simp: decode_header_Some_iff)

declare dgram_segs.simps [simp del]

lemma input_loop_elim:
  assumes "input_loop al kcp d tr = Some (r, kcp', tr')"
  obtains "kcp' = kcp"
  | h d' k tr1 where "d = header_bytes h @ d'"
      "dgram_segs d = (h, d') # dgram_segs (drop (unat (h_len h)) d')"
      "h_conv h = conv kcp" "len_ok h d'" "known_cmd (h_cmd h)"
      "input_segment al kcp h d' tr = Some (k, tr1)"
      "input_loop al k (drop (unat (h_len h)) d') tr1 = Some (r, kcp', tr')"
proof (cases "length d < 24")
  case True
  with assms show thesis by (intro that(1)) (simp add: input_loop.simps [of al kcp d])
next
  case big: False
  then obtain h d' where dec: "decode_header d = Some (h, d')"
    using assms by (auto simp: input_loop.simps [of al kcp d] split: option.splits)
  have segs: "dgram_segs d = (h, d') # dgram_segs (drop (unat (h_len h)) d')"
    using big dec by (simp add: dgram_segs.simps [of d])
  show thesis
  proof (cases "h_conv h = conv kcp \<and> len_ok h d' \<and> known_cmd (h_cmd h)")
    case False
    with big dec assms show thesis
      by (intro that(1)) (auto simp: input_loop.simps [of al kcp d] len_ok_def split: if_splits)
  next
    case True
    then obtain k tr1 where "input_segment al kcp h d' tr = Some (k, tr1)"
      "input_loop al k (drop (unat (h_len h)) d') tr1 = Some (r, kcp', tr')"
      using big dec assms
      by (auto simp: input_loop.simps [of al kcp d] len_ok_def split: option.splits)
    with True segs dec show thesis
      by (intro that(2) [of h d' k tr1]) (simp_all add: decode_header_Some_iff)
  qed
qed

lemma input_loop_inv:
  assumes "P kcp" and "input_loop al kcp d tr = Some (r, kcp', tr')"
    and "\<And>k h d' t k' t'. P k \<Longrightarrow> (h, d') \<in> set (dgram_segs d) \<Longrightarrow> h_conv h = conv k \<Longrightarrow>
      len_ok h d' \<Longrightarrow> known_cmd (h_cmd h) \<Longrightarrow> input_segment al k h d' t = Some (k', t') \<Longrightarrow> P k'"
  shows "P kcp'"
  using assms
proof (induction d arbitrary: kcp tr rule: measure_induct_rule [of length])
  case (less d)
  note step = less.prems(3)
  from less.prems(2) show ?case
  proof (cases rule: input_loop_elim)
    case 1
    with less.prems(1) show ?thesis by simp
  next
    case (2 h d' k tr1)
    have "P k"
      by (rule step [OF less.prems(1) _ 2(3-6)]) (simp add: 2(2))
    moreover have "length (drop (unat (h_len h)) d') < length d"
      by (simp add: 2(1))
    ultimately show ?thesis
      using less.IH [OF _ _ 2(7)] step unfolding 2(2) by (meson list.set_intros(2))
  qed
qed

lemma input_loop_wf:
  assumes "wf_kcp kcp" and "input_loop al kcp d tr = Some (r, kcp', tr')"
  shows "wf_kcp kcp'"
  using assms by (rule input_loop_inv) (rule input_segment_wf)

lemma cwnd_grow_wf [kcp_result]: "cwnd_grow kcp = Some kcp' \<Longrightarrow> wf_kcp kcp \<Longrightarrow> wf_kcp kcp'"
  by (auto simp: cwnd_grow_def wf_kcp_def Let_def split: if_splits)

lemma input_cwnd_wf [kcp_result]: "input_cwnd kcp = Some kcp' \<Longrightarrow> wf_kcp kcp \<Longrightarrow> wf_kcp kcp'"
  using cwnd_grow_wf by (auto simp: input_cwnd_def wf_kcp_def Let_def split: if_splits)

lemma ikcp_input_wf [kcp_result]:
  assumes "wf_kcp kcp" and "ikcp_input al kcp buf = Some (r, kcp')"
  shows "wf_kcp kcp'"
proof -
  consider "kcp' = kcp"
    | d k tr where "input_loop al kcp d \<lparr>ack_flag = False, maxack = 0, latest_ts = 0\<rparr> = Some (r, k, tr)"
        "kcp' = k \<or> kcp' = ikcp_parse_fastack k (maxack tr) (latest_ts tr) \<or>
         input_cwnd k = Some kcp' \<or>
         input_cwnd (ikcp_parse_fastack k (maxack tr) (latest_ts tr)) = Some kcp'"
    using assms(2) by (auto simp: ikcp_input_def Let_def split: option.splits if_splits)
  then show ?thesis
    by cases (use assms(1) input_loop_wf input_cwnd_wf parse_fastack_wf in blast)+
qed

subsection \<open>The input always returns\<close>

lemma acks_wf_cong:
  "acklist k = acklist k' \<Longrightarrow> ackcount k = ackcount k' \<Longrightarrow> ackblock k = ackblock k' \<Longrightarrow>
   acks_wf k \<longleftrightarrow> acks_wf k'"
  by (simp add: acks_wf_def cong: option.case_cong)

text \<open>What a step of the loop keeps: acknowledgements well formed, at most one more, \<open>mss\<close>.\<close>

definition acks_step :: "IKCPCB \<Rightarrow> nat \<Rightarrow> IKCPCB \<Rightarrow> bool" where
  "acks_step k n k' \<longleftrightarrow> acks_wf k' \<and> unat (ackcount k') \<le> unat (ackcount k) + n \<and> mss k' = mss k"

lemma acks_step_same:
  "acks_wf k \<Longrightarrow> acklist k' = acklist k \<Longrightarrow> ackcount k' = ackcount k \<Longrightarrow> ackblock k' = ackblock k \<Longrightarrow>
   mss k' = mss k \<Longrightarrow> acks_step k n k'"
  using acks_wf_cong [of k' k] by (simp add: acks_step_def)

lemma ack_push_step:
  assumes "acks_wf k" and "grants_all al" and "unat (ackcount k) < 2 ^ 31"
  obtains k' where "ikcp_ack_push al k sn ts = Some k'" and "acks_step k 1 k'"
proof -
  obtain k' where k': "ikcp_ack_push al k sn ts = Some k'" "acks_wf k'"
      "pending_acks k' = pending_acks k @ [(sn, ts)]"
    using ikcp_ack_push_append [OF assms] by blast
  have "unat (ackcount k') = Suc (unat (ackcount k))"
    using arg_cong [OF k'(3), of length] by (simp add: pending_acks_def)
  moreover have "mss k' = mss k"
    by (subst ack_push_frame [OF k'(1)]) simp
  ultimately have "acks_step k 1 k'"
    using k'(2) unfolding acks_step_def by linarith
  with k'(1) show thesis by (rule that)
qed

lemma input_push_total:
  assumes "acks_wf k" and "grants_all al" and "unat (ackcount k) < 2 ^ 31"
  shows "\<exists>k'. input_push al k h d = Some k' \<and> acks_step k 1 k'"
proof -
  obtain k' where k': "ikcp_ack_push al k (h_sn h) (h_ts h) = Some k'" "acks_step k 1 k'"
    using ack_push_step [OF assms] by blast
  obtain seg where seg: "ikcp_segment_new al (unat (h_len h)) = Some seg"
    using assms(2) by (simp add: ikcp_segment_new_def)
  have "acks_step k 1 (ikcp_parse_data k' s)" for s
    using k'(2) acks_wf_cong [of "ikcp_parse_data k' s" k'] by (simp add: acks_step_def)
  with k' seg show ?thesis
    using acks_step_same [OF assms(1) refl refl refl refl]
    by (auto simp: input_push_def)
qed

lemma input_segment_total:
  assumes "acks_wf k" and "grants_all al" and "unat (ackcount k) < 2 ^ 31"
  shows "\<exists>k' tr'. input_segment al k h d tr = Some (k', tr') \<and> acks_step k 1 k'"
proof -
  let ?k = "input_header k h"
  have wf: "acks_wf ?k"
    using assms(1) acks_wf_cong [of ?k k] by simp
  have step: "acks_step k 1 k'" if "acks_step ?k 1 k'" for k'
    using that by (simp add: acks_step_def)
  obtain k' where k': "input_push al ?k h d = Some k'" "acks_step ?k 1 k'"
    using input_push_total [OF wf assms(2)] assms(3) by auto
  have "acks_step ?k 1 (input_ack ?k sn ts)" for sn ts
    by (rule acks_step_same [OF wf]) simp_all
  moreover have "acks_step ?k 1 (?k\<lparr>probe := p\<rparr>)" for p
    by (rule acks_step_same [OF wf]) simp_all
  moreover have "acks_step ?k 1 ?k"
    by (rule acks_step_same [OF wf]) simp_all
  ultimately show ?thesis
    using k' step unfolding input_segment_def input_command_def by simp
qed

lemma input_loop_total:
  assumes "acks_wf k" and "grants_all al" and "unat (ackcount k) + length d div 24 < 2 ^ 31"
  shows "\<exists>r k' tr'. input_loop al k d tr = Some (r, k', tr') \<and> r \<in> {0, - 1, - 2, - 3} \<and>
     acks_step k (length d div 24) k'"
  using assms
proof (induction d arbitrary: k tr rule: measure_induct_rule [of length])
  case (less d)
  have same: "acks_step k n k" for n
    by (rule acks_step_same [OF less.prems(1)]) simp_all
  show ?case
  proof (cases "length d < 24")
    case True
    with same show ?thesis by (subst input_loop.simps) simp
  next
    case big: False
    obtain h d' where dec: "decode_header d = Some (h, d')"
      using big decode_header_total [of d] by force
    have len: "length d = 24 + length d'"
      using dec by (simp add: decode_header_Some_iff)
    then have div: "length d div 24 = Suc (length d' div 24)"
      by simp
    have small: "unat (ackcount k) < 2 ^ 31"
      using less.prems(3) by linarith
    obtain k1 tr1 where k1: "input_segment al k h d' tr = Some (k1, tr1)" "acks_step k 1 k1"
      using input_segment_total [OF less.prems(1,2) small] by blast
    let ?d = "drop (unat (h_len h)) d'"
    have le: "length ?d div 24 \<le> length d' div 24"
      by (intro div_le_mono) simp
    have shorter: "length ?d < length d" and wf1: "acks_wf k1"
      and bound1: "unat (ackcount k1) + length ?d div 24 < 2 ^ 31"
      using k1(2) len le div less.prems(3) by (simp_all add: acks_step_def)
    obtain r k2 tr2 where k2: "input_loop al k1 ?d tr1 = Some (r, k2, tr2)"
        "r \<in> {0, - 1, - 2, - 3}" "acks_step k1 (length ?d div 24) k2"
      using less.IH [of ?d k1 tr1] less.prems(2) shorter wf1 bound1 by blast
    have "acks_step k (length d div 24) k2"
      using k1(2) k2(3) le div by (simp add: acks_step_def)
    with big dec k1 k2 same show ?thesis
      by (subst input_loop.simps) simp
  qed
qed

lemma cwnd_grow_total: "0 < mss k \<Longrightarrow> cwnd_grow k \<noteq> None"
  by (auto simp: cwnd_grow_def Let_def not_less word_gt_0)

lemma input_cwnd_total: "0 < mss k \<Longrightarrow> \<exists>k'. input_cwnd k = Some k'"
  using cwnd_grow_total [of k] by (auto simp: input_cwnd_def)

lemma cwnd_grow_frame:
  "cwnd_grow k = Some k' \<Longrightarrow> k' = k\<lparr>cwnd := cwnd k', incr := incr k'\<rparr>"
  by (auto simp: cwnd_grow_def Let_def split: if_splits)

lemma input_cwnd_frame:
  "input_cwnd k = Some k' \<Longrightarrow> k' = k\<lparr>cwnd := cwnd k', incr := incr k'\<rparr>"
proof (cases "cwnd k < rmt_wnd k")
  case True
  assume res: "input_cwnd k = Some k'"
  with True obtain z where "cwnd_grow k = Some z"
    by (auto simp: input_cwnd_def)
  moreover from this obtain c i where "z = k\<lparr>cwnd := c, incr := i\<rparr>"
    using cwnd_grow_frame by blast
  ultimately show ?thesis
    using res True by (auto simp: input_cwnd_def split: if_splits)
qed (simp add: input_cwnd_def)

lemma input_cwnd_acks: "input_cwnd k = Some k' \<Longrightarrow> acks_wf k \<Longrightarrow> acks_wf k'"
  by (drule input_cwnd_frame, erule ssubst) (simp add: acks_wf_def cong: option.case_cong)

lemma ikcp_input_total:
  assumes "acks_wf k" and "0 < mss k" and "grants_all al"
    and "unat (ackcount k) + length (case buf of None \<Rightarrow> [] | Some d \<Rightarrow> d) div 24 < 2 ^ 31"
  shows "\<exists>r k'. ikcp_input al k buf = Some (r, k') \<and> r \<in> {0, - 1, - 2, - 3} \<and> acks_wf k'"
proof (cases "\<exists>d. buf = Some d \<and> \<not> i32 (int (length d)) < sint IKCP_OVERHEAD")
  case False
  with assms(1) show ?thesis
    by (auto simp: ikcp_input_def split: option.split)
next
  case True
  then obtain d where d: "buf = Some d" "\<not> i32 (int (length d)) < sint IKCP_OVERHEAD"
    by blast
  let ?tr = "\<lparr>ack_flag = False, maxack = 0, latest_ts = 0\<rparr>"
  obtain r k1 tr where loop: "input_loop al k d ?tr = Some (r, k1, tr)" "r \<in> {0, - 1, - 2, - 3}"
      "acks_step k (length d div 24) k1"
    using input_loop_total [OF assms(1,3), of d ?tr] assms(4) d(1) by auto
  define k2 where "k2 = (if ack_flag tr then ikcp_parse_fastack k1 (maxack tr) (latest_ts tr) else k1)"
  have k1: "acks_wf k1" "mss k1 = mss k"
    using loop(3) by (simp_all add: acks_step_def)
  then have k2: "acks_wf k2" "mss k2 = mss k"
    using acks_wf_cong [of k2 k1] by (simp_all add: k2_def)
  then obtain k3 where k3: "input_cwnd k2 = Some k3"
    using input_cwnd_total [of k2] assms(2) by auto
  then have "acks_wf k3"
    using k2 input_cwnd_acks by blast
  with d loop k1 k2 k3 show ?thesis
    by (auto simp: ikcp_input_def k2_def [symmetric])
qed

subsection \<open>Filing a data segment, specified\<close>

text \<open>The buffer with a segment put in its place, a repeated number ignored.\<close>

definition rcv_merge :: "u32 \<Rightarrow> IKCPSEG \<Rightarrow> IKCPSEG list \<Rightarrow> IKCPSEG list" where
  "rcv_merge nxt s q =
     (if seg_sn s \<in> seg_sn ` set q then q
      else filter (\<lambda>t. off nxt (seg_sn t) < off nxt (seg_sn s)) q @
           s # filter (\<lambda>t. off nxt (seg_sn s) < off nxt (seg_sn t)) q)"

lemma rcv_place_present:
  assumes ok: "rcv_ok nxt q" and sn: "off nxt sn < 2 ^ 31" and t: "t \<in> set q" "seg_sn t = sn"
  shows "rcv_place sn (rev q) [] = None"
proof (rule ccontr)
  assume "rcv_place sn (rev q) [] \<noteq> None"
  then obtain b a where "rcv_place sn (rev q) [] = Some (b, a)" by auto
  from rcv_place_sorted [OF ok sn this] t show False by auto
qed

lemma rcv_insert_merge:
  assumes wf: "wf_kcp kcp" and sn: "off (rcv_nxt kcp) (seg_sn s) < 2 ^ 31"
  shows "rcv_buf (rcv_insert kcp s) = rcv_merge (rcv_nxt kcp) s (rcv_buf kcp)"
proof -
  have ok: "rcv_ok (rcv_nxt kcp) (rcv_buf kcp)"
    using wf by (simp add: wf_kcp_def)
  show ?thesis
  proof (cases "seg_sn s \<in> seg_sn ` set (rcv_buf kcp)")
    case True
    then show ?thesis
      using rcv_place_present [OF ok sn] by (force simp: rcv_insert_def rcv_merge_def)
  next
    case False
    then have "rcv_place (seg_sn s) (rev (rcv_buf kcp)) [] \<noteq> None"
      using rcv_place_None [of "seg_sn s" "rev (rcv_buf kcp)" "[]"] by (metis imageI set_rev)
    then obtain b a where place: "rcv_place (seg_sn s) (rev (rcv_buf kcp)) [] = Some (b, a)"
      by auto
    note sorted = rcv_place_sorted [OF ok sn place]
    let ?lo = "\<lambda>t. off (rcv_nxt kcp) (seg_sn t) < off (rcv_nxt kcp) (seg_sn s)"
    let ?hi = "\<lambda>t. off (rcv_nxt kcp) (seg_sn s) < off (rcv_nxt kcp) (seg_sn t)"
    have "filter ?lo b = b" "filter ?hi a = a"
      using sorted(2,3) by (simp_all add: filter_id_conv)
    moreover have "filter ?lo a = []" "filter ?hi b = []"
      using sorted(2,3) by (fastforce simp: filter_empty_conv)+
    ultimately have "filter ?lo (b @ a) = b" "filter ?hi (b @ a) = a"
      by simp_all
    with False place show ?thesis
      by (simp add: rcv_insert_def rcv_merge_def sorted(1))
  qed
qed

lemma ready_len_max:
  assumes "k = ready_len q nxt que wnd"
  shows "drop k q = [] \<or> seg_sn (hd (drop k q)) \<noteq> nxt + of_nat k \<or> \<not> que + of_nat k < wnd"
  using assms
proof (induction q arbitrary: nxt que k)
  case (Cons s q)
  show ?case
  proof (cases "seg_sn s = nxt \<and> que < wnd")
    case True
    with Cons.prems Cons.IH [OF refl, of "nxt + 1" "que + 1"] show ?thesis
      by (simp add: add.assoc)
  next
    case False
    with Cons.prems show ?thesis by auto
  qed
qed simp

text \<open>The run that is moved stays within the window, counted without wrapping around.\<close>

lemma ready_len_room:
  "0 < ready_len q nxt que wnd \<Longrightarrow> unat que + ready_len q nxt que wnd \<le> unat wnd"
proof (induction q arbitrary: nxt que)
  case (Cons s q)
  then have less: "que < wnd" and sn: "seg_sn s = nxt"
    by (auto split: if_splits)
  then have "unat (que + 1) = unat que + 1" and "unat que < unat wnd"
    by (simp_all add: word_less_nat_alt, unat_arith)
  with Cons.IH [of "nxt + 1" "que + 1"] less sn show ?case
    by (cases "ready_len q (nxt + 1) (que + 1) wnd") simp_all
qed simp

subsection \<open>Properties\<close>

text \<open>
  C8: Whatever bytes a peer sends, \<open>ikcp_input\<close> returns one of its four codes and leaves
  the control block well formed, provided memory is granted and fewer than \<open>2 ^ 31\<close>
  acknowledgements wait: no read beyond the datagram, no abort, no division by zero.
\<close>

theorem ikcp_input_any_bytes:
  assumes "wf_kcp kcp" and "acks_wf kcp" and "0 < mss kcp" and "grants_all al"
    and "unat (ackcount kcp) + length d div 24 < 2 ^ 31"
  shows "\<exists>r kcp'. ikcp_input al kcp (Some d) = Some (r, kcp') \<and> r \<in> {0, - 1, - 2, - 3} \<and>
     wf_kcp kcp' \<and> acks_wf kcp'"
proof -
  obtain r k where "ikcp_input al kcp (Some d) = Some (r, k)" "r \<in> {0, - 1, - 2, - 3}" "acks_wf k"
    using ikcp_input_total [of kcp al "Some d"] assms by auto
  with ikcp_input_wf [OF assms(1)] show ?thesis by blast
qed

theorem ikcp_input_any_bytes_witness:
  "\<exists>r kcp'. ikcp_input malloc_all demo_kcp (Some [7, 0, 0, 0, 81]) = Some (r, kcp') \<and> wf_kcp kcp'"
  using ikcp_input_any_bytes [of demo_kcp malloc_all "[7, 0, 0, 0, 81]"]
  by (auto simp: acks_wf_def)

text \<open>
  A datagram shorter than one header, or one that starts with another conversation
  number, is refused with -1 and changes nothing.
\<close>

theorem ikcp_input_refused:
  assumes "length d < 24 \<or> (length d < 2 ^ 31 \<and> ikcp_getconv d \<noteq> Some (conv kcp))"
  shows "ikcp_input al kcp (Some d) = Some (- 1, kcp)"
proof (cases "length d < 24")
  case True
  then have "i32 (int (length d)) = int (length d)"
    by (intro i32_id) simp_all
  with True show ?thesis
    by (simp add: ikcp_input_def kcp_consts)
next
  case False
  then have i: "i32 (int (length d)) = int (length d)"
    using assms by (intro i32_id) simp_all
  obtain h where h: "decode_header d = Some (h, drop 24 d)"
    using False decode_header_total [of d] by force
  then have "ikcp_getconv d = Some (h_conv h)"
    using getconv_header by (metis decode_header_Some_iff)
  with assms False have "h_conv h \<noteq> conv kcp"
    by auto
  with False h i show ?thesis
    by (simp add: ikcp_input_def input_loop.simps kcp_consts)
qed

lemma snd_buf_input_ack:
  assumes "wf_kcp k"
  shows "snd_buf (input_ack k sn ts) = filter (\<lambda>s. seg_sn s \<noteq> sn) (snd_buf k)"
  using parse_ack_filter [OF assms] parse_ack_filter [OF ikcp_update_ack_wf [OF assms]]
  by (simp add: input_ack_def Let_def)

lemma snd_buf_input_header:
  assumes "wf_kcp k" and "off (snd_una k) (h_una h) \<le> off (snd_una k) (snd_nxt k)"
  shows "snd_buf (input_header k h) =
     filter (\<lambda>s. off (snd_una k) (h_una h) \<le> off (snd_una k) (seg_sn s)) (snd_buf k)"
  using parse_una_filter [OF wf_rmt_wnd [OF assms(1), of "h_wnd h"], of "h_una h"] assms(2)
  by (simp add: input_header_def)

lemma map_sn_parse_fastack:
  "map seg_sn (snd_buf (ikcp_parse_fastack k sn ts)) = map seg_sn (snd_buf k)"
  by (simp add: ikcp_parse_fastack_def fastack_loop_sn)

theorem ikcp_input_refused_witness:
  "ikcp_input malloc_all demo_kcp (Some [7, 0, 0, 0, 81]) = Some (- 1, demo_kcp)"
  using ikcp_input_refused [of "[7, 0, 0, 0, 81]" demo_kcp malloc_all] by simp

text \<open>
  C20: The header of an encoded segment is decoded to the fields that were encoded, cut to
  their width on the wire, and nothing of what follows it is consumed.
\<close>

theorem encode_decode_segment:
  "decode_header (ikcp_encode_seg [] s @ rest) =
     Some (\<lparr>h_conv = seg_conv s, h_cmd = ucast (seg_cmd s), h_frg = ucast (seg_frg s),
            h_wnd = ucast (seg_wnd s), h_ts = seg_ts s, h_sn = seg_sn s, h_una = seg_una s,
            h_len = seg_len s\<rparr>, rest)"
  using seg_header_eq [of s] by (simp add: seg_header_def decode_header_bytes seg_hdr_def)

text \<open>
  C17: A data segment inside the window is filed in its place among the segments that wait,
  a repeated number is dropped, and a run of segments next in sequence is moved to the queue,
  in order. Segments are moved only while the queue holds fewer than \<open>rcv_wnd\<close> of them, so a
  queue that receives any holds at most \<open>rcv_wnd\<close> afterwards; and the move stops only when no
  segment waits, the first that waits is not the next in sequence, or the queue holds
  \<open>rcv_wnd\<close> segments or more.
\<close>

theorem ikcp_parse_data_files:
  assumes "wf_kcp kcp" and "itimediff (seg_sn s) (rcv_nxt kcp + rcv_wnd kcp) < 0"
    and "itimediff (seg_sn s) (rcv_nxt kcp) \<ge> 0"
  shows "\<exists>k. let q = rcv_merge (rcv_nxt kcp) s (rcv_buf kcp); kcp' = ikcp_parse_data kcp s in
     rcv_queue kcp' = rcv_queue kcp @ take k q \<and> rcv_buf kcp' = drop k q \<and> k \<le> length q \<and>
     rcv_nxt kcp' = rcv_nxt kcp + of_nat k \<and> (\<forall>i < k. seg_sn (q ! i) = rcv_nxt kcp + of_nat i) \<and>
     rcv_wnd kcp' = rcv_wnd kcp \<and>
     (k = 0 \<or> length (rcv_queue kcp') \<le> unat (rcv_wnd kcp)) \<and>
     (rcv_buf kcp' = [] \<or> seg_sn (hd (rcv_buf kcp')) \<noteq> rcv_nxt kcp' \<or>
      unat (rcv_wnd kcp) \<le> length (rcv_queue kcp'))"
proof -
  let ?k = "rcv_insert kcp s" and ?q = "rcv_merge (rcv_nxt kcp) s (rcv_buf kcp)"
  let ?n = "ready_len ?q (rcv_nxt kcp) (nrcv_que kcp) (rcv_wnd kcp)"
  have "rcv_buf ?k = ?q"
    using assms(1,3) by (intro rcv_insert_merge) (simp_all only: itimediff_nonneg)
  then have k: "ikcp_parse_data kcp s = move_ready ?q ?k" "rcv_buf ?k = ?q"
    using assms(2,3) by (simp_all add: ikcp_parse_data_def)
  have que: "unat (nrcv_que kcp) = length (rcv_queue kcp)"
    using assms(1) by (simp add: wf_kcp_def unat_of_nat take_bit_nat_eq_self)
  have room: "?n = 0 \<or> length (rcv_queue kcp) + ?n \<le> unat (rcv_wnd kcp)"
    using ready_len_room [of ?q "rcv_nxt kcp" "nrcv_que kcp" "rcv_wnd kcp"] que by auto
  have stop: "unat (rcv_wnd kcp) \<le> length (rcv_queue kcp) + ?n"
    if "\<not> nrcv_que kcp + of_nat ?n < rcv_wnd kcp"
  proof -
    have "unat (rcv_wnd kcp) \<le> unat (nrcv_que kcp + of_nat ?n)"
      using that by (simp add: word_le_nat_alt not_less)
    also have "\<dots> \<le> length (rcv_queue kcp) + ?n"
      using que by (simp add: unat_word_ariths(1) unat_of_nat mod_simps)
    finally show ?thesis .
  qed
  define n where "n = ?n"
  have moved: "ikcp_parse_data kcp s = ?k\<lparr>rcv_buf := drop n ?q, nrcv_buf := nrcv_buf ?k - of_nat n,
      rcv_queue := rcv_queue kcp @ take n ?q, nrcv_que := nrcv_que kcp + of_nat n,
      rcv_nxt := rcv_nxt kcp + of_nat n\<rparr>" and wnd: "rcv_wnd ?k = rcv_wnd kcp"
    using k by (simp_all add: move_ready_eq n_def Let_def)
  have sn: "seg_sn (?q ! i) = rcv_nxt kcp + of_nat i" if "i < n" for i
    using ready_len_sn that unfolding n_def by blast
  have halt: "drop n ?q = [] \<or> seg_sn (hd (drop n ?q)) \<noteq> rcv_nxt kcp + of_nat n \<or>
      unat (rcv_wnd kcp) \<le> length (rcv_queue kcp) + n"
    using ready_len_max [OF n_def] stop unfolding n_def by blast
  have "n \<le> length ?q" unfolding n_def by (rule ready_len_le)
  then show ?thesis
    using moved wnd sn halt room [folded n_def] by (intro exI [of _ n]) (simp add: Let_def)
qed

theorem ikcp_parse_data_files_witness:
  "\<exists>k. rcv_queue (ikcp_parse_data demo_kcp (demo_seg 4 0 [5])) =
     rcv_queue demo_kcp @ take k [demo_seg 4 0 [5], demo_seg 6 0 [13]] \<and>
     (k = 0 \<or> length (rcv_queue (ikcp_parse_data demo_kcp (demo_seg 4 0 [5]))) \<le>
        unat (rcv_wnd demo_kcp))"
  using ikcp_parse_data_files [of demo_kcp "demo_seg 4 0 [5]"]
  by (auto simp: rcv_merge_def itimediff_def Let_def off_def)



end
