(* ===== verification/Ikcp_Flush.thy ===== *)
theory Ikcp_Flush
  imports Ikcp_Ack "HOL-Library.Monad_Syntax"
begin

section \<open>Flushing and the clock (ikcp.c, lines 901 to 1182)\<close>

text \<open>
  \<open>ikcp_flush\<close> writes acknowledgements, window probes and data segments into the output
  buffer and hands the buffer to the output callback whenever the next segment would make
  it longer than the mtu. The model keeps the bytes from \<open>buffer\<close> to \<open>ptr\<close> and the
  datagrams handed over so far; a write past the capacity of the buffer and a missing
  callback are \<open>None\<close>. \<open>ikcp_update\<close> decides when to flush, \<open>ikcp_check\<close> when to call it.
\<close>

unbundle bit_operations_syntax

subsection \<open>The output buffer\<close>

text \<open>The bytes from \<open>buffer\<close> to \<open>ptr\<close>, and the datagrams sent, oldest first.\<close>

record flush_out =
  fo_ptr :: "byte list"
  fo_sent :: "byte list list"

definition flush_send :: "IKCPCB \<Rightarrow> flush_out \<Rightarrow> flush_out option" where
  "flush_send kcp fo = do {
     ds \<leftarrow> ikcp_output kcp (fo_ptr fo);
     Some \<lparr>fo_ptr = [], fo_sent = fo_sent fo @ ds\<rparr>}"

definition flush_room :: "IKCPCB \<Rightarrow> int \<Rightarrow> flush_out \<Rightarrow> flush_out option" where
  "flush_room kcp need fo =
     (if int (length (fo_ptr fo)) + need > sint (mtu kcp) then flush_send kcp fo else Some fo)"

definition flush_write :: "IKCPCB \<Rightarrow> byte list \<Rightarrow> flush_out \<Rightarrow> flush_out option" where
  "flush_write kcp bs fo =
     (if length (fo_ptr fo) + length bs \<le> buffer kcp then Some (fo\<lparr>fo_ptr := fo_ptr fo @ bs\<rparr>)
      else None)"

subsection \<open>Acknowledgements and probes (lines 918 to 983)\<close>

definition flush_seg_init :: "IKCPCB \<Rightarrow> IKCPSEG" where
  "flush_seg_init kcp =
     \<lparr>seg_conv = conv kcp, seg_cmd = IKCP_CMD_ACK, seg_frg = 0,
      seg_wnd = word_of_int (ikcp_wnd_unused kcp), seg_ts = 0, seg_sn = 0, seg_una = rcv_nxt kcp,
      seg_len = 0, seg_resendts = 0, seg_rto = 0, seg_fastack = 0, seg_xmit = 0, seg_data = []\<rparr>"

fun flush_acks :: "IKCPCB \<Rightarrow> nat \<Rightarrow> nat \<Rightarrow> IKCPSEG \<Rightarrow> flush_out \<Rightarrow> (IKCPSEG \<times> flush_out) option"
where
  "flush_acks kcp i 0 seg fo = Some (seg, fo)"
| "flush_acks kcp i (Suc n) seg fo = do {
     fo \<leftarrow> flush_room kcp (sint IKCP_OVERHEAD) fo;
     let (sn, ts) = ikcp_ack_get kcp i;
     let seg = seg\<lparr>seg_sn := sn, seg_ts := ts\<rparr>;
     fo \<leftarrow> flush_write kcp (ikcp_encode_seg [] seg) fo;
     flush_acks kcp (i + 1) n seg fo}"

definition flush_probe :: "IKCPCB \<Rightarrow> IKCPCB" where
  "flush_probe kcp =
     (if rmt_wnd kcp = 0
      then
        if probe_wait kcp = 0
        then let kcp = kcp\<lparr>probe_wait := IKCP_PROBE_INIT\<rparr>
             in kcp\<lparr>ts_probe := current kcp + probe_wait kcp\<rparr>
        else if itimediff (current kcp) (ts_probe kcp) \<ge> 0
        then
          let kcp = (if probe_wait kcp < IKCP_PROBE_INIT
                     then kcp\<lparr>probe_wait := IKCP_PROBE_INIT\<rparr> else kcp);
              kcp = kcp\<lparr>probe_wait := probe_wait kcp + probe_wait kcp div 2\<rparr>;
              kcp = (if probe_wait kcp > IKCP_PROBE_LIMIT
                     then kcp\<lparr>probe_wait := IKCP_PROBE_LIMIT\<rparr> else kcp);
              kcp = kcp\<lparr>ts_probe := current kcp + probe_wait kcp\<rparr>
          in kcp\<lparr>probe := probe kcp OR IKCP_ASK_SEND\<rparr>
        else kcp
      else kcp\<lparr>ts_probe := 0, probe_wait := 0\<rparr>)"

text \<open>One of the two window commands: sent when its bit of \<open>probe\<close> is set.\<close>

definition flush_cmd ::
  "IKCPCB \<Rightarrow> u32 \<Rightarrow> u32 \<Rightarrow> IKCPSEG \<times> flush_out \<Rightarrow> (IKCPSEG \<times> flush_out) option" where
  "flush_cmd kcp ask cmd sf =
     (case sf of (seg, fo) \<Rightarrow>
        if probe kcp AND ask \<noteq> 0
        then do {
          let seg = seg\<lparr>seg_cmd := cmd\<rparr>;
          fo \<leftarrow> flush_room kcp (sint IKCP_OVERHEAD) fo;
          fo \<leftarrow> flush_write kcp (ikcp_encode_seg [] seg) fo;
          Some (seg, fo)}
        else Some (seg, fo))"

subsection \<open>Into the send buffer (lines 985 to 1013)\<close>

definition flush_window :: "IKCPCB \<Rightarrow> u32" where
  "flush_window kcp =
     (let w = imin (snd_wnd kcp) (rmt_wnd kcp)
      in if nocwnd kcp = 0 then imin (cwnd kcp) w else w)"

definition flush_new_seg :: "IKCPCB \<Rightarrow> u32 \<Rightarrow> IKCPSEG \<Rightarrow> IKCPSEG" where
  "flush_new_seg kcp wnd s =
     s\<lparr>seg_conv := conv kcp, seg_cmd := IKCP_CMD_PUSH, seg_wnd := wnd, seg_ts := current kcp,
       seg_sn := snd_nxt kcp, seg_una := rcv_nxt kcp, seg_resendts := current kcp,
       seg_rto := word_of_int (rx_rto kcp), seg_fastack := 0, seg_xmit := 0\<rparr>"

fun flush_move :: "u32 \<Rightarrow> u32 \<Rightarrow> IKCPSEG list \<Rightarrow> IKCPCB \<Rightarrow> IKCPCB" where
  "flush_move cw wnd [] kcp = kcp"
| "flush_move cw wnd (s # q) kcp =
     (if itimediff (snd_nxt kcp) (snd_una kcp + cw) < 0
      then flush_move cw wnd q
             (kcp\<lparr>snd_queue := q, snd_buf := snd_buf kcp @ [flush_new_seg kcp wnd s],
                  nsnd_que := nsnd_que kcp - 1, nsnd_buf := nsnd_buf kcp + 1,
                  snd_nxt := snd_nxt kcp + 1\<rparr>)
      else kcp)"

subsection \<open>Data segments (lines 1015 to 1074)\<close>

text \<open>Why a segment is sent: for the first time, because it timed out, or was overtaken.\<close>

datatype send_reason = Send_first | Send_timeout | Send_fast | Send_not

definition flush_resent :: "IKCPCB \<Rightarrow> u32" where
  "flush_resent kcp = (if fastresend kcp > 0 then word_of_int (fastresend kcp) else 0xffffffff)"

definition flush_rtomin :: "IKCPCB \<Rightarrow> u32" where
  "flush_rtomin kcp = (if nodelay kcp = 0 then word_of_int (drop_bit 3 (rx_rto kcp)) else 0)"

definition send_reason_of :: "IKCPCB \<Rightarrow> IKCPSEG \<Rightarrow> send_reason" where
  "send_reason_of kcp s =
     (if seg_xmit s = 0 then Send_first
      else if itimediff (current kcp) (seg_resendts s) \<ge> 0 then Send_timeout
      else if seg_fastack s \<ge> flush_resent kcp
      then if sint (seg_xmit s) \<le> fastlimit kcp \<or> fastlimit kcp \<le> 0 then Send_fast else Send_not
      else Send_not)"

definition resend_seg :: "IKCPCB \<Rightarrow> send_reason \<Rightarrow> IKCPSEG \<Rightarrow> IKCPSEG" where
  "resend_seg kcp why s =
     (case why of
        Send_first \<Rightarrow>
          let s = s\<lparr>seg_xmit := seg_xmit s + 1, seg_rto := word_of_int (rx_rto kcp)\<rparr>
          in s\<lparr>seg_resendts := current kcp + seg_rto s + flush_rtomin kcp\<rparr>
      | Send_timeout \<Rightarrow>
          let s = s\<lparr>seg_xmit := seg_xmit s + 1,
                    seg_rto := seg_rto s + word_of_int
                      (if nodelay kcp = 0 then rx_rto kcp else rx_rto kcp sdiv 2)\<rparr>
          in s\<lparr>seg_resendts := current kcp + seg_rto s\<rparr>
      | Send_fast \<Rightarrow>
          s\<lparr>seg_xmit := seg_xmit s + 1, seg_fastack := 0,
            seg_resendts := current kcp + seg_rto s\<rparr>
      | Send_not \<Rightarrow> s)"

text \<open>The locals the loop carries beside the block and the output.\<close>

record flush_loop =
  fl_kcp :: IKCPCB
  fl_out :: flush_out
  fl_change :: int
  fl_lost :: bool

definition flush_segment :: "u32 \<Rightarrow> IKCPSEG \<Rightarrow> flush_loop \<Rightarrow> (IKCPSEG \<times> flush_loop) option" where
  "flush_segment wnd s fl =
     (let kcp = fl_kcp fl;
          why = send_reason_of kcp s;
          s = resend_seg kcp why s;
          fl = (case why of
                  Send_timeout \<Rightarrow> fl\<lparr>fl_kcp := kcp\<lparr>xmit := xmit kcp + 1\<rparr>, fl_lost := True\<rparr>
                | Send_fast \<Rightarrow> fl\<lparr>fl_change := fl_change fl + 1\<rparr>
                | _ \<Rightarrow> fl);
          kcp = fl_kcp fl
      in if why = Send_not then Some (s, fl)
      else do {
        let s = s\<lparr>seg_ts := current kcp, seg_wnd := wnd, seg_una := rcv_nxt kcp\<rparr>;
        fo \<leftarrow> flush_room kcp (sint (IKCP_OVERHEAD + seg_len s)) (fl_out fl);
        fo \<leftarrow> flush_write kcp (ikcp_encode_seg [] s) fo;
        fo \<leftarrow> (if seg_len s > 0
               then flush_write kcp (take (unat (seg_len s)) (seg_data s)) fo else Some fo);
        let kcp = (if seg_xmit s \<ge> dead_link kcp then kcp\<lparr>state := - 1\<rparr> else kcp);
        Some (s, fl\<lparr>fl_kcp := kcp, fl_out := fo\<rparr>)})"

fun flush_segments :: "u32 \<Rightarrow> IKCPSEG list \<Rightarrow> flush_loop \<Rightarrow> (IKCPSEG list \<times> flush_loop) option" where
  "flush_segments wnd [] fl = Some ([], fl)"
| "flush_segments wnd (s # q) fl = do {
     (s, fl) \<leftarrow> flush_segment wnd s fl;
     (q, fl) \<leftarrow> flush_segments wnd q fl;
     Some (s # q, fl)}"

subsection \<open>The congestion window (lines 1082 to 1103)\<close>

definition flush_cwnd :: "u32 \<Rightarrow> int \<Rightarrow> bool \<Rightarrow> IKCPCB \<Rightarrow> IKCPCB" where
  "flush_cwnd cw change lost kcp =
     (let kcp = (if change \<noteq> 0
            then
              let inflight = snd_nxt kcp - snd_una kcp;
                  kcp = kcp\<lparr>ssthresh := imax (inflight div 2) IKCP_THRESH_MIN\<rparr>;
                  kcp = kcp\<lparr>cwnd := ssthresh kcp + flush_resent kcp\<rparr>
              in kcp\<lparr>incr := cwnd kcp * mss kcp\<rparr>
            else kcp);
          kcp = (if lost
            then kcp\<lparr>ssthresh := imax (cw div 2) IKCP_THRESH_MIN, cwnd := 1, incr := mss kcp\<rparr>
            else kcp)
      in if cwnd kcp < 1 then kcp\<lparr>cwnd := 1, incr := mss kcp\<rparr> else kcp)"

subsection \<open>ikcp_flush\<close>

text \<open>Lines 918 to 983: what goes out before the data segments.\<close>

definition flush_control :: "IKCPCB \<Rightarrow> (IKCPCB \<times> flush_out) option" where
  "flush_control kcp = do {
     let seg = flush_seg_init kcp;
     (seg, fo) \<leftarrow> flush_acks kcp 0 (nat (sint (ackcount kcp))) seg \<lparr>fo_ptr = [], fo_sent = []\<rparr>;
     let kcp = kcp\<lparr>ackcount := 0\<rparr>;
     let kcp = flush_probe kcp;
     (seg, fo) \<leftarrow> flush_cmd kcp IKCP_ASK_SEND IKCP_CMD_WASK (seg, fo);
     (seg, fo) \<leftarrow> flush_cmd kcp IKCP_ASK_TELL IKCP_CMD_WINS (seg, fo);
     let kcp = kcp\<lparr>probe := 0\<rparr>;
     Some (kcp, fo)}"

definition ikcp_flush :: "IKCPCB \<Rightarrow> (IKCPCB \<times> byte list list) option" where
  "ikcp_flush kcp =
     (if updated kcp = 0 then Some (kcp, [])
      else do {
        let wnd = word_of_int (ikcp_wnd_unused kcp);
        (kcp, fo) \<leftarrow> flush_control kcp;
        let cw = flush_window kcp;
        let kcp = flush_move cw wnd (snd_queue kcp) kcp;
        (q, fl) \<leftarrow> flush_segments wnd (snd_buf kcp)
                    \<lparr>fl_kcp = kcp, fl_out = fo, fl_change = 0, fl_lost = False\<rparr>;
        let kcp = (fl_kcp fl)\<lparr>snd_buf := q\<rparr>;
        fo \<leftarrow> (if fo_ptr (fl_out fl) \<noteq> [] then flush_send kcp (fl_out fl) else Some (fl_out fl));
        Some (flush_cwnd cw (fl_change fl) (fl_lost fl) kcp, fo_sent fo)})"

subsection \<open>ikcp_update and ikcp_check (lines 1111 to 1182)\<close>

definition ikcp_update :: "IKCPCB \<Rightarrow> u32 \<Rightarrow> (IKCPCB \<times> byte list list) option" where
  "ikcp_update kcp cur =
     (let kcp = kcp\<lparr>current := cur\<rparr>;
          kcp = (if updated kcp = 0 then kcp\<lparr>updated := 1, ts_flush := current kcp\<rparr> else kcp);
          slap = itimediff (current kcp) (ts_flush kcp);
          (kcp, slap) = (if slap \<ge> 10000 \<or> slap < - 10000
                         then (kcp\<lparr>ts_flush := current kcp\<rparr>, 0) else (kcp, slap))
      in if slap \<ge> 0
         then
           let kcp = kcp\<lparr>ts_flush := ts_flush kcp + interval kcp\<rparr>;
               kcp = (if itimediff (current kcp) (ts_flush kcp) \<ge> 0
                      then kcp\<lparr>ts_flush := current kcp + interval kcp\<rparr> else kcp)
           in ikcp_flush kcp
         else Some (kcp, []))"

text \<open>The loop over \<open>snd_buf\<close>: \<open>None\<close> when a segment is due.\<close>

fun check_packets :: "u32 \<Rightarrow> IKCPSEG list \<Rightarrow> int \<Rightarrow> int option" where
  "check_packets cur [] tm_packet = Some tm_packet"
| "check_packets cur (s # q) tm_packet =
     (let diff = itimediff (seg_resendts s) cur
      in if diff \<le> 0 then None
         else check_packets cur q (if diff < tm_packet then diff else tm_packet))"

definition ikcp_check :: "IKCPCB \<Rightarrow> u32 \<Rightarrow> u32" where
  "ikcp_check kcp cur =
     (if updated kcp = 0 then cur
      else
        let tsf = (if itimediff cur (ts_flush kcp) \<ge> 10000 \<or> itimediff cur (ts_flush kcp) < - 10000
                   then cur else ts_flush kcp)
        in if itimediff cur tsf \<ge> 0 then cur
        else
          let tm_flush = itimediff tsf cur
          in case check_packets cur (snd_buf kcp) 0x7fffffff of
               None \<Rightarrow> cur
             | Some tm_packet \<Rightarrow>
                 let minimal = word_of_int (if tm_packet < tm_flush then tm_packet else tm_flush);
                     minimal = (if minimal \<ge> interval kcp then interval kcp else minimal)
                 in cur + minimal)"

subsection \<open>Moving into the send buffer\<close>

text \<open>How many queued segments the window admits, and how they are numbered.\<close>

fun move_len :: "u32 \<Rightarrow> u32 \<Rightarrow> IKCPSEG list \<Rightarrow> nat" where
  "move_len lim nxt [] = 0"
| "move_len lim nxt (s # q) = (if itimediff nxt lim < 0 then Suc (move_len lim (nxt + 1) q) else 0)"

fun numbered :: "IKCPCB \<Rightarrow> u32 \<Rightarrow> u32 \<Rightarrow> IKCPSEG list \<Rightarrow> IKCPSEG list" where
  "numbered kcp wnd nxt [] = []"
| "numbered kcp wnd nxt (s # q) =
     (flush_new_seg kcp wnd s)\<lparr>seg_sn := nxt\<rparr> # numbered kcp wnd (nxt + 1) q"

lemma move_len_le: "move_len lim nxt q \<le> length q"
  by (induction q arbitrary: nxt) auto

lemma length_numbered [simp]: "length (numbered kcp wnd nxt q) = length q"
  by (induction q arbitrary: nxt) auto

lemma numbered_cong:
  "conv k = conv k' \<Longrightarrow> current k = current k' \<Longrightarrow> rcv_nxt k = rcv_nxt k' \<Longrightarrow> rx_rto k = rx_rto k' \<Longrightarrow>
   numbered k wnd nxt q = numbered k' wnd nxt q"
  by (induction q arbitrary: nxt) (simp_all add: flush_new_seg_def)

lemma nth_numbered:
  "i < length q \<Longrightarrow>
   numbered kcp wnd nxt q ! i = (flush_new_seg kcp wnd (q ! i))\<lparr>seg_sn := nxt + of_nat i\<rparr>"
proof (induction q arbitrary: nxt i)
  case (Cons s q)
  then show ?case by (cases i) (simp_all add: add.assoc)
qed simp

lemma flush_move_eq:
  "snd_queue kcp = q \<Longrightarrow>
   flush_move cw wnd q kcp =
     (let n = move_len (snd_una kcp + cw) (snd_nxt kcp) q
      in kcp\<lparr>snd_queue := drop n q, snd_buf := snd_buf kcp @ numbered kcp wnd (snd_nxt kcp) (take n q),
             nsnd_que := nsnd_que kcp - of_nat n, nsnd_buf := nsnd_buf kcp + of_nat n,
             snd_nxt := snd_nxt kcp + of_nat n\<rparr>)"
proof (induction q arbitrary: kcp)
  case Nil
  then show ?case by simp
next
  case (Cons s q)
  let ?k = "kcp\<lparr>snd_queue := q, snd_buf := snd_buf kcp @ [flush_new_seg kcp wnd s],
      nsnd_que := nsnd_que kcp - 1, nsnd_buf := nsnd_buf kcp + 1, snd_nxt := snd_nxt kcp + 1\<rparr>"
  have "numbered ?k wnd nxt r = numbered kcp wnd nxt r" for nxt r
    by (rule numbered_cong) simp_all
  moreover have "(flush_new_seg kcp wnd s)\<lparr>seg_sn := snd_nxt kcp\<rparr> = flush_new_seg kcp wnd s"
    by (simp add: flush_new_seg_def)
  ultimately show ?case
    using Cons.IH [of ?k] Cons.prems
    by (cases "itimediff (snd_nxt kcp) (snd_una kcp + cw) < 0") (simp_all add: Let_def algebra_simps)
qed

lemma flush_move_frame [kcp_frame, simp]:
  "conv (flush_move cw wnd (snd_queue kcp) kcp) = conv kcp"
  "mtu (flush_move cw wnd (snd_queue kcp) kcp) = mtu kcp"
  "mss (flush_move cw wnd (snd_queue kcp) kcp) = mss kcp"
  "state (flush_move cw wnd (snd_queue kcp) kcp) = state kcp"
  "snd_una (flush_move cw wnd (snd_queue kcp) kcp) = snd_una kcp"
  "rcv_nxt (flush_move cw wnd (snd_queue kcp) kcp) = rcv_nxt kcp"
  "ssthresh (flush_move cw wnd (snd_queue kcp) kcp) = ssthresh kcp"
  "rx_rttval (flush_move cw wnd (snd_queue kcp) kcp) = rx_rttval kcp"
  "rx_srtt (flush_move cw wnd (snd_queue kcp) kcp) = rx_srtt kcp"
  "rx_rto (flush_move cw wnd (snd_queue kcp) kcp) = rx_rto kcp"
  "rx_minrto (flush_move cw wnd (snd_queue kcp) kcp) = rx_minrto kcp"
  "snd_wnd (flush_move cw wnd (snd_queue kcp) kcp) = snd_wnd kcp"
  "rcv_wnd (flush_move cw wnd (snd_queue kcp) kcp) = rcv_wnd kcp"
  "rmt_wnd (flush_move cw wnd (snd_queue kcp) kcp) = rmt_wnd kcp"
  "cwnd (flush_move cw wnd (snd_queue kcp) kcp) = cwnd kcp"
  "probe (flush_move cw wnd (snd_queue kcp) kcp) = probe kcp"
  "current (flush_move cw wnd (snd_queue kcp) kcp) = current kcp"
  "interval (flush_move cw wnd (snd_queue kcp) kcp) = interval kcp"
  "ts_flush (flush_move cw wnd (snd_queue kcp) kcp) = ts_flush kcp"
  "xmit (flush_move cw wnd (snd_queue kcp) kcp) = xmit kcp"
  "nrcv_buf (flush_move cw wnd (snd_queue kcp) kcp) = nrcv_buf kcp"
  "nrcv_que (flush_move cw wnd (snd_queue kcp) kcp) = nrcv_que kcp"
  "nodelay (flush_move cw wnd (snd_queue kcp) kcp) = nodelay kcp"
  "updated (flush_move cw wnd (snd_queue kcp) kcp) = updated kcp"
  "ts_probe (flush_move cw wnd (snd_queue kcp) kcp) = ts_probe kcp"
  "probe_wait (flush_move cw wnd (snd_queue kcp) kcp) = probe_wait kcp"
  "dead_link (flush_move cw wnd (snd_queue kcp) kcp) = dead_link kcp"
  "incr (flush_move cw wnd (snd_queue kcp) kcp) = incr kcp"
  "rcv_queue (flush_move cw wnd (snd_queue kcp) kcp) = rcv_queue kcp"
  "rcv_buf (flush_move cw wnd (snd_queue kcp) kcp) = rcv_buf kcp"
  "acklist (flush_move cw wnd (snd_queue kcp) kcp) = acklist kcp"
  "ackcount (flush_move cw wnd (snd_queue kcp) kcp) = ackcount kcp"
  "ackblock (flush_move cw wnd (snd_queue kcp) kcp) = ackblock kcp"
  "buffer (flush_move cw wnd (snd_queue kcp) kcp) = buffer kcp"
  "fastresend (flush_move cw wnd (snd_queue kcp) kcp) = fastresend kcp"
  "fastlimit (flush_move cw wnd (snd_queue kcp) kcp) = fastlimit kcp"
  "nocwnd (flush_move cw wnd (snd_queue kcp) kcp) = nocwnd kcp"
  "stream (flush_move cw wnd (snd_queue kcp) kcp) = stream kcp"
  "output_set (flush_move cw wnd (snd_queue kcp) kcp) = output_set kcp"
  by (simp_all add: flush_move_eq Let_def)

lemma snd_ok_snoc:
  assumes ok: "snd_ok una nxt q" and sn: "seg_sn s = nxt" and small: "Suc (off una nxt) < 2 ^ 16"
  shows "snd_ok una (nxt + 1) (q @ [s])"
proof -
  have succ: "off una (nxt + 1) = Suc (off una nxt)"
    using small by (intro off_succ) simp
  have "una = (case q @ [s] of [] \<Rightarrow> nxt + 1 | s # _ \<Rightarrow> seg_sn s)"
    using snd_okD(1) [OF ok] sn by (cases q) simp_all
  moreover have "sorted_wrt (<) (map (\<lambda>s. off una (seg_sn s)) (q @ [s]))"
    unfolding sorted_wrt_less_map_snoc using snd_okD(2,3) [OF ok] sn by blast
  moreover have "\<forall>t \<in> set (q @ [s]). off una (seg_sn t) < off una (nxt + 1)"
    using snd_okD(3) [OF ok] sn succ by (auto simp: less_Suc_eq)
  ultimately show ?thesis
    using small succ unfolding snd_ok_def by linarith
qed

lemma flush_window_le:
  assumes "wf_kcp kcp"
  shows "unat (flush_window kcp) < 2 ^ 16"
proof -
  have "flush_window kcp \<le> rmt_wnd kcp"
    by (auto simp: flush_window_def imin_def Let_def)
  with assms show ?thesis
    by (simp add: wf_kcp_def word_le_nat_alt)
qed

lemma window_test:
  assumes "off una nxt < 2 ^ 16" and "unat cw < 2 ^ 16"
  shows "itimediff nxt (una + cw) < 0 \<longleftrightarrow> off una nxt < unat cw"
proof -
  have cw: "off una (una + cw) = unat cw"
    by (simp add: off_def)
  then have "itimediff nxt (una + cw) = int (off una nxt) - int (unat cw)"
    using assms by (subst itimediff_off [of una]) simp_all
  then show ?thesis by linarith
qed

lemma flush_move_wf:
  assumes "wf_kcp kcp" and "unat cw < 2 ^ 16" and "snd_queue kcp = q"
  shows "wf_kcp (flush_move cw wnd q kcp) \<and>
     off (snd_una kcp) (snd_nxt (flush_move cw wnd q kcp)) \<le>
       max (off (snd_una kcp) (snd_nxt kcp)) (unat cw)"
  using assms
proof (induction q arbitrary: kcp)
  case Nil
  then show ?case by simp
next
  case (Cons s q)
  have wf: "wf_kcp kcp" and que: "snd_queue kcp = s # q"
    using Cons.prems by simp_all
  have small: "off (snd_una kcp) (snd_nxt kcp) < 2 ^ 16"
    using wf snd_okD(4) by (auto simp: wf_kcp_def)
  show ?case
  proof (cases "off (snd_una kcp) (snd_nxt kcp) < unat cw")
    case False
    then show ?thesis
      using wf window_test [OF small Cons.prems(2)] by simp
  next
    case True
    let ?k = "kcp\<lparr>snd_queue := q, snd_buf := snd_buf kcp @ [flush_new_seg kcp wnd s],
      nsnd_que := nsnd_que kcp - 1, nsnd_buf := nsnd_buf kcp + 1, snd_nxt := snd_nxt kcp + 1\<rparr>"
    have succ: "off (snd_una kcp) (snd_nxt kcp + 1) = Suc (off (snd_una kcp) (snd_nxt kcp))"
      using small by (intro off_succ) simp
    have "snd_ok (snd_una kcp) (snd_nxt kcp + 1) (snd_buf kcp @ [flush_new_seg kcp wnd s])"
      using wf True Cons.prems(2)
      by (intro snd_ok_snoc) (simp_all add: wf_kcp_def flush_new_seg_def)
    then have "wf_kcp ?k"
      using wf que by (simp add: wf_kcp_def flush_new_seg_def seg_ok_def)
    then have "wf_kcp (flush_move cw wnd q ?k) \<and> off (snd_una ?k) (snd_nxt (flush_move cw wnd q ?k)) \<le>
        max (off (snd_una ?k) (snd_nxt ?k)) (unat cw)"
      using Cons.prems(2) by (intro Cons.IH) simp_all
    with True succ show ?thesis
      using window_test [OF small Cons.prems(2)] by auto
  qed
qed

subsection \<open>Segments packed into datagrams\<close>

text \<open>
  The bytes of a segment on the wire, and the relation between the segments written so far
  and the output: every datagram is the bytes of whole segments, in the order of writing,
  is not empty and has at most \<open>M\<close> bytes.
\<close>

definition seg_wire :: "IKCPSEG \<Rightarrow> byte list" where
  "seg_wire s = seg_header s @ take (unat (seg_len s)) (seg_data s)"

definition segs_wire :: "IKCPSEG list \<Rightarrow> byte list" where
  "segs_wire g = concat (map seg_wire g)"

definition dgrams_ok :: "nat \<Rightarrow> IKCPSEG list list \<Rightarrow> byte list list \<Rightarrow> bool" where
  "dgrams_ok M gs ds \<longleftrightarrow> ds = map segs_wire gs \<and> (\<forall>d \<in> set ds. d \<noteq> [] \<and> length d \<le> M)"

definition packed :: "nat \<Rightarrow> IKCPSEG list \<Rightarrow> flush_out \<Rightarrow> bool" where
  "packed M segs fo \<longleftrightarrow>
     (\<exists>gs g. segs = concat gs @ g \<and> dgrams_ok M gs (fo_sent fo) \<and>
        fo_ptr fo = segs_wire g \<and> length (fo_ptr fo) \<le> M)"

definition out_ok :: "IKCPCB \<Rightarrow> bool" where
  "out_ok kcp \<longleftrightarrow> output_set kcp \<and> unat (mtu kcp) < 2 ^ 31 \<and> unat (mtu kcp) \<le> buffer kcp"

lemma seg_wire_not_Nil [simp]: "seg_wire s \<noteq> []"
  using length_seg_header [of s] by (auto simp: seg_wire_def simp del: length_seg_header)

lemma segs_wire_simps [simp]:
  "segs_wire [] = []" "segs_wire (s # g) = seg_wire s @ segs_wire g"
  "segs_wire (g @ h) = segs_wire g @ segs_wire h" "segs_wire g = [] \<longleftrightarrow> g = []"
  by (simp_all add: segs_wire_def)

lemma length_seg_wire: "seg_ok s \<Longrightarrow> length (seg_wire s) = 24 + unat (seg_len s)"
  by (simp add: seg_wire_def seg_ok_def)

lemma length_seg_wire_le: "length (seg_wire s) \<le> 24 + unat (seg_len s)"
  by (simp add: seg_wire_def)

lemma packed_Nil [simp]: "packed M [] \<lparr>fo_ptr = [], fo_sent = []\<rparr>"
  unfolding packed_def dgrams_ok_def by (intro exI [of _ "[]"]) simp

lemma flush_send_packed:
  assumes "packed M segs fo" and "out_ok kcp"
  obtains fo' where "flush_send kcp fo = Some fo'" and "packed M segs fo'" and "fo_ptr fo' = []"
proof -
  obtain gs g where g: "segs = concat gs @ g" "dgrams_ok M gs (fo_sent fo)"
      "fo_ptr fo = segs_wire g" "length (fo_ptr fo) \<le> M"
    using assms(1) by (auto simp: packed_def)
  show thesis
  proof (cases "g = []")
    case True
    let ?fo = "\<lparr>fo_ptr = [], fo_sent = fo_sent fo\<rparr>"
    have "packed M segs ?fo"
      unfolding packed_def using g True by (intro exI [of _ gs] exI [of _ "[]"]) simp
    with g True assms(2) show thesis
      by (intro that [of ?fo]) (simp_all add: flush_send_def ikcp_output_def out_ok_def)
  next
    case False
    let ?fo = "\<lparr>fo_ptr = [], fo_sent = fo_sent fo @ [segs_wire g]\<rparr>"
    have "packed M segs ?fo"
      unfolding packed_def using g False
      by (intro exI [of _ "gs @ [g]"] exI [of _ "[]"]) (auto simp: dgrams_ok_def)
    with g False assms(2) show thesis
      by (intro that [of ?fo]) (simp_all add: flush_send_def ikcp_output_def out_ok_def)
  qed
qed

lemma flush_room_packed:
  assumes "packed (unat (mtu kcp)) segs fo" and "out_ok kcp" and "n \<le> unat (mtu kcp)"
  obtains fo' where "flush_room kcp (int n) fo = Some fo'" and "packed (unat (mtu kcp)) segs fo'"
    and "length (fo_ptr fo') + n \<le> unat (mtu kcp)"
proof -
  define m where "m = unat (mtu kcp)"
  have mtu: "sint (mtu kcp) = int m"
    using assms(2) by (simp only: out_ok_def sint_small m_def)
  show thesis
  proof (cases "length (fo_ptr fo) + n \<le> m")
    case True
    then show thesis
      using assms mtu by (intro that [of fo]) (simp_all add: flush_room_def m_def [symmetric])
  next
    case False
    obtain fo' where "flush_send kcp fo = Some fo'" "packed (unat (mtu kcp)) segs fo'" "fo_ptr fo' = []"
      using flush_send_packed [OF assms(1,2)] by blast
    with False mtu assms(3) show thesis
      by (intro that [of fo']) (simp_all add: flush_room_def m_def [symmetric])
  qed
qed

lemma flush_write_packed:
  assumes "packed (unat (mtu kcp)) segs fo" and "out_ok kcp"
    and "length (fo_ptr fo) + length (seg_wire s) \<le> unat (mtu kcp)"
  obtains fo' where "packed (unat (mtu kcp)) (segs @ [s]) fo'"
    and "do { fo \<leftarrow> flush_write kcp (ikcp_encode_seg [] s) fo;
              (if seg_len s > 0
               then flush_write kcp (take (unat (seg_len s)) (seg_data s)) fo else Some fo)} = Some fo'"
proof -
  let ?fo = "fo\<lparr>fo_ptr := fo_ptr fo @ seg_wire s\<rparr>"
  obtain gs g where "segs = concat gs @ g" "dgrams_ok (unat (mtu kcp)) gs (fo_sent fo)"
      "fo_ptr fo = segs_wire g"
    using assms(1) by (auto simp: packed_def)
  then have "packed (unat (mtu kcp)) (segs @ [s]) ?fo"
    unfolding packed_def using assms(3)
    by (intro exI [of _ gs] exI [of _ "g @ [s]"]) simp
  moreover have "length (fo_ptr fo) + (24 + length (take (unat (seg_len s)) (seg_data s))) \<le> buffer kcp"
    using assms(2,3) by (simp add: seg_wire_def out_ok_def)
  moreover have "seg_len s = 0" if "\<not> 0 < seg_len s"
    using that by (simp add: word_gt_0)
  ultimately show thesis
    by (intro that [of ?fo]) (auto simp: flush_write_def seg_wire_def encode_seg_append)
qed

subsection \<open>What goes out first\<close>

definition ack_seg :: "IKCPCB \<Rightarrow> IKCPSEG \<Rightarrow> nat \<Rightarrow> IKCPSEG" where
  "ack_seg kcp seg i = (case ikcp_ack_get kcp i of (sn, ts) \<Rightarrow> seg\<lparr>seg_sn := sn, seg_ts := ts\<rparr>)"

lemma ack_seg_ack_seg [simp]: "ack_seg kcp (ack_seg kcp seg i) j = ack_seg kcp seg j"
  by (simp add: ack_seg_def split: prod.split)

lemma ack_seg_frame [simp]:
  "seg_len (ack_seg kcp seg i) = seg_len seg" "seg_data (ack_seg kcp seg i) = seg_data seg"
  "seg_conv (ack_seg kcp seg i) = seg_conv seg" "seg_cmd (ack_seg kcp seg i) = seg_cmd seg"
  "seg_una (ack_seg kcp seg i) = seg_una seg" "seg_wnd (ack_seg kcp seg i) = seg_wnd seg"
  by (simp_all add: ack_seg_def split: prod.split)

lemma flush_put_header:
  assumes "packed (unat (mtu kcp)) segs fo" and "out_ok kcp" and "24 \<le> unat (mtu kcp)"
    and "seg_len s = 0"
  obtains fo' where "packed (unat (mtu kcp)) (segs @ [s]) fo'"
    and "do { fo \<leftarrow> flush_room kcp (sint IKCP_OVERHEAD) fo;
              flush_write kcp (ikcp_encode_seg [] s) fo} = Some fo'"
proof -
  obtain fo1 where fo1: "flush_room kcp (int 24) fo = Some fo1" "packed (unat (mtu kcp)) segs fo1"
      "length (fo_ptr fo1) + 24 \<le> unat (mtu kcp)"
    using flush_room_packed [OF assms(1-3)] by blast
  moreover have "length (seg_wire s) = 24"
    using assms(4) by (simp add: seg_wire_def)
  ultimately obtain fo' where "packed (unat (mtu kcp)) (segs @ [s]) fo'"
    "flush_write kcp (ikcp_encode_seg [] s) fo1 = Some fo'"
    using flush_write_packed [OF fo1(2) assms(2), of s] assms(4) by (auto split: bind_splits)
  with fo1(1) show thesis
    by (intro that) (simp_all add: kcp_consts)
qed

lemma flush_acks_packed:
  assumes "out_ok kcp" and "24 \<le> unat (mtu kcp)" and "packed (unat (mtu kcp)) segs fo"
    and "seg_len seg = 0"
  shows "\<exists>fo'. flush_acks kcp i n seg fo = Some (last (seg # map (ack_seg kcp seg) [i..<i + n]), fo') \<and>
     packed (unat (mtu kcp)) (segs @ map (ack_seg kcp seg) [i..<i + n]) fo'"
  using assms(3,4)
proof (induction n arbitrary: i seg segs fo)
  case 0
  then show ?case by simp
next
  case (Suc n)
  obtain fo1 where fo1: "packed (unat (mtu kcp)) (segs @ [ack_seg kcp seg i]) fo1"
    "do { fo \<leftarrow> flush_room kcp (sint IKCP_OVERHEAD) fo;
          flush_write kcp (ikcp_encode_seg [] (ack_seg kcp seg i)) fo} = Some fo1"
    using flush_put_header [OF Suc.prems(1) assms(1,2), of "ack_seg kcp seg i"] Suc.prems(2) by auto
  have step: "flush_acks kcp i (Suc n) seg fo = flush_acks kcp (i + 1) n (ack_seg kcp seg i) fo1"
    using fo1(2) by (auto simp: ack_seg_def split: bind_splits prod.splits)
  have upt: "[i..<i + Suc n] = i # [i + 1..<i + 1 + n]"
    by (simp add: upt_conv_Cons del: upt_Suc)
  show ?case
    using Suc.IH [OF fo1(1), of "ack_seg kcp seg i" "i + 1"] Suc.prems(2) unfolding step upt by (simp add: comp_def)
qed

text \<open>The acknowledgements of a flush, and the probes that follow them.\<close>

definition ack_segs :: "IKCPCB \<Rightarrow> IKCPSEG list" where
  "ack_segs kcp = map (ack_seg kcp (flush_seg_init kcp)) [0..<unat (ackcount kcp)]"

definition probe_segs :: "IKCPCB \<Rightarrow> IKCPSEG list" where
  "probe_segs kcp =
     (let p = probe (flush_probe (kcp\<lparr>ackcount := 0\<rparr>));
          seg = last (flush_seg_init kcp # ack_segs kcp)
      in (if p AND IKCP_ASK_SEND \<noteq> 0 then [seg\<lparr>seg_cmd := IKCP_CMD_WASK\<rparr>] else []) @
         (if p AND IKCP_ASK_TELL \<noteq> 0 then [seg\<lparr>seg_cmd := IKCP_CMD_WINS\<rparr>] else []))"

definition control_block :: "IKCPCB \<Rightarrow> IKCPCB" where
  "control_block kcp = (flush_probe (kcp\<lparr>ackcount := 0\<rparr>))\<lparr>probe := 0\<rparr>"

lemma flush_probe_frame [kcp_frame, simp]:
  "conv (flush_probe kcp) = conv kcp" "mtu (flush_probe kcp) = mtu kcp"
  "mss (flush_probe kcp) = mss kcp" "state (flush_probe kcp) = state kcp"
  "snd_una (flush_probe kcp) = snd_una kcp" "snd_nxt (flush_probe kcp) = snd_nxt kcp"
  "rcv_nxt (flush_probe kcp) = rcv_nxt kcp" "ssthresh (flush_probe kcp) = ssthresh kcp"
  "rx_rttval (flush_probe kcp) = rx_rttval kcp" "rx_srtt (flush_probe kcp) = rx_srtt kcp"
  "rx_rto (flush_probe kcp) = rx_rto kcp" "rx_minrto (flush_probe kcp) = rx_minrto kcp"
  "snd_wnd (flush_probe kcp) = snd_wnd kcp" "rcv_wnd (flush_probe kcp) = rcv_wnd kcp"
  "rmt_wnd (flush_probe kcp) = rmt_wnd kcp" "cwnd (flush_probe kcp) = cwnd kcp"
  "current (flush_probe kcp) = current kcp" "interval (flush_probe kcp) = interval kcp"
  "ts_flush (flush_probe kcp) = ts_flush kcp" "xmit (flush_probe kcp) = xmit kcp"
  "nrcv_buf (flush_probe kcp) = nrcv_buf kcp" "nsnd_buf (flush_probe kcp) = nsnd_buf kcp"
  "nrcv_que (flush_probe kcp) = nrcv_que kcp" "nsnd_que (flush_probe kcp) = nsnd_que kcp"
  "nodelay (flush_probe kcp) = nodelay kcp" "updated (flush_probe kcp) = updated kcp"
  "dead_link (flush_probe kcp) = dead_link kcp" "incr (flush_probe kcp) = incr kcp"
  "snd_queue (flush_probe kcp) = snd_queue kcp" "rcv_queue (flush_probe kcp) = rcv_queue kcp"
  "snd_buf (flush_probe kcp) = snd_buf kcp" "rcv_buf (flush_probe kcp) = rcv_buf kcp"
  "acklist (flush_probe kcp) = acklist kcp" "ackcount (flush_probe kcp) = ackcount kcp"
  "ackblock (flush_probe kcp) = ackblock kcp" "buffer (flush_probe kcp) = buffer kcp"
  "fastresend (flush_probe kcp) = fastresend kcp" "fastlimit (flush_probe kcp) = fastlimit kcp"
  "nocwnd (flush_probe kcp) = nocwnd kcp" "stream (flush_probe kcp) = stream kcp"
  "output_set (flush_probe kcp) = output_set kcp"
  by (simp_all add: flush_probe_def Let_def)

lemma control_block_frame [kcp_frame, simp]:
  "conv (control_block kcp) = conv kcp" "mtu (control_block kcp) = mtu kcp"
  "mss (control_block kcp) = mss kcp" "state (control_block kcp) = state kcp"
  "snd_una (control_block kcp) = snd_una kcp" "snd_nxt (control_block kcp) = snd_nxt kcp"
  "rcv_nxt (control_block kcp) = rcv_nxt kcp" "ssthresh (control_block kcp) = ssthresh kcp"
  "rx_rttval (control_block kcp) = rx_rttval kcp" "rx_srtt (control_block kcp) = rx_srtt kcp"
  "rx_rto (control_block kcp) = rx_rto kcp" "rx_minrto (control_block kcp) = rx_minrto kcp"
  "snd_wnd (control_block kcp) = snd_wnd kcp" "rcv_wnd (control_block kcp) = rcv_wnd kcp"
  "rmt_wnd (control_block kcp) = rmt_wnd kcp" "cwnd (control_block kcp) = cwnd kcp"
  "current (control_block kcp) = current kcp" "interval (control_block kcp) = interval kcp"
  "ts_flush (control_block kcp) = ts_flush kcp" "xmit (control_block kcp) = xmit kcp"
  "nrcv_buf (control_block kcp) = nrcv_buf kcp" "nsnd_buf (control_block kcp) = nsnd_buf kcp"
  "nrcv_que (control_block kcp) = nrcv_que kcp" "nsnd_que (control_block kcp) = nsnd_que kcp"
  "nodelay (control_block kcp) = nodelay kcp" "updated (control_block kcp) = updated kcp"
  "dead_link (control_block kcp) = dead_link kcp" "incr (control_block kcp) = incr kcp"
  "snd_queue (control_block kcp) = snd_queue kcp"
  "rcv_queue (control_block kcp) = rcv_queue kcp" "snd_buf (control_block kcp) = snd_buf kcp"
  "rcv_buf (control_block kcp) = rcv_buf kcp" "acklist (control_block kcp) = acklist kcp"
  "ackblock (control_block kcp) = ackblock kcp" "buffer (control_block kcp) = buffer kcp"
  "fastresend (control_block kcp) = fastresend kcp"
  "fastlimit (control_block kcp) = fastlimit kcp" "nocwnd (control_block kcp) = nocwnd kcp"
  "stream (control_block kcp) = stream kcp" "output_set (control_block kcp) = output_set kcp"
  by (simp_all add: control_block_def)

lemma flush_cmd_packed:
  assumes "out_ok kcp" and "24 \<le> unat (mtu kcp)" and "packed (unat (mtu kcp)) segs fo"
    and "seg_len seg = 0"
  shows "\<exists>fo'. flush_cmd kcp ask cmd (seg, fo) =
       Some (if probe kcp AND ask \<noteq> 0 then seg\<lparr>seg_cmd := cmd\<rparr> else seg, fo') \<and>
     packed (unat (mtu kcp))
       (segs @ (if probe kcp AND ask \<noteq> 0 then [seg\<lparr>seg_cmd := cmd\<rparr>] else [])) fo'"
proof (cases "probe kcp AND ask = 0")
  case True
  with assms(3) show ?thesis by (simp add: flush_cmd_def)
next
  case False
  obtain fo' where "packed (unat (mtu kcp)) (segs @ [seg\<lparr>seg_cmd := cmd\<rparr>]) fo'"
    "do { fo \<leftarrow> flush_room kcp (sint IKCP_OVERHEAD) fo;
          flush_write kcp (ikcp_encode_seg [] (seg\<lparr>seg_cmd := cmd\<rparr>)) fo} = Some fo'"
    using flush_put_header [OF assms(3,1,2), of "seg\<lparr>seg_cmd := cmd\<rparr>"] assms(4) by auto
  with False show ?thesis
    by (auto simp: flush_cmd_def split: bind_splits)
qed

lemma out_ok_cong:
  "output_set k = output_set k' \<Longrightarrow> mtu k = mtu k' \<Longrightarrow> buffer k = buffer k' \<Longrightarrow> out_ok k \<longleftrightarrow> out_ok k'"
  by (simp add: out_ok_def)

lemma seg_len_last:
  "\<forall>s \<in> set (x # xs). seg_len s = 0 \<Longrightarrow> seg_len (last (x # xs)) = 0"
  using last_in_set [of "x # xs"] by blast

lemma flush_control_packed:
  assumes "out_ok kcp" and "24 \<le> unat (mtu kcp)" and "unat (ackcount kcp) < 2 ^ 31"
  shows "\<exists>fo. flush_control kcp = Some (control_block kcp, fo) \<and>
     packed (unat (mtu kcp)) (ack_segs kcp @ probe_segs kcp) fo"
proof -
  let ?M = "unat (mtu kcp)" and ?init = "flush_seg_init kcp"
  let ?k = "flush_probe (kcp\<lparr>ackcount := 0\<rparr>)"
  let ?seg = "last (?init # ack_segs kcp)"
  have k: "out_ok ?k" "24 \<le> unat (mtu ?k)" "unat (mtu ?k) = ?M"
    using assms(1,2) out_ok_cong [of ?k kcp] by simp_all
  have count: "nat (sint (ackcount kcp)) = unat (ackcount kcp)"
    using sint_small [OF assms(3)] by simp
  have seg: "seg_len ?seg = 0"
    by (rule seg_len_last) (auto simp: ack_segs_def flush_seg_init_def)
  obtain fo1 where fo1: "flush_acks kcp 0 (unat (ackcount kcp)) ?init \<lparr>fo_ptr = [], fo_sent = []\<rparr> = Some (?seg, fo1)"
      "packed ?M (ack_segs kcp) fo1"
    using flush_acks_packed [OF assms(1,2) packed_Nil, of ?init 0 "unat (ackcount kcp)"]
    by (auto simp: ack_segs_def flush_seg_init_def)
  define seg2 where "seg2 = (if probe ?k AND IKCP_ASK_SEND \<noteq> 0 then ?seg\<lparr>seg_cmd := IKCP_CMD_WASK\<rparr> else ?seg)"
  obtain fo2 where fo2: "flush_cmd ?k IKCP_ASK_SEND IKCP_CMD_WASK (?seg, fo1) = Some (seg2, fo2)"
      "packed ?M (ack_segs kcp @ (if probe ?k AND IKCP_ASK_SEND \<noteq> 0
         then [?seg\<lparr>seg_cmd := IKCP_CMD_WASK\<rparr>] else [])) fo2"
    using flush_cmd_packed [OF k(1,2), of "ack_segs kcp" fo1 ?seg] fo1(2) seg k(3)
    unfolding seg2_def by metis
  have seg2: "seg_len seg2 = 0" "seg2\<lparr>seg_cmd := c\<rparr> = ?seg\<lparr>seg_cmd := c\<rparr>" for c
    using seg by (simp_all add: seg2_def)
  obtain seg3 fo3 where fo3: "flush_cmd ?k IKCP_ASK_TELL IKCP_CMD_WINS (seg2, fo2) = Some (seg3, fo3)"
      "packed ?M ((ack_segs kcp @ (if probe ?k AND IKCP_ASK_SEND \<noteq> 0
         then [?seg\<lparr>seg_cmd := IKCP_CMD_WASK\<rparr>] else [])) @
         (if probe ?k AND IKCP_ASK_TELL \<noteq> 0 then [seg2\<lparr>seg_cmd := IKCP_CMD_WINS\<rparr>] else [])) fo3"
    using flush_cmd_packed [OF k(1,2) _ seg2(1), of _ fo2 IKCP_ASK_TELL IKCP_CMD_WINS] fo2(2) k(3)
    by metis
  have "packed ?M (ack_segs kcp @ probe_segs kcp) fo3"
    using fo3(2) unfolding seg2(2) probe_segs_def Let_def append_assoc .
  moreover have "flush_control kcp = Some (control_block kcp, fo3)"
    using fo1(1) fo2(1) fo3(1)
    by (simp add: flush_control_def control_block_def count del: last.simps)
  ultimately show ?thesis by blast
qed

subsection \<open>The loop over the send buffer\<close>

text \<open>The segment after the loop has looked at it, and the segments the loop sends.\<close>

definition flush_stamp :: "IKCPCB \<Rightarrow> u32 \<Rightarrow> IKCPSEG \<Rightarrow> IKCPSEG" where
  "flush_stamp kcp wnd s =
     (let why = send_reason_of kcp s
      in if why = Send_not then s
         else (resend_seg kcp why s)\<lparr>seg_ts := current kcp, seg_wnd := wnd, seg_una := rcv_nxt kcp\<rparr>)"

definition due_segs :: "IKCPCB \<Rightarrow> u32 \<Rightarrow> IKCPSEG list \<Rightarrow> IKCPSEG list" where
  "due_segs kcp wnd q = map (flush_stamp kcp wnd) (filter (\<lambda>s. send_reason_of kcp s \<noteq> Send_not) q)"

definition flush_same :: "IKCPCB \<Rightarrow> IKCPCB \<Rightarrow> bool" where
  "flush_same k k' \<longleftrightarrow> k' = k\<lparr>state := state k', xmit := xmit k'\<rparr>"

lemma flush_same_refl [simp]: "flush_same k k"
  by (simp add: flush_same_def)

lemma flush_same_trans: "flush_same k k' \<Longrightarrow> flush_same k' k'' \<Longrightarrow> flush_same k k''"
proof -
  assume "flush_same k k'" "flush_same k' k''"
  then obtain a b c d where k': "k' = k\<lparr>state := a, xmit := b\<rparr>" and "k'' = k'\<lparr>state := c, xmit := d\<rparr>"
    unfolding flush_same_def by blast
  then have "k'' = k\<lparr>state := c, xmit := d\<rparr>"
    by simp
  then show "flush_same k k''"
    by (simp add: flush_same_def)
qed

lemma flush_same_update: "flush_same k (k\<lparr>state := a, xmit := b\<rparr>)"
  by (simp add: flush_same_def)

lemma flush_same_fields:
  assumes "flush_same k k'"
  shows "send_reason_of k' = send_reason_of k" "flush_stamp k' = flush_stamp k"
    "due_segs k' = due_segs k" "out_ok k' = out_ok k" "mtu k' = mtu k"
proof -
  obtain a b where k': "k' = k\<lparr>state := a, xmit := b\<rparr>"
    using assms by (auto simp: flush_same_def)
  show "send_reason_of k' = send_reason_of k"
    by (rule ext) (simp add: k' send_reason_of_def flush_resent_def)
  moreover have "resend_seg k' = resend_seg k"
    by (intro ext) (simp add: resend_seg_def flush_rtomin_def k' split: send_reason.split)
  moreover have "current k' = current k" "rcv_nxt k' = rcv_nxt k"
    by (simp_all add: k')
  ultimately show "flush_stamp k' = flush_stamp k"
    by (intro ext) (simp only: flush_stamp_def)
  then show "due_segs k' = due_segs k"
    using \<open>send_reason_of k' = send_reason_of k\<close> by (intro ext) (simp add: due_segs_def)
  show "out_ok k' = out_ok k" "mtu k' = mtu k"
    by (simp_all add: k' out_ok_def)
qed

lemma resend_seg_frame [simp]:
  "seg_len (resend_seg k why s) = seg_len s" "seg_data (resend_seg k why s) = seg_data s"
  "seg_conv (resend_seg k why s) = seg_conv s" "seg_cmd (resend_seg k why s) = seg_cmd s"
  "seg_sn (resend_seg k why s) = seg_sn s" "seg_frg (resend_seg k why s) = seg_frg s"
  by (cases why; simp add: resend_seg_def Let_def)+

lemma flush_stamp_frame [simp]:
  "seg_len (flush_stamp k wnd s) = seg_len s" "seg_data (flush_stamp k wnd s) = seg_data s"
  "seg_conv (flush_stamp k wnd s) = seg_conv s" "seg_cmd (flush_stamp k wnd s) = seg_cmd s"
  "seg_sn (flush_stamp k wnd s) = seg_sn s" "seg_frg (flush_stamp k wnd s) = seg_frg s"
  by (simp_all add: flush_stamp_def Let_def)

lemma seg_need:
  assumes "24 + unat (seg_len s) \<le> m" and "m < 2 ^ 31"
  shows "sint (IKCP_OVERHEAD + seg_len s) = int (24 + unat (seg_len s))"
proof -
  have "unat (24 + seg_len s) = 24 + unat (seg_len s)"
    using assms unat_add_lem [of 24 "seg_len s"] by simp
  then show ?thesis
    using assms sint_small [of "24 + seg_len s"] by (simp only: IKCP_OVERHEAD_def)
qed

lemma flush_segment_packed:
  assumes "packed (unat (mtu (fl_kcp fl))) segs (fl_out fl)" and "out_ok (fl_kcp fl)"
    and "24 + unat (seg_len s) \<le> unat (mtu (fl_kcp fl))"
  obtains fl' where "flush_segment wnd s fl = Some (flush_stamp (fl_kcp fl) wnd s, fl')"
    and "packed (unat (mtu (fl_kcp fl))) (segs @ due_segs (fl_kcp fl) wnd [s]) (fl_out fl')"
    and "flush_same (fl_kcp fl) (fl_kcp fl')"
proof -
  let ?k = "fl_kcp fl"
  define why where "why = send_reason_of ?k s"
  show thesis
  proof (cases "why = Send_not")
    case True
    then show thesis
      using assms(1)
      by (intro that [of fl])
        (simp_all add: flush_segment_def why_def [symmetric] flush_stamp_def due_segs_def resend_seg_def)
  next
    case False
    define fl1 where "fl1 = (case why of
        Send_timeout \<Rightarrow> fl\<lparr>fl_kcp := ?k\<lparr>xmit := xmit ?k + 1\<rparr>, fl_lost := True\<rparr>
      | Send_fast \<Rightarrow> fl\<lparr>fl_change := fl_change fl + 1\<rparr> | _ \<Rightarrow> fl)"
    have fl1: "flush_same ?k (fl_kcp fl1)" "fl_out fl1 = fl_out fl" "current (fl_kcp fl1) = current ?k"
      "rcv_nxt (fl_kcp fl1) = rcv_nxt ?k"
      by (simp_all add: fl1_def flush_same_def split: send_reason.split)
    note same = flush_same_fields [OF fl1(1)]
    let ?s = "flush_stamp ?k wnd s"
    have stamp: "?s = (resend_seg ?k why s)\<lparr>seg_ts := current ?k, seg_wnd := wnd, seg_una := rcv_nxt ?k\<rparr>"
      using False by (simp add: flush_stamp_def why_def [symmetric])
    have small: "unat (mtu ?k) < 2 ^ 31"
      using assms(2) by (simp add: out_ok_def)
    obtain fo1 where fo1: "flush_room (fl_kcp fl1) (int (24 + unat (seg_len ?s))) (fl_out fl) = Some fo1"
        "packed (unat (mtu ?k)) segs fo1" "length (fo_ptr fo1) + (24 + unat (seg_len ?s)) \<le> unat (mtu ?k)"
      using flush_room_packed [of "fl_kcp fl1" segs "fl_out fl" "24 + unat (seg_len ?s)"] assms same
      by auto
    have fits: "length (fo_ptr fo1) + length (seg_wire ?s) \<le> unat (mtu (fl_kcp fl1))"
      using fo1(3) length_seg_wire_le [of ?s] same(5) by simp
    obtain fo2 where fo2: "packed (unat (mtu ?k)) (segs @ [?s]) fo2"
      "do { fo \<leftarrow> flush_write (fl_kcp fl1) (ikcp_encode_seg [] ?s) fo1;
            (if seg_len ?s > 0
             then flush_write (fl_kcp fl1) (take (unat (seg_len ?s)) (seg_data ?s)) fo else Some fo)} = Some fo2"
      using flush_write_packed [of "fl_kcp fl1" segs fo1 ?s] fo1(2) assms(2) same fits by auto
    let ?k2 = "if seg_xmit ?s \<ge> dead_link (fl_kcp fl1) then (fl_kcp fl1)\<lparr>state := - 1\<rparr> else fl_kcp fl1"
    let ?fl = "fl1\<lparr>fl_kcp := ?k2, fl_out := fo2\<rparr>"
    have "flush_segment wnd s fl = Some (?s, ?fl)"
      using False fo1(1) fo2(2) seg_need [of ?s, OF _ small] assms(3)
      unfolding flush_segment_def why_def [symmetric] Let_def fl1_def [symmetric] fl1(2-4) stamp [symmetric]
      by (auto split: bind_splits)
    moreover have "flush_same (fl_kcp fl1) ?k2"
      by (simp add: flush_same_def)
    then have "flush_same ?k (fl_kcp ?fl)"
      using flush_same_trans [OF fl1(1)] by simp
    moreover have "due_segs ?k wnd [s] = [?s]"
      using False by (simp add: due_segs_def why_def)
    ultimately show thesis
      using fo2(1) by (intro that [of ?fl]) simp_all
  qed
qed

lemma flush_segments_packed:
  assumes "packed (unat (mtu (fl_kcp fl))) segs (fl_out fl)" and "out_ok (fl_kcp fl)"
    and "\<forall>s \<in> set q. 24 + unat (seg_len s) \<le> unat (mtu (fl_kcp fl))"
  shows "\<exists>fl'. flush_segments wnd q fl = Some (map (flush_stamp (fl_kcp fl) wnd) q, fl') \<and>
     packed (unat (mtu (fl_kcp fl))) (segs @ due_segs (fl_kcp fl) wnd q) (fl_out fl') \<and>
     flush_same (fl_kcp fl) (fl_kcp fl')"
  using assms
proof (induction q arbitrary: segs fl)
  case Nil
  then show ?case by (simp add: due_segs_def)
next
  case (Cons s q)
  obtain fl1 where fl1: "flush_segment wnd s fl = Some (flush_stamp (fl_kcp fl) wnd s, fl1)"
      "packed (unat (mtu (fl_kcp fl))) (segs @ due_segs (fl_kcp fl) wnd [s]) (fl_out fl1)"
      "flush_same (fl_kcp fl) (fl_kcp fl1)"
    using flush_segment_packed [OF Cons.prems(1,2)] Cons.prems(3) by (metis list.set_intros(1))
  note same = flush_same_fields [OF fl1(3)]
  obtain fl2 where fl2: "flush_segments wnd q fl1 = Some (map (flush_stamp (fl_kcp fl) wnd) q, fl2)"
      "packed (unat (mtu (fl_kcp fl))) ((segs @ due_segs (fl_kcp fl) wnd [s]) @ due_segs (fl_kcp fl) wnd q) (fl_out fl2)"
      "flush_same (fl_kcp fl1) (fl_kcp fl2)"
    using Cons.IH [of fl1 "segs @ due_segs (fl_kcp fl) wnd [s]"] Cons.prems(2,3) fl1(2) same by auto
  have "due_segs (fl_kcp fl) wnd (s # q) = due_segs (fl_kcp fl) wnd [s] @ due_segs (fl_kcp fl) wnd q"
    by (simp add: due_segs_def)
  with fl1 fl2 flush_same_trans [OF fl1(3) fl2(3)] show ?case
    by simp
qed

subsection \<open>The whole flush\<close>

text \<open>
  The configuration a flush relies on: \<open>ikcp_setmtu\<close> and \<open>ikcp_create\<close> keep the payload size
  24 below the mtu and the buffer at least as large as the mtu, and \<open>ikcp_send\<close> cuts to the
  payload size. (The three hold together as long as the mtu is not lowered while longer
  segments are queued, which \<open>ikcp_setmtu\<close> does not check.)
\<close>

definition mtu_ok :: "IKCPCB \<Rightarrow> bool" where
  "mtu_ok kcp \<longleftrightarrow>
     unat (mtu kcp) < 2 ^ 31 \<and> unat (mtu kcp) \<le> buffer kcp \<and> 24 < unat (mtu kcp) \<and>
     unat (mss kcp) + 24 = unat (mtu kcp) \<and>
     (\<forall>s \<in> set (snd_queue kcp) \<union> set (snd_buf kcp). unat (seg_len s) \<le> unat (mss kcp))"

definition unused_wnd :: "IKCPCB \<Rightarrow> u32" where
  "unused_wnd kcp = word_of_int (ikcp_wnd_unused kcp)"

text \<open>The block after \<open>snd_queue\<close> has been moved, and the segments a flush sends, in order.\<close>

definition moved_block :: "IKCPCB \<Rightarrow> IKCPCB" where
  "moved_block kcp =
     (let k = control_block kcp in flush_move (flush_window k) (unused_wnd kcp) (snd_queue k) k)"

definition flush_segs :: "IKCPCB \<Rightarrow> IKCPSEG list" where
  "flush_segs kcp =
     ack_segs kcp @ probe_segs kcp @
     due_segs (moved_block kcp) (unused_wnd kcp) (snd_buf (moved_block kcp))"

lemma moved_block_eq:
  "moved_block kcp =
     (let k = control_block kcp; n = move_len (snd_una kcp + flush_window k) (snd_nxt kcp) (snd_queue kcp)
      in k\<lparr>snd_queue := drop n (snd_queue kcp),
           snd_buf := snd_buf kcp @ numbered k (unused_wnd kcp) (snd_nxt kcp) (take n (snd_queue kcp)),
           nsnd_que := nsnd_que kcp - of_nat n, nsnd_buf := nsnd_buf kcp + of_nat n,
           snd_nxt := snd_nxt kcp + of_nat n\<rparr>)"
  by (simp add: moved_block_def flush_move_eq Let_def)

lemma moved_block_frame [kcp_frame, simp]:
  "conv (moved_block kcp) = conv kcp" "mtu (moved_block kcp) = mtu kcp"
  "mss (moved_block kcp) = mss kcp" "state (moved_block kcp) = state kcp"
  "snd_una (moved_block kcp) = snd_una kcp" "rcv_nxt (moved_block kcp) = rcv_nxt kcp"
  "ssthresh (moved_block kcp) = ssthresh kcp" "rx_rttval (moved_block kcp) = rx_rttval kcp"
  "rx_srtt (moved_block kcp) = rx_srtt kcp" "rx_rto (moved_block kcp) = rx_rto kcp"
  "rx_minrto (moved_block kcp) = rx_minrto kcp" "snd_wnd (moved_block kcp) = snd_wnd kcp"
  "rcv_wnd (moved_block kcp) = rcv_wnd kcp" "rmt_wnd (moved_block kcp) = rmt_wnd kcp"
  "cwnd (moved_block kcp) = cwnd kcp" "current (moved_block kcp) = current kcp"
  "interval (moved_block kcp) = interval kcp" "ts_flush (moved_block kcp) = ts_flush kcp"
  "xmit (moved_block kcp) = xmit kcp" "nrcv_buf (moved_block kcp) = nrcv_buf kcp"
  "nrcv_que (moved_block kcp) = nrcv_que kcp" "nodelay (moved_block kcp) = nodelay kcp"
  "updated (moved_block kcp) = updated kcp" "dead_link (moved_block kcp) = dead_link kcp"
  "incr (moved_block kcp) = incr kcp" "rcv_queue (moved_block kcp) = rcv_queue kcp"
  "rcv_buf (moved_block kcp) = rcv_buf kcp" "acklist (moved_block kcp) = acklist kcp"
  "ackblock (moved_block kcp) = ackblock kcp" "buffer (moved_block kcp) = buffer kcp"
  "fastresend (moved_block kcp) = fastresend kcp" "fastlimit (moved_block kcp) = fastlimit kcp"
  "nocwnd (moved_block kcp) = nocwnd kcp" "stream (moved_block kcp) = stream kcp"
  "output_set (moved_block kcp) = output_set kcp"
  by (simp_all add: moved_block_eq Let_def)

lemma set_numbered_len:
  "t \<in> set (numbered k wnd nxt q) \<Longrightarrow> \<exists>s \<in> set q. seg_len t = seg_len s \<and> seg_data t = seg_data s"
  by (induction q arbitrary: nxt) (auto simp: flush_new_seg_def)

lemma mtu_okD:
  assumes "mtu_ok kcp"
  shows "unat (mss kcp) + 24 = unat (mtu kcp)"
    and "s \<in> set (snd_queue kcp) \<union> set (snd_buf kcp) \<Longrightarrow> unat (seg_len s) \<le> unat (mss kcp)"
  using assms unfolding mtu_ok_def by blast+

lemma moved_block_mtu:
  assumes "mtu_ok kcp"
  shows "mtu_ok (moved_block kcp)"
proof -
  have "unat (seg_len s) \<le> unat (mss kcp)"
    if "s \<in> set (snd_queue (moved_block kcp)) \<union> set (snd_buf (moved_block kcp))" for s
  proof -
    have "\<exists>t \<in> set (snd_queue kcp) \<union> set (snd_buf kcp). seg_len s = seg_len t"
      using that by (auto simp: moved_block_eq Let_def dest: in_set_dropD)
        (metis UnI1 set_numbered_len in_set_takeD)
    with assms show ?thesis
      by (auto simp: mtu_ok_def)
  qed
  with assms show ?thesis
    by (simp add: mtu_ok_def)
qed

text \<open>The fields the end of a flush may still change.\<close>

definition flush_end :: "IKCPCB \<Rightarrow> IKCPSEG list \<Rightarrow> IKCPCB \<Rightarrow> bool" where
  "flush_end m q k \<longleftrightarrow>
     k = m\<lparr>state := state k, ssthresh := ssthresh k, cwnd := cwnd k, xmit := xmit k,
           incr := incr k, snd_buf := q\<rparr>"

lemma flush_cwnd_end:
  assumes "flush_same m k"
  shows "flush_end m q (flush_cwnd cw change lost (k\<lparr>snd_buf := q\<rparr>))"
proof -
  have "flush_cwnd cw change lost x = x\<lparr>ssthresh := ssthresh (flush_cwnd cw change lost x),
      cwnd := cwnd (flush_cwnd cw change lost x), incr := incr (flush_cwnd cw change lost x)\<rparr>" for x
    by (simp add: flush_cwnd_def Let_def)
  then obtain a b c where "flush_cwnd cw change lost (k\<lparr>snd_buf := q\<rparr>) =
      k\<lparr>snd_buf := q, ssthresh := a, cwnd := b, incr := c\<rparr>"
    by metis
  moreover obtain d e where "k = m\<lparr>state := d, xmit := e\<rparr>"
    using assms by (auto simp: flush_same_def)
  ultimately show ?thesis
    by (simp add: flush_end_def)
qed

lemma ikcp_flush_eq:
  assumes up: "updated kcp \<noteq> 0" and set_up: "output_set kcp" "mtu_ok kcp"
    and acks: "unat (ackcount kcp) < 2 ^ 31"
  obtains kcp' gs where "ikcp_flush kcp = Some (kcp', map segs_wire gs)"
    and "concat gs = flush_segs kcp"
    and "\<forall>g \<in> set gs. g \<noteq> [] \<and> length (segs_wire g) \<le> unat (mtu kcp)"
    and "flush_end (moved_block kcp)
           (map (flush_stamp (moved_block kcp) (unused_wnd kcp)) (snd_buf (moved_block kcp))) kcp'"
    and "0 < cwnd kcp'"
proof -
  let ?m = "moved_block kcp" and ?M = "unat (mtu kcp)" and ?wnd = "unused_wnd kcp"
  let ?q = "map (flush_stamp ?m ?wnd) (snd_buf ?m)"
  have out: "out_ok kcp" "24 \<le> ?M"
    using set_up by (simp_all add: mtu_ok_def out_ok_def)
  have outm: "out_ok ?m"
    using out(1) out_ok_cong [of ?m kcp] by simp
  have lens: "\<forall>s \<in> set (snd_buf ?m). 24 + unat (seg_len s) \<le> unat (mtu ?m)"
    using mtu_okD(2) [OF moved_block_mtu [OF set_up(2)]] mtu_okD(1) [OF moved_block_mtu [OF set_up(2)]]
    by (metis UnI2 add.commute add_le_cancel_right)
  obtain fo where fo: "flush_control kcp = Some (control_block kcp, fo)"
      "packed ?M (ack_segs kcp @ probe_segs kcp) fo"
    using flush_control_packed [OF out acks] by blast
  let ?fl = "\<lparr>fl_kcp = ?m, fl_out = fo, fl_change = 0, fl_lost = False\<rparr>"
  obtain fl where fl: "flush_segments ?wnd (snd_buf ?m) ?fl = Some (?q, fl)"
      "packed ?M (flush_segs kcp) (fl_out fl)" "flush_same ?m (fl_kcp fl)"
    using flush_segments_packed [of ?fl "ack_segs kcp @ probe_segs kcp" "snd_buf ?m" ?wnd]
      fo(2) outm lens by (auto simp: flush_segs_def)
  let ?k = "(fl_kcp fl)\<lparr>snd_buf := ?q\<rparr>"
  have outk: "out_ok ?k"
    using flush_same_fields(4) [OF fl(3)] outm out_ok_cong [of ?k "fl_kcp fl"] by simp
  obtain fo1 where "flush_send ?k (fl_out fl) = Some fo1" "packed ?M (flush_segs kcp) fo1" "fo_ptr fo1 = []"
    using flush_send_packed [OF fl(2) outk] by blast
  then obtain fo2 where fo2: "(if fo_ptr (fl_out fl) \<noteq> [] then flush_send ?k (fl_out fl) else Some (fl_out fl)) = Some fo2"
      "packed ?M (flush_segs kcp) fo2" "fo_ptr fo2 = []"
    using fl(2) by (cases "fo_ptr (fl_out fl) = []") auto
  obtain gs g where g: "flush_segs kcp = concat gs @ g" "dgrams_ok ?M gs (fo_sent fo2)"
      "segs_wire g = []"
    using fo2(2,3) unfolding packed_def by metis
  then have gs: "concat gs = flush_segs kcp" "dgrams_ok ?M gs (fo_sent fo2)"
    by simp_all
  let ?res = "flush_cwnd (flush_window (control_block kcp)) (fl_change fl) (fl_lost fl) ?k"
  have m: "flush_move (flush_window (control_block kcp)) ?wnd (snd_queue kcp) (control_block kcp) = ?m"
    by (simp add: moved_block_def Let_def)
  have "ikcp_flush kcp = Some (?res, fo_sent fo2)"
    using up fo(1) fl(1) fo2(1) m by (simp add: ikcp_flush_def unused_wnd_def [symmetric] Let_def)
  moreover have "fo_sent fo2 = map segs_wire gs" "\<forall>g \<in> set gs. g \<noteq> [] \<and> length (segs_wire g) \<le> ?M"
    using gs(2) by (auto simp: dgrams_ok_def)
  moreover have "0 < cwnd ?res"
    by (auto simp: flush_cwnd_def Let_def word_gt_0 word_less_1)
  ultimately show thesis
    using gs(1) flush_cwnd_end [OF fl(3)] by (intro that [of ?res gs]) simp_all
qed

subsection \<open>The block after a flush, whatever is sent\<close>

lemma flush_segment_result:
  assumes "flush_segment wnd s fl = Some (s', fl')"
  shows "s' = flush_stamp (fl_kcp fl) wnd s \<and> flush_same (fl_kcp fl) (fl_kcp fl')"
proof (cases "send_reason_of (fl_kcp fl) s")
  case Send_not
  with assms show ?thesis
    by (auto simp: flush_segment_def Let_def flush_stamp_def resend_seg_def)
next
  case Send_first
  with assms show ?thesis
    by (auto simp: flush_segment_def Let_def flush_stamp_def flush_same_def split: bind_splits if_splits)
next
  case Send_timeout
  with assms show ?thesis
    by (auto simp: flush_segment_def Let_def flush_stamp_def flush_same_def split: bind_splits if_splits)
next
  case Send_fast
  with assms show ?thesis
    by (auto simp: flush_segment_def Let_def flush_stamp_def flush_same_def split: bind_splits if_splits)
qed

lemma flush_segments_result:
  "flush_segments wnd q fl = Some (q', fl') \<Longrightarrow>
   q' = map (flush_stamp (fl_kcp fl) wnd) q \<and> flush_same (fl_kcp fl) (fl_kcp fl')"
proof (induction q arbitrary: q' fl)
  case Nil
  then show ?case by simp
next
  case (Cons s q)
  then obtain s1 fl1 q1 where one: "flush_segment wnd s fl = Some (s1, fl1)"
      "flush_segments wnd q fl1 = Some (q1, fl')" "q' = s1 # q1"
    by (auto split: bind_splits)
  note same = conjunct2 [OF flush_segment_result [OF one(1)]]
  show ?case
    using Cons.IH [OF one(2)] flush_segment_result [OF one(1)] one(3)
      flush_same_fields(2) [OF same] flush_same_trans [OF same] by simp
qed

lemma flush_control_result: "flush_control kcp = Some (k, fo) \<Longrightarrow> k = control_block kcp"
  by (auto simp: flush_control_def control_block_def Let_def split: bind_splits)

lemma ikcp_flush_result:
  assumes "ikcp_flush kcp = Some (kcp', out)" and "updated kcp \<noteq> 0"
  shows "flush_end (moved_block kcp)
     (map (flush_stamp (moved_block kcp) (unused_wnd kcp)) (snd_buf (moved_block kcp))) kcp'"
proof -
  obtain k fo where k: "flush_control kcp = Some (k, fo)"
    using assms by (auto simp: ikcp_flush_def Let_def split: bind_splits)
  then have k_eq: "k = control_block kcp"
    by (rule flush_control_result)
  let ?m = "moved_block kcp"
  have m: "flush_move (flush_window k) (unused_wnd kcp) (snd_queue k) k = ?m"
    by (simp add: k_eq moved_block_def Let_def)
  obtain q fl fo2 where fl: "flush_segments (unused_wnd kcp) (snd_buf ?m)
        \<lparr>fl_kcp = ?m, fl_out = fo, fl_change = 0, fl_lost = False\<rparr> = Some (q, fl)"
      and res: "kcp' = flush_cwnd (flush_window k) (fl_change fl) (fl_lost fl) ((fl_kcp fl)\<lparr>snd_buf := q\<rparr>)"
    using assms k m by (auto simp: ikcp_flush_def Let_def unused_wnd_def [symmetric] split: bind_splits)
  from flush_segments_result [OF fl] have q: "q = map (flush_stamp ?m (unused_wnd kcp)) (snd_buf ?m)"
    and same: "flush_same ?m (fl_kcp fl)"
    by simp_all
  show ?thesis
    unfolding res q by (rule flush_cwnd_end [OF same])
qed

lemma control_block_wf [kcp_inv]: "wf_kcp kcp \<Longrightarrow> wf_kcp (control_block kcp)"
  by (simp add: wf_kcp_def)

lemma moved_block_wf [kcp_inv]: "wf_kcp kcp \<Longrightarrow> wf_kcp (moved_block kcp)"
  unfolding moved_block_def Let_def
  using flush_move_wf [OF control_block_wf flush_window_le [OF control_block_wf] refl] by blast

lemma flush_end_fields:
  assumes "flush_end m q k"
  shows "snd_buf k = q" "snd_queue k = snd_queue m" "snd_nxt k = snd_nxt m" "snd_una k = snd_una m"
    "nsnd_buf k = nsnd_buf m" "nsnd_que k = nsnd_que m" "rmt_wnd k = rmt_wnd m"
    "rcv_buf k = rcv_buf m" "rcv_queue k = rcv_queue m" "rcv_nxt k = rcv_nxt m" "rcv_wnd k = rcv_wnd m"
    "nrcv_buf k = nrcv_buf m" "nrcv_que k = nrcv_que m" "conv k = conv m" "mtu k = mtu m" "mss k = mss m"
    "acklist k = acklist m" "ackcount k = ackcount m" "ackblock k = ackblock m" "buffer k = buffer m"
    "stream k = stream m" "output_set k = output_set m" "updated k = updated m" "ts_flush k = ts_flush m"
    "current k = current m" "interval k = interval m" "probe k = probe m" "nodelay k = nodelay m"
proof -
  obtain a b c d e where "k = m\<lparr>state := a, ssthresh := b, cwnd := c, xmit := d, incr := e, snd_buf := q\<rparr>"
    using assms unfolding flush_end_def by blast
  then show "snd_buf k = q" "snd_queue k = snd_queue m" "snd_nxt k = snd_nxt m" "snd_una k = snd_una m"
    "nsnd_buf k = nsnd_buf m" "nsnd_que k = nsnd_que m" "rmt_wnd k = rmt_wnd m"
    "rcv_buf k = rcv_buf m" "rcv_queue k = rcv_queue m" "rcv_nxt k = rcv_nxt m" "rcv_wnd k = rcv_wnd m"
    "nrcv_buf k = nrcv_buf m" "nrcv_que k = nrcv_que m" "conv k = conv m" "mtu k = mtu m" "mss k = mss m"
    "acklist k = acklist m" "ackcount k = ackcount m" "ackblock k = ackblock m" "buffer k = buffer m"
    "stream k = stream m" "output_set k = output_set m" "updated k = updated m" "ts_flush k = ts_flush m"
    "current k = current m" "interval k = interval m" "probe k = probe m" "nodelay k = nodelay m"
    by simp_all
qed

lemma snd_ok_stamp: "snd_ok una nxt (map (flush_stamp k wnd) q) \<longleftrightarrow> snd_ok una nxt q"
  by (rule snd_ok_map) simp

lemma seg_ok_stamp [simp]: "seg_ok (flush_stamp k wnd s) \<longleftrightarrow> seg_ok s"
  by (simp add: seg_ok_def)

lemma flush_end_wf:
  assumes "flush_end m (map (flush_stamp k wnd) (snd_buf m)) kcp'" and "wf_kcp m"
  shows "wf_kcp kcp'"
  using assms(2) unfolding wf_kcp_def flush_end_fields [OF assms(1)]
  by (simp add: snd_ok_stamp list_all_iff)

lemma ikcp_flush_wf [kcp_result]:
  assumes "ikcp_flush kcp = Some (kcp', out)" and "wf_kcp kcp"
  shows "wf_kcp kcp'"
proof (cases "updated kcp = 0")
  case True
  with assms show ?thesis by (simp add: ikcp_flush_def)
next
  case False
  from ikcp_flush_result [OF assms(1) False] show ?thesis
    by (rule flush_end_wf) (rule moved_block_wf [OF assms(2)])
qed

lemma flush_end_mtu:
  assumes "flush_end m (map (flush_stamp k wnd) (snd_buf m)) kcp'" and "mtu_ok m"
  shows "mtu_ok kcp'"
  using assms(2) unfolding mtu_ok_def flush_end_fields [OF assms(1)] by auto

lemma flush_end_acks:
  assumes "flush_end (moved_block kcp) q kcp'" and "acks_wf kcp"
  shows "acks_wf kcp' \<and> ackcount kcp' = 0"
  using assms(2) unfolding acks_wf_def flush_end_fields [OF assms(1)]
  by (auto simp: control_block_def moved_block_eq Let_def split: option.splits)

subsection \<open>The clock\<close>

text \<open>The block \<open>ikcp_update\<close> looks at, and the time of the flush after this one.\<close>

definition clock_block :: "IKCPCB \<Rightarrow> u32 \<Rightarrow> IKCPCB" where
  "clock_block kcp cur =
     (let kcp = kcp\<lparr>current := cur\<rparr>;
          kcp = (if updated kcp = 0 then kcp\<lparr>updated := 1, ts_flush := cur\<rparr> else kcp);
          slap = itimediff cur (ts_flush kcp)
      in if slap \<ge> 10000 \<or> slap < - 10000 then kcp\<lparr>ts_flush := cur\<rparr> else kcp)"

definition next_flush :: "IKCPCB \<Rightarrow> u32" where
  "next_flush kcp =
     (if itimediff (current kcp) (ts_flush kcp + interval kcp) \<ge> 0
      then current kcp + interval kcp else ts_flush kcp + interval kcp)"

lemma ikcp_update_eq:
  "ikcp_update kcp cur =
     (let k = clock_block kcp cur
      in if itimediff cur (ts_flush k) \<ge> 0 then ikcp_flush (k\<lparr>ts_flush := next_flush k\<rparr>)
         else Some (k, []))"
  by (simp add: ikcp_update_def clock_block_def next_flush_def Let_def)

lemma clock_block_fields [simp]:
  "current (clock_block kcp cur) = cur" "updated kcp \<noteq> 0 \<Longrightarrow> updated (clock_block kcp cur) = updated kcp"
  "updated (clock_block kcp cur) \<noteq> 0"
  by (simp_all add: clock_block_def Let_def)

lemma clock_block_frame [kcp_frame, simp]:
  "conv (clock_block kcp cur) = conv kcp" "mtu (clock_block kcp cur) = mtu kcp"
  "mss (clock_block kcp cur) = mss kcp" "state (clock_block kcp cur) = state kcp"
  "snd_una (clock_block kcp cur) = snd_una kcp" "snd_nxt (clock_block kcp cur) = snd_nxt kcp"
  "rcv_nxt (clock_block kcp cur) = rcv_nxt kcp" "ssthresh (clock_block kcp cur) = ssthresh kcp"
  "rx_rttval (clock_block kcp cur) = rx_rttval kcp"
  "rx_srtt (clock_block kcp cur) = rx_srtt kcp" "rx_rto (clock_block kcp cur) = rx_rto kcp"
  "rx_minrto (clock_block kcp cur) = rx_minrto kcp"
  "snd_wnd (clock_block kcp cur) = snd_wnd kcp" "rcv_wnd (clock_block kcp cur) = rcv_wnd kcp"
  "rmt_wnd (clock_block kcp cur) = rmt_wnd kcp" "cwnd (clock_block kcp cur) = cwnd kcp"
  "probe (clock_block kcp cur) = probe kcp" "interval (clock_block kcp cur) = interval kcp"
  "xmit (clock_block kcp cur) = xmit kcp" "nrcv_buf (clock_block kcp cur) = nrcv_buf kcp"
  "nsnd_buf (clock_block kcp cur) = nsnd_buf kcp"
  "nrcv_que (clock_block kcp cur) = nrcv_que kcp"
  "nsnd_que (clock_block kcp cur) = nsnd_que kcp" "nodelay (clock_block kcp cur) = nodelay kcp"
  "ts_probe (clock_block kcp cur) = ts_probe kcp"
  "probe_wait (clock_block kcp cur) = probe_wait kcp"
  "dead_link (clock_block kcp cur) = dead_link kcp" "incr (clock_block kcp cur) = incr kcp"
  "snd_queue (clock_block kcp cur) = snd_queue kcp"
  "rcv_queue (clock_block kcp cur) = rcv_queue kcp"
  "snd_buf (clock_block kcp cur) = snd_buf kcp" "rcv_buf (clock_block kcp cur) = rcv_buf kcp"
  "acklist (clock_block kcp cur) = acklist kcp" "ackcount (clock_block kcp cur) = ackcount kcp"
  "ackblock (clock_block kcp cur) = ackblock kcp" "buffer (clock_block kcp cur) = buffer kcp"
  "fastresend (clock_block kcp cur) = fastresend kcp"
  "fastlimit (clock_block kcp cur) = fastlimit kcp" "nocwnd (clock_block kcp cur) = nocwnd kcp"
  "stream (clock_block kcp cur) = stream kcp"
  "output_set (clock_block kcp cur) = output_set kcp"
  by (simp_all add: clock_block_def Let_def)

lemma clock_block_wf [kcp_inv]: "wf_kcp kcp \<Longrightarrow> wf_kcp (clock_block kcp cur)"
  by (simp add: wf_kcp_def)

lemma wf_ts_flush [kcp_inv]: "wf_kcp kcp \<Longrightarrow> wf_kcp (kcp\<lparr>ts_flush := t\<rparr>)"
  by (simp add: wf_kcp_def)

lemma ikcp_update_wf [kcp_result]:
  "ikcp_update kcp cur = Some (kcp', out) \<Longrightarrow> wf_kcp kcp \<Longrightarrow> wf_kcp kcp'"
  using clock_block_wf wf_ts_flush ikcp_flush_wf
  by (auto simp: ikcp_update_eq Let_def split: if_splits)

lemma check_packets_Some:
  "check_packets cur q m = Some m' \<Longrightarrow> 0 < m \<Longrightarrow>
   0 < m' \<and> m' \<le> m \<and> (\<forall>s \<in> set q. m' \<le> itimediff (seg_resendts s) cur)"
proof (induction q arbitrary: m)
  case (Cons s q)
  define d where "d = itimediff (seg_resendts s) cur"
  have "0 < d" and rec: "check_packets cur q (if d < m then d else m) = Some m'"
    using Cons.prems(1) by (auto simp: d_def Let_def split: if_splits)
  then show ?case
    using Cons.IH [OF rec] Cons.prems(2) by (auto simp: d_def split: if_splits)
qed simp

text \<open>Between now and a later time that is less than \<open>d\<close> ahead.\<close>

lemma itimediff_before:
  assumes "int (off cur t) < itimediff x cur"
  shows "itimediff t x = int (off cur t) - itimediff x cur"
proof -
  have nonneg: "0 \<le> itimediff x cur"
    using assms by simp
  have x: "itimediff x cur = int (off cur x)" "off cur x < 2 ^ 31"
    using itimediff_off_self [OF nonneg] itimediff_nonneg [of x cur] nonneg by blast+
  then show ?thesis
    using assms itimediff_off [of cur t x] by simp
qed

text \<open>What \<open>ikcp_check\<close> answers when it is neither time to flush nor to send a segment again.\<close>

lemma ikcp_check_later:
  assumes "updated kcp \<noteq> 0" and later: "ikcp_check kcp cur \<noteq> cur"
  obtains v where "ikcp_check kcp cur = cur + v" and "v \<le> interval kcp"
    and "int (unat v) \<le> itimediff (ts_flush kcp) cur" and "itimediff (ts_flush kcp) cur \<le> 10000"
    and "\<forall>s \<in> set (snd_buf kcp). int (unat v) \<le> itimediff (seg_resendts s) cur"
proof -
  let ?d = "itimediff (ts_flush kcp) cur"
  have neg: "itimediff cur (ts_flush kcp) < 0" "- 10000 \<le> itimediff cur (ts_flush kcp)"
    using assms by (auto simp: ikcp_check_def Let_def split: if_splits)
  then have d: "0 < ?d" "?d \<le> 10000"
    using itimediff_flip [of cur "ts_flush kcp"] by simp_all
  obtain m where m: "check_packets cur (snd_buf kcp) 0x7fffffff = Some m"
    using assms neg by (auto simp: ikcp_check_def Let_def split: if_splits option.splits)
  have pk: "0 < m" "m \<le> 0x7fffffff" "\<forall>s \<in> set (snd_buf kcp). m \<le> itimediff (seg_resendts s) cur"
    using check_packets_Some [OF m] by simp_all
  define n where "n = (if m < ?d then m else ?d)"
  have n: "0 < n" "n \<le> m" "n \<le> ?d" "n \<le> 10000"
    using d pk by (auto simp: n_def)
  define w where "w = (word_of_int n :: u32)"
  have "unat w = nat n"
    unfolding w_def using n by (intro unat_word_of_int_nat) simp_all
  then have w: "int (unat w) = n"
    using n(1) by simp
  define v where "v = (if w \<ge> interval kcp then interval kcp else w)"
  have v: "v \<le> interval kcp" "v \<le> w"
    by (auto simp: v_def)
  then have "int (unat v) \<le> n"
    using w by (simp only: word_le_nat_alt)
  moreover have "ikcp_check kcp cur = cur + v"
    using assms(1) neg m by (simp add: ikcp_check_def v_def w_def n_def Let_def)
  ultimately show thesis
    using v(1) n(2,3) d(2) pk(3) by (intro that) (auto intro: order_trans)
qed

lemma demo_mtu_ok [simp]: "mtu_ok demo_kcp"
  by (simp add: mtu_ok_def)

subsection \<open>Properties\<close>

text \<open>
  C7: A flush sends exactly the pending acknowledgements, the window probes due and the data
  segments due, in this order, packed into whole-segment datagrams of at most \<open>mtu\<close> bytes:
  it never writes past the output buffer and never hands over an empty datagram.
\<close>

theorem ikcp_flush_packs:
  assumes "updated kcp \<noteq> 0" and "output_set kcp" and "mtu_ok kcp" and "unat (ackcount kcp) < 2 ^ 31"
  shows "\<exists>kcp' gs. ikcp_flush kcp = Some (kcp', map segs_wire gs) \<and> concat gs = flush_segs kcp \<and>
     (\<forall>d \<in> set (map segs_wire gs). d \<noteq> [] \<and> length d \<le> unat (mtu kcp))"
proof -
  obtain kcp' gs where "ikcp_flush kcp = Some (kcp', map segs_wire gs)" "concat gs = flush_segs kcp"
      "\<forall>g \<in> set gs. g \<noteq> [] \<and> length (segs_wire g) \<le> unat (mtu kcp)"
    by (rule ikcp_flush_eq [OF assms])
  then show ?thesis
    by (intro exI [of _ kcp'] exI [of _ gs]) simp
qed

theorem ikcp_flush_packs_witness:
  "\<exists>kcp' gs. ikcp_flush demo_kcp = Some (kcp', map segs_wire gs) \<and> concat gs = flush_segs demo_kcp"
  using ikcp_flush_packs [of demo_kcp] by auto



text \<open>
  C21: \<open>ikcp_check\<close> is sound: it answers a time at most one interval and at most 10 s ahead,
  and at every time before it \<open>ikcp_update\<close> has nothing to do and no segment is due.
\<close>

theorem ikcp_check_sound:
  assumes "updated kcp \<noteq> 0" and "off cur t < off cur (ikcp_check kcp cur)"
  shows "off cur (ikcp_check kcp cur) \<le> min (unat (interval kcp)) 10000 \<and>
     ikcp_update kcp t = Some (kcp\<lparr>current := t\<rparr>, []) \<and>
     (\<forall>s \<in> set (snd_buf kcp). itimediff t (seg_resendts s) < 0)"
proof -
  have "ikcp_check kcp cur \<noteq> cur"
    using assms(2) by auto
  then obtain v where v: "ikcp_check kcp cur = cur + v" "v \<le> interval kcp"
      "int (unat v) \<le> itimediff (ts_flush kcp) cur" "itimediff (ts_flush kcp) cur \<le> 10000"
      "\<forall>s \<in> set (snd_buf kcp). int (unat v) \<le> itimediff (seg_resendts s) cur"
    using ikcp_check_later [OF assms(1)] by blast
  have off: "off cur (ikcp_check kcp cur) = unat v"
    by (simp add: v(1) off_def)
  then have t: "int (off cur t) < int (unat v)"
    using assms(2) by (simp only: of_nat_less_iff)
  have before: "itimediff t (ts_flush kcp) = int (off cur t) - itimediff (ts_flush kcp) cur"
    using t v(3) by (intro itimediff_before) linarith
  then have "itimediff t (ts_flush kcp) < 0" "- 10000 \<le> itimediff t (ts_flush kcp)"
    using t v(3,4) by linarith+
  then have "ikcp_update kcp t = Some (kcp\<lparr>current := t\<rparr>, [])"
    using assms(1) by (simp add: ikcp_update_def)
  moreover have "itimediff t (seg_resendts s) < 0" if "s \<in> set (snd_buf kcp)" for s
    using itimediff_before [of cur t "seg_resendts s"] v(5) that t by fastforce
  moreover have "unat v \<le> unat (interval kcp)" "unat v \<le> 10000"
    using v(2-4) by (simp_all only: word_le_nat_alt)
  ultimately show ?thesis
    using off by simp
qed

theorem ikcp_check_sound_witness:
  "ikcp_update (demo_kcp\<lparr>snd_buf := []\<rparr>) 60 = Some (demo_kcp\<lparr>snd_buf := [], current := 60\<rparr>, [])"
  using ikcp_check_sound [of "demo_kcp\<lparr>snd_buf := []\<rparr>" 50 60]
  by (simp add: ikcp_check_def itimediff_def off_def Let_def)

text \<open>
  C22: When the flush time is reached, \<open>ikcp_update\<close> flushes exactly once and the next flush
  time lies ahead, by at most one interval.
\<close>

theorem ikcp_update_flushes:
  assumes "updated kcp \<noteq> 0" and "0 \<le> itimediff cur (ts_flush kcp)" and "0 < interval kcp"
    and "unat (interval kcp) \<le> 5000"
  shows "\<exists>t. ikcp_update kcp cur = ikcp_flush (kcp\<lparr>current := cur, ts_flush := t\<rparr>) \<and>
     0 < itimediff t cur \<and> itimediff t cur \<le> int (unat (interval kcp))"
proof -
  let ?k = "clock_block kcp cur"
  define i where "i = unat (interval kcp)"
  have ts: "ts_flush ?k = (if itimediff cur (ts_flush kcp) \<ge> 10000 then cur else ts_flush kcp)"
    using assms(1,2) by (simp add: clock_block_def Let_def)
  define d where "d = off (ts_flush ?k) cur"
  have d: "itimediff cur (ts_flush ?k) = int d"
    using assms(2) itimediff_off_self [of cur "ts_flush ?k"] by (simp add: ts d_def)
  have dlt: "d < 10000"
    using d assms(2) by (auto simp: ts split: if_splits)
  have i: "off x (x + interval kcp) = i" "0 < i" "i \<le> 5000" for x
    using assms(3,4) by (simp_all add: off_def i_def unat_gt_0 word_gt_0)
  have diff: "itimediff (ts_flush ?k + interval kcp) cur = int i - int d"
    using i dlt by (subst itimediff_off [of "ts_flush ?k"]) (simp_all add: d_def [symmetric])
  have diff': "itimediff cur (ts_flush ?k + interval kcp) = int d - int i"
    using i dlt by (subst itimediff_off [of "ts_flush ?k"]) (simp_all add: d_def [symmetric])
  have now: "itimediff (cur + interval kcp) cur = int i"
    using i by (subst itimediff_off [of cur]) simp_all
  have "0 < itimediff (next_flush ?k) cur \<and> itimediff (next_flush ?k) cur \<le> int i"
    using i diff diff' now by (simp add: next_flush_def)
  moreover have "ikcp_update kcp cur = ikcp_flush (?k\<lparr>ts_flush := next_flush ?k\<rparr>)"
    using d by (simp add: ikcp_update_eq Let_def)
  moreover have "?k\<lparr>ts_flush := next_flush ?k\<rparr> = kcp\<lparr>current := cur, ts_flush := next_flush ?k\<rparr>"
    using assms(1) by (simp add: clock_block_def Let_def)
  ultimately show ?thesis
    unfolding i_def by metis
qed

theorem ikcp_update_flushes_witness:
  "\<exists>t. ikcp_update demo_kcp 130 = ikcp_flush (demo_kcp\<lparr>current := 130, ts_flush := t\<rparr>) \<and>
     0 < itimediff t 130 \<and> itimediff t 130 \<le> 100"
  using ikcp_update_flushes [of demo_kcp 130] by (simp add: itimediff_def)

end
