(* ===== verification/Ikcp_Session.thy ===== *)
theory Ikcp_Session
  imports Ikcp_Send Ikcp_Input Ikcp_Flush
begin

section \<open>Sequences of calls on one control block\<close>

text \<open>
  A client of ikcp.h calls its functions in any order with any arguments. \<open>kcp_step\<close> is one
  call; the locale \<open>op_machine\<close> is the contract that calls keep an invariant, and
  \<open>total_machine\<close> extends it by the promise that a call allowed in a state returns. Their
  lemmas lift the contracts to whole sequences; the interpretations discharge them for the
  functions of ikcp.c.
\<close>

subsection \<open>The contracts\<close>

fun run_ops :: "('op \<Rightarrow> 's \<Rightarrow> ('s \<times> 'o list) option) \<Rightarrow> 'op list \<Rightarrow> 's \<Rightarrow> ('s \<times> 'o list) option"
where
  "run_ops step [] s = Some (s, [])"
| "run_ops step (op # ops) s =
     (case step op s of
        None \<Rightarrow> None
      | Some (s', out) \<Rightarrow> map_option (\<lambda>(s'', out'). (s'', out @ out')) (run_ops step ops s'))"

text \<open>Every call of the sequence is allowed in the state it finds.\<close>

fun run_ok :: "('op \<Rightarrow> 's \<Rightarrow> ('s \<times> 'o list) option) \<Rightarrow> ('op \<Rightarrow> 's \<Rightarrow> bool) \<Rightarrow> 'op list \<Rightarrow> 's \<Rightarrow> bool"
where
  "run_ok step ok [] s = True"
| "run_ok step ok (op # ops) s \<longleftrightarrow>
     ok op s \<and> (case step op s of None \<Rightarrow> True | Some (s', _) \<Rightarrow> run_ok step ok ops s')"

locale op_machine =
  fixes step :: "'op \<Rightarrow> 's \<Rightarrow> ('s \<times> 'o list) option"
    and ok :: "'op \<Rightarrow> 's \<Rightarrow> bool"
    and inv :: "'s \<Rightarrow> bool"
    and good :: "'o \<Rightarrow> bool"
  assumes keeps: "inv s \<Longrightarrow> ok op s \<Longrightarrow> step op s = Some (s', out) \<Longrightarrow> inv s'"
    and emits: "inv s \<Longrightarrow> ok op s \<Longrightarrow> step op s = Some (s', out) \<Longrightarrow> list_all good out"
begin

lemma run_keeps:
  "inv s \<Longrightarrow> run_ok step ok ops s \<Longrightarrow> run_ops step ops s = Some (s', out) \<Longrightarrow> inv s' \<and> list_all good out"
proof (induction ops arbitrary: s out)
  case (Cons op ops)
  then obtain s1 o1 o2 where "step op s = Some (s1, o1)" "run_ops step ops s1 = Some (s', o2)"
      "out = o1 @ o2" "ok op s" "run_ok step ok ops s1"
    by (auto split: option.splits)
  with Cons.IH [of s1 o2] Cons.prems(1) keeps emits show ?case
    by fastforce
qed simp

end

locale total_machine = op_machine +
  assumes progress: "inv s \<Longrightarrow> ok op s \<Longrightarrow> \<exists>s' out. step op s = Some (s', out)"
begin

lemma run_total:
  "inv s \<Longrightarrow> run_ok step ok ops s \<Longrightarrow>
   \<exists>s' out. run_ops step ops s = Some (s', out) \<and> inv s' \<and> list_all good out"
proof (induction ops arbitrary: s)
  case (Cons op ops)
  then obtain s1 o1 where s1: "step op s = Some (s1, o1)"
    using progress by fastforce
  moreover have "inv s1" "run_ok step ok ops s1" "list_all good o1"
    using Cons.prems s1 keeps emits by auto
  moreover from this obtain s2 o2 where "run_ops step ops s1 = Some (s2, o2)" "inv s2" "list_all good o2"
    using Cons.IH by blast
  ultimately show ?case by simp
qed simp

end

subsection \<open>The calls of ikcp.h\<close>

datatype kcp_op =
  Op_send "byte list" | Op_recv bool int | Op_input "byte list" | Op_update u32 | Op_flush |
  Op_setmtu int | Op_interval int | Op_nodelay int int int int | Op_wndsize int int |
  Op_setoutput bool

definition quiet :: "IKCPCB \<Rightarrow> (IKCPCB \<times> byte list list) option" where
  "quiet kcp = Some (kcp, [])"

fun kcp_step :: "allocator \<Rightarrow> kcp_op \<Rightarrow> IKCPCB \<Rightarrow> (IKCPCB \<times> byte list list) option" where
  "kcp_step al (Op_send b) kcp =
     (case ikcp_send al kcp (Some b) (int (length b)) of None \<Rightarrow> None | Some (r, k) \<Rightarrow> quiet k)"
| "kcp_step al (Op_recv has_buffer len) kcp =
     (case ikcp_recv kcp has_buffer len of None \<Rightarrow> None | Some (r, out, k) \<Rightarrow> quiet k)"
| "kcp_step al (Op_input d) kcp =
     (case ikcp_input al kcp (Some d) of None \<Rightarrow> None | Some (r, k) \<Rightarrow> quiet k)"
| "kcp_step al (Op_update cur) kcp = ikcp_update kcp cur"
| "kcp_step al Op_flush kcp = ikcp_flush kcp"
| "kcp_step al (Op_setmtu m) kcp = quiet (snd (ikcp_setmtu al kcp m))"
| "kcp_step al (Op_interval i) kcp = quiet (snd (ikcp_interval kcp i))"
| "kcp_step al (Op_nodelay a b c d) kcp = quiet (snd (ikcp_nodelay kcp a b c d))"
| "kcp_step al (Op_wndsize s r) kcp = quiet (snd (ikcp_wndsize kcp s r))"
| "kcp_step al (Op_setoutput cb) kcp = quiet (ikcp_setoutput kcp cb)"

text \<open>Arguments in the range of a C \<open>int\<close>.\<close>

fun op_small :: "kcp_op \<Rightarrow> IKCPCB \<Rightarrow> bool" where
  "op_small (Op_send b) kcp \<longleftrightarrow> length b < 2 ^ 31"
| "op_small (Op_setmtu m) kcp \<longleftrightarrow> m < 2 ^ 31"
| "op_small (Op_wndsize s r) kcp \<longleftrightarrow> r < 2 ^ 31"
| "op_small _ kcp \<longleftrightarrow> True"

text \<open>
  Calls that cannot fail: the mtu stays as it is, the output callback stays set, and fewer
  than \<open>2 ^ 31\<close> acknowledgements are waiting.
\<close>

fun op_safe :: "kcp_op \<Rightarrow> IKCPCB \<Rightarrow> bool" where
  "op_safe (Op_setmtu m) kcp \<longleftrightarrow> False"
| "op_safe (Op_setoutput cb) kcp \<longleftrightarrow> cb"
| "op_safe (Op_input d) kcp \<longleftrightarrow> unat (ackcount kcp) + length d div 24 < 2 ^ 31"
| "op_safe (Op_update cur) kcp \<longleftrightarrow> unat (ackcount kcp) < 2 ^ 31"
| "op_safe Op_flush kcp \<longleftrightarrow> unat (ackcount kcp) < 2 ^ 31"
| "op_safe op kcp \<longleftrightarrow> op_small op kcp"

subsection \<open>Any calls keep a block well formed\<close>

definition kcp_inv0 :: "IKCPCB \<Rightarrow> bool" where
  "kcp_inv0 kcp \<longleftrightarrow> wf_kcp kcp \<and> 0 \<le> sint (mss kcp)"

lemma recv_pop_frame [kcp_frame, simp]:
  "conv (recv_pop kcp) = conv kcp" "mtu (recv_pop kcp) = mtu kcp"
  "mss (recv_pop kcp) = mss kcp" "state (recv_pop kcp) = state kcp"
  "snd_una (recv_pop kcp) = snd_una kcp" "snd_nxt (recv_pop kcp) = snd_nxt kcp"
  "rcv_nxt (recv_pop kcp) = rcv_nxt kcp" "ssthresh (recv_pop kcp) = ssthresh kcp"
  "rx_rttval (recv_pop kcp) = rx_rttval kcp" "rx_srtt (recv_pop kcp) = rx_srtt kcp"
  "rx_rto (recv_pop kcp) = rx_rto kcp" "rx_minrto (recv_pop kcp) = rx_minrto kcp"
  "snd_wnd (recv_pop kcp) = snd_wnd kcp" "rcv_wnd (recv_pop kcp) = rcv_wnd kcp"
  "rmt_wnd (recv_pop kcp) = rmt_wnd kcp" "cwnd (recv_pop kcp) = cwnd kcp"
  "probe (recv_pop kcp) = probe kcp" "current (recv_pop kcp) = current kcp"
  "interval (recv_pop kcp) = interval kcp" "ts_flush (recv_pop kcp) = ts_flush kcp"
  "xmit (recv_pop kcp) = xmit kcp" "nrcv_buf (recv_pop kcp) = nrcv_buf kcp"
  "nsnd_buf (recv_pop kcp) = nsnd_buf kcp" "nsnd_que (recv_pop kcp) = nsnd_que kcp"
  "nodelay (recv_pop kcp) = nodelay kcp" "updated (recv_pop kcp) = updated kcp"
  "ts_probe (recv_pop kcp) = ts_probe kcp" "probe_wait (recv_pop kcp) = probe_wait kcp"
  "dead_link (recv_pop kcp) = dead_link kcp" "incr (recv_pop kcp) = incr kcp"
  "snd_queue (recv_pop kcp) = snd_queue kcp" "snd_buf (recv_pop kcp) = snd_buf kcp"
  "rcv_buf (recv_pop kcp) = rcv_buf kcp" "acklist (recv_pop kcp) = acklist kcp"
  "ackcount (recv_pop kcp) = ackcount kcp" "ackblock (recv_pop kcp) = ackblock kcp"
  "buffer (recv_pop kcp) = buffer kcp" "fastresend (recv_pop kcp) = fastresend kcp"
  "fastlimit (recv_pop kcp) = fastlimit kcp" "nocwnd (recv_pop kcp) = nocwnd kcp"
  "stream (recv_pop kcp) = stream kcp" "output_set (recv_pop kcp) = output_set kcp"
  by (simp_all add: recv_pop_def Let_def)

lemma recv_refill_frame [kcp_frame, simp]:
  "conv (recv_refill b kcp) = conv kcp" "mtu (recv_refill b kcp) = mtu kcp"
  "mss (recv_refill b kcp) = mss kcp" "state (recv_refill b kcp) = state kcp"
  "snd_una (recv_refill b kcp) = snd_una kcp" "snd_nxt (recv_refill b kcp) = snd_nxt kcp"
  "ssthresh (recv_refill b kcp) = ssthresh kcp" "rx_rttval (recv_refill b kcp) = rx_rttval kcp"
  "rx_srtt (recv_refill b kcp) = rx_srtt kcp" "rx_rto (recv_refill b kcp) = rx_rto kcp"
  "rx_minrto (recv_refill b kcp) = rx_minrto kcp" "snd_wnd (recv_refill b kcp) = snd_wnd kcp"
  "rcv_wnd (recv_refill b kcp) = rcv_wnd kcp" "rmt_wnd (recv_refill b kcp) = rmt_wnd kcp"
  "cwnd (recv_refill b kcp) = cwnd kcp" "current (recv_refill b kcp) = current kcp"
  "interval (recv_refill b kcp) = interval kcp" "ts_flush (recv_refill b kcp) = ts_flush kcp"
  "xmit (recv_refill b kcp) = xmit kcp" "nsnd_buf (recv_refill b kcp) = nsnd_buf kcp"
  "nsnd_que (recv_refill b kcp) = nsnd_que kcp" "nodelay (recv_refill b kcp) = nodelay kcp"
  "updated (recv_refill b kcp) = updated kcp" "ts_probe (recv_refill b kcp) = ts_probe kcp"
  "probe_wait (recv_refill b kcp) = probe_wait kcp"
  "dead_link (recv_refill b kcp) = dead_link kcp" "incr (recv_refill b kcp) = incr kcp"
  "snd_queue (recv_refill b kcp) = snd_queue kcp" "snd_buf (recv_refill b kcp) = snd_buf kcp"
  "acklist (recv_refill b kcp) = acklist kcp" "ackcount (recv_refill b kcp) = ackcount kcp"
  "ackblock (recv_refill b kcp) = ackblock kcp" "buffer (recv_refill b kcp) = buffer kcp"
  "fastresend (recv_refill b kcp) = fastresend kcp"
  "fastlimit (recv_refill b kcp) = fastlimit kcp" "nocwnd (recv_refill b kcp) = nocwnd kcp"
  "stream (recv_refill b kcp) = stream kcp" "output_set (recv_refill b kcp) = output_set kcp"
  by (simp_all add: recv_refill_def Let_def)

lemma ikcp_recv_block:
  "ikcp_recv kcp hb len = Some (r, out, k) \<Longrightarrow>
   k = kcp \<or> (\<exists>b. k = recv_refill b kcp \<or> k = recv_refill b (recv_pop kcp))"
  by (auto simp: ikcp_recv_eq split: if_splits)

text \<open>What input leaves alone: the configuration, the send queue, the content of segments.\<close>

definition seg_core :: "IKCPSEG \<Rightarrow> u32 \<times> u32 \<times> u32 \<times> u32 \<times> u32 \<times> byte list" where
  "seg_core s = (seg_conv s, seg_cmd s, seg_sn s, seg_frg s, seg_len s, seg_data s)"

definition input_same :: "IKCPCB \<Rightarrow> IKCPCB \<Rightarrow> bool" where
  "input_same k k' \<longleftrightarrow>
     conv k' = conv k \<and>
     mtu k' = mtu k \<and>
     mss k' = mss k \<and>
     buffer k' = buffer k \<and>
     snd_nxt k' = snd_nxt k \<and>
     snd_queue k' = snd_queue k \<and>
     nsnd_que k' = nsnd_que k \<and>
     stream k' = stream k \<and>
     output_set k' = output_set k \<and>
     updated k' = updated k \<and>
     rcv_wnd k' = rcv_wnd k \<and>
     interval k' = interval k \<and>
     seg_core ` set (snd_buf k') \<subseteq> seg_core ` set (snd_buf k)"

lemma input_same_refl [simp]: "input_same k k"
  by (simp add: input_same_def)

lemma input_same_trans: "input_same k k' \<Longrightarrow> input_same k' k'' \<Longrightarrow> input_same k k''"
  by (simp add: input_same_def) (blast intro: subset_trans)

lemma input_header_same: "input_same k (input_header k h)"
proof -
  have "set (snd_buf (input_header k h)) \<subseteq> set (snd_buf k)"
    by (auto simp: input_header_def Let_def ikcp_parse_una_def una_loop_eq dest: set_dropWhileD)
  then show ?thesis
    by (auto simp: input_same_def)
qed

lemma parse_ack_same: "input_same k (ikcp_parse_ack k sn)"
proof -
  have "set (snd_buf (ikcp_parse_ack k sn)) \<subseteq> set (snd_buf k)"
    using ack_remove_split [of sn "snd_buf k"]
    by (auto simp: ikcp_parse_ack_def split: option.split)
  then show ?thesis
    by (auto simp: input_same_def)
qed

lemma input_ack_same: "input_same k (input_ack k sn ts)"
proof -
  have "input_same k (if b then ikcp_update_ack k r else k)" for b r
    by (simp add: input_same_def)
  moreover have "input_same x (ikcp_shrink_buf x)" for x
    by (simp add: input_same_def)
  ultimately show ?thesis
    unfolding input_ack_def Let_def using parse_ack_same input_same_trans by blast
qed

lemma ack_push_same: "ikcp_ack_push al k sn ts = Some k' \<Longrightarrow> input_same k k'"
  by (drule ack_push_frame, erule ssubst) (simp add: input_same_def)

lemma input_push_same: "input_push al k h d = Some k' \<Longrightarrow> input_same k k'"
proof -
  have "input_same x (ikcp_parse_data x s)" for x s
    by (simp add: input_same_def)
  then show "input_push al k h d = Some k' \<Longrightarrow> input_same k k'"
    by (auto simp: input_push_def split: if_splits option.splits
        dest!: ack_push_same intro: input_same_trans)
qed

lemma input_segment_same:
  assumes "input_segment al k h d tr = Some (k', tr')"
  shows "input_same k k'"
proof -
  let ?k = "input_header k h"
  have "input_same ?k (?k\<lparr>probe := p\<rparr>)" for p
    by (simp add: input_same_def)
  then have "input_same ?k k'"
    using input_command_cases [OF assms [unfolded input_segment_def]] input_ack_same input_push_same
    by auto
  then show ?thesis
    using input_header_same input_same_trans by blast
qed

lemma input_loop_same:
  assumes "input_loop al k d tr = Some (r, k', tr')"
  shows "input_same k k'"
  by (rule input_loop_inv [where P = "input_same k", OF _ assms])
    (auto intro: input_same_trans input_segment_same)

lemma fastack_loop_core: "map seg_core (fastack_loop sn q) = map seg_core q"
  by (induction q) (auto simp: seg_core_def)

lemma parse_fastack_same: "input_same k (ikcp_parse_fastack k sn ts)"
proof -
  have "seg_core ` set (fastack_loop sn q) = seg_core ` set q" for q
    using arg_cong [OF fastack_loop_core, of set] by simp
  then show ?thesis
    by (simp add: input_same_def ikcp_parse_fastack_def)
qed

lemma input_cwnd_same: "input_cwnd k = Some k' \<Longrightarrow> input_same k k'"
  by (drule input_cwnd_frame, erule ssubst) (simp add: input_same_def)

lemma ikcp_input_same:
  assumes "ikcp_input al k buf = Some (r, k')"
  shows "input_same k k'"
proof -
  consider "k' = k"
    | d k1 tr where "input_loop al k d \<lparr>ack_flag = False, maxack = 0, latest_ts = 0\<rparr> = Some (r, k1, tr)"
        "k' = k1 \<or> k' = ikcp_parse_fastack k1 (maxack tr) (latest_ts tr) \<or>
         input_cwnd k1 = Some k' \<or>
         input_cwnd (ikcp_parse_fastack k1 (maxack tr) (latest_ts tr)) = Some k'"
    using assms by (auto simp: ikcp_input_def Let_def split: option.splits if_splits)
  then show ?thesis
  proof cases
    case 1
    then show ?thesis by simp
  next
    case (2 d k1 tr)
    then show ?thesis
      using input_loop_same [OF 2(1)] input_cwnd_same parse_fastack_same input_same_trans by blast
  qed
qed

lemma ikcp_flush_mss: "ikcp_flush k = Some (k', out) \<Longrightarrow> mss k' = mss k"
  using flush_end_fields(16) [OF ikcp_flush_result]
  by (cases "updated k = 0") (auto simp: ikcp_flush_def)

lemma ikcp_update_mss: "ikcp_update k cur = Some (k', out) \<Longrightarrow> mss k' = mss k"
  by (auto simp: ikcp_update_eq Let_def split: if_splits dest!: ikcp_flush_mss)

lemma ikcp_setmtu_mss:
  assumes "0 \<le> sint (mss k)" and "m < 2 ^ 31"
  shows "0 \<le> sint (mss (snd (ikcp_setmtu al k m)))"
proof (cases "m < 24")
  case True
  with assms(1) show ?thesis
    by (simp add: ikcp_setmtu_def kcp_consts)
next
  case False
  then have "unat (word_of_int (m - 24) :: u32) < 2 ^ 31"
    using assms(2) by (intro unat_word_of_int_pos) simp_all
  moreover have "(word_of_int m - 24 :: u32) = word_of_int (m - 24)"
    by simp
  ultimately have "0 \<le> sint (word_of_int m - 24 :: u32)"
    by (simp only: sint_nonneg_iff)
  with False assms(1) show ?thesis
    by (simp add: ikcp_setmtu_def kcp_consts Let_def)
qed

lemma kcp_step_inv0:
  assumes "kcp_inv0 kcp" and "op_small op kcp" and "kcp_step al op kcp = Some (kcp', out)"
  shows "kcp_inv0 kcp'"
proof (cases op)
  case (Op_send b)
  then obtain r where "ikcp_send al kcp (Some b) (int (length b)) = Some (r, kcp')"
    using assms(3) by (auto simp: quiet_def split: option.splits)
  with assms Op_send show ?thesis
    using ikcp_send_wf [of kcp "int (length b)" "Some b" al r kcp'] send_adds_mss [of kcp kcp']
    by (simp add: kcp_inv0_def buf_ok_def)
next
  case (Op_recv hb len)
  then obtain r b where r: "ikcp_recv kcp hb len = Some (r, b, kcp')"
    using assms(3) by (auto simp: quiet_def split: option.splits)
  with assms show ?thesis
    using ikcp_recv_wf [OF _ r] ikcp_recv_block [OF r] by (auto simp: kcp_inv0_def)
next
  case (Op_input d)
  then obtain r where r: "ikcp_input al kcp (Some d) = Some (r, kcp')"
    using assms(3) by (auto simp: quiet_def split: option.splits)
  with assms show ?thesis
    using ikcp_input_wf [OF _ r] ikcp_input_same [OF r] by (simp add: kcp_inv0_def input_same_def)
next
  case (Op_update cur)
  with assms show ?thesis
    using ikcp_update_wf [of kcp cur kcp' out] ikcp_update_mss [of kcp cur kcp' out]
    by (simp add: kcp_inv0_def)
next
  case Op_flush
  with assms show ?thesis
    using ikcp_flush_wf [of kcp kcp' out] ikcp_flush_mss [of kcp kcp' out] by (simp add: kcp_inv0_def)
next
  case (Op_setmtu m)
  with assms show ?thesis
    using ikcp_setmtu_mss ikcp_setmtu_wf by (auto simp: kcp_inv0_def quiet_def)
next
  case (Op_interval i)
  with assms show ?thesis
    using ikcp_interval_wf by (auto simp: kcp_inv0_def quiet_def ikcp_interval_def Let_def)
next
  case (Op_nodelay a b c d)
  moreover have "mss (snd (ikcp_nodelay kcp a b c d)) = mss kcp"
    by (simp add: ikcp_nodelay_def Let_def)
  ultimately show ?thesis
    using assms ikcp_nodelay_wf by (auto simp: kcp_inv0_def quiet_def)
next
  case (Op_wndsize s r)
  moreover have "mss (snd (ikcp_wndsize kcp s r)) = mss kcp"
    by (simp add: ikcp_wndsize_def Let_def)
  ultimately show ?thesis
    using assms ikcp_wndsize_wf by (auto simp: kcp_inv0_def quiet_def)
next
  case (Op_setoutput cb)
  with assms show ?thesis
    using ikcp_setoutput_wf by (auto simp: kcp_inv0_def quiet_def ikcp_setoutput_def)
qed

interpretation kcp_any: op_machine "kcp_step al" op_small kcp_inv0 "\<lambda>_. True"
  by unfold_locales (auto intro: kcp_step_inv0 simp: list_all_iff)

subsection \<open>Safe calls never fail\<close>

definition dgram_ok :: "nat \<Rightarrow> byte list \<Rightarrow> bool" where
  "dgram_ok M d \<longleftrightarrow> d \<noteq> [] \<and> length d \<le> M"

definition kcp_safe :: "allocator \<Rightarrow> nat \<Rightarrow> IKCPCB \<Rightarrow> bool" where
  "kcp_safe al M kcp \<longleftrightarrow>
     grants_all al \<and> wf_kcp kcp \<and> acks_wf kcp \<and> mtu_ok kcp \<and> output_set kcp \<and> unat (mtu kcp) = M"

text \<open>What a call answers when it succeeds and keeps the block safe.\<close>

definition safe_result :: "allocator \<Rightarrow> nat \<Rightarrow> (IKCPCB \<times> byte list list) option \<Rightarrow> bool" where
  "safe_result al M res \<longleftrightarrow>
     (\<exists>k out. res = Some (k, out) \<and> kcp_safe al M k \<and> list_all (dgram_ok M) out)"

lemma safe_resultI: "kcp_safe al M k \<Longrightarrow> list_all (dgram_ok M) out \<Longrightarrow> safe_result al M (Some (k, out))"
  by (simp add: safe_result_def)

lemma safe_quiet: "kcp_safe al M k \<Longrightarrow> safe_result al M (quiet k)"
  by (simp add: safe_result_def quiet_def)

lemma kcp_safe_mss: "kcp_safe al M k \<Longrightarrow> 0 < mss k \<and> 0 \<le> sint (mss k)"
  using mtu_okD(1) [of k] by (auto simp: kcp_safe_def mtu_ok_def sint_nonneg_iff word_gt_0)

text \<open>The fields safety depends on beside well-formedness.\<close>

lemma kcp_safe_same:
  assumes "kcp_safe al M k" and "wf_kcp k'" and "acklist k' = acklist k" "ackcount k' = ackcount k"
    "ackblock k' = ackblock k" "mtu k' = mtu k" "mss k' = mss k" "buffer k' = buffer k"
    "output_set k'" and "\<forall>s \<in> set (snd_queue k') \<union> set (snd_buf k'). unat (seg_len s) \<le> unat (mss k)"
  shows "kcp_safe al M k'"
  using assms acks_wf_cong [of k' k] unfolding kcp_safe_def mtu_ok_def by simp

lemma safe_send:
  assumes "kcp_safe al M k" and "length b < 2 ^ 31"
  shows "safe_result al M (kcp_step al (Op_send b) k)"
proof -
  note mss = kcp_safe_mss [OF assms(1)]
  obtain r k' where r: "ikcp_send al k (Some b) (int (length b)) = Some (r, k')"
    using ikcp_send_total [of al k "Some b" "int (length b)"] assms(1) mss by (auto simp: kcp_safe_def word_gt_0)
  have wf: "wf_kcp k'" and adds: "send_adds k k'"
    using ikcp_send_wf [OF _ _ _ _ r] assms mss by (auto simp: kcp_safe_def buf_ok_def)
  then obtain n q where k': "k' = k\<lparr>nsnd_que := n, snd_queue := q\<rparr>"
    "\<forall>s \<in> set q. s \<in> set (snd_queue k) \<or> unat (seg_len s) \<le> unat (mss k)"
    unfolding send_adds_def by (metis IKCPCB.select_convs(34) IKCPCB.surjective IKCPCB.update_convs(34))
  have old: "\<forall>s \<in> set (snd_queue k) \<union> set (snd_buf k). unat (seg_len s) \<le> unat (mss k)"
    using assms(1) mtu_okD(2) by (auto simp: kcp_safe_def)
  have "kcp_safe al M k'"
    by (rule kcp_safe_same [OF assms(1) wf]) (use k' old assms(1) in \<open>auto simp: kcp_safe_def\<close>)
  then show ?thesis
    using r by (simp add: safe_quiet)
qed

lemma safe_recv:
  assumes "kcp_safe al M k"
  shows "safe_result al M (kcp_step al (Op_recv hb len) k)"
proof -
  have "ikcp_recv k hb len \<noteq> None"
    by (simp add: ikcp_recv_eq)
  then obtain r b k' where r: "ikcp_recv k hb len = Some (r, b, k')"
    by (cases "ikcp_recv k hb len") auto
  have old: "\<forall>s \<in> set (snd_queue k) \<union> set (snd_buf k). unat (seg_len s) \<le> unat (mss k)"
    using assms mtu_okD(2) by (auto simp: kcp_safe_def)
  have "wf_kcp k'"
    using ikcp_recv_wf [OF _ r] assms by (simp add: kcp_safe_def)
  then have "kcp_safe al M k'"
    by (rule kcp_safe_same [OF assms])
      (use ikcp_recv_block [OF r] old assms in \<open>auto simp: kcp_safe_def\<close>)
  then show ?thesis
    using r by (simp add: safe_quiet)
qed

lemma safe_input:
  assumes "kcp_safe al M k" and "unat (ackcount k) + length d div 24 < 2 ^ 31"
  shows "safe_result al M (kcp_step al (Op_input d) k)"
proof -
  obtain r k' where r: "ikcp_input al k (Some d) = Some (r, k')" and acks: "acks_wf k'"
    using ikcp_input_total [of k al "Some d"] assms kcp_safe_mss [OF assms(1)]
    by (auto simp: kcp_safe_def)
  have wf: "wf_kcp k'"
    using ikcp_input_wf [OF _ r] assms by (simp add: kcp_safe_def)
  note same = ikcp_input_same [OF r, unfolded input_same_def]
  have "unat (seg_len s) \<le> unat (mss k)" if "s \<in> set (snd_buf k')" for s
  proof -
    have "seg_core s \<in> seg_core ` set (snd_buf k)"
      using same that by blast
    then obtain t where "t \<in> set (snd_buf k)" "seg_len s = seg_len t"
      by (auto simp: seg_core_def)
    then show ?thesis
      using assms(1) mtu_okD(2) by (auto simp: kcp_safe_def)
  qed
  then have "mtu_ok k'"
    using same assms(1) by (auto simp: kcp_safe_def mtu_ok_def)
  with wf acks same assms(1) have "kcp_safe al M k'"
    by (simp add: kcp_safe_def)
  then show ?thesis
    using r by (simp add: safe_quiet)
qed

lemma safe_flush:
  assumes "kcp_safe al M k" and "unat (ackcount k) < 2 ^ 31"
  shows "safe_result al M (ikcp_flush k)"
proof (cases "updated k = 0")
  case True
  with assms(1) show ?thesis
    by (simp add: ikcp_flush_def safe_result_def)
next
  case False
  have k: "output_set k" "mtu_ok k" "unat (mtu k) = M"
    using assms(1) by (simp_all add: kcp_safe_def)
  obtain k' gs where flush: "ikcp_flush k = Some (k', map segs_wire gs)" "concat gs = flush_segs k"
      "\<forall>g \<in> set gs. g \<noteq> [] \<and> length (segs_wire g) \<le> unat (mtu k)"
      "flush_end (moved_block k) (map (flush_stamp (moved_block k) (unused_wnd k)) (snd_buf (moved_block k))) k'"
      "0 < cwnd k'"
    by (rule ikcp_flush_eq [OF False k(1,2) assms(2)])
  have "wf_kcp k'" "acks_wf k'"
    using assms(1) ikcp_flush_wf [OF flush(1)] flush_end_acks [OF flush(4)] by (simp_all add: kcp_safe_def)
  moreover have "mtu_ok k'"
    by (rule flush_end_mtu [OF flush(4) moved_block_mtu [OF k(2)]])
  moreover have "mtu k' = mtu k" "output_set k' = output_set k"
    unfolding flush_end_fields [OF flush(4)] by simp_all
  ultimately have "kcp_safe al M k'"
    using assms(1) by (simp add: kcp_safe_def)
  with flush k(3) show ?thesis
    by (simp add: safe_result_def dgram_ok_def list_all_iff)
qed

lemma kcp_safe_clock:
  assumes "kcp_safe al M k"
  shows "kcp_safe al M ((clock_block k cur)\<lparr>ts_flush := t\<rparr>)" "kcp_safe al M (clock_block k cur)"
  using assms clock_block_wf [of k cur] wf_ts_flush [of "clock_block k cur" t]
    acks_wf_cong [of "(clock_block k cur)\<lparr>ts_flush := t\<rparr>" k] acks_wf_cong [of "clock_block k cur" k]
  unfolding kcp_safe_def mtu_ok_def by simp_all

lemma safe_update:
  assumes "kcp_safe al M k" and "unat (ackcount k) < 2 ^ 31"
  shows "safe_result al M (ikcp_update k cur)"
proof (cases "0 \<le> itimediff cur (ts_flush (clock_block k cur))")
  case True
  then show ?thesis
    using safe_flush [OF kcp_safe_clock(1) [OF assms(1)]] assms(2)
    by (simp add: ikcp_update_eq Let_def)
next
  case False
  then show ?thesis
    using kcp_safe_clock(2) [OF assms(1)] by (simp add: ikcp_update_eq Let_def safe_result_def)
qed

lemma safe_config:
  assumes "kcp_safe al M k" and "r < 2 ^ 31"
  shows "kcp_safe al M (snd (ikcp_interval k i))" "kcp_safe al M (snd (ikcp_nodelay k a b c d))"
    "kcp_safe al M (snd (ikcp_wndsize k s r))" "kcp_safe al M (ikcp_setoutput k True)"
proof -
  have old: "\<forall>s \<in> set (snd_queue k) \<union> set (snd_buf k). unat (seg_len s) \<le> unat (mss k)"
    and wf: "wf_kcp k" and out: "output_set k"
    using assms mtu_okD(2) by (auto simp: kcp_safe_def)
  show "kcp_safe al M (snd (ikcp_interval k i))"
    by (rule kcp_safe_same [OF assms(1) ikcp_interval_wf [OF wf]])
      (use old out in \<open>simp_all add: ikcp_interval_def Let_def\<close>)
  show "kcp_safe al M (snd (ikcp_nodelay k a b c d))"
    by (rule kcp_safe_same [OF assms(1) ikcp_nodelay_wf [OF wf]])
      (use old out in \<open>simp_all add: ikcp_nodelay_def Let_def\<close>)
  show "kcp_safe al M (snd (ikcp_wndsize k s r))"
    by (rule kcp_safe_same [OF assms(1) ikcp_wndsize_wf [OF wf assms(2)]])
      (use old out in \<open>simp_all add: ikcp_wndsize_def Let_def\<close>)
  show "kcp_safe al M (ikcp_setoutput k True)"
    by (rule kcp_safe_same [OF assms(1) ikcp_setoutput_wf [OF wf]])
      (use old out in \<open>simp_all add: ikcp_setoutput_def\<close>)
qed

lemma kcp_step_safe:
  assumes "kcp_safe al M k" and "op_safe op k"
  shows "safe_result al M (kcp_step al op k)"
proof (cases op)
  case (Op_recv hb len)
  show ?thesis
    unfolding Op_recv by (rule safe_recv [OF assms(1)])
next
  case (Op_interval i)
  show ?thesis
    unfolding Op_interval kcp_step.simps by (intro safe_quiet safe_config [OF assms(1), of 0]) simp
next
  case (Op_nodelay a b c d)
  show ?thesis
    unfolding Op_nodelay kcp_step.simps by (intro safe_quiet safe_config [OF assms(1), of 0]) simp
next
  case (Op_setoutput cb)
  with assms show ?thesis
    using safe_quiet [OF safe_config(4) [of al M k 0]] by simp
qed (use assms safe_send safe_input safe_update safe_flush safe_config in
      \<open>auto intro!: safe_quiet simp del: kcp_step.simps(1-3) simp: kcp_step.simps(4-)\<close>)

interpretation kcp_total: total_machine "kcp_step al" op_safe "kcp_safe al M" "dgram_ok M"
  by unfold_locales (use kcp_step_safe in \<open>fastforce simp: safe_result_def\<close>)+

text \<open>
  \<open>ikcp_setmtu\<close> is safe when it refuses its argument (below 24), or when the new mtu leaves
  room for a header and for every segment that is already cut and is at most \<open>M\<close>.
\<close>

fun op_fine :: "nat \<Rightarrow> kcp_op \<Rightarrow> IKCPCB \<Rightarrow> bool" where
  "op_fine M (Op_setmtu m) kcp \<longleftrightarrow>
     m < 24 \<or>
     24 < m \<and> m \<le> int M \<and>
     (\<forall>s \<in> set (snd_queue kcp) \<union> set (snd_buf kcp). int (unat (seg_len s)) + 24 \<le> m)"
| "op_fine M op kcp \<longleftrightarrow> op_safe op kcp"

definition kcp_within :: "allocator \<Rightarrow> nat \<Rightarrow> IKCPCB \<Rightarrow> bool" where
  "kcp_within al M kcp \<longleftrightarrow> M \<le> 2 ^ 30 \<and> (\<exists>M' \<le> M. kcp_safe al M' kcp)"

lemma op_fine_cases: "op_fine M op kcp \<Longrightarrow> op_safe op kcp \<or> (\<exists>m. op = Op_setmtu m)"
  by (cases op) simp_all

lemma setmtu_unat:
  assumes "24 < m" and "m \<le> 2 ^ 30"
  shows "unat (word_of_int m :: u32) = nat m" "unat (word_of_int m - IKCP_OVERHEAD) = nat m - 24"
    "unat ((word_of_int m + IKCP_OVERHEAD) * 3 :: u32) = (nat m + 24) * 3"
proof -
  obtain n where n: "m = int n" "24 < n" "n \<le> 2 ^ 30"
    using assms zero_le_imp_eq_int [of m] by auto
  have w: "word_of_int m = (of_nat n :: u32)" by (simp add: n(1))
  show un: "unat (word_of_int m :: u32) = nat m"
    using n by (simp add: w unat_of_nat take_bit_nat_eq_self)
  have "24 \<le> (of_nat n :: u32)"
    using un n by (simp add: w word_le_nat_alt)
  then show "unat (word_of_int m - IKCP_OVERHEAD) = nat m - 24"
    using un by (simp add: w kcp_consts unat_sub)
  have "(word_of_int m + IKCP_OVERHEAD) * 3 = (of_nat ((n + 24) * 3) :: u32)"
    by (simp add: w kcp_consts)
  moreover have "unat (of_nat ((n + 24) * 3) :: u32) = (n + 24) * 3"
    unfolding unat_of_nat by (rule mod_less) (use n in simp)
  ultimately show "unat ((word_of_int m + IKCP_OVERHEAD) * 3 :: u32) = (nat m + 24) * 3"
    using n by simp
qed

lemma kcp_within_setmtu:
  assumes safe: "kcp_safe al M' k" and M: "M' \<le> M" "M \<le> 2 ^ 30" and fine: "op_fine M (Op_setmtu m) k"
  shows "kcp_within al M (snd (ikcp_setmtu al k m))"
proof (cases "m < 24")
  case True
  with safe M show ?thesis
    by (auto simp: ikcp_setmtu_def kcp_within_def kcp_consts)
next
  case False
  with fine have m: "24 < m" "m \<le> int M" by auto
  have "int M \<le> 2 ^ 30" using M(2) by simp
  with m have le: "m \<le> 2 ^ 30" by linarith
  note un = setmtu_unat [OF m(1) le]
  let ?k = "k\<lparr>mtu := word_of_int m, mss := word_of_int m - IKCP_OVERHEAD, buffer := (nat m + 24) * 3\<rparr>"
  have set: "snd (ikcp_setmtu al k m) = ?k"
    using False safe un(3) by (simp add: ikcp_setmtu_def kcp_safe_def kcp_consts Let_def)
  have "unat (seg_len s) \<le> nat m - 24" if "s \<in> set (snd_queue k) \<union> set (snd_buf k)" for s
  proof -
    have "int (unat (seg_len s)) + 24 \<le> m"
      using fine False that unfolding op_fine.simps by blast
    then show ?thesis by linarith
  qed
  then have "mtu_ok ?k"
    using un m le by (simp add: mtu_ok_def nat_less_iff)
  moreover have "wf_kcp ?k" "acks_wf ?k"
    using safe acks_wf_cong [of ?k k] by (simp_all add: kcp_safe_def wf_kcp_def)
  ultimately have "kcp_safe al (nat m) ?k"
    using safe un(1) by (simp add: kcp_safe_def)
  moreover have "nat m \<le> M" using m by linarith
  ultimately show ?thesis
    using M unfolding kcp_within_def set by blast
qed

lemma kcp_step_within:
  assumes "kcp_within al M k" and "op_fine M op k"
  shows "\<exists>k' out. kcp_step al op k = Some (k', out) \<and> kcp_within al M k' \<and> list_all (dgram_ok M) out"
proof -
  obtain M' where M': "M' \<le> M" "M \<le> 2 ^ 30" "kcp_safe al M' k"
    using assms(1) by (auto simp: kcp_within_def)
  from op_fine_cases [OF assms(2)] show ?thesis
  proof
    assume "op_safe op k"
    from kcp_step_safe [OF M'(3) this] obtain k' out
      where "kcp_step al op k = Some (k', out)" "kcp_safe al M' k'" "list_all (dgram_ok M') out"
      by (auto simp: safe_result_def)
    with M'(1,2) show ?thesis
      by (auto simp: kcp_within_def dgram_ok_def list_all_iff)
  next
    assume "\<exists>m. op = Op_setmtu m"
    with kcp_within_setmtu [OF M'(3,1,2)] assms(2) show ?thesis
      by (auto simp: quiet_def)
  qed
qed

interpretation kcp_tuned: total_machine "kcp_step al" "op_fine M" "kcp_within al M" "dgram_ok M"
  by unfold_locales (use kcp_step_within in \<open>fastforce\<close>)+

subsection \<open>Properties\<close>

text \<open>
  C5: Whatever calls of ikcp.h a client makes on a fresh control block, with whatever bytes
  from the network, the block it gets back is well formed.
\<close>

theorem session_well_formed:
  assumes "ikcp_create al cv = Some kcp" and "run_ok (kcp_step al) op_small ops kcp"
    and "run_ops (kcp_step al) ops kcp = Some (kcp', out)"
  shows "wf_kcp kcp'"
proof -
  have "mss kcp = 1376"
    using assms(1) by (auto simp: ikcp_create_def kcp_consts Let_def split: if_splits)
  then have "kcp_inv0 kcp"
    using ikcp_create_wf [OF assms(1)] by (simp add: kcp_inv0_def)
  from kcp_any.run_keeps [OF this assms(2,3)] show ?thesis
    by (simp add: kcp_inv0_def)
qed

lemma step_send_demo:
  assumes "mss k = 1376" and "stream k = 0"
  shows "kcp_step malloc_all (Op_send [1, 2, 3]) k =
     Some (send_queue k (map (frag_seg malloc_all) (frags 1376 [1, 2, 3])), [])"
  using ikcp_send_eq [of malloc_all 1376 k "[1, 2, 3]"] assms by (simp add: chunks_small quiet_def)

lemma step_short_input:
  assumes "length d < 24"
  shows "kcp_step al (Op_input d) k = Some (k, [])"
proof -
  have "i32 (int (length d)) = int (length d)"
    using assms by (intro i32_id) simp_all
  with assms show ?thesis
    by (simp add: ikcp_input_def kcp_consts quiet_def)
qed

theorem session_well_formed_witness:
  "\<exists>kcp kcp' out. ikcp_create malloc_all 7 = Some kcp \<and>
     run_ops (kcp_step malloc_all) [Op_send [1, 2, 3], Op_input [7, 0]] kcp = Some (kcp', out) \<and>
     wf_kcp kcp'"
proof -
  obtain kcp where kcp: "ikcp_create malloc_all 7 = Some kcp" "mss kcp = 1376" "stream kcp = 0"
    by (auto simp: ikcp_create_def Let_def kcp_consts)
  then obtain kcp' out where "run_ops (kcp_step malloc_all) [Op_send [1, 2, 3], Op_input [7, 0]] kcp = Some (kcp', out)"
    by (simp add: step_send_demo step_short_input del: kcp_step.simps)
  moreover have "run_ok (kcp_step malloc_all) op_small [Op_send [1, 2, 3], Op_input [7, 0]] kcp"
    using kcp by (simp add: step_send_demo step_short_input del: kcp_step.simps)
  ultimately show ?thesis
    using session_well_formed [OF kcp(1)] kcp(1) by blast
qed

text \<open>
  C2: On a fresh control block whose output callback is set, a sequence of calls of ikcp.h with
  any bytes from the network returns, call by call: none aborts or writes out of bounds, the
  block stays well formed, and every datagram sent is not empty and has at most \<open>M\<close> bytes,
  for an \<open>M\<close> of at least the default mtu 1400. What a client has to keep to (\<open>op_fine\<close>): every
  allocation is granted, the callback is not unset, fewer than \<open>2 ^ 31\<close> acknowledgements wait
  when it inputs or flushes, a message and the receive window are in the range of an \<open>int\<close>, and
  an argument of \<open>ikcp_setmtu\<close> is below 24 (which is refused) or above 24, at most
  \<open>M\<close>, and large enough for the segments that are already cut. The mtu 24 is excluded: it makes
  the next \<open>ikcp_send\<close> divide by zero.
\<close>

theorem session_never_fails:
  assumes "grants_all al" and "ikcp_create al cv = Some kcp" and "1400 \<le> M" and "M \<le> 2 ^ 30"
    and "run_ok (kcp_step al) (op_fine M) ops (ikcp_setoutput kcp True)"
  shows "\<exists>kcp' out. run_ops (kcp_step al) ops (ikcp_setoutput kcp True) = Some (kcp', out) \<and>
     wf_kcp kcp' \<and> (\<forall>d \<in> set out. d \<noteq> [] \<and> length d \<le> M)"
proof -
  have kcp: "mss kcp = 1376" "mtu kcp = 1400" "buffer kcp = 4272" "snd_queue kcp = []"
    "snd_buf kcp = []" "acklist kcp = None" "ackcount kcp = 0" "ackblock kcp = 0"
    using assms(2) by (auto simp: ikcp_create_def kcp_consts Let_def split: if_splits)
  have "wf_kcp (ikcp_setoutput kcp True)"
    by (intro ikcp_setoutput_wf ikcp_create_wf [OF assms(2)])
  then have "kcp_safe al 1400 (ikcp_setoutput kcp True)"
    using assms(1) kcp by (simp add: kcp_safe_def mtu_ok_def acks_wf_def ikcp_setoutput_def)
  with assms(3,4) have "kcp_within al M (ikcp_setoutput kcp True)"
    by (auto simp: kcp_within_def)
  from kcp_tuned.run_total [OF this assms(5)] show ?thesis
    by (auto simp: kcp_within_def kcp_safe_def dgram_ok_def list_all_iff)
qed

lemma step_setmtu_demo:
  "kcp_step malloc_all (Op_setmtu 23) k = Some (k, [])"
  "mtu k = 1400 \<Longrightarrow> mss k = 1376 \<Longrightarrow> buffer k = 4272 \<Longrightarrow>
   kcp_step malloc_all (Op_setmtu 1400) k = Some (k, [])"
  by (simp_all add: ikcp_setmtu_def quiet_def kcp_consts Let_def)

theorem session_never_fails_witness:
  "\<exists>kcp kcp' out. ikcp_create malloc_all 7 = Some kcp \<and>
     run_ops (kcp_step malloc_all) [Op_setmtu 23, Op_setmtu 1400, Op_send [1, 2, 3], Op_update 10, Op_flush]
       (ikcp_setoutput kcp True) = Some (kcp', out) \<and> wf_kcp kcp'"
proof -
  obtain kcp where kcp: "ikcp_create malloc_all 7 = Some kcp" "mss kcp = 1376" "stream kcp = 0"
      "ackcount kcp = 0" "mtu kcp = 1400" "buffer kcp = 4272" "snd_queue kcp = []" "snd_buf kcp = []"
    by (auto simp: ikcp_create_def Let_def kcp_consts)
  let ?k = "send_queue (ikcp_setoutput kcp True) (map (frag_seg malloc_all) (frags 1376 [1, 2, 3]))"
  have "unat (ackcount k) < 2 ^ 31" if "ikcp_update ?k 10 = Some (k, out)" for k out
  proof (cases "0 \<le> itimediff 10 (ts_flush (clock_block ?k 10))")
    case True
    then have "ikcp_flush ((clock_block ?k 10)\<lparr>ts_flush := next_flush (clock_block ?k 10)\<rparr>) = Some (k, out)"
      using that by (simp add: ikcp_update_eq Let_def)
    from flush_end_fields(18) [OF ikcp_flush_result [OF this]] show ?thesis
      by (simp add: moved_block_eq control_block_def Let_def)
  next
    case False
    with that kcp show ?thesis
      by (auto simp: ikcp_update_eq Let_def send_queue_def ikcp_setoutput_def)
  qed
  then have "run_ok (kcp_step malloc_all) (op_fine 1400) [Op_setmtu 23, Op_setmtu 1400, Op_send [1, 2, 3], Op_update 10, Op_flush]
      (ikcp_setoutput kcp True)"
    using kcp by (simp add: step_setmtu_demo step_send_demo ikcp_setoutput_def send_queue_def
        del: kcp_step.simps(1,6) split: option.split)
  from session_never_fails [OF _ kcp(1) _ _ this] kcp(1) show ?thesis
    by auto
qed

end
