(* ===== verification/Ikcp_Transfer.thy ===== *)
theory Ikcp_Transfer
  imports Ikcp_Session
begin

section \<open>Transfer over an unreliable network\<close>

text \<open>
  Two control blocks with one conversation number: \<open>ka\<close> sends, \<open>kb\<close> receives. The network
  may lose, repeat and reorder the datagrams of \<open>ka\<close>, which is modelled by letting \<open>kb\<close> take
  in any datagram that was ever sent, at any time and as often as it likes; \<open>ka\<close> is given
  arbitrary bytes. Both sides make any further calls of ikcp.h. Whatever happens, the
  messages \<open>kb\<close> delivers are the first of the messages \<open>ka\<close> accepted, in order and unchanged,
  as long as fewer than \<open>2 ^ 31\<close> fragments are sent.
\<close>

subsection \<open>The system\<close>

record transfer =
  ka :: IKCPCB
  kb :: IKCPCB
  net :: "byte list list"
  sent :: "byte list list"
  got :: "byte list list"

text \<open>The fragments of all messages accepted so far; fragment \<open>i\<close> travels as number \<open>i\<close>.\<close>

definition history :: "nat \<Rightarrow> byte list list \<Rightarrow> (byte list \<times> nat) list" where
  "history m msgs = concat (map (frags m) msgs)"

fun is_send :: "kcp_op \<Rightarrow> bool" where
  "is_send (Op_send b) = True" | "is_send _ = False"

fun is_receive :: "kcp_op \<Rightarrow> bool" where
  "is_receive (Op_input d) = True" | "is_receive (Op_recv hb len) = True" | "is_receive _ = False"

inductive transfer_step :: "allocator \<Rightarrow> transfer \<Rightarrow> transfer \<Rightarrow> bool" for al where
  a_send: "ikcp_send al (ka s) (Some b) (int (length b)) = Some (r, k) \<Longrightarrow> length b < 2 ^ 31 \<Longrightarrow>
    length (history (unat (mss (ka s))) (sent s @ [b])) < 2 ^ 31 \<Longrightarrow>
    transfer_step al s (s\<lparr>ka := k, sent := (if r = 0 then sent s @ [b] else sent s)\<rparr>)"
| a_call: "kcp_step al op (ka s) = Some (k, out) \<Longrightarrow> \<not> is_send op \<Longrightarrow> op_safe op (ka s) \<Longrightarrow>
    transfer_step al s (s\<lparr>ka := k, net := net s @ out\<rparr>)"
| b_input: "d \<in> set (net s) \<Longrightarrow> kcp_step al (Op_input d) (kb s) = Some (k, out) \<Longrightarrow>
    transfer_step al s (s\<lparr>kb := k\<rparr>)"
| b_recv: "ikcp_recv (kb s) True len = Some (n, b, k) \<Longrightarrow> 0 \<le> len \<Longrightarrow>
    transfer_step al s (s\<lparr>kb := k, got := (if 0 \<le> n then got s @ [b] else got s)\<rparr>)"
| b_call: "kcp_step al op (kb s) = Some (k, out) \<Longrightarrow> \<not> is_receive op \<Longrightarrow> op_small op (kb s) \<Longrightarrow>
    transfer_step al s (s\<lparr>kb := k\<rparr>)"

text \<open>Fresh blocks on both sides, the mtu of the sender set before its first call.\<close>

definition transfer_init :: "allocator \<Rightarrow> u32 \<Rightarrow> int \<Rightarrow> transfer \<Rightarrow> bool" where
  "transfer_init al cv m s \<longleftrightarrow>
     (\<exists>k. ikcp_create al cv = Some k \<and> ikcp_setmtu al (ikcp_setoutput k True) m = (0, ka s) \<and>
        kb s = k) \<and>
     net s = [] \<and> sent s = [] \<and> got s = []"

inductive reachable :: "allocator \<Rightarrow> u32 \<Rightarrow> int \<Rightarrow> transfer \<Rightarrow> bool" for al cv m where
  start: "transfer_init al cv m s \<Longrightarrow> reachable al cv m s"
| step: "reachable al cv m s \<Longrightarrow> transfer_step al s s' \<Longrightarrow> reachable al cv m s'"

inductive_cases transfer_stepE: "transfer_step al s s'"

subsection \<open>What travels\<close>

text \<open>A segment that carries fragment \<open>i\<close> of the history under number \<open>i\<close>.\<close>

definition carries :: "(byte list \<times> nat) list \<Rightarrow> u32 \<Rightarrow> byte list \<times> nat \<Rightarrow> bool" where
  "carries H sn f \<longleftrightarrow> (\<exists>i < length H. sn = of_nat i \<and> f = H ! i)"

definition data_seg :: "u32 \<Rightarrow> (byte list \<times> nat) list \<Rightarrow> IKCPSEG \<Rightarrow> bool" where
  "data_seg cv H s \<longleftrightarrow> seg_conv s = cv \<and> seg_cmd s = IKCP_CMD_PUSH \<and> carries H (seg_sn s) (frag_of s)"

text \<open>Every data segment that a receiver can find in a datagram of the sender.\<close>

definition dgram_carries :: "(byte list \<times> nat) list \<Rightarrow> byte list \<Rightarrow> bool" where
  "dgram_carries H d \<longleftrightarrow>
     (\<forall>(h, d') \<in> set (dgram_segs d). ucast (h_cmd h) = IKCP_CMD_PUSH \<longrightarrow>
        carries H (h_sn h) (take (unat (h_len h)) d', unat (h_frg h)))"

lemma carries_append: "carries H sn f \<Longrightarrow> carries (H @ H') sn f"
  by (auto simp: carries_def nth_append intro: trans_less_add1)

lemma data_seg_append: "data_seg cv H s \<Longrightarrow> data_seg cv (H @ H') s"
  by (simp add: data_seg_def carries_append)

lemma dgram_carries_append: "dgram_carries H d \<Longrightarrow> dgram_carries (H @ H') d"
  using carries_append by (fastforce simp: dgram_carries_def)

lemma data_seg_core:
  "seg_core s = seg_core t \<Longrightarrow> data_seg cv H s \<longleftrightarrow> data_seg cv H t"
  by (simp add: data_seg_def seg_core_def frag_of_def)

lemma segs_wire_Cons_eq:
  "seg_ok s \<Longrightarrow> segs_wire (s # g) = header_bytes (seg_hdr s) @ (seg_data s @ segs_wire g)"
  by (simp add: seg_wire_def seg_header_eq seg_ok_take)

lemma dgram_segs_wire:
  assumes "\<forall>s \<in> set g. seg_ok s" and "(h, d) \<in> set (dgram_segs (segs_wire g))"
  shows "\<exists>s \<in> set g. h = seg_hdr s \<and> take (unat (seg_len s)) d = seg_data s"
  using assms
proof (induction g)
  case Nil
  then show ?case by (simp add: dgram_segs.simps)
next
  case (Cons s g)
  have s: "seg_ok s" "unat (seg_len s) = length (seg_data s)"
    using Cons.prems(1) by (simp_all add: seg_ok_def)
  have "dgram_segs (segs_wire (s # g)) = (seg_hdr s, seg_data s @ segs_wire g) # dgram_segs (segs_wire g)"
    unfolding segs_wire_Cons_eq [OF s(1)]
    using s(2) by (subst dgram_segs.simps) (simp add: decode_header_bytes seg_hdr_def)
  with Cons s show ?case by auto
qed

text \<open>A segment the sender may put on the wire: one of its data segments, or no data at all.\<close>

definition wire_ok :: "u32 \<Rightarrow> (byte list \<times> nat) list \<Rightarrow> IKCPSEG \<Rightarrow> bool" where
  "wire_ok cv H s \<longleftrightarrow> seg_ok s \<and>
     (data_seg cv H s \<or> seg_cmd s \<in> {IKCP_CMD_ACK, IKCP_CMD_WASK, IKCP_CMD_WINS})"

lemma unat_ucast_small: "unat (w :: u32) < 128 \<Longrightarrow> unat (ucast w :: byte) = unat w"
  by (simp add: unsigned_ucast_eq unsigned_take_bit_eq take_bit_nat_eq_self)

lemma wire_carries:
  assumes "\<forall>s \<in> set g. wire_ok cv H s" and "\<forall>f \<in> set H. snd f < 128"
  shows "dgram_carries H (segs_wire g)"
  unfolding dgram_carries_def
proof (clarify)
  fix h d
  assume hd: "(h, d) \<in> set (dgram_segs (segs_wire g))" and push: "ucast (h_cmd h) = IKCP_CMD_PUSH"
  obtain s where s: "s \<in> set g" "h = seg_hdr s" "take (unat (seg_len s)) d = seg_data s"
    using dgram_segs_wire [OF _ hd] assms(1) by (auto simp: wire_ok_def)
  have "seg_cmd s \<notin> {IKCP_CMD_ACK, IKCP_CMD_WASK, IKCP_CMD_WINS}"
    using push s(2) by (auto simp: seg_hdr_def kcp_consts)
  then have c: "carries H (seg_sn s) (frag_of s)"
    using assms(1) s(1) by (auto simp: wire_ok_def data_seg_def)
  then have "frag_of s \<in> set H"
    by (auto simp: carries_def)
  then have "unat (seg_frg s) < 128"
    using assms(2) by (auto simp: frag_of_def)
  then have "unat (ucast (seg_frg s) :: byte) = unat (seg_frg s)"
    by (simp add: unat_ucast_small)
  with c s show "carries H (h_sn h) (take (unat (h_len h)) d, unat (h_frg h))"
    by (simp add: seg_hdr_def frag_of_def)
qed

subsection \<open>The sender\<close>

text \<open>
  The first \<open>n\<close> fragments of the history have a number, the others wait in \<open>snd_queue\<close>, and
  every segment in flight carries its fragment.
\<close>

definition send_inv :: "u32 \<Rightarrow> (byte list \<times> nat) list \<Rightarrow> IKCPCB \<Rightarrow> bool" where
  "send_inv cv H k \<longleftrightarrow> conv k = cv \<and> stream k = 0 \<and>
     (\<exists>n \<le> length H. snd_nxt k = of_nat n \<and> map frag_of (snd_queue k) = drop n H) \<and>
     (\<forall>s \<in> set (snd_buf k). data_seg cv H s)"

lemma flush_stamp_core: "seg_core (flush_stamp k wnd s) = seg_core s"
  by (simp add: seg_core_def)

lemma send_inv_cong:
  assumes "send_inv cv H k" and "conv k' = conv k" "stream k' = stream k" "snd_nxt k' = snd_nxt k"
    "snd_queue k' = snd_queue k" "seg_core ` set (snd_buf k') \<subseteq> seg_core ` set (snd_buf k)"
  shows "send_inv cv H k'"
proof -
  have "data_seg cv H s" if "s \<in> set (snd_buf k')" for s
  proof -
    have "seg_core s \<in> seg_core ` set (snd_buf k)"
      using assms(6) that by blast
    then obtain t where t: "t \<in> set (snd_buf k)" "seg_core s = seg_core t"
      by blast
    then have "data_seg cv H t"
      using assms(1) by (simp add: send_inv_def)
    then show ?thesis
      using data_seg_core [OF t(2)] by blast
  qed
  with assms show ?thesis
    by (simp add: send_inv_def)
qed

lemma send_inv_send:
  assumes inv: "send_inv cv H k" and safe: "kcp_safe al M k"
    and send: "ikcp_send al k (Some b) (int (length b)) = Some (r, k')" and len: "length b < 2 ^ 31"
  shows "send_inv cv (if r = 0 then H @ frags (unat (mss k)) b else H) k' \<and>
     (r = 0 \<longrightarrow> length (frags (unat (mss k)) b) < 128)"
proof -
  define m where "m = unat (mss k)"
  have m: "0 < m" "m < 2 ^ 31" "stream k = 0" "grants_all al"
    using kcp_safe_mss [OF safe] safe inv
    by (auto simp: m_def sint_nonneg_iff kcp_safe_def send_inv_def unat_gt_0 word_gt_0)
  have eq: "ikcp_send al k (Some b) (int (length b)) =
      (if 128 \<le> length (chunks m b) then Some (- 2, k)
       else Some (0, send_queue k (map (frag_seg al) (frags m b))))"
    by (rule ikcp_send_eq [OF m(4,1) _ m(2,3) len]) (simp add: m_def)
  show ?thesis
  proof (cases "128 \<le> length (chunks m b)")
    case True
    with eq send inv show ?thesis by simp
  next
    case False
    have "snd f < 128" if "f \<in> set (frags m b)" for f
    proof -
      have "snd f \<in> set (map snd (frags m b))"
        using that by simp
      then show ?thesis
        using False by (simp add: frags_def Let_def del: set_map)
    qed
    then have frag: "frag_of (frag_seg al f) = f" if "f \<in> set (frags m b)" for f
      using that by (fastforce simp: frag_of_def frag_seg_def unat_of_nat_u32 prod_eq_iff)
    have "map frag_of (map (frag_seg al) (frags m b)) = frags m b"
      using frag by (simp add: map_idI)
    moreover obtain n where "n \<le> length H" "snd_nxt k = of_nat n" "map frag_of (snd_queue k) = drop n H"
      using inv by (auto simp: send_inv_def)
    ultimately have "send_inv cv (H @ frags m b) (send_queue k (map (frag_seg al) (frags m b)))"
      using inv data_seg_append
      by (auto simp: send_inv_def send_queue_def intro!: exI [of _ n])
    with False eq send show ?thesis
      by (simp add: m_def)
  qed
qed

lemma seg_ok_empty: "seg_len s = 0 \<Longrightarrow> seg_data s = [] \<Longrightarrow> seg_ok s"
  by (simp add: seg_ok_def)

lemma ack_segs_wire: "s \<in> set (ack_segs k) \<Longrightarrow> wire_ok cv H s"
  by (auto simp: ack_segs_def wire_ok_def flush_seg_init_def intro: seg_ok_empty)

lemma probe_segs_wire:
  assumes "s \<in> set (probe_segs k)"
  shows "wire_ok cv H s"
proof -
  let ?seg = "last (flush_seg_init k # ack_segs k)"
  have "?seg \<in> set (flush_seg_init k # ack_segs k)"
    by (rule last_in_set) simp
  then have "seg_len ?seg = 0" "seg_data ?seg = []"
    by (auto simp: ack_segs_def flush_seg_init_def simp del: last.simps)
  with assms show ?thesis
    by (auto simp: probe_segs_def Let_def wire_ok_def seg_ok_def simp del: last.simps split: if_splits)
qed

lemma moved_block_send_inv:
  assumes inv: "send_inv cv H k" and small: "length H < 2 ^ 31"
  shows "send_inv cv H (moved_block k)"
proof -
  obtain n where n: "n \<le> length H" "snd_nxt k = of_nat n" "map frag_of (snd_queue k) = drop n H"
    using inv by (auto simp: send_inv_def)
  let ?c = "control_block k"
  define j where "j = move_len (snd_una k + flush_window ?c) (snd_nxt k) (snd_queue k)"
  have j: "j \<le> length (snd_queue k)"
    unfolding j_def by (rule move_len_le)
  have len: "length (snd_queue k) = length H - n"
    using arg_cong [OF n(3), of length] by simp
  have "data_seg cv H s" if "s \<in> set (numbered ?c (unused_wnd k) (snd_nxt k) (take j (snd_queue k)))" for s
  proof -
    define xs where "xs = numbered ?c (unused_wnd k) (snd_nxt k) (take j (snd_queue k))"
    have "length xs = j"
      using j by (simp add: xs_def)
    moreover have "\<exists>i < length xs. xs ! i = s"
      using that by (simp only: xs_def [symmetric] in_set_conv_nth)
    then obtain i where "i < length xs" "xs ! i = s"
      by blast
    ultimately have i: "i < j" "s = numbered ?c (unused_wnd k) (snd_nxt k) (take j (snd_queue k)) ! i"
      by (simp_all add: xs_def)
    then have s: "s = (flush_new_seg ?c (unused_wnd k) (snd_queue k ! i))\<lparr>seg_sn := of_nat (n + i)\<rparr>"
      using j n(2) by (simp add: nth_numbered)
    have "frag_of (snd_queue k ! i) = map frag_of (snd_queue k) ! i"
      using i(1) j by simp
    also have "\<dots> = H ! (n + i)"
      unfolding n(3) using n(1) by simp
    finally have "frag_of s = H ! (n + i)"
      by (simp add: s frag_of_def flush_new_seg_def)
    moreover have "n + i < length H"
      using i(1) j len n(1) by simp
    ultimately show ?thesis
      using inv by (auto simp: data_seg_def carries_def s flush_new_seg_def send_inv_def)
  qed
  moreover have "map frag_of (drop j (snd_queue k)) = drop (n + j) H"
    using n(3) by (metis drop_drop drop_map add.commute)
  moreover have "n + j \<le> length H"
    using j len n(1) by simp
  moreover have "snd_nxt (moved_block k) = of_nat (n + j)" "snd_queue (moved_block k) = drop j (snd_queue k)"
    "snd_buf (moved_block k) =
       snd_buf k @ numbered ?c (unused_wnd k) (snd_nxt k) (take j (snd_queue k))"
    by (simp_all add: moved_block_eq j_def [symmetric] Let_def n(2) [symmetric])
  moreover have "conv k = cv" "stream k = 0" "\<forall>s \<in> set (snd_buf k). data_seg cv H s"
    using inv by (simp_all add: send_inv_def)
  ultimately show ?thesis
    unfolding send_inv_def by (auto intro!: exI [of _ "n + j"])
qed

lemma flush_segs_wire:
  assumes "send_inv cv H k" and "length H < 2 ^ 31" and "wf_kcp k" and "s \<in> set (flush_segs k)"
  shows "wire_ok cv H s"
proof -
  let ?m = "moved_block k"
  have m: "send_inv cv H ?m" "wf_kcp ?m"
    using moved_block_send_inv [OF assms(1,2)] moved_block_wf [OF assms(3)] by simp_all
  consider "s \<in> set (ack_segs k)" | "s \<in> set (probe_segs k)"
    | t where "t \<in> set (snd_buf ?m)" "s = flush_stamp ?m (unused_wnd k) t"
    using assms(4) by (auto simp: flush_segs_def due_segs_def)
  then show ?thesis
  proof cases
    case 3
    have "data_seg cv H t" "seg_ok t"
      using m 3(1) by (auto simp: send_inv_def wf_kcp_def list_all_iff)
    then show ?thesis
      using data_seg_core [OF flush_stamp_core] by (simp add: wire_ok_def 3(2))
  qed (rule ack_segs_wire probe_segs_wire; assumption)+
qed

lemma send_inv_flush:
  assumes inv: "send_inv cv H k" and H: "length H < 2 ^ 31" "\<forall>f \<in> set H. snd f < 128"
    and safe: "kcp_safe al M k" and acks: "unat (ackcount k) < 2 ^ 31"
    and flush: "ikcp_flush k = Some (k', out)"
  shows "send_inv cv H k' \<and> (\<forall>d \<in> set out. dgram_carries H d)"
proof (cases "updated k = 0")
  case True
  with flush inv show ?thesis by (simp add: ikcp_flush_def)
next
  case False
  let ?m = "moved_block k"
  have k: "output_set k" "mtu_ok k" "wf_kcp k"
    using safe by (simp_all add: kcp_safe_def)
  obtain k1 gs where "ikcp_flush k = Some (k1, map segs_wire gs)" and gs: "concat gs = flush_segs k"
    and "\<forall>g \<in> set gs. g \<noteq> [] \<and> length (segs_wire g) \<le> unat (mtu k)"
    and "flush_end ?m (map (flush_stamp ?m (unused_wnd k)) (snd_buf ?m)) k1" and "0 < cwnd k1"
    by (rule ikcp_flush_eq [OF False k(1,2) acks])
  then have out: "out = map segs_wire gs"
    and fin: "flush_end ?m (map (flush_stamp ?m (unused_wnd k)) (snd_buf ?m)) k'"
    using flush by simp_all
  have "dgram_carries H (segs_wire g)" if "g \<in> set gs" for g
  proof (rule wire_carries [OF _ H(2)], rule ballI)
    fix s
    assume "s \<in> set g"
    with that gs have "s \<in> set (flush_segs k)"
      by (metis UN_I set_concat)
    then show "wire_ok cv H s"
      by (rule flush_segs_wire [OF inv H(1) k(3)])
  qed
  moreover have "send_inv cv H k'"
    by (rule send_inv_cong [OF moved_block_send_inv [OF inv H(1)]])
      (use flush_end_fields [OF fin] flush_stamp_core in \<open>auto simp: image_image\<close>)
  ultimately show ?thesis
    by (simp add: out)
qed

lemma send_inv_same: "input_same k k' \<Longrightarrow> send_inv cv H k \<Longrightarrow> send_inv cv H k'"
  unfolding input_same_def by (elim conjE, rule send_inv_cong)

lemma send_inv_clock: "send_inv cv H k \<Longrightarrow> send_inv cv H ((clock_block k cur)\<lparr>ts_flush := t\<rparr>)"
  "send_inv cv H k \<Longrightarrow> send_inv cv H (clock_block k cur)"
  by (simp_all add: send_inv_def)

lemma send_inv_update:
  assumes inv: "send_inv cv H k" and H: "length H < 2 ^ 31" "\<forall>f \<in> set H. snd f < 128"
    and safe: "kcp_safe al M k" and acks: "unat (ackcount k) < 2 ^ 31"
    and update: "ikcp_update k cur = Some (k', out)"
  shows "send_inv cv H k' \<and> (\<forall>d \<in> set out. dgram_carries H d)"
proof (cases "0 \<le> itimediff cur (ts_flush (clock_block k cur))")
  case True
  let ?k = "(clock_block k cur)\<lparr>ts_flush := next_flush (clock_block k cur)\<rparr>"
  have "ikcp_flush ?k = Some (k', out)"
    using True update by (simp add: ikcp_update_eq Let_def)
  with H acks show ?thesis
    by (intro send_inv_flush [OF send_inv_clock(1) [OF inv] H kcp_safe_clock(1) [OF safe]]) simp_all
next
  case False
  with update send_inv_clock(2) [OF inv, of cur] show ?thesis
    by (simp add: ikcp_update_eq Let_def)
qed

lemma send_inv_call:
  assumes inv: "send_inv cv H k" and H: "length H < 2 ^ 31" "\<forall>f \<in> set H. snd f < 128"
    and safe: "kcp_safe al M k" and op: "\<not> is_send op" "op_safe op k"
    and step: "kcp_step al op k = Some (k', out)"
  shows "send_inv cv H k' \<and> (\<forall>d \<in> set out. dgram_carries H d)"
proof (cases op)
  case (Op_recv hb len)
  then obtain r b where r: "ikcp_recv k hb len = Some (r, b, k')" "out = []"
    using step by (auto simp: quiet_def split: option.splits)
  then show ?thesis
    using ikcp_recv_block [OF r(1)] inv by (auto simp: send_inv_def)
next
  case (Op_input d)
  then obtain r where "ikcp_input al k (Some d) = Some (r, k')" "out = []"
    using step by (auto simp: quiet_def split: option.splits)
  then show ?thesis
    using ikcp_input_same send_inv_same [OF _ inv] by auto
next
  case (Op_update cur)
  then show ?thesis
    using send_inv_update [OF inv H safe _, of cur k' out] step op by simp
next
  case Op_flush
  then show ?thesis
    using send_inv_flush [OF inv H safe _, of k' out] step op by simp
next
  case (Op_interval i)
  then show ?thesis
    using step inv by (auto simp: quiet_def ikcp_interval_def Let_def send_inv_def)
next
  case (Op_nodelay a b c d)
  then have "k' = snd (ikcp_nodelay k a b c d)" "out = []"
    using step by (simp_all add: quiet_def)
  then show ?thesis
    using inv by (simp add: ikcp_nodelay_def Let_def send_inv_def)
next
  case (Op_wndsize s r)
  then have "k' = snd (ikcp_wndsize k s r)" "out = []"
    using step by (simp_all add: quiet_def)
  then show ?thesis
    using inv by (simp add: ikcp_wndsize_def Let_def send_inv_def)
next
  case (Op_setoutput cb)
  then show ?thesis
    using step inv by (auto simp: quiet_def ikcp_setoutput_def send_inv_def)
qed (use op in simp_all)

subsection \<open>The receiver\<close>

text \<open>
  The first \<open>r\<close> fragments have arrived in sequence; the first \<open>p\<close> of them have been
  delivered and the others are in \<open>rcv_queue\<close>; what waits in \<open>rcv_buf\<close> carries its fragment.
\<close>

definition recv_inv :: "u32 \<Rightarrow> (byte list \<times> nat) list \<Rightarrow> nat \<Rightarrow> IKCPCB \<Rightarrow> bool" where
  "recv_inv cv H p k \<longleftrightarrow> conv k = cv \<and>
     (\<exists>r \<le> length H. p \<le> r \<and> rcv_nxt k = of_nat r \<and> map frag_of (rcv_queue k) = drop p (take r H)) \<and>
     (\<forall>s \<in> set (rcv_buf k). carries H (seg_sn s) (frag_of s))"

lemma recv_inv_cong:
  "recv_inv cv H p k \<Longrightarrow> conv k' = conv k \<Longrightarrow> rcv_nxt k' = rcv_nxt k \<Longrightarrow> rcv_queue k' = rcv_queue k \<Longrightarrow>
   rcv_buf k' = rcv_buf k \<Longrightarrow> recv_inv cv H p k'"
  by (simp add: recv_inv_def)

lemma recv_inv_append:
  assumes "recv_inv cv H p k"
  shows "recv_inv cv (H @ H') p k"
proof -
  obtain r where "r \<le> length H" "p \<le> r" "rcv_nxt k = of_nat r"
      "map frag_of (rcv_queue k) = drop p (take r H)"
    using assms by (auto simp: recv_inv_def)
  then have "\<exists>r \<le> length (H @ H'). p \<le> r \<and> rcv_nxt k = of_nat r \<and>
      map frag_of (rcv_queue k) = drop p (take r (H @ H'))"
    by (intro exI [of _ r]) simp
  with assms show ?thesis
    unfolding recv_inv_def using carries_append by blast
qed

lemma of_nat_u32_inj:
  assumes "m < 2 ^ 31" and "n < 2 ^ 31"
  shows "(of_nat m :: u32) = of_nat n \<longleftrightarrow> m = n"
proof -
  have "unat (of_nat m :: u32) = m" "unat (of_nat n :: u32) = n"
    using assms by (simp_all add: unat_of_nat_u32)
  then show ?thesis by metis
qed

lemma unat_ucast_byte [simp]: "unat (ucast (b :: byte) :: u32) = unat b"
  by transfer simp

lemma move_ready_recv_inv:
  assumes "length H < 2 ^ 31"
  shows "rcv_buf k = q \<Longrightarrow> recv_inv cv H p k \<Longrightarrow> recv_inv cv H p (move_ready q k)"
proof (induction q arbitrary: k)
  case Nil
  then show ?case by simp
next
  case (Cons s q)
  show ?case
  proof (cases "seg_sn s = rcv_nxt k \<and> nrcv_que k < rcv_wnd k")
    case False
    with Cons.prems show ?thesis by auto
  next
    case True
    let ?k = "k\<lparr>rcv_buf := q, nrcv_buf := nrcv_buf k - 1, rcv_queue := rcv_queue k @ [s],
        nrcv_que := nrcv_que k + 1, rcv_nxt := rcv_nxt k + 1\<rparr>"
    obtain r where r: "r \<le> length H" "p \<le> r" "rcv_nxt k = of_nat r"
        "map frag_of (rcv_queue k) = drop p (take r H)"
      using Cons.prems(2) by (auto simp: recv_inv_def)
    have "carries H (seg_sn s) (frag_of s)"
      using Cons.prems by (simp add: recv_inv_def)
    then obtain i where i: "i < length H" "seg_sn s = of_nat i" "frag_of s = H ! i"
      by (auto simp: carries_def)
    then have "i = r"
      using True r(1,3) assms of_nat_u32_inj [of i r] by simp
    then have "map frag_of (rcv_queue ?k) = drop p (take (Suc r) H)"
      using i r by (simp add: take_Suc_conv_app_nth)
    moreover have "rcv_nxt ?k = of_nat (Suc r)"
      using r(3) by simp
    ultimately have "recv_inv cv H p ?k"
      using Cons.prems i r \<open>i = r\<close> unfolding recv_inv_def
      by (intro conjI exI [of _ "Suc r"]) auto
    with True Cons.IH [of ?k] show ?thesis by simp
  qed
qed

lemma parse_data_recv_inv:
  assumes inv: "recv_inv cv H p k" and H: "length H < 2 ^ 31" and s: "carries H (seg_sn s) (frag_of s)"
  shows "recv_inv cv H p (ikcp_parse_data k s)"
proof -
  have "recv_inv cv H p (rcv_insert k s)"
  proof (cases "rcv_place (seg_sn s) (rev (rcv_buf k)) []")
    case None
    with inv show ?thesis by (simp add: rcv_insert_def)
  next
    case (Some ba)
    obtain b a where ba: "ba = (b, a)" by force
    have "rcv_buf k = b @ a"
      using rcv_place_split [OF Some [unfolded ba]] by simp
    with inv s Some ba show ?thesis
      by (auto simp: rcv_insert_def recv_inv_def)
  qed
  then show ?thesis
    using inv move_ready_recv_inv [OF H refl] by (simp add: ikcp_parse_data_def Let_def)
qed

lemma input_push_recv_inv:
  assumes inv: "recv_inv cv H p k" and H: "length H < 2 ^ 31"
    and c: "carries H (h_sn h) (take (unat (h_len h)) d, unat (h_frg h))"
    and len: "len_ok h d" and push: "input_push al k h d = Some k'"
  shows "recv_inv cv H p k'"
proof -
  have same: "recv_inv cv H p k1" if "ikcp_ack_push al k sn ts = Some k1" for sn ts k1
    by (rule recv_inv_cong [OF inv]) (subst ack_push_frame [OF that], simp)+
  have "frag_of (header_seg seg h d) = (take (unat (h_len h)) d, unat (h_frg h))"
    if "length (seg_data seg) = unat (h_len h)" for seg
    using that by (auto simp: header_seg_def frag_of_def Let_def word_gt_0)
  then have "recv_inv cv H p (ikcp_parse_data k1 (header_seg seg h d))"
    if "ikcp_ack_push al k sn ts = Some k1" "ikcp_segment_new al (unat (h_len h)) = Some seg" for sn ts k1 seg
    using c length_new_seg [OF that(2)]
    by (intro parse_data_recv_inv [OF same [OF that(1)] H]) (simp add: header_seg_def Let_def)
  with push same inv show ?thesis
    by (auto simp: input_push_def split: if_splits option.splits)
qed

lemma input_segment_recv_inv:
  assumes inv: "recv_inv cv H p k" and H: "length H < 2 ^ 31"
    and c: "ucast (h_cmd h) = IKCP_CMD_PUSH \<longrightarrow> carries H (h_sn h) (take (unat (h_len h)) d, unat (h_frg h))"
    and len: "len_ok h d" and seg: "input_segment al k h d tr = Some (k', tr')"
  shows "recv_inv cv H p k'"
proof -
  have hd: "recv_inv cv H p (input_header k h)"
    by (rule recv_inv_cong [OF inv]) simp_all
  show ?thesis
  proof (cases "ucast (h_cmd h) = IKCP_CMD_PUSH")
    case True
    then have "input_push al (input_header k h) h d = Some k'"
      using seg by (auto simp: input_segment_def input_command_def kcp_consts)
    with True show ?thesis
      using input_push_recv_inv [OF hd H _ len] c by blast
  next
    case False
    then have "k' = input_ack (input_header k h) (h_sn h) (h_ts h) \<or>
        k' = (input_header k h)\<lparr>probe := probe (input_header k h) OR IKCP_ASK_TELL\<rparr> \<or> k' = input_header k h"
      using seg by (auto simp: input_segment_def input_command_def split: if_splits)
    then show ?thesis
      using hd by (auto simp: recv_inv_def)
  qed
qed

lemma ikcp_input_recv_inv:
  assumes inv: "recv_inv cv H p k" and H: "length H < 2 ^ 31" and d: "dgram_carries H d"
    and input: "ikcp_input al k (Some d) = Some (r, k')"
  shows "recv_inv cv H p k'"
proof -
  have loop: "recv_inv cv H p k1" if "input_loop al k d tr = Some (r1, k1, tr1)" for tr r1 k1 tr1
    by (rule input_loop_inv [where P = "recv_inv cv H p", OF inv that])
      (use d H input_segment_recv_inv in \<open>fastforce simp: dgram_carries_def\<close>)
  have fast: "recv_inv cv H p (ikcp_parse_fastack k1 sn ts)" if "recv_inv cv H p k1" for k1 sn ts
    by (rule recv_inv_cong [OF that]) simp_all
  have cwnd: "recv_inv cv H p k2" if "recv_inv cv H p k1" "input_cwnd k1 = Some k2" for k1 k2
    by (rule recv_inv_cong [OF that(1)]) (subst input_cwnd_frame [OF that(2)], simp)+
  consider "k' = k"
    | k1 tr where "input_loop al k d \<lparr>ack_flag = False, maxack = 0, latest_ts = 0\<rparr> = Some (r, k1, tr)"
        "k' = k1 \<or> k' = ikcp_parse_fastack k1 (maxack tr) (latest_ts tr) \<or>
         input_cwnd k1 = Some k' \<or>
         input_cwnd (ikcp_parse_fastack k1 (maxack tr) (latest_ts tr)) = Some k'"
    using input by (auto simp: ikcp_input_def Let_def split: option.splits if_splits)
  then show ?thesis
    by cases (use inv loop fast cwnd in blast)+
qed

subsection \<open>Delivery\<close>

lemma snd_frags: "map snd (frags m b) = rev [0..<length (frags m b)]"
  by (simp add: frags_def Let_def)

lemma concat_frags: "concat (map fst (frags m b)) = b"
  by simp

lemma frags_not_Nil [simp]: "frags m b \<noteq> []"
  using length_frags [of m b] chunks_not_Nil [of m b] by (metis length_0_conv)

lemma snd_nth_frags: "i < length (frags m b) \<Longrightarrow> snd (frags m b ! i) = length (frags m b) - Suc i"
  using arg_cong [OF snd_frags [of m b], of "\<lambda>xs. xs ! i"] by (simp add: rev_nth)

lemma frags_split:
  obtains xs d where "frags m b = xs @ [(d, 0)]" and "\<forall>f \<in> set xs. snd f \<noteq> 0"
proof (cases "frags m b" rule: rev_cases)
  case (snoc xs f)
  have "snd f = 0"
    using snd_nth_frags [of "length xs" m b] by (simp add: snoc)
  moreover have "snd g \<noteq> 0" if mem: "g \<in> set xs" for g
  proof -
    obtain i where "i < length xs" "g = xs ! i"
      using mem by (auto simp: in_set_conv_nth)
    then show ?thesis
      using snd_nth_frags [of i m b] by (simp add: snoc nth_append)
  qed
  ultimately show thesis
    using that [of xs "fst f"] snoc by (metis prod.collapse)
qed simp

lemma frag_of_zero: "snd (frag_of s) = 0 \<longleftrightarrow> seg_frg s = 0"
  by (simp add: frag_of_def unat_eq_0)

lemma first_msg_zero:
  "map frag_of q = xs @ (d, 0) # ys \<Longrightarrow> \<forall>f \<in> set xs. snd f \<noteq> 0 \<Longrightarrow>
   first_msg q = take (Suc (length xs)) q"
proof (induction xs arbitrary: q)
  case Nil
  then obtain s q' where "q = s # q'" "frag_of s = (d, 0)" by auto
  then show ?case
    using frag_of_zero [of s] by simp
next
  case (Cons f xs)
  then obtain s q' where "q = s # q'" "frag_of s = f" "map frag_of q' = xs @ (d, 0) # ys" by auto
  with Cons show ?case
    using frag_of_zero [of s] by simp
qed

lemma first_msg_all: "\<forall>s \<in> set q. seg_frg s \<noteq> 0 \<Longrightarrow> first_msg q = q"
  by (induction q) auto

text \<open>A queue that starts with the fragments of \<open>b\<close>, possibly not all of them yet.\<close>

lemma first_msg_frags:
  assumes q: "map frag_of q = take c (frags m b @ rest)"
  shows "length (frags m b) \<le> length q \<Longrightarrow>
      first_msg q = take (length (frags m b)) q \<and> msg_bytes (first_msg q) = b"
    and "length q < length (frags m b) \<Longrightarrow>
      first_msg q = q \<and> length (msg_bytes (first_msg q)) \<le> length b"
proof -
  let ?F = "frags m b"
  obtain xs d where F: "?F = xs @ [(d, 0)]" "\<forall>f \<in> set xs. snd f \<noteq> 0"
    by (rule frags_split)
  have bytes: "msg_bytes p = concat (map fst (map frag_of p))" for p
    by (simp add: msg_bytes_def frag_of_def comp_def)
  have len: "length q = min c (length ?F + length rest)"
    using arg_cong [OF q, of length] by simp
  show "first_msg q = take (length ?F) q \<and> msg_bytes (first_msg q) = b" if le: "length ?F \<le> length q"
  proof -
    have "map frag_of q = ?F @ take (c - length ?F) rest"
      using q le len by simp
    then have all: "map frag_of q = xs @ (d, 0) # take (c - length ?F) rest"
      using F(1) by simp
    then have fm: "first_msg q = take (length ?F) q"
      using first_msg_zero [OF all F(2)] F(1) by simp
    have "map frag_of (take (length ?F) q) = ?F"
      using q le len by (simp flip: take_map)
    then have "msg_bytes (first_msg q) = concat (map fst ?F)"
      by (simp only: fm bytes)
    with fm show ?thesis
      by (simp only: concat_frags)
  qed
  show "first_msg q = q \<and> length (msg_bytes (first_msg q)) \<le> length b" if lt: "length q < length ?F"
  proof -
    have c: "c \<le> length xs"
      using lt len F(1) by (simp add: min_def split: if_splits)
    then have qx: "map frag_of q = take c xs"
      using q F(1) by simp
    have "seg_frg s \<noteq> 0" if "s \<in> set q" for s
    proof -
      have "frag_of s \<in> set (take c xs)"
        using that by (simp flip: qx)
      then show ?thesis
        using F(2) frag_of_zero [of s] in_set_takeD by fastforce
    qed
    then have fm: "first_msg q = q"
      by (intro first_msg_all) simp
    have "b = concat (map fst ((take c xs @ drop c xs) @ [(d, 0)]))"
      unfolding append_take_drop_id F(1) [symmetric] by (rule concat_frags [symmetric])
    then have "length b = length (concat (map fst (take c xs))) + length (concat (map fst (drop c xs)) @ d)"
      by (simp only: map_append concat_append length_append list.map concat.simps fst_conv) simp
    then have "length (concat (map fst (take c xs))) \<le> length b"
      by linarith
    with fm show ?thesis
      by (simp only: bytes qx)
  qed
qed

lemma recv_refill_recv_inv:
  "length H < 2 ^ 31 \<Longrightarrow> recv_inv cv H p k \<Longrightarrow> recv_inv cv H p (recv_refill b k)"
  using move_ready_recv_inv [OF _ refl]
  by (fastforce simp: recv_refill_def Let_def intro: recv_inv_cong)

lemma history_append: "history m (xs @ ys) = history m xs @ history m ys"
  by (simp add: history_def)

lemma history_drop:
  "drop (length (history m (take j msgs))) (history m msgs) = history m (drop j msgs)"
  using history_append [of m "take j msgs" "drop j msgs"] by simp

text \<open>One call of \<open>ikcp_recv\<close>: nothing, or the next message.\<close>

lemma recv_inv_recv:
  assumes inv: "recv_inv cv (history m msgs) (length (history m (take j msgs))) k"
    and H: "length (history m msgs) < 2 ^ 31" and wf: "wf_kcp k"
    and small: "\<forall>b \<in> set msgs. length b < 2 ^ 31 \<and> length (frags m b) < 128"
    and recv: "ikcp_recv k True len = Some (n, out, k')" and len: "0 \<le> len"
  shows "if 0 \<le> n
     then j < length msgs \<and> out = msgs ! j \<and>
       recv_inv cv (history m msgs) (length (history m (take (Suc j) msgs))) k'
     else k' = k"
proof (cases "rcv_queue k")
  case Nil
  with recv show ?thesis by (simp add: ikcp_recv_eq)
next
  case (Cons s0 q0)
  let ?H = "history m msgs" and ?p = "length (history m (take j msgs))" and ?q = "rcv_queue k"
  obtain r where r: "r \<le> length ?H" "?p \<le> r" "rcv_nxt k = of_nat r" "map frag_of ?q = drop ?p (take r ?H)"
    using inv by (auto simp: recv_inv_def)
  then have q: "map frag_of ?q = take (r - ?p) (history m (drop j msgs))"
    by (simp add: drop_take history_drop)
  then have "history m (drop j msgs) \<noteq> []"
    using Cons by auto
  then have j: "j < length msgs"
    using not_le by (force simp: history_def)
  define b where "b = msgs ! j"
  have "history m (drop j msgs) = frags m b @ history m (drop (Suc j) msgs)"
    using j by (simp add: b_def history_def flip: Cons_nth_drop_Suc)
  with q have q: "map frag_of ?q = take (r - ?p) (frags m b @ history m (drop (Suc j) msgs))"
    by simp
  note msg = first_msg_frags [OF q]
  have b: "length b < 2 ^ 31" "length (frags m b) < 128"
    using small j by (auto simp: b_def)
  have small_msg: "length (recv_msg k) < 2 ^ 31"
    using msg b(1) unfolding recv_msg_def by (cases "length (frags m b) \<le> length ?q") auto
  have qlen: "unat (nrcv_que k) = length ?q"
    using wf by (simp add: wf_kcp_def unat_of_nat_u32)
  have frg0: "unat (seg_frg s0) = length (frags m b) - 1"
  proof -
    have "frag_of s0 = frags m b ! 0"
      using q Cons by (cases "frags m b"; cases "r - ?p") simp_all
    then show ?thesis
      using snd_nth_frags [of 0 m b] by (simp add: frag_of_def prod_eq_iff)
  qed
  have complete: "msg_complete k \<longleftrightarrow> length (frags m b) \<le> length ?q"
  proof -
    have "unat (seg_frg s0 + 1) = length (frags m b)"
      using frg0 b(2) unat_add_lem [of "seg_frg s0" 1] by (cases "frags m b") simp_all
    then have "seg_frg s0 + 1 \<le> nrcv_que k \<longleftrightarrow> length (frags m b) \<le> length ?q"
      using qlen by (simp add: word_le_nat_alt)
    moreover have "length (frags m b) \<le> length ?q" if "seg_frg s0 = 0"
      using that frg0 Cons by (cases "frags m b") auto
    ultimately show ?thesis
      by (auto simp: msg_complete_def Cons)
  qed
  note peek = peeksize_cases [OF wf small_msg]
  show ?thesis
  proof (cases "msg_complete k \<and> int (length (recv_msg k)) \<le> len")
    case False
    then show ?thesis
      using recv len Cons by (auto simp: ikcp_recv_eq peek split: if_splits)
  next
    case True
    then have "length (frags m b) \<le> length ?q"
      using complete by simp
    then have whole: "first_msg ?q = take (length (frags m b)) ?q" "recv_msg k = b"
      unfolding recv_msg_def using msg(1) by blast+
    have "list_all seg_ok ?q"
      using wf by (simp add: wf_kcp_def)
    then have res: "n = int (length b)" "out = b" "k' = recv_refill (rcv_wnd k \<le> nrcv_que k) (recv_pop k)"
      using recv True whole(2) len Cons first_msg_bytes [of ?q]
      by (auto simp: ikcp_recv_eq peek recv_msg_def)
    have p: "length (history m (take (Suc j) msgs)) = ?p + length (frags m b)"
      using j by (simp add: take_Suc_conv_app_nth history_append b_def) (simp add: history_def)
    have "length (first_msg ?q) = length (frags m b)"
      using whole(1) True complete by simp
    then have pop: "rcv_queue (recv_pop k) = drop (length (frags m b)) ?q"
      by (simp add: recv_pop_def Let_def)
    have "length (map frag_of ?q) \<le> r - ?p"
      unfolding q length_take by (rule min.cobounded2)
    then have "length (frags m b) \<le> r - ?p"
      using True complete by simp
    then have "recv_inv cv ?H (?p + length (frags m b)) (recv_pop k)"
      using inv r unfolding recv_inv_def
      by (intro conjI exI [of _ r]) (auto simp: pop add.commute simp flip: drop_map)
    then show ?thesis
      using res j recv_refill_recv_inv [OF H] by (simp add: p b_def)
  qed
qed

lemma recv_inv_call:
  assumes inv: "recv_inv cv H p k" and op: "\<not> is_receive op" and step: "kcp_step al op k = Some (k', out)"
    and k: "kcp_inv0 k" "op_small op k"
  shows "recv_inv cv H p k'"
proof -
  have fin: "recv_inv cv H p k2" if "ikcp_flush k1 = Some (k2, o2)" "recv_inv cv H p k1" for k1 k2 o2
  proof (cases "updated k1 = 0")
    case True
    with that show ?thesis by (simp add: ikcp_flush_def)
  next
    case False
    show ?thesis
      by (rule recv_inv_cong [OF that(2)])
        (use flush_end_fields [OF ikcp_flush_result [OF that(1) False]] in simp_all)
  qed
  have clock: "recv_inv cv H p (clock_block k cur)" "recv_inv cv H p ((clock_block k cur)\<lparr>ts_flush := t\<rparr>)" for cur t
    by (rule recv_inv_cong [OF inv]; simp)+
  show ?thesis
  proof (cases op)
    case (Op_send b)
    then obtain r where "ikcp_send al k (Some b) (int (length b)) = Some (r, k')"
      using step by (auto simp: quiet_def split: option.splits)
    then have adds: "send_adds k k'"
      using ikcp_send_wf [of k "int (length b)" "Some b" al r k'] k Op_send
      by (simp add: kcp_inv0_def buf_ok_def)
    then obtain x y where "k' = k\<lparr>nsnd_que := x, snd_queue := y\<rparr>"
      unfolding send_adds_def by blast
    then show ?thesis
      by (intro recv_inv_cong [OF inv]) simp_all
  next
    case (Op_update cur)
    then show ?thesis
      using step fin clock by (auto simp: ikcp_update_eq Let_def split: if_splits)
  next
    case Op_flush
    then show ?thesis
      using step fin inv by simp
  next
    case (Op_setmtu m)
    then show ?thesis
      using step by (intro recv_inv_cong [OF inv]) (auto simp: quiet_def ikcp_setmtu_def Let_def split: if_splits)
  next
    case (Op_interval i)
    then show ?thesis
      using step by (intro recv_inv_cong [OF inv]) (auto simp: quiet_def ikcp_interval_def Let_def)
  next
    case (Op_nodelay a b c d)
    then have "k' = snd (ikcp_nodelay k a b c d)"
      using step by (simp add: quiet_def)
    then show ?thesis
      by (intro recv_inv_cong [OF inv]) (simp_all add: ikcp_nodelay_def Let_def)
  next
    case (Op_wndsize s r)
    then have "k' = snd (ikcp_wndsize k s r)"
      using step by (simp add: quiet_def)
    then show ?thesis
      by (intro recv_inv_cong [OF inv]) (simp_all add: ikcp_wndsize_def Let_def)
  next
    case (Op_setoutput cb)
    then show ?thesis
      using step by (intro recv_inv_cong [OF inv]) (auto simp: quiet_def ikcp_setoutput_def)
  qed (use op in simp_all)
qed

subsection \<open>The invariant of the system\<close>

definition transfer_inv :: "allocator \<Rightarrow> nat \<Rightarrow> u32 \<Rightarrow> transfer \<Rightarrow> bool" where
  "transfer_inv al M cv s \<longleftrightarrow>
     kcp_safe al M (ka s) \<and> kcp_inv0 (kb s) \<and>
     (\<forall>b \<in> set (sent s). length b < 2 ^ 31 \<and> length (frags (M - 24) b) < 128) \<and>
     length (history (M - 24) (sent s)) < 2 ^ 31 \<and>
     send_inv cv (history (M - 24) (sent s)) (ka s) \<and>
     (\<forall>d \<in> set (net s). dgram_carries (history (M - 24) (sent s)) d) \<and>
     (\<exists>j \<le> length (sent s). got s = take j (sent s) \<and>
        recv_inv cv (history (M - 24) (sent s)) (length (history (M - 24) (take j (sent s)))) (kb s))"

lemma history_frag_small:
  assumes "\<forall>b \<in> set msgs. length b < 2 ^ 31 \<and> length (frags m b) < 128"
  shows "\<forall>f \<in> set (history m msgs). snd f < 128"
proof
  fix f
  assume "f \<in> set (history m msgs)"
  then obtain b where b: "b \<in> set msgs" "f \<in> set (frags m b)"
    by (auto simp: history_def)
  then have "snd f \<in> set (map snd (frags m b))"
    by simp
  then have "snd f < length (frags m b)"
    unfolding snd_frags by simp
  with assms b(1) show "snd f < 128"
    by fastforce
qed

lemma kcp_safe_step:
  "kcp_safe al M k \<Longrightarrow> op_safe op k \<Longrightarrow> kcp_step al op k = Some (k', out) \<Longrightarrow> kcp_safe al M k'"
  using kcp_step_safe [of al M k op] by (auto simp: safe_result_def)

lemma kcp_safe_payload: "kcp_safe al M k \<Longrightarrow> unat (mss k) = M - 24"
  using mtu_okD(1) [of k] by (auto simp: kcp_safe_def)

lemma transfer_inv_send:
  assumes inv: "transfer_inv al M cv s" and len: "length b < 2 ^ 31"
    and send: "ikcp_send al (ka s) (Some b) (int (length b)) = Some (r, k)"
    and room: "length (history (unat (mss (ka s))) (sent s @ [b])) < 2 ^ 31"
  shows "transfer_inv al M cv (s\<lparr>ka := k, sent := (if r = 0 then sent s @ [b] else sent s)\<rparr>)"
proof -
  let ?m = "M - 24" and ?H = "history (M - 24) (sent s)"
  have safe: "kcp_safe al M (ka s)" and m: "unat (mss (ka s)) = ?m"
    using inv kcp_safe_payload by (auto simp: transfer_inv_def)
  have "kcp_step al (Op_send b) (ka s) = Some (k, [])"
    using send by (simp add: quiet_def)
  then have safe': "kcp_safe al M k"
    using kcp_safe_step [OF safe, of "Op_send b"] len by simp
  note snd = send_inv_send [OF _ safe send len, of cv ?H, unfolded m]
  show ?thesis
  proof (cases "r = 0")
    case False
    with inv safe' snd show ?thesis
      by (auto simp: transfer_inv_def)
  next
    case True
    have H': "history ?m (sent s @ [b]) = ?H @ frags ?m b"
      by (simp add: history_append) (simp add: history_def)
    obtain j where j: "j \<le> length (sent s)" "got s = take j (sent s)"
        "recv_inv cv ?H (length (history ?m (take j (sent s)))) (kb s)"
      using inv by (auto simp: transfer_inv_def)
    have "recv_inv cv (?H @ frags ?m b) (length (history ?m (take j (sent s @ [b])))) (kb s)"
      using recv_inv_append [OF j(3)] j(1) by simp
    moreover have "send_inv cv (?H @ frags ?m b) k" "length (frags ?m b) < 128"
      using snd inv True by (auto simp: transfer_inv_def)
    moreover have "\<forall>d \<in> set (net s). dgram_carries (?H @ frags ?m b) d"
      using inv dgram_carries_append by (auto simp: transfer_inv_def)
    ultimately show ?thesis
      using inv safe' len room j True unfolding transfer_inv_def m
      by (auto simp: H' intro!: exI [of _ j])
  qed
qed

lemma transfer_inv_step:
  assumes "transfer_step al s s'" and inv: "transfer_inv al M cv s"
  shows "transfer_inv al M cv s'"
  using assms(1)
proof (cases rule: transfer_step.cases)
  case (a_send b r k)
  with transfer_inv_send [OF inv] show ?thesis by simp
next
  case (a_call op k out)
  have pre: "kcp_safe al M (ka s)" "length (history (M - 24) (sent s)) < 2 ^ 31"
    "\<forall>f \<in> set (history (M - 24) (sent s)). snd f < 128"
    "send_inv cv (history (M - 24) (sent s)) (ka s)"
    using inv history_frag_small by (auto simp: transfer_inv_def)
  have "send_inv cv (history (M - 24) (sent s)) k \<and>
      (\<forall>d \<in> set out. dgram_carries (history (M - 24) (sent s)) d)"
    by (rule send_inv_call [OF pre(4,2,3,1) a_call(3,4,2)])
  moreover have "kcp_safe al M k"
    by (rule kcp_safe_step [OF pre(1) a_call(4,2)])
  ultimately show ?thesis
    using inv unfolding a_call(1) by (auto simp: transfer_inv_def)
next
  case (b_input d k out)
  then obtain r where r: "ikcp_input al (kb s) (Some d) = Some (r, k)"
    by (auto simp: quiet_def split: option.splits)
  have "kcp_inv0 k"
    using kcp_step_inv0 [OF _ _ b_input(3)] inv by (simp add: transfer_inv_def)
  moreover obtain j where "j \<le> length (sent s)" "got s = take j (sent s)"
      "recv_inv cv (history (M - 24) (sent s)) (length (history (M - 24) (take j (sent s)))) (kb s)"
    using inv by (auto simp: transfer_inv_def)
  moreover from this have
      "recv_inv cv (history (M - 24) (sent s)) (length (history (M - 24) (take j (sent s)))) k"
    using ikcp_input_recv_inv [OF _ _ _ r] inv b_input(2) by (auto simp: transfer_inv_def)
  ultimately show ?thesis
    using inv unfolding b_input(1) by (auto simp: transfer_inv_def)
next
  case (b_recv len n b k)
  have "kcp_step al (Op_recv True len) (kb s) = Some (k, [])"
    using b_recv(2) by (simp add: quiet_def)
  then have k: "kcp_inv0 k"
    using kcp_step_inv0 [of "kb s" "Op_recv True len"] inv by (simp add: transfer_inv_def)
  obtain j where j: "j \<le> length (sent s)" "got s = take j (sent s)"
      "recv_inv cv (history (M - 24) (sent s)) (length (history (M - 24) (take j (sent s)))) (kb s)"
    using inv by (auto simp: transfer_inv_def)
  have pre: "length (history (M - 24) (sent s)) < 2 ^ 31" "wf_kcp (kb s)"
    "\<forall>b \<in> set (sent s). length b < 2 ^ 31 \<and> length (frags (M - 24) b) < 128"
    using inv by (auto simp: transfer_inv_def kcp_inv0_def)
  note res = recv_inv_recv [OF j(3) pre b_recv(2,3)]
  show ?thesis
  proof (cases "0 \<le> n")
    case True
    then have "j < length (sent s)" "b = sent s ! j"
      "recv_inv cv (history (M - 24) (sent s)) (length (history (M - 24) (take (Suc j) (sent s)))) k"
      using res by simp_all
    moreover from this have "got s @ [b] = take (Suc j) (sent s)"
      using j(2) by (simp add: take_Suc_conv_app_nth)
    ultimately have "\<exists>i \<le> length (sent s). got s @ [b] = take i (sent s) \<and>
        recv_inv cv (history (M - 24) (sent s)) (length (history (M - 24) (take i (sent s)))) k"
      by (intro exI [of _ "Suc j"]) simp
    with inv k True show ?thesis
      unfolding b_recv(1) transfer_inv_def by simp
  next
    case False
    then have "k = kb s" using res by simp
    with inv False show ?thesis
      unfolding b_recv(1) transfer_inv_def by simp
  qed
next
  case (b_call op k out)
  have pre: "kcp_inv0 (kb s)"
    using inv by (simp add: transfer_inv_def)
  then have "kcp_inv0 k"
    by (rule kcp_step_inv0 [OF _ b_call(4,2)])
  moreover have "recv_inv cv H p k" if "recv_inv cv H p (kb s)" for H p
    by (rule recv_inv_call [OF that b_call(3,2) pre b_call(4)])
  ultimately show ?thesis
    using inv unfolding b_call(1) transfer_inv_def by auto
qed

lemma transfer_inv_init:
  assumes "transfer_init al cv m s" and al: "grants_all al" and m: "24 < m" "m < 2 ^ 30"
  shows "transfer_inv al (nat m) cv s"
proof -
  obtain k where k: "ikcp_create al cv = Some k" "ikcp_setmtu al (ikcp_setoutput k True) m = (0, ka s)"
      "kb s = k" and s: "net s = []" "sent s = []" "got s = []"
    using assms(1) by (auto simp: transfer_init_def)
  have mw: "unat (word_of_int m :: u32) = nat m"
    using m by (intro unat_word_of_int_nat) simp_all
  have "unat (word_of_int (m - 24) :: u32) = nat (m - 24)"
    using m by (intro unat_word_of_int_nat) simp_all
  then have mss: "unat (word_of_int m - 24 :: u32) = nat m - 24"
    using m by (simp add: nat_diff_distrib)
  have "unat (of_nat (nat ((m + 24) * 3)) :: u32) = nat ((m + 24) * 3)"
    using m by (intro unat_of_nat_u32) (simp add: nat_less_iff)
  moreover have "(of_nat (nat ((m + 24) * 3)) :: u32) = (word_of_int m + 24) * 3"
    using m by simp
  ultimately have cap: "unat ((word_of_int m + 24) * 3 :: u32) = nat ((m + 24) * 3)"
    by simp
  have ka: "ka s = (ikcp_setoutput k True)\<lparr>mtu := word_of_int m, mss := word_of_int m - 24,
      buffer := nat ((m + 24) * 3)\<rparr>"
    using k(2) m(1) al cap by (auto simp: ikcp_setmtu_def kcp_consts Let_def split: if_splits)
  have wf: "wf_kcp k"
    by (rule ikcp_create_wf [OF k(1)])
  have new: "conv k = cv" "stream k = 0" "snd_nxt k = 0" "rcv_nxt k = 0" "snd_queue k = []"
    "snd_buf k = []" "rcv_queue k = []" "rcv_buf k = []" "acklist k = None" "ackcount k = 0"
    "ackblock k = 0" "mss k = 1376"
    using k(1) by (auto simp: ikcp_create_def kcp_consts Let_def split: if_splits)
  have "wf_kcp (ka s)"
    using wf by (simp add: ka ikcp_setoutput_def wf_kcp_def)
  moreover have "mtu_ok (ka s)"
    using m new mw mss by (simp add: ka ikcp_setoutput_def mtu_ok_def nat_less_iff) linarith
  moreover have "unat (mtu (ka s)) = nat m" "output_set (ka s)" "acks_wf (ka s)"
    using mw new by (simp_all add: ka ikcp_setoutput_def acks_wf_def)
  ultimately have "kcp_safe al (nat m) (ka s)"
    using al by (simp add: kcp_safe_def)
  moreover have "send_inv cv [] (ka s)" "recv_inv cv [] 0 (kb s)"
    using new by (simp_all add: send_inv_def recv_inv_def ka ikcp_setoutput_def k(3))
  moreover have "kcp_inv0 (kb s)"
    using wf new by (simp add: k(3) kcp_inv0_def)
  ultimately show ?thesis
    using s by (simp add: transfer_inv_def history_def)
qed

lemma reachable_inv:
  assumes "reachable al cv m s" and "grants_all al" and "24 < m" and "m < 2 ^ 30"
  shows "transfer_inv al (nat m) cv s"
  using assms(1)
proof induction
  case (start s)
  then show ?case using transfer_inv_init assms by blast
next
  case (step s s')
  then show ?case using transfer_inv_step by blast
qed

subsection \<open>Properties\<close>

text \<open>
  C1: End-to-end correctness: over a network that loses, repeats and reorders datagrams,
  with arbitrary bytes thrown at the sender and any other calls on both sides, what the
  receiver delivers is a prefix of the messages the sender accepted, unchanged and in order.
\<close>

theorem transfer_in_order:
  assumes "reachable al cv m s" and "grants_all al" and "24 < m" and "m < 2 ^ 30"
  shows "\<exists>later. sent s = got s @ later"
proof -
  obtain j where "got s = take j (sent s)"
    using reachable_inv [OF assms] by (auto simp: transfer_inv_def)
  then show ?thesis
    by (metis append_take_drop_id)
qed

theorem transfer_in_order_witness:
  "\<exists>s later. reachable malloc_all 7 1400 s \<and> sent s = [[1, 2, 3]] \<and> sent s = got s @ later"
proof -
  obtain k where k: "ikcp_create malloc_all 7 = Some k" "stream k = 0"
    by (auto simp: ikcp_create_def Let_def kcp_consts)
  define a where "a = snd (ikcp_setmtu malloc_all (ikcp_setoutput k True) 1400)"
  have a: "ikcp_setmtu malloc_all (ikcp_setoutput k True) 1400 = (0, a)" "mss a = 1376" "stream a = 0"
    using k(2) by (simp_all add: a_def ikcp_setmtu_def kcp_consts ikcp_setoutput_def Let_def)
  let ?s = "\<lparr>ka = a, kb = k, net = [], sent = [], got = []\<rparr>"
  have "reachable malloc_all 7 1400 ?s"
    using k a by (intro reachable.start) (simp add: transfer_init_def)
  moreover obtain k' where "ikcp_send malloc_all (ka ?s) (Some [1, 2, 3]) (int (length [1, 2, 3 :: byte])) = Some (0, k')"
    using ikcp_send_eq [of malloc_all 1376 a "[1, 2, 3]"] a by (simp add: chunks_small)
  then have "transfer_step malloc_all ?s (?s\<lparr>ka := k', sent := (if (0 :: int) = 0 then sent ?s @ [[1, 2, 3]] else sent ?s)\<rparr>)"
    by (rule transfer_step.a_send) (simp_all add: a history_def chunks_small)
  ultimately have r: "reachable malloc_all 7 1400 (?s\<lparr>ka := k', sent := [[1, 2, 3]]\<rparr>)"
    using reachable.step by fastforce
  show ?thesis
    using transfer_in_order [OF r] r by (intro exI [of _ "?s\<lparr>ka := k', sent := [[1, 2, 3]]\<rparr>"]) simp
qed

end
