(* ===== verification/Iqueue.thy ===== *)
theory Iqueue
  imports Kcp_Prelude "HOL-Library.Monad_Syntax"
begin

section \<open>The intrusive queues of KCP (depends/kcp/ikcp.h, lines 132 to 220)\<close>

text \<open>
  The queue macros work on circular doubly linked lists threaded through the segments. Here
  they are translated to an explicit store: a heap maps the address of every link node that
  is allocated to its two pointers, address 0 is \<open>NULL\<close>, and following a pointer to a node
  that is not allocated is \<open>None\<close>. The macros evaluate their assignments in the order of the
  source, reading through the pointers they have just written.

  \<open>is_queue h head xs\<close> says that the nodes \<open>xs\<close> hang on \<open>head\<close> in this order. The lemmas show
  that the macros are the list operations that the theories of ikcp.c use for the queues
  \<open>snd_queue\<close>, \<open>rcv_queue\<close>, \<open>snd_buf\<close> and \<open>rcv_buf\<close>, and that they leave all other nodes
  alone. The locale \<open>queue_macros\<close> is this contract; in it the moves between two queues that
  \<open>ikcp_recv\<close>, \<open>ikcp_parse_data\<close> and \<open>ikcp_flush\<close> make are proved once.
\<close>

subsection \<open>The macros\<close>

type_synonym addr = nat

record iqueue_head =
  q_next :: addr
  q_prev :: addr

type_synonym heap = "addr \<rightharpoonup> iqueue_head"

definition deref :: "heap \<Rightarrow> addr \<Rightarrow> iqueue_head option" where
  "deref h p = (if p = 0 then None else h p)"

definition set_next :: "heap \<Rightarrow> addr \<Rightarrow> addr \<Rightarrow> heap option" where
  "set_next h p v = map_option (\<lambda>n. h(p \<mapsto> n\<lparr>q_next := v\<rparr>)) (deref h p)"

definition set_prev :: "heap \<Rightarrow> addr \<Rightarrow> addr \<Rightarrow> heap option" where
  "set_prev h p v = map_option (\<lambda>n. h(p \<mapsto> n\<lparr>q_prev := v\<rparr>)) (deref h p)"

definition get_next :: "heap \<Rightarrow> addr \<Rightarrow> addr option" where
  "get_next h p = map_option q_next (deref h p)"

definition get_prev :: "heap \<Rightarrow> addr \<Rightarrow> addr option" where
  "get_prev h p = map_option q_prev (deref h p)"

definition IQUEUE_INIT :: "heap \<Rightarrow> addr \<Rightarrow> heap option" where
  "IQUEUE_INIT h p = do {
     h \<leftarrow> set_next h p p;
     set_prev h p p}"

definition IQUEUE_ENTRY :: "addr \<Rightarrow> nat \<Rightarrow> addr" where
  "IQUEUE_ENTRY p offset = p - offset"

definition IQUEUE_ADD :: "heap \<Rightarrow> addr \<Rightarrow> addr \<Rightarrow> heap option" where
  "IQUEUE_ADD h node head = do {
     h \<leftarrow> set_prev h node head;
     s \<leftarrow> get_next h head;
     h \<leftarrow> set_next h node s;
     s \<leftarrow> get_next h head;
     h \<leftarrow> set_prev h s node;
     set_next h head node}"

definition IQUEUE_ADD_TAIL :: "heap \<Rightarrow> addr \<Rightarrow> addr \<Rightarrow> heap option" where
  "IQUEUE_ADD_TAIL h node head = do {
     l \<leftarrow> get_prev h head;
     h \<leftarrow> set_prev h node l;
     h \<leftarrow> set_next h node head;
     l \<leftarrow> get_prev h head;
     h \<leftarrow> set_next h l node;
     set_prev h head node}"

definition IQUEUE_DEL_BETWEEN :: "heap \<Rightarrow> addr \<Rightarrow> addr \<Rightarrow> heap option" where
  "IQUEUE_DEL_BETWEEN h p n = do {
     h \<leftarrow> set_prev h n p;
     set_next h p n}"

definition IQUEUE_DEL :: "heap \<Rightarrow> addr \<Rightarrow> heap option" where
  "IQUEUE_DEL h entry = do {
     n \<leftarrow> get_next h entry;
     p \<leftarrow> get_prev h entry;
     h \<leftarrow> set_prev h n p;
     p \<leftarrow> get_prev h entry;
     n \<leftarrow> get_next h entry;
     h \<leftarrow> set_next h p n;
     h \<leftarrow> set_next h entry 0;
     set_prev h entry 0}"

definition IQUEUE_DEL_INIT :: "heap \<Rightarrow> addr \<Rightarrow> heap option" where
  "IQUEUE_DEL_INIT h entry = do {
     h \<leftarrow> IQUEUE_DEL h entry;
     IQUEUE_INIT h entry}"

definition IQUEUE_IS_EMPTY :: "heap \<Rightarrow> addr \<Rightarrow> bool option" where
  "IQUEUE_IS_EMPTY h entry = map_option (\<lambda>n. entry = n) (get_next h entry)"

text \<open>
  The positions a \<open>foreach\<close> loop visits; a chain that never comes back to the head, or leaves
  the allocated nodes, has none.
\<close>

partial_function (option) foreach_from :: "heap \<Rightarrow> addr \<Rightarrow> addr \<Rightarrow> addr list option" where
  "foreach_from h head pos =
     (if pos = head then Some []
      else do {
        n \<leftarrow> get_next h pos;
        rest \<leftarrow> foreach_from h head n;
        Some (pos # rest)})"

definition iqueue_foreach_entry :: "heap \<Rightarrow> addr \<Rightarrow> addr list option" where
  "iqueue_foreach_entry h head = do {
     pos \<leftarrow> get_next h head;
     foreach_from h head pos}"

definition iqueue_splice_nonempty :: "heap \<Rightarrow> addr \<Rightarrow> addr \<Rightarrow> heap option" where
  "iqueue_splice_nonempty h list head = do {
     first \<leftarrow> get_next h list;
     last \<leftarrow> get_prev h list;
     at \<leftarrow> get_next h head;
     h \<leftarrow> set_prev h first head;
     h \<leftarrow> set_next h head first;
     h \<leftarrow> set_next h last at;
     set_prev h at last}"

definition iqueue_splice :: "heap \<Rightarrow> addr \<Rightarrow> addr \<Rightarrow> heap option" where
  "iqueue_splice h list head = do {
     e \<leftarrow> IQUEUE_IS_EMPTY h list;
     if \<not> e then iqueue_splice_nonempty h list head else Some h}"

definition iqueue_splice_init :: "heap \<Rightarrow> addr \<Rightarrow> addr \<Rightarrow> heap option" where
  "iqueue_splice_init h list head = do {
     h \<leftarrow> iqueue_splice h list head;
     IQUEUE_INIT h list}"

subsection \<open>One assignment\<close>

text \<open>A heap as far as the macros can see it: which nodes it has and their two pointers.\<close>

definition alloc :: "heap \<Rightarrow> addr set" where
  "alloc h = dom (deref h)"

lemma get_next_None [simp]: "get_next h p = None \<longleftrightarrow> p \<notin> alloc h"
  by (auto simp: get_next_def alloc_def)

lemma get_prev_None [simp]: "get_prev h p = None \<longleftrightarrow> p \<notin> alloc h"
  by (auto simp: get_prev_def alloc_def)

lemma get_next_alloc: "get_next h p = Some q \<Longrightarrow> p \<in> alloc h"
  by (metis get_next_None option.distinct(1))

lemma get_prev_alloc: "get_prev h p = Some q \<Longrightarrow> p \<in> alloc h"
  by (metis get_prev_None option.distinct(1))

lemma set_nextE:
  assumes "p \<in> alloc h"
  obtains h' where "set_next h p v = Some h'" and "get_next h' = (get_next h)(p \<mapsto> v)"
    and "get_prev h' = get_prev h" and "alloc h' = alloc h" and "\<And>q. q \<noteq> p \<Longrightarrow> h' q = h q"
proof -
  from assms obtain n where n: "p \<noteq> 0" "h p = Some n"
    by (auto simp: alloc_def deref_def split: if_splits)
  then have "set_next h p v = Some (h(p \<mapsto> n\<lparr>q_next := v\<rparr>))"
    by (simp add: set_next_def deref_def)
  then show thesis
    by (rule that) (use n in \<open>auto simp: get_next_def get_prev_def alloc_def deref_def fun_eq_iff dom_def\<close>)
qed

lemma set_prevE:
  assumes "p \<in> alloc h"
  obtains h' where "set_prev h p v = Some h'" and "get_prev h' = (get_prev h)(p \<mapsto> v)"
    and "get_next h' = get_next h" and "alloc h' = alloc h" and "\<And>q. q \<noteq> p \<Longrightarrow> h' q = h q"
proof -
  from assms obtain n where n: "p \<noteq> 0" "h p = Some n"
    by (auto simp: alloc_def deref_def split: if_splits)
  then have "set_prev h p v = Some (h(p \<mapsto> n\<lparr>q_prev := v\<rparr>))"
    by (simp add: set_prev_def deref_def)
  then show thesis
    by (rule that) (use n in \<open>auto simp: get_next_def get_prev_def alloc_def deref_def fun_eq_iff dom_def\<close>)
qed

subsection \<open>Chains and queues\<close>

fun chain :: "heap \<Rightarrow> addr \<Rightarrow> addr list \<Rightarrow> addr \<Rightarrow> bool" where
  "chain h a [] b \<longleftrightarrow> get_next h a = Some b \<and> get_prev h b = Some a"
| "chain h a (x # xs) b \<longleftrightarrow> get_next h a = Some x \<and> get_prev h x = Some a \<and> chain h x xs b"

definition is_queue :: "heap \<Rightarrow> addr \<Rightarrow> addr list \<Rightarrow> bool" where
  "is_queue h head xs \<longleftrightarrow> distinct (head # xs) \<and> chain h head xs head"

lemma chain_append: "chain h a (xs @ y # ys) b \<longleftrightarrow> chain h a xs y \<and> chain h y ys b"
  by (induction xs arbitrary: a) auto

lemma chain_cong:
  assumes "\<And>x. x \<in> set (a # xs) \<Longrightarrow> get_next h' x = get_next h x"
    and "\<And>x. x \<in> set (xs @ [b]) \<Longrightarrow> get_prev h' x = get_prev h x"
  shows "chain h' a xs b = chain h a xs b"
  using assms by (induction xs arbitrary: a) auto

lemma chain_alloc: "chain h a xs b \<Longrightarrow> set (a # xs @ [b]) \<subseteq> alloc h"
  by (induction xs arbitrary: a) (auto dest: get_next_alloc get_prev_alloc)

lemma chain_ends:
  "chain h a xs b \<Longrightarrow> get_next h a = Some (hd (xs @ [b])) \<and> get_prev h b = Some (last (a # xs))"
proof (induction xs arbitrary: a)
  case (Cons x xs)
  then show ?case by (cases xs) auto
qed simp

lemma queue_alloc: "is_queue h head xs \<Longrightarrow> set (head # xs) \<subseteq> alloc h"
  unfolding is_queue_def using chain_alloc [of h head xs head] by auto

lemma queue_cong:
  assumes "is_queue h head xs" and "\<And>x. x \<in> set (head # xs) \<Longrightarrow> h' x = h x"
  shows "is_queue h' head xs"
proof -
  have "chain h' head xs head = chain h head xs head"
    using assms(2) by (intro chain_cong) (auto simp: get_next_def get_prev_def deref_def)
  with assms(1) show ?thesis by (simp add: is_queue_def)
qed

lemma chain_insert:
  assumes chain: "chain h a (xs @ ys) b" and dist: "distinct (a # xs @ ys)" "b \<notin> set (xs @ ys)"
    and new: "node \<notin> set (a # xs @ ys)" "node \<noteq> b"
    and nx: "get_next h' = (get_next h)(node \<mapsto> hd (ys @ [b]), last (a # xs) \<mapsto> node)"
    and pv: "get_prev h' = (get_prev h)(node \<mapsto> last (a # xs), hd (ys @ [b]) \<mapsto> node)"
  shows "chain h' a (xs @ node # ys) b"
proof -
  have ends: "node \<noteq> hd (ys @ [b])" "node \<noteq> last (a # xs)"
    using hd_in_set [of "ys @ [b]"] last_in_set [of "a # xs"] new by auto
  have left: "chain h' a xs node"
  proof (cases xs rule: rev_cases)
    case Nil
    with new ends show ?thesis by (auto simp: nx pv)
  next
    case (snoc xs' p)
    with chain have "chain h a xs' p"
      by (simp add: chain_append)
    moreover have "chain h' a xs' p = chain h a xs' p"
      using dist new by (intro chain_cong) (cases ys; auto simp: nx pv snoc)+
    ultimately show ?thesis
      using new ends snoc by (auto simp: chain_append nx pv)
  qed
  have right: "chain h' node ys b"
  proof (cases ys)
    case Nil
    with new ends show ?thesis by (auto simp: nx pv)
  next
    case (Cons s ys')
    with chain have "chain h s ys' b"
      by (simp add: chain_append)
    moreover have "chain h' s ys' b = chain h s ys' b"
      using dist new by (intro chain_cong) (cases xs rule: rev_cases; auto simp: nx pv Cons)+
    ultimately show ?thesis
      using new Cons by (auto simp: nx pv)
  qed
  from left right show ?thesis by (simp add: chain_append)
qed

lemma chain_delete:
  assumes chain: "chain h a (xs @ x # ys) b" and dist: "distinct (a # xs @ x # ys)" "b \<notin> set (xs @ x # ys)"
    and nx: "get_next h' = (get_next h)(last (a # xs) \<mapsto> hd (ys @ [b]), x \<mapsto> u)"
    and pv: "get_prev h' = (get_prev h)(hd (ys @ [b]) \<mapsto> last (a # xs), x \<mapsto> v)"
  shows "chain h' a (xs @ ys) b"
proof (cases ys)
  case Nil
  show ?thesis
  proof (cases xs rule: rev_cases)
    case Nil
    with \<open>ys = []\<close> dist show ?thesis by (auto simp: nx pv)
  next
    case (snoc xs' p)
    with chain have "chain h a xs' p" by (simp add: chain_append)
    moreover have "chain h' a xs' p = chain h a xs' p"
      using dist by (intro chain_cong) (auto simp: nx pv snoc Nil)
    ultimately show ?thesis
      using dist snoc Nil by (auto simp: chain_append nx pv)
  qed
next
  case (Cons s ys')
  with chain have "chain h s ys' b" by (simp add: chain_append)
  moreover have "chain h' s ys' b = chain h s ys' b"
    using dist by (intro chain_cong) (cases xs rule: rev_cases; auto simp: nx pv Cons)+
  moreover have "chain h' a xs s"
  proof (cases xs rule: rev_cases)
    case Nil
    with dist Cons show ?thesis by (auto simp: nx pv)
  next
    case (snoc xs' p)
    with chain have "chain h a xs' p" by (simp add: chain_append)
    moreover have "chain h' a xs' p = chain h a xs' p"
      using dist by (intro chain_cong) (auto simp: nx pv snoc Cons)
    ultimately show ?thesis
      using dist snoc Cons by (auto simp: chain_append nx pv)
  qed
  ultimately show ?thesis by (simp add: Cons chain_append)
qed

subsection \<open>What the macros do to a queue\<close>

text \<open>Nodes outside a set keep their pointers.\<close>

definition only :: "addr set \<Rightarrow> heap \<Rightarrow> heap \<Rightarrow> bool" where
  "only A h h' \<longleftrightarrow> (\<forall>p. p \<notin> A \<longrightarrow> h' p = h p) \<and> alloc h' = alloc h"

lemma onlyD: "only A h h' \<Longrightarrow> p \<notin> A \<Longrightarrow> h' p = h p"
  by (simp add: only_def)

lemma only_step:
  "p \<in> A \<Longrightarrow> alloc h' = alloc h \<Longrightarrow> (\<And>q. q \<noteq> p \<Longrightarrow> h' q = h q) \<Longrightarrow> only A h h'"
  unfolding only_def by metis

lemma only_trans: "only A h h' \<Longrightarrow> only A h' h'' \<Longrightarrow> only A h h''"
  by (simp add: only_def)

lemma only_mono: "only A h h' \<Longrightarrow> A \<subseteq> B \<Longrightarrow> only B h h'"
  by (auto simp: only_def)

lemma IQUEUE_INIT_queue:
  assumes "p \<in> alloc h"
  shows "\<exists>h'. IQUEUE_INIT h p = Some h' \<and> is_queue h' p [] \<and> only {p} h h'"
proof -
  obtain h1 where 1: "set_next h p p = Some h1" "get_next h1 = (get_next h)(p \<mapsto> p)"
      "get_prev h1 = get_prev h" "alloc h1 = alloc h" "\<And>q. q \<noteq> p \<Longrightarrow> h1 q = h q"
    using set_nextE [OF assms] by blast
  have "p \<in> alloc h1" using 1 assms by simp
  from set_prevE [OF this] obtain h2 where 2: "set_prev h1 p p = Some h2"
      "get_prev h2 = (get_prev h1)(p \<mapsto> p)" "get_next h2 = get_next h1" "alloc h2 = alloc h1"
      "\<And>q. q \<noteq> p \<Longrightarrow> h2 q = h1 q"
    by blast
  from 1 2 show ?thesis
    by (intro exI [of _ h2]) (simp add: IQUEUE_INIT_def is_queue_def only_def)
qed

text \<open>
  \<open>IQUEUE_ADD\<close> puts a node right behind the node it is given, which is the head of the queue
  or any of its elements, as in the sorted insertion of \<open>ikcp_parse_data\<close>.
\<close>

lemma IQUEUE_ADD_links:
  assumes "at \<in> alloc h" "get_next h at = Some s" "s \<in> alloc h" "node \<in> alloc h" "node \<noteq> at"
  shows "\<exists>h'. IQUEUE_ADD h node at = Some h' \<and>
     get_next h' = (get_next h)(node \<mapsto> s, at \<mapsto> node) \<and>
     get_prev h' = (get_prev h)(node \<mapsto> at, s \<mapsto> node) \<and> only {node, s, at} h h'"
proof -
  obtain h1 where 1: "set_prev h node at = Some h1" "get_prev h1 = (get_prev h)(node \<mapsto> at)"
      "get_next h1 = get_next h" "alloc h1 = alloc h" "\<And>q. q \<noteq> node \<Longrightarrow> h1 q = h q"
    using set_prevE [OF assms(4)] by blast
  have "node \<in> alloc h1" using 1 assms by simp
  from set_nextE [OF this] obtain h2 where 2: "set_next h1 node s = Some h2"
      "get_next h2 = (get_next h1)(node \<mapsto> s)" "get_prev h2 = get_prev h1" "alloc h2 = alloc h1"
      "\<And>q. q \<noteq> node \<Longrightarrow> h2 q = h1 q"
    by blast
  have "s \<in> alloc h2" using 1 2 assms by simp
  from set_prevE [OF this] obtain h3 where 3: "set_prev h2 s node = Some h3"
      "get_prev h3 = (get_prev h2)(s \<mapsto> node)" "get_next h3 = get_next h2" "alloc h3 = alloc h2"
      "\<And>q. q \<noteq> s \<Longrightarrow> h3 q = h2 q"
    by blast
  have "at \<in> alloc h3" using 1 2 3 assms by simp
  from set_nextE [OF this] obtain h4 where 4: "set_next h3 at node = Some h4"
      "get_next h4 = (get_next h3)(at \<mapsto> node)" "get_prev h4 = get_prev h3" "alloc h4 = alloc h3"
      "\<And>q. q \<noteq> at \<Longrightarrow> h4 q = h3 q"
    by blast
  have "IQUEUE_ADD h node at = Some h4"
    using 1 2 3 4 assms by (simp add: IQUEUE_ADD_def)
  with 1 2 3 4 show ?thesis
    by (intro exI [of _ h4]) (simp add: only_def)
qed

lemma IQUEUE_ADD_queue:
  assumes q: "is_queue h head (xs @ ys)" and at: "at = last (head # xs)"
    and new: "node \<in> alloc h" "node \<notin> set (head # xs @ ys)"
  shows "\<exists>h'. IQUEUE_ADD h node at = Some h' \<and> is_queue h' head (xs @ node # ys) \<and>
     only (insert node (set (head # xs @ ys))) h h'"
proof -
  let ?s = "hd (ys @ [head])"
  have at_in: "at \<in> set (head # xs)" and s_in: "?s \<in> set (head # ys)"
    using at last_in_set [of "head # xs"] hd_in_set [of "ys @ [head]"] by auto
  have nx: "get_next h at = Some ?s"
  proof (cases xs rule: rev_cases)
    case Nil
    with q at chain_ends [of h head ys head] show ?thesis by (simp add: is_queue_def)
  next
    case (snoc xs' p)
    with q at chain_ends [of h p ys head] show ?thesis by (simp add: is_queue_def chain_append)
  qed
  have "at \<in> alloc h" "?s \<in> alloc h" "node \<noteq> at"
    using queue_alloc [OF q] at_in s_in new by auto
  from IQUEUE_ADD_links [OF this(1) nx this(2) new(1) this(3)] obtain h'
    where h': "IQUEUE_ADD h node at = Some h'" "only {node, ?s, at} h h'"
      "get_next h' = (get_next h)(node \<mapsto> ?s, at \<mapsto> node)"
      "get_prev h' = (get_prev h)(node \<mapsto> at, ?s \<mapsto> node)"
    by blast
  have "chain h' head (xs @ node # ys) head"
    using q new by (intro chain_insert [of h]) (auto simp: h'(3,4) at is_queue_def)
  moreover have "only (insert node (set (head # xs @ ys))) h h'"
    using h'(2) at_in s_in by (auto simp: only_def)
  ultimately show ?thesis
    using h'(1) q new by (auto simp: is_queue_def)
qed

lemma IQUEUE_ADD_TAIL_queue:
  assumes q: "is_queue h head xs" and new: "node \<in> alloc h" "node \<notin> set (head # xs)"
  shows "\<exists>h'. IQUEUE_ADD_TAIL h node head = Some h' \<and> is_queue h' head (xs @ [node]) \<and>
     only (insert node (set (head # xs))) h h'"
proof -
  let ?l = "last (head # xs)"
  have l_in: "?l \<in> set (head # xs)"
    using last_in_set [of "head # xs"] by simp
  have pv: "get_prev h head = Some ?l"
    using q chain_ends [of h head xs head] by (simp add: is_queue_def)
  have in_alloc: "head \<in> alloc h" "?l \<in> alloc h" and ne: "node \<noteq> head" "node \<noteq> ?l"
    using queue_alloc [OF q] l_in new by auto
  obtain h1 where 1: "set_prev h node ?l = Some h1" "get_prev h1 = (get_prev h)(node \<mapsto> ?l)"
      "get_next h1 = get_next h" "alloc h1 = alloc h" "\<And>q. q \<noteq> node \<Longrightarrow> h1 q = h q"
    using set_prevE [OF new(1)] by blast
  have "node \<in> alloc h1" using 1 new by simp
  from set_nextE [OF this] obtain h2 where 2: "set_next h1 node head = Some h2"
      "get_next h2 = (get_next h1)(node \<mapsto> head)" "get_prev h2 = get_prev h1" "alloc h2 = alloc h1"
      "\<And>q. q \<noteq> node \<Longrightarrow> h2 q = h1 q"
    by blast
  have "?l \<in> alloc h2" using 1 2 in_alloc by simp
  from set_nextE [OF this] obtain h3 where 3: "set_next h2 ?l node = Some h3"
      "get_next h3 = (get_next h2)(?l \<mapsto> node)" "get_prev h3 = get_prev h2" "alloc h3 = alloc h2"
      "\<And>q. q \<noteq> ?l \<Longrightarrow> h3 q = h2 q"
    by blast
  have "head \<in> alloc h3" using 1 2 3 in_alloc by simp
  from set_prevE [OF this] obtain h4 where 4: "set_prev h3 head node = Some h4"
      "get_prev h4 = (get_prev h3)(head \<mapsto> node)" "get_next h4 = get_next h3" "alloc h4 = alloc h3"
      "\<And>q. q \<noteq> head \<Longrightarrow> h4 q = h3 q"
    by blast
  have pv2: "get_prev h2 head = Some ?l"
    using 1 2 pv ne by simp
  have "IQUEUE_ADD_TAIL h node head = Some h4"
    unfolding IQUEUE_ADD_TAIL_def using pv pv2 by (simp only: 1(1) 2(1) 3(1) 4(1) bind.bind_lunit)
  moreover have "chain h4 head (xs @ node # []) head"
    using q new by (intro chain_insert [of h]) (auto simp: 1(2,3) 2(2,3) 3(2,3) 4(2,3) is_queue_def)
  moreover have "only (insert node (set (head # xs))) h h4"
    by (rule only_trans [OF only_trans [OF only_trans [OF
      only_step [OF _ 1(4,5)] only_step [OF _ 2(4,5)]] only_step [OF _ 3(4,5)]] only_step [OF _ 4(4,5)]])
      (use l_in in auto)
  ultimately show ?thesis
    using q new by (auto simp: is_queue_def)
qed

lemma IQUEUE_DEL_queue:
  assumes q: "is_queue h head (xs @ x # ys)"
  shows "\<exists>h'. IQUEUE_DEL h x = Some h' \<and> is_queue h' head (xs @ ys) \<and>
     get_next h' x = Some 0 \<and> get_prev h' x = Some 0 \<and> only (set (head # xs @ x # ys)) h h'"
proof -
  let ?n = "hd (ys @ [head])" and ?p = "last (head # xs)"
  let ?A = "set (head # xs @ x # ys)"
  have p_in: "?p \<in> set (head # xs)" and n_in: "?n \<in> set (head # ys)"
    using last_in_set [of "head # xs"] hd_in_set [of "ys @ [head]"] by auto
  have ch: "chain h head xs x" "chain h x ys head" and dist: "distinct (head # xs @ x # ys)"
    using q by (simp_all add: is_queue_def chain_append)
  have nx: "get_next h x = Some ?n" and pv: "get_prev h x = Some ?p"
    using chain_ends [OF ch(1)] chain_ends [OF ch(2)] by simp_all
  have ne: "?n \<noteq> x" "?p \<noteq> x"
    using n_in p_in dist by (metis distinct.simps(2) distinct_append set_ConsD Un_iff set_append
      list.set_intros(1) disjoint_iff in_set_conv_decomp)+
  have al: "x \<in> alloc h" "?n \<in> alloc h" "?p \<in> alloc h"
    using queue_alloc [OF q] n_in p_in by auto
  obtain h1 where 1: "set_prev h ?n ?p = Some h1" "get_prev h1 = (get_prev h)(?n \<mapsto> ?p)"
      "get_next h1 = get_next h" "alloc h1 = alloc h" "\<And>q. q \<noteq> ?n \<Longrightarrow> h1 q = h q"
    using set_prevE [OF al(2)] by blast
  have "?p \<in> alloc h1" using 1 al by simp
  from set_nextE [OF this] obtain h2 where 2: "set_next h1 ?p ?n = Some h2"
      "get_next h2 = (get_next h1)(?p \<mapsto> ?n)" "get_prev h2 = get_prev h1" "alloc h2 = alloc h1"
      "\<And>q. q \<noteq> ?p \<Longrightarrow> h2 q = h1 q"
    by blast
  have "x \<in> alloc h2" using 1 2 al by simp
  from set_nextE [OF this] obtain h3 where 3: "set_next h2 x 0 = Some h3"
      "get_next h3 = (get_next h2)(x \<mapsto> 0)" "get_prev h3 = get_prev h2" "alloc h3 = alloc h2"
      "\<And>q. q \<noteq> x \<Longrightarrow> h3 q = h2 q"
    by blast
  have "x \<in> alloc h3" using 1 2 3 al by simp
  from set_prevE [OF this] obtain h4 where 4: "set_prev h3 x 0 = Some h4"
      "get_prev h4 = (get_prev h3)(x \<mapsto> 0)" "get_next h4 = get_next h3" "alloc h4 = alloc h3"
      "\<And>q. q \<noteq> x \<Longrightarrow> h4 q = h3 q"
    by blast
  have "get_prev h1 x = Some ?p" "get_next h1 x = Some ?n"
    using 1(2,3) nx pv ne by simp_all
  then have "IQUEUE_DEL h x = Some h4"
    unfolding IQUEUE_DEL_def using nx pv by (simp only: 1(1) 2(1) 3(1) 4(1) bind.bind_lunit)
  moreover have nx4: "get_next h4 = (get_next h)(?p \<mapsto> ?n, x \<mapsto> 0)"
      and pv4: "get_prev h4 = (get_prev h)(?n \<mapsto> ?p, x \<mapsto> 0)"
    by (simp_all only: 1(2,3) 2(2,3) 3(2,3) 4(2,3))
  moreover have "chain h4 head (xs @ ys) head"
    by (rule chain_delete [OF _ _ _ nx4 pv4]) (use q in \<open>simp_all add: is_queue_def\<close>)
  moreover have "get_next h4 x = Some 0" "get_prev h4 x = Some 0"
    by (simp_all add: 3(2) 4(2,3))
  moreover have "only ?A h h4"
    by (rule only_trans [OF only_trans [OF only_trans [OF
      only_step [OF _ 1(4,5)] only_step [OF _ 2(4,5)]] only_step [OF _ 3(4,5)]] only_step [OF _ 4(4,5)]])
      (use p_in n_in in auto)
  ultimately show ?thesis
    using dist by (auto simp: is_queue_def)
qed

lemma IQUEUE_DEL_INIT_queue:
  assumes "is_queue h head (xs @ x # ys)"
  shows "\<exists>h'. IQUEUE_DEL_INIT h x = Some h' \<and> is_queue h' head (xs @ ys) \<and> is_queue h' x [] \<and>
     only (set (head # xs @ x # ys)) h h'"
proof -
  obtain h1 where 1: "IQUEUE_DEL h x = Some h1" "is_queue h1 head (xs @ ys)"
      "only (set (head # xs @ x # ys)) h h1"
    using IQUEUE_DEL_queue [OF assms] by blast
  have "x \<in> alloc h1"
    using queue_alloc [OF assms] 1(3) by (auto simp: only_def)
  then obtain h2 where 2: "IQUEUE_INIT h1 x = Some h2" "is_queue h2 x []" "only {x} h1 h2"
    using IQUEUE_INIT_queue by blast
  have "is_queue h2 head (xs @ ys)"
  proof (rule queue_cong [OF 1(2)])
    fix y assume "y \<in> set (head # xs @ ys)"
    with assms have "y \<notin> {x}" by (auto simp: is_queue_def)
    then show "h2 y = h1 y" by (rule onlyD [OF 2(3)])
  qed
  moreover have "only (set (head # xs @ x # ys)) h h2"
    by (rule only_trans [OF 1(3) only_mono [OF 2(3)]]) simp
  ultimately show ?thesis
    using 1(1) 2(1,2) by (auto simp: IQUEUE_DEL_INIT_def)
qed

lemma IQUEUE_IS_EMPTY_queue:
  assumes "is_queue h head xs"
  shows "IQUEUE_IS_EMPTY h head = Some (xs = [])"
proof -
  have "get_next h head = Some (hd (xs @ [head]))"
    using assms chain_ends by (simp add: is_queue_def)
  with assms show ?thesis
    by (cases xs) (simp_all add: IQUEUE_IS_EMPTY_def is_queue_def)
qed

lemma foreach_chain:
  "chain h a xs head \<Longrightarrow> head \<notin> set xs \<Longrightarrow> foreach_from h head (hd (xs @ [head])) = Some xs"
proof (induction xs arbitrary: a)
  case Nil
  then show ?case by (simp add: foreach_from.simps)
next
  case (Cons x xs)
  from Cons.prems(1) chain_ends [of h x xs head] have "get_next h x = Some (hd (xs @ [head]))"
    by simp
  with Cons.IH [of x] Cons.prems show ?case
    by (simp add: foreach_from.simps [of h head x])
qed

lemma iqueue_foreach_queue: "is_queue h head xs \<Longrightarrow> iqueue_foreach_entry h head = Some xs"
  using foreach_chain [of h head xs head] chain_ends [of h head xs head]
  by (simp add: iqueue_foreach_entry_def is_queue_def)

text \<open>The chain of one queue hung between two other nodes.\<close>

lemma chain_rehang:
  assumes "chain h a xs b" and "xs \<noteq> []"
    and "get_next h' a' = Some (hd xs)" and "get_prev h' (hd xs) = Some a'"
    and "get_next h' (last xs) = Some b'" and "get_prev h' b' = Some (last xs)"
    and "\<And>x. x \<in> set (butlast xs) \<Longrightarrow> get_next h' x = get_next h x"
    and "\<And>x. x \<in> set (tl xs) \<Longrightarrow> get_prev h' x = get_prev h x"
  shows "chain h' a' xs b'"
  using assms
proof (induction xs arbitrary: a a')
  case (Cons x xs)
  show ?case
  proof (cases xs)
    case Nil
    with Cons.prems show ?thesis by simp
  next
    case (Cons y ys)
    have "chain h' x xs b'"
      using Cons.prems Cons by (intro Cons.IH [of x x]) auto
    with Cons.prems show ?thesis by simp
  qed
qed simp

lemma splice_nonempty_queue:
  assumes ql: "is_queue h list ys" and qh: "is_queue h head xs" and ne: "ys \<noteq> []"
    and dis: "set (list # ys) \<inter> set (head # xs) = {}"
  shows "\<exists>h'. iqueue_splice_nonempty h list head = Some h' \<and> is_queue h' head (ys @ xs) \<and>
     only (set (head # ys @ xs)) h h'"
proof -
  let ?f = "hd ys" and ?l = "last ys" and ?at = "hd (xs @ [head])"
  have f_in: "?f \<in> set ys" and l_in: "?l \<in> set ys" and at_in: "?at \<in> set (head # xs)"
    using ne hd_in_set [of "xs @ [head]"] by auto
  have ends: "get_next h list = Some ?f" "get_prev h list = Some ?l" "get_next h head = Some ?at"
    using chain_ends [of h list ys list] chain_ends [of h head xs head] ql qh ne
    by (simp_all add: is_queue_def)
  have al: "?f \<in> alloc h" "head \<in> alloc h" "?l \<in> alloc h" "?at \<in> alloc h"
    using queue_alloc [OF ql] queue_alloc [OF qh] f_in l_in at_in by auto
  obtain h1 where 1: "set_prev h ?f head = Some h1" "get_prev h1 = (get_prev h)(?f \<mapsto> head)"
      "get_next h1 = get_next h" "alloc h1 = alloc h" "\<And>q. q \<noteq> ?f \<Longrightarrow> h1 q = h q"
    using set_prevE [OF al(1)] by blast
  have "head \<in> alloc h1" using 1 al by simp
  from set_nextE [OF this] obtain h2 where 2: "set_next h1 head ?f = Some h2"
      "get_next h2 = (get_next h1)(head \<mapsto> ?f)" "get_prev h2 = get_prev h1" "alloc h2 = alloc h1"
      "\<And>q. q \<noteq> head \<Longrightarrow> h2 q = h1 q"
    by blast
  have "?l \<in> alloc h2" using 1 2 al by simp
  from set_nextE [OF this] obtain h3 where 3: "set_next h2 ?l ?at = Some h3"
      "get_next h3 = (get_next h2)(?l \<mapsto> ?at)" "get_prev h3 = get_prev h2" "alloc h3 = alloc h2"
      "\<And>q. q \<noteq> ?l \<Longrightarrow> h3 q = h2 q"
    by blast
  have "?at \<in> alloc h3" using 1 2 3 al by simp
  from set_prevE [OF this] obtain h4 where 4: "set_prev h3 ?at ?l = Some h4"
      "get_prev h4 = (get_prev h3)(?at \<mapsto> ?l)" "get_next h4 = get_next h3" "alloc h4 = alloc h3"
      "\<And>q. q \<noteq> ?at \<Longrightarrow> h4 q = h3 q"
    by blast
  have nx4: "get_next h4 = (get_next h)(head \<mapsto> ?f, ?l \<mapsto> ?at)"
      and pv4: "get_prev h4 = (get_prev h)(?f \<mapsto> head, ?at \<mapsto> ?l)"
    by (simp_all only: 1(2,3) 2(2,3) 3(2,3) 4(2,3))
  have "iqueue_splice_nonempty h list head = Some h4"
    unfolding iqueue_splice_nonempty_def using ends by (simp only: 1(1) 2(1) 3(1) 4(1) bind.bind_lunit)
  moreover have only: "only (set (head # ys @ xs)) h h4"
    by (rule only_trans [OF only_trans [OF only_trans [OF
      only_step [OF _ 1(4,5)] only_step [OF _ 2(4,5)]] only_step [OF _ 3(4,5)]] only_step [OF _ 4(4,5)]])
      (use f_in l_in at_in in auto)
  moreover have "chain h4 head (ys @ xs) head"
  proof -
    have apart: "?l \<noteq> head" "?f \<noteq> ?at" "head \<notin> set ys" "?at \<notin> set ys"
      using dis f_in l_in at_in by auto
    have first: "chain h4 head ys ?at"
    proof (rule chain_rehang)
      show "chain h list ys list" using ql by (simp add: is_queue_def)
    next
      fix x assume x: "x \<in> set (butlast ys)"
      moreover have "distinct (butlast ys @ [?l])"
        using ql ne by (simp add: is_queue_def)
      ultimately have "x \<noteq> ?l" "x \<noteq> head"
        using apart in_set_butlastD [OF x] by auto
      then show "get_next h4 x = get_next h x" by (simp add: nx4)
    next
      fix x assume x: "x \<in> set (tl ys)"
      moreover from this have "x \<noteq> ?f"
        using ql ne by (cases ys) (auto simp: is_queue_def)
      moreover have "x \<noteq> ?at"
        using apart list.set_sel(2) [OF ne x] by auto
      ultimately show "get_prev h4 x = get_prev h x" by (simp add: pv4)
    qed (use ne apart in \<open>auto simp: nx4 pv4\<close>)
    show ?thesis
    proof (cases xs)
      case Nil
      with first show ?thesis by simp
    next
      case (Cons x xs')
      then have at: "?at = x" by simp
      have "chain h x xs' head"
        using qh Cons by (simp add: is_queue_def)
      moreover have "chain h4 x xs' head = chain h x xs' head"
      proof (rule chain_cong)
        fix y assume "y \<in> set (x # xs')"
        then have "y \<noteq> head" "y \<noteq> ?l"
          using qh dis Cons l_in by (auto simp: is_queue_def)
        then show "get_next h4 y = get_next h y" by (simp add: nx4)
      next
        fix y assume "y \<in> set (xs' @ [head])"
        then have "y \<noteq> ?f" "y \<noteq> ?at"
          using qh dis Cons f_in by (auto simp: is_queue_def)
        then show "get_prev h4 y = get_prev h y" by (simp add: pv4)
      qed
      ultimately show ?thesis
        using first by (simp add: Cons at chain_append)
    qed
  qed
  ultimately show ?thesis
    using ql qh dis by (auto simp: is_queue_def)
qed

lemma only_refl: "only A h h"
  by (simp add: only_def)

lemma iqueue_splice_queue:
  assumes "is_queue h list ys" and "is_queue h head xs" and "set (list # ys) \<inter> set (head # xs) = {}"
  shows "\<exists>h'. iqueue_splice h list head = Some h' \<and> is_queue h' head (ys @ xs) \<and>
     only (set (head # ys @ xs)) h h'"
proof (cases "ys = []")
  case True
  with assms show ?thesis
    by (auto simp: iqueue_splice_def IQUEUE_IS_EMPTY_queue intro: only_refl)
next
  case False
  with splice_nonempty_queue [OF assms(1,2) False assms(3)] assms show ?thesis
    by (auto simp: iqueue_splice_def IQUEUE_IS_EMPTY_queue)
qed

lemma iqueue_splice_init_queue:
  assumes ql: "is_queue h list ys" and qh: "is_queue h head xs"
    and dis: "set (list # ys) \<inter> set (head # xs) = {}"
  shows "\<exists>h'. iqueue_splice_init h list head = Some h' \<and> is_queue h' head (ys @ xs) \<and>
     is_queue h' list [] \<and> only (set (list # head # ys @ xs)) h h'"
proof -
  obtain h1 where 1: "iqueue_splice h list head = Some h1" "is_queue h1 head (ys @ xs)"
      "only (set (head # ys @ xs)) h h1"
    using iqueue_splice_queue [OF assms] by blast
  have "list \<in> alloc h1"
    using queue_alloc [OF ql] 1(3) by (auto simp: only_def)
  then obtain h2 where 2: "IQUEUE_INIT h1 list = Some h2" "is_queue h2 list []" "only {list} h1 h2"
    using IQUEUE_INIT_queue by blast
  have "is_queue h2 head (ys @ xs)"
  proof (rule queue_cong [OF 1(2)])
    fix y assume "y \<in> set (head # ys @ xs)"
    with dis ql have "y \<notin> {list}" by (auto simp: is_queue_def)
    then show "h2 y = h1 y" by (rule onlyD [OF 2(3)])
  qed
  moreover have "only (set (list # head # ys @ xs)) h h2"
    by (rule only_trans [OF only_mono [OF 1(3)] only_mono [OF 2(3)]]) auto
  ultimately show ?thesis
    using 1(1) 2(1,2) by (auto simp: iqueue_splice_init_def)
qed

subsection \<open>The contract and its clients\<close>

text \<open>
  What ikcp.c relies on: the queue at a head is a list of nodes, and an operation on one queue
  leaves every queue alone that shares no node with the nodes it touches.
\<close>

locale queue_macros =
  fixes queue :: "'h \<Rightarrow> 'p \<Rightarrow> 'p list \<Rightarrow> bool"
    and node_ok :: "'h \<Rightarrow> 'p \<Rightarrow> bool"
    and add :: "'h \<Rightarrow> 'p \<Rightarrow> 'p \<Rightarrow> 'h option"
    and add_tail :: "'h \<Rightarrow> 'p \<Rightarrow> 'p \<Rightarrow> 'h option"
    and del :: "'h \<Rightarrow> 'p \<Rightarrow> 'h option"
    and touched :: "'p set \<Rightarrow> 'h \<Rightarrow> 'h \<Rightarrow> bool"
  assumes dist: "queue h q xs \<Longrightarrow> distinct (q # xs)"
    and nodes: "queue h q xs \<Longrightarrow> x \<in> set (q # xs) \<Longrightarrow> node_ok h x"
    and frame: "touched A h h' \<Longrightarrow> queue h q xs \<Longrightarrow> A \<inter> set (q # xs) = {} \<Longrightarrow> queue h' q xs"
    and keeps: "touched A h h' \<Longrightarrow> node_ok h x \<Longrightarrow> node_ok h' x"
    and trans: "touched A h h' \<Longrightarrow> touched B h' h'' \<Longrightarrow> touched (A \<union> B) h h''"
    and add_law: "queue h q (xs @ ys) \<Longrightarrow> node_ok h x \<Longrightarrow> x \<notin> set (q # xs @ ys) \<Longrightarrow>
       \<exists>h'. add h x (last (q # xs)) = Some h' \<and> queue h' q (xs @ x # ys) \<and>
         touched (insert x (set (q # xs @ ys))) h h'"
    and add_tail_law: "queue h q xs \<Longrightarrow> node_ok h x \<Longrightarrow> x \<notin> set (q # xs) \<Longrightarrow>
       \<exists>h'. add_tail h x q = Some h' \<and> queue h' q (xs @ [x]) \<and> touched (insert x (set (q # xs))) h h'"
    and del_law: "queue h q (xs @ x # ys) \<Longrightarrow>
       \<exists>h'. del h x = Some h' \<and> queue h' q (xs @ ys) \<and> touched (set (q # xs @ x # ys)) h h'"
begin

text \<open>
  \<open>iqueue_del (&seg->node); iqueue_add_tail (&seg->node, &other)\<close>, the step of the loops that
  feed \<open>rcv_queue\<close> from \<open>rcv_buf\<close> and \<open>snd_buf\<close> from \<open>snd_queue\<close>.
\<close>

lemma move_front:
  assumes q: "queue h q (x # xs)" and r: "queue h r ys"
    and dis: "set (q # x # xs) \<inter> set (r # ys) = {}"
  shows "\<exists>h1 h2. del h x = Some h1 \<and> add_tail h1 x r = Some h2 \<and>
     queue h2 q xs \<and> queue h2 r (ys @ [x]) \<and> touched (set (q # x # xs) \<union> set (r # ys)) h h2"
proof -
  obtain h1 where 1: "del h x = Some h1" "queue h1 q xs" "touched (set (q # x # xs)) h h1"
    using del_law [of h q "[]" x xs] q by auto
  have "queue h1 r ys" "node_ok h1 x" "x \<notin> set (r # ys)"
    using frame [OF 1(3) r dis] keeps [OF 1(3) nodes [OF q]] dis by auto
  then obtain h2 where 2: "add_tail h1 x r = Some h2" "queue h2 r (ys @ [x])"
      "touched (insert x (set (r # ys))) h1 h2"
    using add_tail_law by blast
  have "insert x (set (r # ys)) \<inter> set (q # xs) = {}"
    using dis dist [OF q] by auto
  from frame [OF 2(3) 1(2) this] have "queue h2 q xs" .
  moreover have "set (q # x # xs) \<union> insert x (set (r # ys)) = set (q # x # xs) \<union> set (r # ys)"
    by auto
  ultimately show ?thesis
    using 1(1) 2(1,2) trans [OF 1(3) 2(3)] by auto
qed

lemma others:
  assumes "queue h q (x # xs)" and "queue h r ys" and "queue h k zs"
    and "set (q # x # xs) \<inter> set (r # ys) = {}" and "set (k # zs) \<inter> (set (q # x # xs) \<union> set (r # ys)) = {}"
  shows "\<exists>h1 h2. del h x = Some h1 \<and> add_tail h1 x r = Some h2 \<and>
     queue h2 q xs \<and> queue h2 r (ys @ [x]) \<and> queue h2 k zs"
  using move_front [OF assms(1,2,4)] frame [OF _ assms(3)] assms(5) by (metis inf_commute)

end

interpretation iq: queue_macros is_queue "\<lambda>h p. p \<in> alloc h" IQUEUE_ADD IQUEUE_ADD_TAIL IQUEUE_DEL only
proof unfold_locales
  fix h q xs and x :: addr assume "is_queue h q xs" "x \<in> set (q # xs)"
  then show "x \<in> alloc h" using queue_alloc by blast
next
  fix A h h' q xs assume "only A h h'" "is_queue h q xs" "A \<inter> set (q # xs) = {}"
  then have "h' x = h x" if "x \<in> set (q # xs)" for x
    using onlyD [of A h h' x] that by blast
  with \<open>is_queue h q xs\<close> show "is_queue h' q xs" by (rule queue_cong)
next
  fix A B h h' h'' assume "only A h h'" "only B h' h''"
  then show "only (A \<union> B) h h''" by (auto simp: only_def)
next
  fix h q xs x ys assume "is_queue h q (xs @ x # ys)"
  then show "\<exists>h'. IQUEUE_DEL h x = Some h' \<and> is_queue h' q (xs @ ys) \<and> only (set (q # xs @ x # ys)) h h'"
    using IQUEUE_DEL_queue by blast
next
  fix h q xs ys and x :: addr
  assume "is_queue h q (xs @ ys)" "x \<in> alloc h" "x \<notin> set (q # xs @ ys)"
  then show "\<exists>h'. IQUEUE_ADD h x (last (q # xs)) = Some h' \<and> is_queue h' q (xs @ x # ys) \<and>
      only (insert x (set (q # xs @ ys))) h h'"
    using IQUEUE_ADD_queue by blast
next
  fix h q xs and x :: addr
  assume "is_queue h q xs" "x \<in> alloc h" "x \<notin> set (q # xs)"
  then show "\<exists>h'. IQUEUE_ADD_TAIL h x q = Some h' \<and> is_queue h' q (xs @ [x]) \<and>
      only (insert x (set (q # xs))) h h'"
    using IQUEUE_ADD_TAIL_queue by blast
qed (auto simp: is_queue_def only_def)

subsection \<open>Properties\<close>

text \<open>
  C29: The queue macros implement lists, empty ones included: \<open>IQUEUE_INIT\<close> makes a queue with
  no element; walking a queue visits its nodes in order; \<open>IQUEUE_IS_EMPTY\<close> answers true for
  the empty list and false for any other; \<open>IQUEUE_ADD\<close> puts a new node right behind the
  head or any element; \<open>IQUEUE_ADD_TAIL\<close> puts it last; \<open>IQUEUE_DEL\<close> takes out any element and
  clears its links, \<open>IQUEUE_DEL_INIT\<close> leaves it an empty queue of its own;
  \<open>iqueue_splice\<close> puts the elements of another queue, in order, before those of this one
  (and leaves the heap alone when the other queue is empty), and \<open>iqueue_splice_init\<close>
  empties the other queue as well. No macro follows a \<open>NULL\<close> or dangling pointer, and none
  changes a node outside the queues and the node it is given.
\<close>

theorem iqueue_refines_lists:
  assumes "is_queue h head zs" and "node \<in> alloc h" and "node \<notin> set (head # zs)"
    and "is_queue h list ws" and "set (list # ws) \<inter> set (head # zs) = {}"
  shows "(\<exists>h'. IQUEUE_INIT h node = Some h' \<and> is_queue h' node [] \<and> only {node} h h') \<and>
     iqueue_foreach_entry h head = Some zs \<and>
     IQUEUE_IS_EMPTY h head = Some (zs = []) \<and>
     (\<forall>xs ys. zs = xs @ ys \<longrightarrow> (\<exists>h'. IQUEUE_ADD h node (last (head # xs)) = Some h' \<and>
        is_queue h' head (xs @ node # ys) \<and> only (insert node (set (head # zs))) h h')) \<and>
     (\<exists>h'. IQUEUE_ADD_TAIL h node head = Some h' \<and> is_queue h' head (zs @ [node]) \<and>
        only (insert node (set (head # zs))) h h') \<and>
     (\<forall>xs x ys. zs = xs @ x # ys \<longrightarrow>
        (\<exists>h'. IQUEUE_DEL h x = Some h' \<and> is_queue h' head (xs @ ys) \<and>
           get_next h' x = Some 0 \<and> get_prev h' x = Some 0 \<and> only (set (head # zs)) h h') \<and>
        (\<exists>h'. IQUEUE_DEL_INIT h x = Some h' \<and> is_queue h' head (xs @ ys) \<and> is_queue h' x [] \<and>
           only (set (head # zs)) h h')) \<and>
     (\<exists>h'. iqueue_splice h list head = Some h' \<and> is_queue h' head (ws @ zs) \<and>
        only (set (head # ws @ zs)) h h' \<and> (ws = [] \<longrightarrow> h' = h)) \<and>
     (\<exists>h'. iqueue_splice_init h list head = Some h' \<and> is_queue h' head (ws @ zs) \<and>
        is_queue h' list [] \<and> only (set (list # head # ws @ zs)) h h')"
proof (intro conjI allI impI)
  show "\<exists>h'. IQUEUE_ADD h node (last (head # xs)) = Some h' \<and>
      is_queue h' head (xs @ node # ys) \<and> only (insert node (set (head # zs))) h h'"
    if "zs = xs @ ys" for xs ys
    using IQUEUE_ADD_queue [of h head xs ys _ node] assms that by simp
  show "\<exists>h'. IQUEUE_DEL h x = Some h' \<and> is_queue h' head (xs @ ys) \<and>
      get_next h' x = Some 0 \<and> get_prev h' x = Some 0 \<and> only (set (head # zs)) h h'"
    if "zs = xs @ x # ys" for xs x ys
    using IQUEUE_DEL_queue [of h head xs x ys] assms(1) that by simp
  show "\<exists>h'. IQUEUE_DEL_INIT h x = Some h' \<and> is_queue h' head (xs @ ys) \<and> is_queue h' x [] \<and>
      only (set (head # zs)) h h'"
    if "zs = xs @ x # ys" for xs x ys
    using IQUEUE_DEL_INIT_queue [of h head xs x ys] assms(1) that by simp
  show "\<exists>h'. iqueue_splice h list head = Some h' \<and> is_queue h' head (ws @ zs) \<and>
      only (set (head # ws @ zs)) h h' \<and> (ws = [] \<longrightarrow> h' = h)"
    using iqueue_splice_queue [OF assms(4,1,5)] assms(4)
    by (auto simp: iqueue_splice_def IQUEUE_IS_EMPTY_queue)
qed (rule IQUEUE_INIT_queue [OF assms(2)] iqueue_foreach_queue [OF assms(1)]
      IQUEUE_IS_EMPTY_queue [OF assms(1)] IQUEUE_ADD_TAIL_queue [OF assms(1-3)]
      iqueue_splice_init_queue [OF assms(4,1,5)])+

text \<open>A queue at address 1 with the nodes 2 and 3, and a node 4 that is in no queue.\<close>

definition demo_heap :: heap where
  "demo_heap = [1 \<mapsto> \<lparr>q_next = 2, q_prev = 3\<rparr>, 2 \<mapsto> \<lparr>q_next = 3, q_prev = 1\<rparr>,
     3 \<mapsto> \<lparr>q_next = 1, q_prev = 2\<rparr>, 4 \<mapsto> \<lparr>q_next = 0, q_prev = 0\<rparr>,
     5 \<mapsto> \<lparr>q_next = 5, q_prev = 5\<rparr>]"

lemma demo_heap_queues: "is_queue demo_heap 1 [2, 3]" "is_queue demo_heap 5 []"
  by (simp_all add: is_queue_def get_next_def get_prev_def deref_def demo_heap_def)

lemma demo_heap_alloc: "4 \<in> alloc demo_heap"
  by (simp add: alloc_def dom_def deref_def demo_heap_def)

theorem iqueue_refines_lists_witness:
  "iqueue_foreach_entry demo_heap 1 = Some [2, 3] \<and> IQUEUE_IS_EMPTY demo_heap 1 = Some False \<and>
   (\<exists>h. IQUEUE_ADD demo_heap 4 2 = Some h \<and> is_queue h 1 [2, 4, 3]) \<and>
   IQUEUE_IS_EMPTY demo_heap 5 = Some True \<and>
   (\<exists>h. IQUEUE_ADD_TAIL demo_heap 4 5 = Some h \<and> is_queue h 5 [4]) \<and>
   (\<exists>h. iqueue_splice_init demo_heap 1 5 = Some h \<and> is_queue h 5 [2, 3] \<and> is_queue h 1 [])"
proof (intro conjI)
  note one = iqueue_refines_lists [OF demo_heap_queues(1) demo_heap_alloc _ demo_heap_queues(2)]
    and five = iqueue_refines_lists [OF demo_heap_queues(2) demo_heap_alloc _ demo_heap_queues(1)]
  have new: "4 \<notin> set [1, 2, 3 :: addr]" "set [5] \<inter> set [1, 2, 3 :: addr] = {}" by simp_all
  show "iqueue_foreach_entry demo_heap 1 = Some [2, 3]" "IQUEUE_IS_EMPTY demo_heap 1 = Some False"
    using one by simp_all
  have "\<forall>xs ys. [2, 3] = xs @ ys \<longrightarrow> (\<exists>h. IQUEUE_ADD demo_heap 4 (last (1 # xs)) = Some h \<and>
      is_queue h 1 (xs @ 4 # ys) \<and> only (insert 4 (set [1, 2, 3])) demo_heap h)"
    using one [OF new] by (elim conjE) assumption
  from this [rule_format, of "[2]" "[3]"]
  show "\<exists>h. IQUEUE_ADD demo_heap 4 2 = Some h \<and> is_queue h 1 [2, 4, 3]" by auto
  show "IQUEUE_IS_EMPTY demo_heap 5 = Some True" using five by simp
  show "\<exists>h. IQUEUE_ADD_TAIL demo_heap 4 5 = Some h \<and> is_queue h 5 [4]" using five by auto
  show "\<exists>h. iqueue_splice_init demo_heap 1 5 = Some h \<and> is_queue h 5 [2, 3] \<and> is_queue h 1 []"
    using five by auto
qed

text \<open>
  Moving the first segment of one queue to the end of another, as the receive and send
  paths do, takes exactly that segment off the one queue and puts it last on the other, and a
  third queue is not disturbed.
\<close>

theorem iqueue_move_segment:
  assumes "is_queue h q (x # xs)" and "is_queue h r ys" and "is_queue h k zs"
    and "set (q # x # xs) \<inter> set (r # ys) = {}"
    and "set (k # zs) \<inter> (set (q # x # xs) \<union> set (r # ys)) = {}"
  shows "\<exists>h1 h2. IQUEUE_DEL h x = Some h1 \<and> IQUEUE_ADD_TAIL h1 x r = Some h2 \<and>
     is_queue h2 q xs \<and> is_queue h2 r (ys @ [x]) \<and> is_queue h2 k zs"
  using assms by (rule iq.others)

definition demo_heap2 :: heap where
  "demo_heap2 = demo_heap(6 \<mapsto> \<lparr>q_next = 6, q_prev = 6\<rparr>)"

lemma demo_heap2_queues:
  "is_queue demo_heap2 1 [2, 3]" "is_queue demo_heap2 5 []" "is_queue demo_heap2 6 []"
  by (simp_all add: is_queue_def get_next_def get_prev_def deref_def demo_heap2_def demo_heap_def)

theorem iqueue_move_segment_witness:
  "\<exists>h1 h2. IQUEUE_DEL demo_heap2 2 = Some h1 \<and> IQUEUE_ADD_TAIL h1 2 5 = Some h2 \<and>
     is_queue h2 1 [3] \<and> is_queue h2 5 [2] \<and> is_queue h2 6 []"
  using iqueue_move_segment [of demo_heap2 1 2 "[3]" 5 "[]" 6 "[]"] demo_heap2_queues by simp

end
