(* ===== verification/Ikcp_Hooks.thy ===== *)
theory Ikcp_Hooks
  imports Ikcp_State
begin

section \<open>Allocator hooks and logging (depends/kcp/ikcp.c, lines 135 to 187)\<close>

text \<open>
  Memory goes through two static hooks, and the log callback through a mask. \<open>'p\<close> is the type
  of pointers, \<open>'h\<close> the heap they come from; \<open>malloc\<close> and \<open>free\<close> are arguments. The text of a log
  message is the argument \<open>text\<close>, as \<open>vsprintf\<close> formats it into 1024 bytes without a limit: a
  longer one overruns the buffer, which is \<open>None\<close>.
\<close>

unbundle bit_operations_syntax

record ('p, 'h) kcp_hooks =
  malloc_hook :: "(nat \<Rightarrow> 'h \<Rightarrow> 'p \<times> 'h) option"
  free_hook :: "('p \<Rightarrow> 'h \<Rightarrow> 'h) option"

definition no_hooks :: "('p, 'h) kcp_hooks" where
  "no_hooks = \<lparr>malloc_hook = None, free_hook = None\<rparr>"

definition ikcp_malloc ::
  "('p, 'h) kcp_hooks \<Rightarrow> (nat \<Rightarrow> 'h \<Rightarrow> 'p \<times> 'h) \<Rightarrow> nat \<Rightarrow> 'h \<Rightarrow> 'p \<times> 'h" where
  "ikcp_malloc hooks libc_malloc n h =
     (case malloc_hook hooks of Some f \<Rightarrow> f n h | None \<Rightarrow> libc_malloc n h)"

definition ikcp_free :: "('p, 'h) kcp_hooks \<Rightarrow> ('p \<Rightarrow> 'h \<Rightarrow> 'h) \<Rightarrow> 'p \<Rightarrow> 'h \<Rightarrow> 'h" where
  "ikcp_free hooks libc_free p h =
     (case free_hook hooks of Some f \<Rightarrow> f p h | None \<Rightarrow> libc_free p h)"

definition ikcp_allocator ::
  "(nat \<Rightarrow> 'h \<Rightarrow> 'p \<times> 'h) option \<Rightarrow> ('p \<Rightarrow> 'h \<Rightarrow> 'h) option \<Rightarrow> ('p, 'h) kcp_hooks \<Rightarrow> ('p, 'h) kcp_hooks"
where
  "ikcp_allocator new_malloc new_free hooks = hooks\<lparr>malloc_hook := new_malloc, free_hook := new_free\<rparr>"

definition ikcp_segment_delete ::
  "('p, 'h) kcp_hooks \<Rightarrow> ('p \<Rightarrow> 'h \<Rightarrow> 'h) \<Rightarrow> 'p \<Rightarrow> 'h \<Rightarrow> 'h" where
  "ikcp_segment_delete hooks libc_free seg h = ikcp_free hooks libc_free seg h"

text \<open>A block that one pair of hooks allocated is freed by the same pair.\<close>

lemma ikcp_malloc_free:
  assumes "\<And>n h. mf (fst (am n h)) (snd (am n h)) = h"
  shows "ikcp_free (ikcp_allocator (Some am) (Some mf) hooks) libc_free
      (fst (ikcp_malloc (ikcp_allocator (Some am) (Some mf) hooks) libc_malloc n h))
      (snd (ikcp_malloc (ikcp_allocator (Some am) (Some mf) hooks) libc_malloc n h)) = h"
  by (simp add: ikcp_malloc_def ikcp_free_def ikcp_allocator_def assms)

definition ikcp_canlog :: "IKCPCB \<Rightarrow> int \<Rightarrow> bool" where
  "ikcp_canlog kcp msk \<longleftrightarrow> \<not> (msk AND logmask kcp = 0 \<or> \<not> writelog_set kcp)"

text \<open>The messages handed to the \<open>writelog\<close> callback.\<close>

definition ikcp_log :: "IKCPCB \<Rightarrow> int \<Rightarrow> byte list \<Rightarrow> byte list list option" where
  "ikcp_log kcp msk text =
     (if msk AND logmask kcp = 0 \<or> \<not> writelog_set kcp then Some []
      else if length text < 1024 then Some [text] else None)"

lemma ikcp_log_when:
  "length text < 1024 \<Longrightarrow> ikcp_log kcp msk text = Some (if ikcp_canlog kcp msk then [text] else [])"
  by (simp add: ikcp_log_def ikcp_canlog_def)

lemma ikcp_create_silent: "ikcp_create al cv = Some kcp \<Longrightarrow> \<not> ikcp_canlog kcp msk"
  by (auto simp: ikcp_create_def ikcp_canlog_def Let_def split: if_splits)

end
