(* ===== verification/Reactor.thy ===== *)
theory Reactor
  imports Kcp_Prelude "HOL-Library.Monad_Syntax"
begin

section \<open>The reactor (source/Reactor.h, source/Reactor.cpp)\<close>

text \<open>
  The reactor keeps two tables of watchers, timers by event id and descriptors by number. A
  watcher lives in the memory of its table until it is deleted; the tables hold pointers, and
  \<open>RemoveTimer\<close> and \<open>RemoveIO\<close> delete the watcher but keep the entry, so a pointer can dangle.
  Touching a deleted watcher is \<open>None\<close>. A null entry and a missing one cannot be told apart
  by the code (\<open>operator[]\<close> makes one from the other) and are both a missing entry here.
  \<open>'cb\<close> is the type of the callbacks. libev is not part of the program: \<open>active\<close> records
  which watchers it has been given, and \<open>timer_fired\<close> is its documented part in the
  expiry of a timer, which stops a timer that does not repeat before calling it. Periods
  are in microseconds: \<open>elapse\<close> is given in milliseconds, \<open>after\<close> in microseconds.

  The locale \<open>watcher_table\<close> is what the rest of the program relies on; both tables are
  interpretations of it.
\<close>

type_synonym ptr = nat

record 'cb ev_timer =
  ti_handler :: 'cb
  ti_evId :: int
  ti_after :: int
  ti_repeat :: int
  ti_active :: bool

record 'cb ev_io =
  io_handler :: 'cb
  io_fd :: int
  io_active :: bool

record 'cb reactor =
  timers :: "int \<rightharpoonup> ptr"
  ios :: "int \<rightharpoonup> ptr"
  timer_mem :: "ptr \<rightharpoonup> 'cb ev_timer"
  io_mem :: "ptr \<rightharpoonup> 'cb ev_io"
  fresh_ptr :: ptr
  break_code :: "int option"

definition Reactor_new :: "'cb reactor" where
  "Reactor_new = \<lparr>timers = Map.empty, ios = Map.empty, timer_mem = Map.empty, io_mem = Map.empty,
     fresh_ptr = 1, break_code = None\<rparr>"

definition Reactor_Stop :: "'cb reactor \<Rightarrow> int \<Rightarrow> 'cb reactor" where
  "Reactor_Stop r code = r\<lparr>break_code := Some code\<rparr>"

definition RegisterTimer :: "'cb reactor \<Rightarrow> 'cb \<Rightarrow> int \<Rightarrow> int \<Rightarrow> int \<Rightarrow> 'cb reactor" where
  "RegisterTimer r handler evId elapse after =
     (let timer = fresh_ptr r
      in r\<lparr>timer_mem := (timer_mem r)(timer \<mapsto> \<lparr>ti_handler = handler, ti_evId = evId,
             ti_after = after, ti_repeat = 1000 * elapse, ti_active = True\<rparr>),
           timers := (timers r)(evId \<mapsto> timer), fresh_ptr := timer + 1\<rparr>)"

definition RemoveTimer :: "'cb reactor \<Rightarrow> int \<Rightarrow> 'cb reactor option" where
  "RemoveTimer r evId =
     (case timers r evId of
        None \<Rightarrow> Some r
      | Some timer \<Rightarrow>
          (case timer_mem r timer of
             None \<Rightarrow> None
           | Some _ \<Rightarrow> Some (r\<lparr>timer_mem := (timer_mem r)(timer := None)\<rparr>)))"

definition RegisterIO :: "'cb reactor \<Rightarrow> 'cb \<Rightarrow> int \<Rightarrow> 'cb reactor" where
  "RegisterIO r handler fd =
     (let io = fresh_ptr r
      in r\<lparr>io_mem := (io_mem r)(io \<mapsto> \<lparr>io_handler = handler, io_fd = fd, io_active = True\<rparr>),
           ios := (ios r)(fd \<mapsto> io), fresh_ptr := io + 1\<rparr>)"

definition RemoveIO :: "'cb reactor \<Rightarrow> int \<Rightarrow> 'cb reactor option" where
  "RemoveIO r fd =
     (case ios r fd of
        None \<Rightarrow> Some r
      | Some io \<Rightarrow>
          (case io_mem r io of
             None \<Rightarrow> None
           | Some _ \<Rightarrow> Some (r\<lparr>io_mem := (io_mem r)(io := None)\<rparr>)))"

text \<open>What runs when libev reports a watcher: the handler and its argument.\<close>

definition timer_callback :: "'cb reactor \<Rightarrow> ptr \<Rightarrow> ('cb \<times> int) option" where
  "timer_callback r w = map_option (\<lambda>t. (ti_handler t, ti_evId t)) (timer_mem r w)"

definition io_callback :: "'cb reactor \<Rightarrow> ptr \<Rightarrow> ('cb \<times> int) option" where
  "io_callback r w = map_option (\<lambda>t. (io_handler t, io_fd t)) (io_mem r w)"

definition timer_fired :: "'cb reactor \<Rightarrow> ptr \<Rightarrow> 'cb reactor" where
  "timer_fired r w =
     (case timer_mem r w of
        None \<Rightarrow> r
      | Some t \<Rightarrow>
          if ti_repeat t = 0 then r\<lparr>timer_mem := (timer_mem r)(w \<mapsto> t\<lparr>ti_active := False\<rparr>)\<rparr> else r)"

subsection \<open>Well-formed tables\<close>

text \<open>
  Every pointer in use is below the next fresh one, no two entries hold the same pointer,
  and the watcher an entry points to, while it lives, was registered under this key.
\<close>

definition reactor_ok :: "'cb reactor \<Rightarrow> bool" where
  "reactor_ok r \<longleftrightarrow>
     (\<forall>p \<in> dom (timer_mem r) \<union> dom (io_mem r) \<union> ran (timers r) \<union> ran (ios r). p < fresh_ptr r) \<and>
     (\<forall>k k' p. timers r k = Some p \<longrightarrow> timers r k' = Some p \<longrightarrow> k' = k) \<and>
     (\<forall>k k' p. ios r k = Some p \<longrightarrow> ios r k' = Some p \<longrightarrow> k' = k) \<and>
     (\<forall>k p t. timers r k = Some p \<longrightarrow> timer_mem r p = Some t \<longrightarrow> ti_evId t = k) \<and>
     (\<forall>k p t. ios r k = Some p \<longrightarrow> io_mem r p = Some t \<longrightarrow> io_fd t = k)"

definition timer_at :: "'cb reactor \<Rightarrow> int \<Rightarrow> 'cb option" where
  "timer_at r k =
     (case timers r k of None \<Rightarrow> None | Some p \<Rightarrow> map_option ti_handler (timer_mem r p))"

definition io_at :: "'cb reactor \<Rightarrow> int \<Rightarrow> 'cb option" where
  "io_at r k =
     (case ios r k of None \<Rightarrow> None | Some p \<Rightarrow> map_option io_handler (io_mem r p))"

named_theorems reactor_ok "reactor operations keep the tables well formed"

lemma Reactor_new_ok [reactor_ok]: "reactor_ok Reactor_new"
  by (simp add: reactor_ok_def Reactor_new_def)

lemma fresh_unused:
  assumes "reactor_ok r"
  shows "timers r k \<noteq> Some (fresh_ptr r)" "ios r k \<noteq> Some (fresh_ptr r)"
    "timer_mem r (fresh_ptr r) = None" "io_mem r (fresh_ptr r) = None"
  using assms unfolding reactor_ok_def by (auto simp: dom_def ran_def)

lemma RegisterTimer_ok [reactor_ok]: "reactor_ok r \<Longrightarrow> reactor_ok (RegisterTimer r cb k e a)"
  using fresh_unused [of r] unfolding reactor_ok_def RegisterTimer_def Let_def
  by (auto simp: ran_def dom_def less_Suc_eq split: if_splits)

lemma RegisterIO_ok [reactor_ok]: "reactor_ok r \<Longrightarrow> reactor_ok (RegisterIO r cb k)"
  using fresh_unused [of r] unfolding reactor_ok_def RegisterIO_def Let_def
  by (auto simp: ran_def dom_def less_Suc_eq split: if_splits)

lemma RemoveTimer_ok: "reactor_ok r \<Longrightarrow> RemoveTimer r k = Some r' \<Longrightarrow> reactor_ok r'"
  by (auto simp: RemoveTimer_def reactor_ok_def split: option.splits if_splits)

lemma RemoveIO_ok: "reactor_ok r \<Longrightarrow> RemoveIO r k = Some r' \<Longrightarrow> reactor_ok r'"
  by (auto simp: RemoveIO_def reactor_ok_def split: option.splits if_splits)

lemma timer_fired_ok [reactor_ok]: "reactor_ok r \<Longrightarrow> reactor_ok (timer_fired r w)"
  by (auto simp: timer_fired_def reactor_ok_def split: option.splits if_splits)

lemma table_frame [simp]:
  "io_at (RegisterTimer r cb k e a) j = io_at r j"
  "timer_at (RegisterIO r cb k) j = timer_at r j"
  "ios (RegisterTimer r cb k e a) = ios r"
  "timers (RegisterIO r cb k) = timers r"
  by (simp_all add: io_at_def timer_at_def RegisterTimer_def RegisterIO_def Let_def split: option.split)

lemma RemoveTimer_frame: "RemoveTimer r k = Some r' \<Longrightarrow> io_at r' j = io_at r j \<and> ios r' = ios r"
  by (auto simp: RemoveTimer_def io_at_def split: option.splits)

lemma RemoveIO_frame: "RemoveIO r k = Some r' \<Longrightarrow> timer_at r' j = timer_at r j \<and> timers r' = timers r"
  by (auto simp: RemoveIO_def timer_at_def split: option.splits)

lemma timer_fired_frame [simp]: "io_at (timer_fired r w) j = io_at r j" "timer_at (timer_fired r w) j = timer_at r j"
  by (auto simp: timer_fired_def io_at_def timer_at_def split: option.splits)

subsection \<open>The contract of a watcher table\<close>

locale watcher_table =
  fixes ok :: "'s \<Rightarrow> bool"
    and register :: "'s \<Rightarrow> 'cb \<Rightarrow> int \<Rightarrow> 's"
    and remove :: "'s \<Rightarrow> int \<Rightarrow> 's option"
    and at :: "'s \<Rightarrow> int \<Rightarrow> 'cb option"
    and known :: "'s \<Rightarrow> int \<Rightarrow> bool"
  assumes register_ok: "ok s \<Longrightarrow> ok (register s cb k)"
    and register_at: "ok s \<Longrightarrow> at (register s cb k) j = (if j = k then Some cb else at s j)"
    and register_known: "ok s \<Longrightarrow> known (register s cb k) j \<longleftrightarrow> j = k \<or> known s j"
    and remove_live: "ok s \<Longrightarrow> at s k = Some cb \<Longrightarrow> \<exists>s'. remove s k = Some s'"
    and remove_at: "ok s \<Longrightarrow> remove s k = Some s' \<Longrightarrow>
        ok s' \<and> at s' j = (if j = k then None else at s j) \<and> (known s' j \<longleftrightarrow> known s j)"
    and remove_dead: "ok s \<Longrightarrow> at s k = None \<Longrightarrow> known s k \<Longrightarrow> remove s k = None"
begin

lemma register_remove:
  assumes "ok s"
  shows "\<exists>s'. remove (register s cb k) k = Some s' \<and> ok s' \<and> at s' k = None \<and>
     (\<forall>j. j \<noteq> k \<longrightarrow> at s' j = at s j)"
proof -
  have "at (register s cb k) k = Some cb"
    by (simp add: register_at [OF assms])
  then obtain s' where s': "remove (register s cb k) k = Some s'"
    using remove_live [OF register_ok [OF assms]] by blast
  with remove_at [OF register_ok [OF assms] s'] register_at [OF assms] show ?thesis
    by auto
qed

lemma remove_twice:
  assumes "ok s" and "known s k" and "remove s k = Some s'"
  shows "remove s' k = None"
  using remove_at [OF assms(1,3), of k] assms(2) remove_dead by simp

lemma remove_reregistered:
  assumes "ok s" and "remove s k = Some s'"
  shows "\<exists>s''. remove (register s' cb k) k = Some s'' \<and> at s'' k = None"
  using register_remove [of s' cb k] remove_at [OF assms] by blast

end

interpretation timer_table: watcher_table reactor_ok "\<lambda>r cb k. RegisterTimer r cb k e a" RemoveTimer timer_at
  "\<lambda>r k. timers r k \<noteq> None" for e a
proof unfold_locales
  fix r :: "'cb reactor" and cb k
  assume "reactor_ok r"
  then show "reactor_ok (RegisterTimer r cb k e a)" by (rule RegisterTimer_ok)
next
  fix r :: "'cb reactor" and cb k j
  assume ok: "reactor_ok r"
  show "timer_at (RegisterTimer r cb k e a) j = (if j = k then Some cb else timer_at r j)"
    using fresh_unused(1) [OF ok, of j]
    by (auto simp: timer_at_def RegisterTimer_def Let_def split: option.split)
next
  fix r r' :: "'cb reactor" and k j
  assume ok: "reactor_ok r" and rem: "RemoveTimer r k = Some r'"
  have "timer_at r' j = (if j = k then None else timer_at r j)"
    using ok rem unfolding reactor_ok_def
    by (auto simp: timer_at_def RemoveTimer_def split: option.splits)
  with ok rem show "reactor_ok r' \<and> timer_at r' j = (if j = k then None else timer_at r j) \<and>
      (timers r' j \<noteq> None \<longleftrightarrow> timers r j \<noteq> None)"
    using RemoveTimer_ok [OF ok rem] by (auto simp: RemoveTimer_def split: option.splits)
qed (auto simp: timer_at_def RegisterTimer_def RemoveTimer_def Let_def split: option.splits)

interpretation io_table: watcher_table reactor_ok RegisterIO RemoveIO io_at "\<lambda>r k. ios r k \<noteq> None"
proof unfold_locales
  fix r :: "'cb reactor" and cb k
  assume "reactor_ok r"
  then show "reactor_ok (RegisterIO r cb k)" by (rule RegisterIO_ok)
next
  fix r :: "'cb reactor" and cb k j
  assume ok: "reactor_ok r"
  show "io_at (RegisterIO r cb k) j = (if j = k then Some cb else io_at r j)"
    using fresh_unused(2) [OF ok, of j]
    by (auto simp: io_at_def RegisterIO_def Let_def split: option.split)
next
  fix r r' :: "'cb reactor" and k j
  assume ok: "reactor_ok r" and rem: "RemoveIO r k = Some r'"
  have "io_at r' j = (if j = k then None else io_at r j)"
    using ok rem unfolding reactor_ok_def
    by (auto simp: io_at_def RemoveIO_def split: option.splits)
  with ok rem show "reactor_ok r' \<and> io_at r' j = (if j = k then None else io_at r j) \<and>
      (ios r' j \<noteq> None \<longleftrightarrow> ios r j \<noteq> None)"
    using RemoveIO_ok [OF ok rem] by (auto simp: RemoveIO_def split: option.splits)
qed (auto simp: io_at_def RegisterIO_def RemoveIO_def Let_def split: option.splits)

subsection \<open>Properties\<close>

text \<open>
  A registered timer can be removed again, which takes away exactly this timer: every
  other timer id and every descriptor keeps its callback.
\<close>

theorem reactor_timer_removed:
  assumes "reactor_ok r"
  shows "\<exists>r'. RemoveTimer (RegisterTimer r cb k e a) k = Some r' \<and> reactor_ok r' \<and>
    timer_at (RegisterTimer r cb k e a) k = Some cb \<and> timer_at r' k = None \<and>
    (\<forall>j. j \<noteq> k \<longrightarrow> timer_at r' j = timer_at r j) \<and> (\<forall>fd. io_at r' fd = io_at r fd)"
proof -
  obtain r' where r': "RemoveTimer (RegisterTimer r cb k e a) k = Some r'" "reactor_ok r'"
      "timer_at r' k = None" "\<forall>j. j \<noteq> k \<longrightarrow> timer_at r' j = timer_at r j"
    using timer_table.register_remove [OF assms] by blast
  moreover have "timer_at (RegisterTimer r cb k e a) k = Some cb"
    by (simp add: timer_table.register_at [OF assms])
  moreover have "io_at r' fd = io_at r fd" for fd
    using RemoveTimer_frame [OF r'(1)] by simp
  ultimately show ?thesis by blast
qed

theorem reactor_timer_removed_witness:
  "\<exists>r'. RemoveTimer (RegisterTimer Reactor_new True 19890 1 0) 19890 = Some r' \<and>
     timer_at r' 19890 = None"
  using reactor_timer_removed [OF Reactor_new_ok, of True 19890 1 0] by blast

text \<open>
  Removing keeps the entry, so the same timer id or descriptor removed twice in a row
  touches the deleted watcher; registering it again in between makes it safe.
\<close>

theorem reactor_remove_twice:
  assumes "reactor_ok r" and "timer_at r k = Some cb" and "io_at r fd = Some cb'"
  shows "(\<exists>r'. RemoveTimer r k = Some r' \<and> RemoveTimer r' k = None \<and>
       (\<exists>r''. RemoveTimer (RegisterTimer r' cb k e a) k = Some r'')) \<and>
    (\<exists>r'. RemoveIO r fd = Some r' \<and> RemoveIO r' fd = None \<and>
       (\<exists>r''. RemoveIO (RegisterIO r' cb' fd) fd = Some r''))"
proof -
  have "timers r k \<noteq> None" "ios r fd \<noteq> None"
    using assms(2,3) by (auto simp: timer_at_def io_at_def split: option.splits)
  moreover obtain r1 where "RemoveTimer r k = Some r1"
    using timer_table.remove_live [OF assms(1,2)] by blast
  moreover obtain r2 where "RemoveIO r fd = Some r2"
    using io_table.remove_live [OF assms(1,3)] by blast
  ultimately show ?thesis
    using timer_table.remove_twice [OF assms(1)] timer_table.remove_reregistered [OF assms(1)]
      io_table.remove_twice [OF assms(1)] io_table.remove_reregistered [OF assms(1)] by blast
qed

theorem reactor_remove_twice_witness:
  "let r = RegisterIO (RegisterTimer Reactor_new True 1007 0 0) True 7
   in (\<exists>r'. RemoveTimer r 1007 = Some r' \<and> RemoveTimer r' 1007 = None) \<and>
      (\<exists>r'. RemoveIO r 7 = Some r' \<and> RemoveIO r' 7 = None)"
proof -
  define r :: "bool reactor" where "r = RegisterIO (RegisterTimer Reactor_new True 1007 0 0) True 7"
  have ok: "reactor_ok (RegisterTimer Reactor_new True 1007 0 0)"
    by (intro reactor_ok)
  have "reactor_ok r" "timer_at r 1007 = Some True" "io_at r 7 = Some True"
    unfolding r_def using ok
    by (simp_all add: reactor_ok timer_table.register_at [OF Reactor_new_ok] io_table.register_at [OF ok])
  with reactor_remove_twice [of r 1007 True 7 True] show ?thesis
    by (auto simp: Let_def simp flip: r_def)
qed

end
