(* ===== verification/Endpoint.thy ===== *)
theory Endpoint
  imports Kcp_Prelude "HOL-Library.Monad_Syntax"
begin

section \<open>Endpoints and sockets (source/socket.h)\<close>

text \<open>
  An endpoint is a host name, a port and the \<open>sockaddr_in\<close> made from them. \<open>inet_addr\<close>,
  \<open>inet_ntoa\<close> and \<open>gethostbyname\<close> belong to the system's resolver and are the fields of the
  parameter \<open>netlib\<close>. Strings are the lists of their bytes without the terminating 0, and
  16-bit fields in network order hold \<open>htons\<close> of their value. The locale \<open>hash_key\<close> is what
  \<open>std::unordered_map\<close> asks of a key type; the endpoints that datagrams arrive from meet it.
\<close>

unbundle bit_operations_syntax

record netlib =
  inet_addr :: "byte list \<Rightarrow> u32"
  inet_ntoa :: "u32 \<Rightarrow> byte list"
  gethostbyname :: "byte list \<Rightarrow> u32 list option"

record sockaddr_in =
  sin_family :: u16
  sin_port :: u16
  sin_addr :: u32
  sin_zero :: "byte list"

record endpoint =
  ep_port :: int
  ep_host :: "byte list"
  ep_path :: "byte list"
  ep_sockaddr :: sockaddr_in

definition AF_INET :: u16 where "AF_INET = 2"

definition htons :: "u16 \<Rightarrow> u16" where
  "htons w = push_bit 8 w OR drop_bit 8 w"

definition zero_sockaddr :: sockaddr_in where
  "zero_sockaddr = \<lparr>sin_family = 0, sin_port = 0, sin_addr = 0, sin_zero = replicate 8 0\<rparr>"

definition inet_sockaddr :: "u16 \<Rightarrow> u32 \<Rightarrow> sockaddr_in" where
  "inet_sockaddr port addr = zero_sockaddr\<lparr>sin_family := AF_INET, sin_port := htons port, sin_addr := addr\<rparr>"

definition endpoint_default :: endpoint where
  "endpoint_default = \<lparr>ep_port = 0, ep_host = [], ep_path = [], ep_sockaddr = zero_sockaddr\<rparr>"

definition endpoint_sockaddr :: "netlib \<Rightarrow> sockaddr_in \<Rightarrow> endpoint" where
  "endpoint_sockaddr lib a =
     \<lparr>ep_port = uint (sin_port a), ep_host = inet_ntoa lib (sin_addr a), ep_path = [], ep_sockaddr = a\<rparr>"

definition endpoint_ip :: "netlib \<Rightarrow> byte list \<Rightarrow> int \<Rightarrow> endpoint" where
  "endpoint_ip lib ip port =
     \<lparr>ep_port = port, ep_host = ip, ep_path = [],
      ep_sockaddr = inet_sockaddr (word_of_int port) (inet_addr lib ip)\<rparr>"

definition endpoint_eq :: "endpoint \<Rightarrow> endpoint \<Rightarrow> bool" where
  "endpoint_eq a b \<longleftrightarrow> ep_sockaddr a = ep_sockaddr b"

definition endpoint_set_port :: "endpoint \<Rightarrow> int \<Rightarrow> int \<times> endpoint" where
  "endpoint_set_port ep port =
     (port, ep\<lparr>ep_sockaddr := (ep_sockaddr ep)\<lparr>sin_port := htons (word_of_int port)\<rparr>, ep_port := port\<rparr>)"

definition endpoint_null :: "netlib \<Rightarrow> endpoint" where
  "endpoint_null lib = endpoint_ip lib [] (- 1)"

definition endpoint_is_null :: "endpoint \<Rightarrow> bool" where
  "endpoint_is_null ep \<longleftrightarrow> ep_port ep = - 1 \<and> ep_host ep = []"

definition endpoint_hash :: "endpoint \<Rightarrow> u64" where
  "endpoint_hash ep =
     push_bit 32 (ucast (sin_addr (ep_sockaddr ep))) OR ucast (word_of_int (ep_port ep) :: u32)"

subsection \<open>Parsing \<open>protocol://ip:port\<close> (lines 31 to 44)\<close>

text \<open>
  The conversions of \<open>sscanf (path, "%31[^:]://%[^:]:%u", type, host, &port)\<close>: a scan set
  takes at least one byte, a literal must match, and the first failure leaves the remaining
  variables as they are. \<open>scan_uint\<close> is \<open>%u\<close>: blanks, a sign, digits, the value of
  \<open>strtoul\<close> cut to 32 bits. A host of 256 bytes or more does not fit its array: \<open>None\<close>.
\<close>

definition byte_of :: "char \<Rightarrow> byte" where
  "byte_of c = word_of_nat (of_char c)"

definition bytes :: "string \<Rightarrow> byte list" where
  "bytes s = map byte_of s"

definition scan_set :: "nat option \<Rightarrow> byte list \<Rightarrow> (byte list \<times> byte list) option" where
  "scan_set width s =
     (let run = takeWhile (\<lambda>c. c \<noteq> 58) s;
          got = (case width of None \<Rightarrow> run | Some n \<Rightarrow> take n run)
      in if got = [] then None else Some (got, drop (length got) s))"

fun scan_literal :: "byte list \<Rightarrow> byte list \<Rightarrow> byte list option" where
  "scan_literal [] s = Some s"
| "scan_literal (c # cs) s = (case s of [] \<Rightarrow> None | d # s \<Rightarrow> if d = c then scan_literal cs s else None)"

definition is_digit :: "byte \<Rightarrow> bool" where
  "is_digit c \<longleftrightarrow> 48 \<le> c \<and> c \<le> 57"

definition is_space :: "byte \<Rightarrow> bool" where
  "is_space c \<longleftrightarrow> c = 32 \<or> (9 \<le> c \<and> c \<le> 13)"

definition digits_value :: "byte list \<Rightarrow> nat" where
  "digits_value ds = foldl (\<lambda>n d. 10 * n + (unat d - 48)) 0 ds"

definition scan_uint :: "byte list \<Rightarrow> u32 option" where
  "scan_uint s =
     (let s = dropWhile is_space s;
          neg = (s \<noteq> [] \<and> hd s = 45);
          s = (if s \<noteq> [] \<and> (hd s = 45 \<or> hd s = 43) then tl s else s);
          ds = takeWhile is_digit s;
          n = min (digits_value ds) (2 ^ 64 - 1)
      in if ds = [] then None
         else Some (if neg \<and> digits_value ds < 2 ^ 64 then - of_nat n else of_nat n))"

definition scan_path :: "byte list \<Rightarrow> (byte list \<times> u32) option" where
  "scan_path path =
     (case scan_set (Some 31) path of
        None \<Rightarrow> Some ([], 0)
      | Some (_, s) \<Rightarrow>
          case scan_literal [58, 47, 47] s of
            None \<Rightarrow> Some ([], 0)
          | Some s \<Rightarrow>
              case scan_set None s of
                None \<Rightarrow> Some ([], 0)
              | Some (host, s) \<Rightarrow>
                  if length host \<ge> 256 then None
                  else case scan_literal [58] s of
                         None \<Rightarrow> Some (host, 0)
                       | Some s \<Rightarrow> (case scan_uint s of
                                     None \<Rightarrow> Some (host, 0)
                                   | Some port \<Rightarrow> Some (host, port)))"

definition endpoint_path :: "netlib \<Rightarrow> byte list \<Rightarrow> endpoint option" where
  "endpoint_path lib path =
     (case scan_path path of
        None \<Rightarrow> None
      | Some (host, port) \<Rightarrow>
          Some \<lparr>ep_port = sint port, ep_host = host, ep_path = path,
            ep_sockaddr = inet_sockaddr (ucast port) (inet_addr lib host)\<rparr>)"

subsection \<open>Sockets (lines 101 to 163)\<close>

text \<open>
  The answers of the system are the fields of \<open>sock_os\<close>; the calls that are made on the way
  are the trace. \<open>Exit\<close> ends the process with a code.
\<close>

datatype sock_call =
  Sys_socket_udp | Sys_socket_tcp | Sys_sndbuf int | Sys_rcvbuf int | Sys_tos int |
  Sys_nodelay | Sys_keepalive | Sys_nonblock | Sys_bind sockaddr_in | Sys_connect sockaddr_in

datatype 'a result = Exit int | Got 'a

record sock_os =
  os_socket :: int
  os_bind :: int
  os_connect :: int
  os_in_progress :: bool

definition SIZE_16M :: int where "SIZE_16M = 16 * 1024 * 1024"

definition create_udp :: "netlib \<Rightarrow> sock_os \<Rightarrow> endpoint \<Rightarrow> int result \<times> sock_call list" where
  "create_udp lib os ep =
     (let fd = os_socket os
      in if fd < 0 then (Exit 0, [Sys_socket_udp])
      else
        let calls = [Sys_socket_udp, Sys_sndbuf SIZE_16M, Sys_rcvbuf SIZE_16M, Sys_tos 192]
        in if ep_port ep \<noteq> 0
           then
             let a = inet_sockaddr (word_of_int (ep_port ep)) (inet_addr lib (ep_host ep))
             in if os_bind os < 0 then (Exit 1, calls @ [Sys_bind a])
                else (Got fd, calls @ [Sys_bind a])
           else (Got fd, calls))"

definition create_tcp :: "sock_os \<Rightarrow> endpoint \<Rightarrow> int result \<times> sock_call list" where
  "create_tcp os ep =
     (let fd = os_socket os
      in if fd = - 1 then (Exit 0, [Sys_socket_tcp])
      else
        (Got fd, [Sys_socket_tcp, Sys_sndbuf SIZE_16M, Sys_rcvbuf SIZE_16M, Sys_nodelay,
                  Sys_keepalive, Sys_nonblock, Sys_connect (ep_sockaddr ep)]))"

subsection \<open>Keys of a hash map\<close>

text \<open>
  \<open>std::unordered_map\<close> looks only in the bucket of the hash. The contract of a key type makes
  this the same as looking at every entry.
\<close>

locale hash_key =
  fixes key :: "'k \<Rightarrow> bool" and eq :: "'k \<Rightarrow> 'k \<Rightarrow> bool" and hash :: "'k \<Rightarrow> u64"
  assumes eq_hash: "key a \<Longrightarrow> key b \<Longrightarrow> eq a b \<Longrightarrow> hash a = hash b"
begin

lemma bucket_find:
  assumes "list_all (\<lambda>(k, v). key k) kvs" and "key k"
  shows "List.find (\<lambda>(k', v). hash k' mod n = hash k mod n \<and> eq k k') kvs =
    List.find (\<lambda>(k', v). eq k k') kvs"
  using assms by (induction kvs) (auto dest: eq_hash)

end

definition net_endpoint :: "netlib \<Rightarrow> endpoint \<Rightarrow> bool" where
  "net_endpoint lib ep \<longleftrightarrow> ep = endpoint_sockaddr lib (ep_sockaddr ep)"

interpretation ep_key: hash_key "net_endpoint lib" endpoint_eq endpoint_hash
  by unfold_locales (metis endpoint_eq_def net_endpoint_def)

subsection \<open>Properties\<close>

lemma htons_htons [simp]: "htons (htons w) = w"
  by (rule bit_word_eqI) (auto simp: htons_def bit_simps dest: bit_imp_le_length)

lemma endpoint_null_is_null [simp]: "endpoint_is_null (endpoint_null lib)"
  by (simp add: endpoint_is_null_def endpoint_null_def endpoint_ip_def)

text \<open>
  A map keyed by the endpoints that datagrams come from finds an entry in its bucket
  exactly if some entry has an equal endpoint: equal endpoints of this kind have equal hashes.
\<close>

theorem endpoint_map_find:
  assumes "list_all (\<lambda>(k, v). net_endpoint lib k) kvs" and "net_endpoint lib ep"
  shows "List.find (\<lambda>(k, v). endpoint_hash k mod n = endpoint_hash ep mod n \<and> endpoint_eq ep k) kvs =
    List.find (\<lambda>(k, v). endpoint_eq ep k) kvs"
  using assms by (rule ep_key.bucket_find)

definition demo_lib :: netlib where
  "demo_lib = \<lparr>inet_addr = (\<lambda>s. if s = bytes ''1.2.3.4'' then 0x04030201 else 0xffffffff),
     inet_ntoa = (\<lambda>a. if a = 0x04030201 then bytes ''1.2.3.4'' else bytes ''0.0.0.0''),
     gethostbyname = (\<lambda>s. if s = bytes ''ab.c'' then Some [0x04030201] else None)\<rparr>"

theorem endpoint_map_find_witness:
  "let ep = endpoint_sockaddr demo_lib (inet_sockaddr 80 1)
   in List.find (\<lambda>(k, v). endpoint_hash k mod 16 = endpoint_hash ep mod 16 \<and> endpoint_eq ep k)
        [(endpoint_sockaddr demo_lib (inet_sockaddr 81 1), True), (ep, False)] = Some (ep, False)"
proof -
  define f where "f p = endpoint_sockaddr demo_lib (inet_sockaddr p 1)" for p
  have f: "net_endpoint demo_lib (f p)" for p
    by (simp add: f_def net_endpoint_def endpoint_sockaddr_def)
  have "htons 80 \<noteq> htons 81"
    by (simp add: htons_def)
  then have ne: "\<not> endpoint_eq (f 80) (f 81)"
    by (simp add: f_def endpoint_eq_def endpoint_sockaddr_def inet_sockaddr_def zero_sockaddr_def)
  have "endpoint_eq (f 80) (f 80)" by (simp add: endpoint_eq_def)
  with endpoint_map_find [of demo_lib "[(f 81, True), (f 80, False)]" "f 80" 16] f ne show ?thesis
    by (simp add: f_def Let_def)
qed

subsection \<open>Printed paths are read back\<close>

text \<open>The decimal digits of a number, as a configuration file writes a port.\<close>

function decimal :: "nat \<Rightarrow> byte list" where
  "decimal n = (if n < 10 then [48 + of_nat n] else decimal (n div 10) @ [48 + of_nat (n mod 10)])"
  by pat_completeness auto
termination
  by (relation "measure id") auto

declare decimal.simps [simp del]

lemma digit_byte:
  assumes "n < 10"
  shows "unat (48 + of_nat n :: byte) = 48 + n" "is_digit (48 + of_nat n)"
proof -
  have "unat (of_nat n :: byte) = n"
    using assms by (simp add: unat_of_nat take_bit_nat_eq_self)
  with assms show eq: "unat (48 + of_nat n :: byte) = 48 + n"
    by (simp add: unat_plus_if_size word_size)
  with assms show "is_digit (48 + of_nat n)"
    by (simp add: is_digit_def word_le_nat_alt)
qed

lemma decimal_digits: "list_all is_digit (decimal n)"
  by (induction n rule: decimal.induct) (subst decimal.simps, simp add: digit_byte)

lemma decimal_value: "digits_value (decimal n) = n"
proof (induction n rule: decimal.induct)
  case (1 n)
  show ?case
  proof (cases "n < 10")
    case True
    then show ?thesis
      by (subst decimal.simps) (simp add: digits_value_def digit_byte)
  next
    case False
    with 1 have "foldl (\<lambda>n d. 10 * n + (unat d - 48)) 0 (decimal (n div 10)) = n div 10"
      by (simp add: digits_value_def)
    with False show ?thesis
      by (subst decimal.simps) (simp add: digits_value_def digit_byte)
  qed
qed

lemma decimal_nonempty: "decimal n \<noteq> []"
  by (subst decimal.simps) simp

lemma digit_not_special: "is_digit c \<Longrightarrow> \<not> is_space c \<and> c \<noteq> 45 \<and> c \<noteq> 43"
  by (auto simp: is_digit_def is_space_def word_le_nat_alt)

lemma scan_uint_decimal:
  assumes "n < 2 ^ 32"
  shows "scan_uint (decimal n) = Some (of_nat n)"
proof -
  obtain c cs where c: "decimal n = c # cs"
    using decimal_nonempty [of n] by (cases "decimal n") auto
  then have "is_digit c" "takeWhile is_digit cs = cs"
    using decimal_digits [of n] by (auto simp: list_all_iff)
  moreover have "digits_value (c # cs) = n"
    using decimal_value [of n] c by simp
  ultimately show ?thesis
    using assms digit_not_special [of c] unfolding c scan_uint_def
    by (simp add: Let_def takeWhile_eq_all_conv [THEN iffD2])
qed

lemma scan_set_run:
  assumes "s \<noteq> []" and "58 \<notin> set s" and "case w of None \<Rightarrow> True | Some n \<Rightarrow> length s \<le> n"
  shows "scan_set w (s @ 58 # rest) = Some (s, 58 # rest)"
proof -
  have "takeWhile (\<lambda>c. c \<noteq> 58) (s @ 58 # rest) = s"
    using assms(2) by (simp add: takeWhile_append)
  moreover have "length s \<le> n \<Longrightarrow> 0 < n" for n
    using assms(1) by (cases s) auto
  ultimately show ?thesis
    using assms(3) by (cases w) (auto simp: scan_set_def Let_def)
qed

text \<open>
  Reading a path of the form \<open>protocol://host:port\<close> gives back the host and the port it was
  written with, and the socket address has the port in network order and the address of the
  host.
\<close>

theorem endpoint_path_reads:
  assumes "proto \<noteq> []" and "length proto \<le> 31" and "58 \<notin> set proto"
    and "host \<noteq> []" and "length host < 256" and "58 \<notin> set host" and "port < 2 ^ 16"
  shows "endpoint_path lib (proto @ bytes ''://'' @ host @ bytes '':'' @ decimal port) =
    Some \<lparr>ep_port = int port, ep_host = host,
      ep_path = proto @ bytes ''://'' @ host @ bytes '':'' @ decimal port,
      ep_sockaddr = inet_sockaddr (of_nat port) (inet_addr lib host)\<rparr>"
proof -
  have b: "bytes ''://'' = [58, 47, 47]" "bytes '':'' = [58]"
    by (simp_all add: bytes_def byte_of_def)
  have "scan_path (proto @ 58 # 47 # 47 # host @ 58 # decimal port) = Some (host, of_nat port)"
    using assms by (simp add: scan_path_def scan_set_run scan_uint_decimal)
  moreover have "sint (of_nat port :: u32) = int port"
    using sint_of_nat_u32 [of port] assms(7) by simp
  moreover have "(ucast (of_nat port :: u32) :: u16) = of_nat port"
    using assms(7) by (simp add: unsigned_of_nat take_bit_nat_eq_self)
  ultimately show ?thesis
    by (simp add: endpoint_path_def b)
qed

theorem endpoint_path_reads_witness:
  "endpoint_path demo_lib (bytes ''kcp'' @ bytes ''://'' @ bytes ''1.2.3.4'' @ bytes '':'' @ decimal 8388) =
    Some \<lparr>ep_port = 8388, ep_host = bytes ''1.2.3.4'',
      ep_path = bytes ''kcp'' @ bytes ''://'' @ bytes ''1.2.3.4'' @ bytes '':'' @ decimal 8388,
      ep_sockaddr = inet_sockaddr 8388 0x04030201\<rparr>"
  using endpoint_path_reads [of "bytes ''kcp''" "bytes ''1.2.3.4''" 8388 demo_lib]
  by (simp add: bytes_def byte_of_def demo_lib_def)

end
