(* ===== verification/Channel.thy ===== *)
theory Channel
  imports Reactor Endpoint Ikcp_Session
begin

section \<open>Channels and the acceptor (source/Acceptor.h, source/Acceptor.cpp)\<close>

text \<open>
  A channel is one TCP connection. Channels live in the memory \<open>chan_mem\<close>, the static set
  \<open>channels_\<close> is \<open>chan_set\<close>, and the reactor holds their callbacks: the closures that the
  code makes with \<open>std::bind\<close> and lambdas are the constructors of \<open>callback\<close>, \<open>read_cb\<close> and
  \<open>disc_cb\<close>. The callbacks that kcpss.cpp installs in a channel are the arguments \<open>rd\<close> and
  \<open>disc\<close> of the operations that call them. \<open>None\<close> is the end of the process or undefined
  behaviour: a deleted channel or watcher is touched, an allocation fails, or a descriptor
  does not fit an \<open>fd_set\<close>.

  What the operating system answers during one step is the record \<open>env\<close>; the allocator knows
  which addresses are in use and the kernel which descriptors are open, which are those with
  a live watcher. What the program hands to it is appended to \<open>trace\<close>. The world is an extensible record, which the theories of
  the UDP side and of the proxies extend.
\<close>

datatype callback =
  Cb_accept | Cb_channel_read ptr | Cb_channel_connect ptr int | Cb_channel_check ptr |
  Cb_channel_kcp ptr | Cb_udp_read | Cb_kcp_update ptr | Cb_heartbeat

datatype read_cb = Local_in int | Remote_in int int

datatype disc_cb = Rm_map

datatype acc_cb = Accepted

record channel =
  connected :: bool
  disconnect_cb :: "disc_cb option"
  read_callback :: "read_cb option"
  ch_fd :: int
  kcpConv :: int
  ch_kcp :: "IKCPCB option"
  bytes_read :: u64
  bytes_write :: u64
  send_buffer :: "byte list"
  reconnect_count :: int

datatype sys_event =
  Ev_write int "byte list" | Ev_close int | Ev_sendto int sockaddr_in "byte list" |
  Ev_sock sock_call | Ev_listen int | Ev_run

record env =
  e_now :: u32
  e_alloc :: allocator
  e_lib :: netlib
  e_writable :: "int \<Rightarrow> bool"
  e_write :: "int \<Rightarrow> byte list \<Rightarrow> int"
  e_new :: "(ptr \<Rightarrow> bool) \<Rightarrow> ptr"
  e_sock :: "(int \<Rightarrow> bool) \<Rightarrow> sock_os"

record acceptor =
  listenFd :: int
  connect_cb :: "acc_cb option"
  acc_disconnect_cb :: "disc_cb option"

record world =
  react :: "callback reactor"
  chan_mem :: "ptr \<rightharpoonup> channel"
  chan_set :: "ptr set"
  trace :: "sys_event list"

definition BUF_SIZE :: int where "BUF_SIZE = 4 * 1024 * 1024"

subsection \<open>Reading and writing the store\<close>

definition upd_chan :: "ptr \<Rightarrow> (channel \<Rightarrow> channel) \<Rightarrow> 'z world_scheme \<Rightarrow> 'z world_scheme option" where
  "upd_chan c f w =
     (case chan_mem w c of
        None \<Rightarrow> None
      | Some ch \<Rightarrow> Some (w\<lparr>chan_mem := (chan_mem w)(c \<mapsto> f ch)\<rparr>))"

definition add_trace :: "sys_event list \<Rightarrow> 'z world_scheme \<Rightarrow> 'z world_scheme" where
  "add_trace evs w = w\<lparr>trace := trace w @ evs\<rparr>"

definition set_react :: "callback reactor \<Rightarrow> 'z world_scheme \<Rightarrow> 'z world_scheme" where
  "set_react r w = w\<lparr>react := r\<rparr>"

definition used_ptr :: "'z world_scheme \<Rightarrow> ptr \<Rightarrow> bool" where
  "used_ptr w p \<longleftrightarrow> chan_mem w p \<noteq> None"

definition used_fd :: "'z world_scheme \<Rightarrow> int \<Rightarrow> bool" where
  "used_fd w fd \<longleftrightarrow> io_at (react w) fd \<noteq> None"

subsection \<open>The operations of a channel\<close>

definition Channel_write :: "env \<Rightarrow> ptr \<Rightarrow> byte list \<Rightarrow> 'z world_scheme \<Rightarrow> (int \<times> 'z world_scheme) option" where
  "Channel_write e c buf w = do {
     ch \<leftarrow> chan_mem w c;
     if \<not> connected ch then do {
       w \<leftarrow> upd_chan c (\<lambda>ch. ch\<lparr>send_buffer := send_buffer ch @ buf\<rparr>) w;
       Some (0, w)}
     else do {
       w \<leftarrow> upd_chan c (\<lambda>ch. ch\<lparr>bytes_write := bytes_write ch + of_nat (length buf)\<rparr>) w;
       case ch_kcp ch of
         Some kcp \<Rightarrow> do {
           (r, kcp) \<leftarrow> ikcp_send (e_alloc e) kcp (Some buf) (int (length buf));
           w \<leftarrow> upd_chan c (\<lambda>ch. ch\<lparr>ch_kcp := Some kcp\<rparr>) w;
           Some (r, w)}
       | None \<Rightarrow> Some (e_write e (ch_fd ch) buf, add_trace [Ev_write (ch_fd ch) buf] w)}}"

definition Channel_static_write ::
  "env \<Rightarrow> ptr \<Rightarrow> byte list \<Rightarrow> 'z world_scheme \<Rightarrow> (int \<times> 'z world_scheme) option" where
  "Channel_static_write e c buf w = (if c \<notin> chan_set w then Some (0, w) else Channel_write e c buf w)"

definition Channel_on_disconnect ::
  "(disc_cb \<Rightarrow> ptr \<Rightarrow> 'z world_scheme \<Rightarrow> 'z world_scheme option) \<Rightarrow> ptr \<Rightarrow> 'z world_scheme \<Rightarrow> 'z world_scheme option"
where
  "Channel_on_disconnect disc c w = do {
     ch \<leftarrow> chan_mem w c;
     w \<leftarrow> (case disconnect_cb ch of Some cb \<Rightarrow> disc cb c w | None \<Rightarrow> Some w);
     w \<leftarrow> upd_chan c (\<lambda>ch. ch\<lparr>connected := False\<rparr>) w;
     Some (set_react (RegisterTimer (react w) (Cb_channel_check c) (2000 + ch_fd ch) 0 10000) w)}"

text \<open>\<open>select\<close> says whether the connection is there; \<open>FD_SET\<close> is undefined beyond 1023.\<close>

definition Channel_on_connect ::
  "env \<Rightarrow> (disc_cb \<Rightarrow> ptr \<Rightarrow> 'z world_scheme \<Rightarrow> 'z world_scheme option) \<Rightarrow> ptr \<Rightarrow> int \<Rightarrow>
   'z world_scheme \<Rightarrow> (int \<times> 'z world_scheme) option"
where
  "Channel_on_connect e disc c cv w = do {
     ch \<leftarrow> chan_mem w c;
     if ch_fd ch < 0 \<or> 1024 \<le> ch_fd ch then None
     else if \<not> e_writable e (ch_fd ch) then do {
       w \<leftarrow> upd_chan c (\<lambda>ch. ch\<lparr>reconnect_count := reconnect_count ch + 1\<rparr>) w;
       if reconnect_count ch + 1 > 10 then do {
         r \<leftarrow> RemoveTimer (react w) (1000 + ch_fd ch);
         w \<leftarrow> Channel_on_disconnect disc c (set_react r w);
         Some (- 1, w)}
       else
         Some (0, set_react (RegisterTimer (react w) (Cb_channel_connect c cv) (1000 + ch_fd ch) 0 100000) w)}
     else do {
       r \<leftarrow> (if reconnect_count ch > 0 then RemoveTimer (react w) (1000 + ch_fd ch) else Some (react w));
       w \<leftarrow> upd_chan c (\<lambda>ch. ch\<lparr>connected := True\<rparr>) (set_react r w);
       if send_buffer ch \<noteq> [] then do {
         (_, w) \<leftarrow> Channel_write e c (send_buffer ch) w;
         w \<leftarrow> upd_chan c (\<lambda>ch. ch\<lparr>send_buffer := []\<rparr>) w;
         Some (0, w)}
       else Some (0, w)}}"

definition new_channel :: "int \<Rightarrow> int \<Rightarrow> channel" where
  "new_channel fd cv = \<lparr>connected = False, disconnect_cb = None, read_callback = None, ch_fd = fd,
     kcpConv = cv, ch_kcp = None, bytes_read = 0, bytes_write = 0, send_buffer = [],
     reconnect_count = 0\<rparr>"

text \<open>The constructor: the address is what \<open>operator new\<close> answers.\<close>

definition Channel_new ::
  "env \<Rightarrow> (disc_cb \<Rightarrow> ptr \<Rightarrow> 'z world_scheme \<Rightarrow> 'z world_scheme option) \<Rightarrow> int \<Rightarrow> int \<Rightarrow>
   'z world_scheme \<Rightarrow> (ptr \<times> 'z world_scheme) option"
where
  "Channel_new e disc fd cv w =
     (let c = e_new e (used_ptr w);
          w = w\<lparr>chan_mem := (chan_mem w)(c \<mapsto> new_channel fd cv), chan_set := insert c (chan_set w)\<rparr>;
          w = set_react (RegisterIO (react w) (Cb_channel_read c) fd) w
      in do {
        (_, w) \<leftarrow> Channel_on_connect e disc c cv w;
        Some (c, w)})"

definition Channel_delete :: "ptr \<Rightarrow> 'z world_scheme \<Rightarrow> 'z world_scheme option" where
  "Channel_delete c w = do {
     ch \<leftarrow> chan_mem w c;
     r \<leftarrow> (if ch_kcp ch \<noteq> None then RemoveTimer (react w) 19890 else Some (react w));
     r \<leftarrow> RemoveIO r (ch_fd ch);
     Some (add_trace [Ev_close (ch_fd ch)]
       (w\<lparr>react := r, chan_set := chan_set w - {c}, chan_mem := (chan_mem w)(c := None)\<rparr>))}"

definition check_connections :: "ptr \<Rightarrow> 'z world_scheme \<Rightarrow> 'z world_scheme option" where
  "check_connections c w =
     (if c = 0 then Some w
      else do {
        ch \<leftarrow> chan_mem w c;
        if \<not> connected ch then Channel_delete c w else Some w})"

definition set_disconnect_callback :: "ptr \<Rightarrow> disc_cb \<Rightarrow> 'z world_scheme \<Rightarrow> 'z world_scheme option" where
  "set_disconnect_callback c cb =
     upd_chan c (\<lambda>ch. if disconnect_cb ch = None then ch\<lparr>disconnect_cb := Some cb\<rparr> else ch)"

definition set_read_callback :: "ptr \<Rightarrow> read_cb \<Rightarrow> 'z world_scheme \<Rightarrow> 'z world_scheme option" where
  "set_read_callback c cb =
     upd_chan c (\<lambda>ch. if read_callback ch = None then ch\<lparr>read_callback := Some cb\<rparr> else ch)"

text \<open>Lines 277 to 284: messages are taken out of the channel's own KCP until there is none.\<close>

partial_function (option) chan_recv_loop ::
  "(read_cb \<Rightarrow> byte list \<Rightarrow> 'z world_scheme \<Rightarrow> 'z world_scheme option) \<Rightarrow> ptr \<Rightarrow>
   'z world_scheme \<Rightarrow> 'z world_scheme option"
where
  "chan_recv_loop rd c w =
     Option.bind (chan_mem w c) (\<lambda>ch.
     Option.bind (ch_kcp ch) (\<lambda>kcp.
     Option.bind (read_callback ch) (\<lambda>cb.
     Option.bind (ikcp_recv kcp True BUF_SIZE) (\<lambda>(n, out, kcp).
     Option.bind (upd_chan c (\<lambda>ch. ch\<lparr>ch_kcp := Some kcp\<rparr>) w) (\<lambda>w.
       if n < 0 then Some w
       else if n > 0
       then
         Option.bind (upd_chan c (\<lambda>ch. ch\<lparr>bytes_read := bytes_read ch + word_of_int n\<rparr>) w) (\<lambda>w.
         Option.bind (rd cb out w) (chan_recv_loop rd c))
       else chan_recv_loop rd c w)))))"

definition Channel_on_read ::
  "env \<Rightarrow> (read_cb \<Rightarrow> byte list \<Rightarrow> 'z world_scheme \<Rightarrow> 'z world_scheme option) \<Rightarrow> ptr \<Rightarrow> byte list \<Rightarrow>
   'z world_scheme \<Rightarrow> 'z world_scheme option"
where
  "Channel_on_read e rd c buf w = do {
     ch \<leftarrow> chan_mem w c;
     case read_callback ch of
       None \<Rightarrow> Some w
     | Some cb \<Rightarrow>
         (case ch_kcp ch of
            None \<Rightarrow> do {
              w \<leftarrow> upd_chan c (\<lambda>ch. ch\<lparr>bytes_read := bytes_read ch + of_nat (length buf)\<rparr>) w;
              rd cb buf w}
          | Some kcp \<Rightarrow> do {
              (_, kcp) \<leftarrow> ikcp_input (e_alloc e) kcp (Some buf);
              w \<leftarrow> upd_chan c (\<lambda>ch. ch\<lparr>ch_kcp := Some kcp\<rparr>) w;
              chan_recv_loop rd c w})}"

text \<open>
  One readable event: the answers of the successive \<open>read\<close> calls, each the bytes read and
  empty for the end of the stream or an error. When they are used up the call that follows
  has not returned yet.
\<close>

fun Channel_read ::
  "env \<Rightarrow> (disc_cb \<Rightarrow> ptr \<Rightarrow> 'z world_scheme \<Rightarrow> 'z world_scheme option) \<Rightarrow>
   (read_cb \<Rightarrow> byte list \<Rightarrow> 'z world_scheme \<Rightarrow> 'z world_scheme option) \<Rightarrow> ptr \<Rightarrow> byte list list \<Rightarrow>
   'z world_scheme \<Rightarrow> 'z world_scheme option"
where
  "Channel_read e disc rd c [] w = Some w"
| "Channel_read e disc rd c (d # reads) w = do {
     ch \<leftarrow> chan_mem w c;
     if \<not> connected ch then Some w
     else if d = [] then Channel_on_disconnect disc c w
     else if int (length d) < BUF_SIZE then Channel_on_read e rd c d w
     else do {
       w \<leftarrow> Channel_on_read e rd c d w;
       Channel_read e disc rd c reads w}}"

definition Channel_init_kcp :: "env \<Rightarrow> ptr \<Rightarrow> u32 \<Rightarrow> 'z world_scheme \<Rightarrow> 'z world_scheme option" where
  "Channel_init_kcp e c cv w = do {
     kcp \<leftarrow> ikcp_create (e_alloc e) cv;
     let kcp = (ikcp_setoutput kcp True)\<lparr>logmask := 15, writelog_set := True\<rparr>;
     let kcp = snd (ikcp_nodelay kcp 1 1 2 1);
     w \<leftarrow> upd_chan c (\<lambda>ch. ch\<lparr>ch_kcp := Some kcp\<rparr>) w;
     Some (set_react (RegisterTimer (react w) (Cb_channel_kcp c) 19890 10 0) w)}"

definition socket_output :: "int \<Rightarrow> byte list \<Rightarrow> sys_event" where
  "socket_output fd buf = Ev_write fd buf"

definition Channel_update_kcp :: "env \<Rightarrow> ptr \<Rightarrow> 'z world_scheme \<Rightarrow> 'z world_scheme option" where
  "Channel_update_kcp e c w = do {
     ch \<leftarrow> chan_mem w c;
     case ch_kcp ch of
       None \<Rightarrow> Some w
     | Some kcp \<Rightarrow> do {
         (kcp, out) \<leftarrow> ikcp_update kcp (e_now e);
         w \<leftarrow> upd_chan c (\<lambda>ch. ch\<lparr>ch_kcp := Some kcp\<rparr>) w;
         Some (add_trace (map (socket_output (ch_fd ch)) out) w)}}"

subsection \<open>The acceptor\<close>

record listen_os =
  lo_socket :: int
  lo_ioctl :: "(int \<times> bool) list"

definition Acceptor_new :: acceptor where
  "Acceptor_new = \<lparr>listenFd = 0, connect_cb = None, acc_disconnect_cb = None\<rparr>"

text \<open>
  \<open>ioctl\<close> is called again as long as it is interrupted; each answer is the code and whether
  \<open>errno\<close> is \<open>EINTR\<close>. An exhausted list of answers is a call that has not returned.
\<close>

fun set_nonblocking :: "(int \<times> bool) list \<Rightarrow> bool option" where
  "set_nonblocking [] = None"
| "set_nonblocking ((r, eintr) # rs) =
     (if r < 0 then (if eintr then set_nonblocking rs else Some False) else Some True)"

definition Acceptor_listen ::
  "listen_os \<Rightarrow> int \<Rightarrow> acceptor \<Rightarrow> 'z world_scheme \<Rightarrow> (int \<times> acceptor \<times> 'z world_scheme) option" where
  "Acceptor_listen os port acc w =
     (let fd = lo_socket os;
          acc = acc\<lparr>listenFd := fd\<rparr>;
          w = add_trace [Ev_sock Sys_socket_tcp, Ev_sock (Sys_bind (inet_sockaddr (word_of_int port) 0))] w
      in case set_nonblocking (lo_ioctl os) of
           None \<Rightarrow> None
         | Some False \<Rightarrow> Some (- 1, acc, add_trace [Ev_close fd] w)
         | Some True \<Rightarrow>
             Some (0, acc, set_react (RegisterIO (react w) Cb_accept fd) (add_trace [Ev_listen fd] w)))"

definition Acceptor_on_connect ::
  "(ptr \<Rightarrow> 'z world_scheme \<Rightarrow> 'z world_scheme option) \<Rightarrow> acceptor \<Rightarrow> ptr \<Rightarrow> 'z world_scheme \<Rightarrow> 'z world_scheme option"
where
  "Acceptor_on_connect conn acc c w = (case connect_cb acc of Some _ \<Rightarrow> conn c w | None \<Rightarrow> Some w)"

definition Acceptor_on_disconnect ::
  "(disc_cb \<Rightarrow> ptr \<Rightarrow> 'z world_scheme \<Rightarrow> 'z world_scheme option) \<Rightarrow> acceptor \<Rightarrow> ptr \<Rightarrow> 'z world_scheme \<Rightarrow> 'z world_scheme option"
where
  "Acceptor_on_disconnect disc acc c w =
     (case acc_disconnect_cb acc of Some cb \<Rightarrow> disc cb c w | None \<Rightarrow> Some w)"

definition Acceptor_set_connect_callback :: "acceptor \<Rightarrow> acc_cb \<Rightarrow> acceptor" where
  "Acceptor_set_connect_callback acc cb = acc\<lparr>connect_cb := Some cb\<rparr>"

definition Acceptor_set_disconnect_callback :: "acceptor \<Rightarrow> disc_cb \<Rightarrow> acceptor" where
  "Acceptor_set_disconnect_callback acc cb = acc\<lparr>acc_disconnect_cb := Some cb\<rparr>"

text \<open>The descriptor is the answer of \<open>accept\<close>, which is not checked.\<close>

definition Acceptor_accept ::
  "env \<Rightarrow> (disc_cb \<Rightarrow> ptr \<Rightarrow> 'z world_scheme \<Rightarrow> 'z world_scheme option) \<Rightarrow>
   (ptr \<Rightarrow> 'z world_scheme \<Rightarrow> 'z world_scheme option) \<Rightarrow> acceptor \<Rightarrow> int \<Rightarrow> 'z world_scheme \<Rightarrow> 'z world_scheme option"
where
  "Acceptor_accept e disc conn acc fd w = do {
     (c, w) \<leftarrow> Channel_new e disc fd (- 1) w;
     Acceptor_on_connect conn acc c w}"

definition Acceptor_start :: "'z world_scheme \<Rightarrow> 'z world_scheme" where
  "Acceptor_start w = add_trace [Ev_run] w"

end
