(* ===== verification/Udp.thy ===== *)
theory Udp
  imports Channel
begin

section \<open>KCP sessions over a UDP socket (source/udp.h, source/udp.cpp)\<close>

text \<open>
  \<open>udp\<close> is the client's end: one socket, one KCP block, one peer. \<open>udp_server\<close> serves many
  peers on one socket and finds the block of a datagram by its conversation number. Blocks
  live in \<open>kcp_mem\<close>; \<open>ikcp_release\<close> takes them out, and touching a released block is \<open>None\<close>.
  A payload travels in frames: a \<open>SessionHeader\<close> with the session id and the size, and at
  most \<open>MAX_PAYLOAD\<close> bytes; \<open>segment\<close> is the one buffer in which frames are made and into
  which they are received. The session callback is the argument \<open>sess\<close>, and the virtual
  \<open>write\<close> the argument \<open>wr\<close> of the operations that call them.

  Conversation numbers are kept as 32-bit words; the code stores the same bits in an \<open>int\<close>.
  An endpoint is a key by its socket address, see \<open>endpoint_map_find\<close>. \<open>e_stale\<close> below is what
  the receive buffer holds behind the datagram.
\<close>

unbundle bit_operations_syntax

definition SessionHeaderSize :: nat where "SessionHeaderSize = 8"
definition MTU :: nat where "MTU = 1376"
definition MAX_PAYLOAD :: nat where "MAX_PAYLOAD = MTU - SessionHeaderSize"
definition SIZE_4M :: nat where "SIZE_4M = 4 * 1024 * 1024"

lemmas udp_consts = SessionHeaderSize_def MTU_def MAX_PAYLOAD_def SIZE_4M_def

record udp_world = world +
  udp_fd :: int
  udp_kcp :: "ptr option"
  udp_target :: "endpoint option"
  udp_cb :: bool
  segment :: "byte list"
  kcp_mem :: "ptr \<rightharpoonup> IKCPCB"
  kcp_fresh :: ptr
  client_conv :: "sockaddr_in \<rightharpoonup> ptr"
  conv_ep :: "u32 \<rightharpoonup> endpoint"
  conv_kcp :: "u32 \<rightharpoonup> ptr"

subsection \<open>Frames\<close>

definition session_header :: "int \<Rightarrow> int \<Rightarrow> byte list" where
  "session_header sid sz = mem32 (word_of_int sid) @ mem32 (word_of_int sz)"

definition seg_sid :: "byte list \<Rightarrow> int" where
  "seg_sid seg = sint (load32 (seg ! 0) (seg ! 1) (seg ! 2) (seg ! 3))"

definition seg_size :: "byte list \<Rightarrow> int" where
  "seg_size seg = sint (load32 (seg ! 4) (seg ! 5) (seg ! 6) (seg ! 7))"

definition seg_payload :: "byte list \<Rightarrow> byte list" where
  "seg_payload seg = drop SessionHeaderSize seg"

text \<open>Fill in the header and copy the data behind it; the rest of the buffer stays.\<close>

definition put_segment :: "int \<Rightarrow> int \<Rightarrow> byte list \<Rightarrow> byte list \<Rightarrow> byte list" where
  "put_segment sid sz d seg =
     session_header sid sz @ d @ drop (SessionHeaderSize + length d) seg"

function send_chunks ::
  "allocator \<Rightarrow> int \<Rightarrow> byte list \<Rightarrow> IKCPCB \<Rightarrow> byte list \<Rightarrow> (int \<times> IKCPCB \<times> byte list) option" where
  "send_chunks al sid buf kcp seg =
     (if length buf > MAX_PAYLOAD
      then
        let seg = put_segment sid (int MAX_PAYLOAD) (take MAX_PAYLOAD buf) seg
        in case ikcp_send al kcp (Some seg) (int MTU) of
             None \<Rightarrow> None
           | Some (_, kcp) \<Rightarrow> send_chunks al sid (drop MAX_PAYLOAD buf) kcp seg
      else
        let seg = put_segment sid (int (length buf)) buf seg
        in case ikcp_send al kcp (Some seg) (int (length buf + SessionHeaderSize)) of
             None \<Rightarrow> None
           | Some (r, kcp) \<Rightarrow> Some (r, kcp, seg))"
  by pat_completeness auto
termination
  by (relation "measure (\<lambda>(al, sid, buf, kcp, seg). length buf)") (auto simp: udp_consts)

declare send_chunks.simps [simp del]

definition set_kcp :: "ptr \<Rightarrow> IKCPCB \<Rightarrow> 'z udp_world_scheme \<Rightarrow> 'z udp_world_scheme" where
  "set_kcp k kcp w = w\<lparr>kcp_mem := (kcp_mem w)(k \<mapsto> kcp)\<rparr>"

definition send_on :: "env \<Rightarrow> ptr \<Rightarrow> int \<Rightarrow> byte list \<Rightarrow> 'z udp_world_scheme \<Rightarrow> (int \<times> 'z udp_world_scheme) option" where
  "send_on e k sid buf w = do {
     kcp \<leftarrow> kcp_mem w k;
     (r, kcp, seg) \<leftarrow> send_chunks (e_alloc e) sid buf kcp (segment w);
     Some (r, set_kcp k kcp w\<lparr>segment := seg\<rparr>)}"

subsection \<open>The client's socket\<close>

definition crtete_kcp :: "env \<Rightarrow> u32 \<Rightarrow> 'z udp_world_scheme \<Rightarrow> (ptr \<times> 'z udp_world_scheme) option" where
  "crtete_kcp e cv w = do {
     kcp \<leftarrow> ikcp_create (e_alloc e) cv;
     let kcp = ikcp_setoutput kcp True;
     let kcp = snd (ikcp_nodelay kcp 1 1 2 1);
     let kcp = snd (ikcp_wndsize kcp 4096 4096);
     let k = kcp_fresh w;
     let w = (set_kcp k kcp w)\<lparr>kcp_fresh := k + 1\<rparr>;
     Some (k, set_react (RegisterTimer (react w) (Cb_kcp_update k) 19890 1 0) w)}"

text \<open>The constructor: the addresses are paths, \<open>cv\<close> is the random conversation number.\<close>

definition udp_new ::
  "env \<Rightarrow> u32 \<Rightarrow> byte list \<Rightarrow> byte list option \<Rightarrow> 'z udp_world_scheme \<Rightarrow> 'z udp_world_scheme option" where
  "udp_new e cv addr remote w = do {
     let w = w\<lparr>udp_kcp := None, udp_target := None, udp_cb := False\<rparr>;
     ep \<leftarrow> endpoint_path (e_lib e) addr;
     (case create_udp (e_lib e) (e_sock e (used_fd w)) ep of
        (Exit _, calls) \<Rightarrow> None
      | (Got fd, calls) \<Rightarrow> do {
          let w = add_trace (map Ev_sock calls) (w\<lparr>udp_fd := fd\<rparr>);
          let w = set_react (RegisterIO (react w) Cb_udp_read fd) w;
          w \<leftarrow> (case remote of
                 None \<Rightarrow> Some w
               | Some a \<Rightarrow> map_option (\<lambda>ep. w\<lparr>udp_target := Some ep\<rparr>) (endpoint_path (e_lib e) a));
          (k, w) \<leftarrow> crtete_kcp e cv w;
          Some (w\<lparr>udp_kcp := Some k, segment := map (alloc_byte (e_alloc e)) [0..<MTU]\<rparr>)})}"

definition udp_delete :: "'z udp_world_scheme \<Rightarrow> 'z udp_world_scheme" where
  "udp_delete w = w\<lparr>udp_target := None, udp_cb := False, segment := []\<rparr>"

definition udp_send :: "env \<Rightarrow> int \<Rightarrow> byte list \<Rightarrow> 'z udp_world_scheme \<Rightarrow> (int \<times> 'z udp_world_scheme) option" where
  "udp_send e sid buf w = do {
     k \<leftarrow> udp_kcp w;
     send_on e k sid buf w}"

definition udp_write :: "u32 \<Rightarrow> byte list \<Rightarrow> 'z udp_world_scheme \<Rightarrow> 'z udp_world_scheme option" where
  "udp_write cv buf w = do {
     ep \<leftarrow> udp_target w;
     Some (add_trace [Ev_sendto (udp_fd w) (ep_sockaddr ep) buf] w)}"

text \<open>\<open>udp_socket_output\<close> runs once for every datagram of a flush.\<close>

fun udp_socket_output ::
  "(u32 \<Rightarrow> byte list \<Rightarrow> 'z udp_world_scheme \<Rightarrow> 'z udp_world_scheme option) \<Rightarrow> u32 \<Rightarrow> byte list list \<Rightarrow>
   'z udp_world_scheme \<Rightarrow> 'z udp_world_scheme option"
where
  "udp_socket_output wr cv [] w = Some w"
| "udp_socket_output wr cv (d # out) w = do {
     w \<leftarrow> wr cv d w;
     udp_socket_output wr cv out w}"

definition kcp_tick ::
  "env \<Rightarrow> (u32 \<Rightarrow> byte list \<Rightarrow> 'z udp_world_scheme \<Rightarrow> 'z udp_world_scheme option) \<Rightarrow> ptr \<Rightarrow>
   'z udp_world_scheme \<Rightarrow> 'z udp_world_scheme option"
where
  "kcp_tick e wr k w = do {
     kcp \<leftarrow> kcp_mem w k;
     (kcp, out) \<leftarrow> ikcp_update kcp (e_now e);
     udp_socket_output wr (conv kcp) out (set_kcp k kcp w)}"

text \<open>Take messages out of the block and hand them to the session callback until there is none.\<close>

partial_function (option) udp_recv_loop ::
  "(u32 \<Rightarrow> int \<Rightarrow> int \<Rightarrow> 'z udp_world_scheme \<Rightarrow> 'z udp_world_scheme option) \<Rightarrow> ptr \<Rightarrow>
   'z udp_world_scheme \<Rightarrow> 'z udp_world_scheme option"
where
  "udp_recv_loop sess k w =
     Option.bind (kcp_mem w k) (\<lambda>kcp.
     Option.bind (ikcp_recv kcp True (int MTU)) (\<lambda>(n, out, kcp).
       let w = (set_kcp k kcp w)\<lparr>segment := out @ drop (length out) (segment w)\<rparr>
       in if n < 0 then Some w
       else if n > 0 \<and> udp_cb w
       then
         Option.bind (sess (conv kcp) (seg_sid (segment w)) (seg_size (segment w)) w)
           (udp_recv_loop sess k)
       else udp_recv_loop sess k w))"

definition udp_on_read ::
  "env \<Rightarrow> (u32 \<Rightarrow> int \<Rightarrow> int \<Rightarrow> 'z udp_world_scheme \<Rightarrow> 'z udp_world_scheme option) \<Rightarrow> byte list \<Rightarrow>
   sockaddr_in \<Rightarrow> 'z udp_world_scheme \<Rightarrow> 'z udp_world_scheme option"
where
  "udp_on_read e sess buf target w =
     (case udp_kcp w of
        None \<Rightarrow> Some w
      | Some k \<Rightarrow> do {
          kcp \<leftarrow> kcp_mem w k;
          (_, kcp) \<leftarrow> ikcp_input (e_alloc e) kcp (Some buf);
          udp_recv_loop sess k (set_kcp k kcp w)})"

datatype recv_result = Recv_error | Recv sockaddr_in "byte list"

fun recv_from :: "recv_result \<Rightarrow> sockaddr_in" where
  "recv_from Recv_error = zero_sockaddr"
| "recv_from (Recv a d) = a"

text \<open>
  The successive answers of \<open>recvfrom\<close>; an error is only logged and the socket read again. An
  exhausted list is a call that has not returned yet.
\<close>

fun udp_read_socket ::
  "env \<Rightarrow> (byte list \<Rightarrow> sockaddr_in \<Rightarrow> 'z udp_world_scheme \<Rightarrow> 'z udp_world_scheme option) \<Rightarrow>
   recv_result list \<Rightarrow> 'z udp_world_scheme \<Rightarrow> 'z udp_world_scheme option"
where
  "udp_read_socket e on_read [] w = Some w"
| "udp_read_socket e on_read (r # rs) w =
     (let w = (if udp_target w = None
               then w\<lparr>udp_target := Some (endpoint_sockaddr (e_lib e) (recv_from r))\<rparr> else w)
      in case r of
           Recv_error \<Rightarrow> udp_read_socket e on_read rs w
         | Recv a d \<Rightarrow>
             if d = [] then Some w
             else if length d < SIZE_4M then on_read d a w
             else do {
               w \<leftarrow> on_read d a w;
               udp_read_socket e on_read rs w})"

definition set_session_callback :: "'z udp_world_scheme \<Rightarrow> 'z udp_world_scheme" where
  "set_session_callback w = (if \<not> udp_cb w then w\<lparr>udp_cb := True\<rparr> else w)"

subsection \<open>The server's socket\<close>

definition connected_client :: "u32 \<Rightarrow> 'z udp_world_scheme \<Rightarrow> bool" where
  "connected_client cv w \<longleftrightarrow> conv_kcp w cv \<noteq> None"

text \<open>\<open>conv_ep_[conv]\<close> makes an entry with the default endpoint when there is none.\<close>

definition get_conv_ep :: "u32 \<Rightarrow> 'z udp_world_scheme \<Rightarrow> endpoint \<times> 'z udp_world_scheme" where
  "get_conv_ep cv w =
     (case conv_ep w cv of
        Some ep \<Rightarrow> (ep, w)
      | None \<Rightarrow> (endpoint_default, w\<lparr>conv_ep := (conv_ep w)(cv \<mapsto> endpoint_default)\<rparr>))"

definition server_write :: "u32 \<Rightarrow> byte list \<Rightarrow> 'z udp_world_scheme \<Rightarrow> 'z udp_world_scheme option" where
  "server_write cv buf w =
     (let (ep, w) = get_conv_ep cv w
      in Some (add_trace [Ev_sendto (udp_fd w) (ep_sockaddr ep) buf] w))"

definition server_send ::
  "env \<Rightarrow> u32 \<Rightarrow> int \<Rightarrow> byte list \<Rightarrow> 'z udp_world_scheme \<Rightarrow> (int \<times> 'z udp_world_scheme) option" where
  "server_send e cv sid buf w =
     (case conv_kcp w cv of
        None \<Rightarrow>
          Some (- 1, w\<lparr>segment := session_header sid (int MAX_PAYLOAD) @ drop SessionHeaderSize (segment w)\<rparr>)
      | Some k \<Rightarrow> send_on e k sid buf w)"

text \<open>Lines 155 to 169: a datagram of a conversation that has no block.\<close>

definition release_old :: "sockaddr_in \<Rightarrow> 'z udp_world_scheme \<Rightarrow> 'z udp_world_scheme option" where
  "release_old ep w =
     (case client_conv w ep of
        None \<Rightarrow> Some w
      | Some old \<Rightarrow> do {
          kcp \<leftarrow> kcp_mem w old;
          Some (w\<lparr>kcp_mem := (kcp_mem w)(old := None), conv_ep := (conv_ep w)(conv kcp := None),
                  conv_kcp := (conv_kcp w)(conv kcp := None)\<rparr>)})"

definition new_client ::
  "env \<Rightarrow> u32 \<Rightarrow> endpoint \<Rightarrow> 'z udp_world_scheme \<Rightarrow> (ptr \<times> 'z udp_world_scheme) option" where
  "new_client e cv ep w = do {
     w \<leftarrow> release_old (ep_sockaddr ep) w;
     (k, w) \<leftarrow> crtete_kcp e cv w;
     Some (k, w\<lparr>client_conv := (client_conv w)(ep_sockaddr ep \<mapsto> k),
                conv_kcp := (conv_kcp w)(cv \<mapsto> k), conv_ep := (conv_ep w)(cv \<mapsto> ep)\<rparr>)}"

text \<open>Lines 170 to 179: a known conversation, from where it was or from another endpoint.\<close>

definition known_client :: "u32 \<Rightarrow> ptr \<Rightarrow> endpoint \<Rightarrow> 'z udp_world_scheme \<Rightarrow> 'z udp_world_scheme" where
  "known_client cv k ep w =
     (let (old_ep, w) = get_conv_ep cv w
      in if \<not> endpoint_eq old_ep ep
         then w\<lparr>conv_ep := (conv_ep w)(cv \<mapsto> ep),
                client_conv := (client_conv w)(ep_sockaddr ep \<mapsto> k)\<rparr>
         else w)"

definition find_client ::
  "env \<Rightarrow> u32 \<Rightarrow> endpoint \<Rightarrow> 'z udp_world_scheme \<Rightarrow> (ptr \<times> 'z udp_world_scheme) option" where
  "find_client e cv ep w =
     (case conv_kcp w cv of
        None \<Rightarrow> new_client e cv ep w
      | Some k \<Rightarrow> Some (k, known_client cv k ep w))"

definition server_on_read ::
  "env \<Rightarrow> byte list \<Rightarrow> (u32 \<Rightarrow> int \<Rightarrow> int \<Rightarrow> 'z udp_world_scheme \<Rightarrow> 'z udp_world_scheme option) \<Rightarrow>
   byte list \<Rightarrow> sockaddr_in \<Rightarrow> 'z udp_world_scheme \<Rightarrow> 'z udp_world_scheme option"
where
  "server_on_read e e_stale sess buf target w = do {
     let ep = endpoint_sockaddr (e_lib e) target;
     cv \<leftarrow> ikcp_getconv (buf @ e_stale);
     (k, w) \<leftarrow> find_client e cv ep w;
     kcp \<leftarrow> kcp_mem w k;
     (ret, kcp) \<leftarrow> ikcp_input (e_alloc e) kcp (Some buf);
     let w = set_kcp k kcp w;
     if ret \<noteq> 0 then Some w else udp_recv_loop sess k w}"

end
