(* ===== verification/Socks5.thy ===== *)
theory Socks5
  imports Endpoint
begin

section \<open>The socks5 requests (source/socks5.h)\<close>

text \<open>
  A request is parsed in place: the buffer is the memory the pointer points to, \<open>n\<close> is the
  size the caller passes, and a read or write outside the memory is \<open>None\<close>. The two C
  functions that only look at the buffer are total, as they check the size first.
\<close>

unbundle bit_operations_syntax

definition peek :: "byte list \<Rightarrow> int \<Rightarrow> byte option" where
  "peek mem i = (if 0 \<le> i \<and> i < int (length mem) then Some (mem ! nat i) else None)"

definition poke :: "byte list \<Rightarrow> int \<Rightarrow> byte \<Rightarrow> byte list option" where
  "poke mem i b = (if 0 \<le> i \<and> i < int (length mem) then Some (mem[nat i := b]) else None)"

text \<open>The C string that starts at an offset: up to the first 0, which has to be in the memory.\<close>

definition c_string :: "byte list \<Rightarrow> nat \<Rightarrow> byte list option" where
  "c_string mem i =
     (let s = takeWhile (\<lambda>c. c \<noteq> 0) (drop i mem)
      in if i + length s < length mem then Some s else None)"

definition is_hello :: "byte list \<Rightarrow> int \<Rightarrow> bool" where
  "is_hello buffer n \<longleftrightarrow> n = 3 \<and> peek buffer 0 = Some 5 \<and> peek buffer 1 = Some 1"

definition echo_hello :: "byte list \<Rightarrow> (byte list \<times> int) option" where
  "echo_hello buffer = do {
     buffer \<leftarrow> poke buffer 0 5;
     buffer \<leftarrow> poke buffer 1 0;
     Some (buffer, 2)}"

definition parser_endpoint_from_request ::
  "netlib \<Rightarrow> byte list \<Rightarrow> int \<Rightarrow> (endpoint \<times> byte list) option" where
  "parser_endpoint_from_request lib buffer n = do {
     cmd \<leftarrow> peek buffer 1;
     if cmd \<noteq> 1 then Some (endpoint_null lib, buffer)
     else do {
       high \<leftarrow> peek buffer (n - 2);
       low \<leftarrow> peek buffer (n - 1);
       let port = uint high * 256 + uint low;
       addr_type \<leftarrow> peek buffer 3;
       if addr_type = 1 then do {
         ip \<leftarrow> c_string buffer 5;
         Some (endpoint_ip lib ip port, buffer)}
       else if addr_type = 3 then do {
         buffer \<leftarrow> poke buffer (n - 2) 0;
         ip \<leftarrow> c_string buffer 5;
         case gethostbyname lib ip of
           None \<Rightarrow> Some (endpoint_null lib, buffer)
         | Some [] \<Rightarrow> None
         | Some (a # _) \<Rightarrow> Some (endpoint_ip lib (inet_ntoa lib a) port, buffer)}
       else if addr_type = 4 then do {
         buffer \<leftarrow> poke buffer 21 0;
         ip \<leftarrow> c_string buffer 5;
         Some (endpoint_ip lib ip port, buffer)}
       else Some (endpoint_null lib, buffer)}}"

definition socks5_rsp :: "byte list" where
  "socks5_rsp = [0x05, 0x00, 0x00, 0x01, 0x00, 0x00, 0x00, 0x00, 0x00, 0x00]"

definition prepare_response :: "byte list \<Rightarrow> bool \<Rightarrow> (int \<times> byte list) option" where
  "prepare_response buffer success =
     (if length buffer < 10 then None
      else Some (10, (socks5_rsp @ drop 10 buffer)[1 := (if success then 0 else 1)]))"

subsection \<open>Requests\<close>

text \<open>A connect request for a host name, and one for an IPv4 address, as RFC 1928 writes them.\<close>

definition domain_request :: "byte list \<Rightarrow> nat \<Rightarrow> byte list" where
  "domain_request name port =
     [5, 1, 0, 3, of_nat (length name)] @ name @ [of_nat (port div 256), of_nat (port mod 256)]"

definition ipv4_request :: "byte \<Rightarrow> byte \<Rightarrow> byte \<Rightarrow> byte \<Rightarrow> nat \<Rightarrow> byte list" where
  "ipv4_request a b c d port = [5, 1, 0, 1, a, b, c, d, of_nat (port div 256), of_nat (port mod 256)]"

lemma peek_nth: "i < length mem \<Longrightarrow> peek mem (int i) = Some (mem ! i)"
  by (simp add: peek_def)

lemma poke_nth: "i < length mem \<Longrightarrow> poke mem (int i) b = Some (mem[i := b])"
  by (simp add: poke_def)

lemma uint_of_nat_byte: "n < 256 \<Longrightarrow> uint (of_nat n :: byte) = int n"
  by (simp add: unsigned_of_nat take_bit_nat_eq_self)

lemma c_string_at:
  assumes "drop i mem = s @ 0 # rest" and "0 \<notin> set s"
  shows "c_string mem i = Some s"
proof -
  have "takeWhile (\<lambda>c. c \<noteq> 0) (drop i mem) = s"
    using assms by (auto simp: takeWhile_append)
  moreover have "length (drop i mem) = length s + 1 + length rest"
    using assms(1) by simp
  ultimately show ?thesis
    by (simp add: c_string_def)
qed

lemma port_bytes: "port < 2 ^ 16 \<Longrightarrow> uint (of_nat (port div 256) :: byte) * 256 + uint (of_nat (port mod 256) :: byte) = int port"
  by (simp add: uint_of_nat_byte div_less_iff_less_mult zdiv_int zmod_int)

text \<open>
  C30: A connect request for a host name, followed by whatever else the buffer holds, is parsed
  to the endpoint of the first address the resolver has for exactly this name, at the port of
  the request; the memory changes only where the port was, and a name the resolver does not
  know gives the null endpoint.
\<close>

theorem parser_domain_request:
  assumes "0 \<notin> set name" and "port < 2 ^ 16" and "gethostbyname lib name \<noteq> Some []"
  shows "\<exists>mem. parser_endpoint_from_request lib (domain_request name port @ rest)
      (int (length (domain_request name port))) =
    Some (case gethostbyname lib name of
        None \<Rightarrow> endpoint_null lib
      | Some as \<Rightarrow> endpoint_ip lib (inet_ntoa lib (hd as)) (int port), mem) \<and>
    mem = (domain_request name port @ rest)[length name + 5 := 0]"
proof -
  let ?m = "domain_request name port @ rest"
  let ?m' = "?m[length name + 5 := 0]"
  have len: "int (length (domain_request name port)) = int (length name + 7)"
    by (simp add: domain_request_def)
  have idx: "int (length name + 7) - 2 = int (length name) + 5"
      "int (length name + 7) - 1 = int (length name) + 6"
    by simp_all
  have m: "?m = ([5, 1, 0, 3, of_nat (length name)] @ name) @
      of_nat (port div 256) # of_nat (port mod 256) # rest"
    by (simp add: domain_request_def)
  have nth: "?m ! 1 = 1" "?m ! 3 = 3" "?m ! (length name + 5) = of_nat (port div 256)"
      "?m ! (length name + 6) = of_nat (port mod 256)"
    using nth_append_length_plus [of "[5, 1, 0, 3, of_nat (length name)] @ name"
        "of_nat (port div 256) # of_nat (port mod 256) # rest" 0]
      nth_append_length_plus [of "[5, 1, 0, 3, of_nat (length name)] @ name"
        "of_nat (port div 256) # of_nat (port mod 256) # rest" 1]
    by (simp_all add: m add.commute del: nth_append_length_plus)
  have small: "1 < length ?m" "3 < length ?m" "length name + 5 < length ?m" "length name + 6 < length ?m"
    by (simp_all add: domain_request_def)
  have reads: "peek ?m 1 = Some 1" "peek ?m 3 = Some 3"
      "peek ?m (int (length name) + 5) = Some (of_nat (port div 256))"
      "peek ?m (int (length name) + 6) = Some (of_nat (port mod 256))"
      "poke ?m (int (length name) + 5) 0 = Some ?m'"
    using peek_nth [OF small(1)] peek_nth [OF small(2)] peek_nth [OF small(3)] peek_nth [OF small(4)]
      poke_nth [OF small(3)] by (simp_all only: nth of_nat_1 of_nat_numeral of_nat_add)
  have l: "length name + 5 = length ([5, 1, 0, 3, of_nat (length name) :: byte] @ name)"
    by simp
  have "?m' = ([5, 1, 0, 3, of_nat (length name)] @ name) @ 0 # of_nat (port mod 256) # rest"
    unfolding m l by (simp only: list_update_length)
  then have "drop 5 ?m' = name @ 0 # of_nat (port mod 256) # rest"
    by simp
  then have str: "c_string ?m' 5 = Some name"
    using assms(1) by (rule c_string_at)
  show ?thesis
    unfolding parser_endpoint_from_request_def len idx
    using port_bytes [OF assms(2)] assms(3)
    by (cases "gethostbyname lib name"; cases "the (gethostbyname lib name)")
      (simp_all add: reads str)
qed

theorem parser_domain_request_witness:
  "\<exists>mem. parser_endpoint_from_request demo_lib (domain_request (bytes ''ab.c'') 443 @ [9, 9]) 11 =
    Some (endpoint_ip demo_lib (bytes ''1.2.3.4'') 443, mem) \<and> mem ! 9 = 0"
  using parser_domain_request [of "bytes ''ab.c''" 443 demo_lib "[9, 9]"]
  by (simp add: demo_lib_def bytes_def byte_of_def domain_request_def)

text \<open>An IPv4 address as the text \<open>inet_addr\<close> reads.\<close>

definition dotted_quad :: "byte \<Rightarrow> byte \<Rightarrow> byte \<Rightarrow> byte \<Rightarrow> byte list" where
  "dotted_quad a b c d =
     decimal (unat a) @ bytes ''.'' @ decimal (unat b) @ bytes ''.'' @ decimal (unat c) @ bytes ''.'' @
     decimal (unat d)"

lemma length_dotted_quad: "7 \<le> length (dotted_quad a b c d)"
proof -
  have "1 \<le> length (decimal n)" for n
    by (cases "decimal n") (simp_all add: decimal_nonempty)
  from this [of "unat a"] this [of "unat b"] this [of "unat c"] this [of "unat d"] show ?thesis
    by (simp add: dotted_quad_def bytes_def)
qed

lemma c_string_iff:
  "i < length mem \<Longrightarrow> c_string mem i =
     (if 0 \<in> set (drop i mem) then Some (takeWhile (\<lambda>c. c \<noteq> 0) (drop i mem)) else None)"
proof -
  assume i: "i < length mem"
  have "length (takeWhile (\<lambda>c. c \<noteq> 0) xs) < length xs \<longleftrightarrow> 0 \<in> set xs" for xs :: "byte list"
    by (induction xs) auto
  from this [of "drop i mem"] i show ?thesis
    by (auto simp: c_string_def Let_def)
qed

text \<open>
  C31: For any IPv4 request, with whatever follows it in memory, the parser does not decode the
  address. It takes the memory from the second byte of the address on as text, three raw bytes of
  the address, the port and what follows, up to the first zero, and hands that to \<open>inet_addr\<close>; the
  first byte of the address has no influence on it. When there is no zero it reads beyond the
  memory. When the request is followed by a zero, what it hands over is not the address, nor
  the dotted form of any other.
\<close>

theorem parser_ipv4_request:
  assumes "port < 2 ^ 16"
  shows "let mem = ipv4_request a b c d port @ rest;
      tail = [b, c, d, of_nat (port div 256), of_nat (port mod 256)] @ rest;
      host = takeWhile (\<lambda>x. x \<noteq> 0) tail
    in parser_endpoint_from_request lib mem 10 =
        (if 0 \<in> set tail then Some (endpoint_ip lib host (int port), mem) else None) \<and>
      (\<forall>w x y z. rest \<noteq> [] \<and> hd rest = 0 \<longrightarrow> host \<noteq> dotted_quad w x y z)"
proof -
  define mem tail host where "mem = ipv4_request a b c d port @ rest"
    and "tail = [b, c, d, of_nat (port div 256), of_nat (port mod 256)] @ rest"
    and "host = takeWhile (\<lambda>x. x \<noteq> 0) tail"
  have "c_string mem 5 = (if 0 \<in> set tail then Some host else None)"
    unfolding host_def by (subst c_string_iff) (simp_all add: mem_def tail_def ipv4_request_def)
  moreover have "peek mem 1 = Some 1" "peek mem 3 = Some 1" "peek mem 8 = Some (of_nat (port div 256))"
      "peek mem 9 = Some (of_nat (port mod 256))"
    by (simp_all add: mem_def peek_def ipv4_request_def)
  ultimately have "parser_endpoint_from_request lib mem 10 =
      (if 0 \<in> set tail then Some (endpoint_ip lib host (int port), mem) else None)"
    using port_bytes [OF assms(1)] by (simp add: parser_endpoint_from_request_def)
  moreover have "host \<noteq> dotted_quad w x y z" if "rest \<noteq> []" "hd rest = 0" for w x y z
  proof -
    from that obtain rest' where "rest = 0 # rest'" by (cases rest) auto
    then have "length host \<le> 5"
      by (simp add: host_def tail_def)
    with length_dotted_quad [of w x y z] show ?thesis by auto
  qed
  ultimately show ?thesis
    by (simp only: Let_def mem_def [symmetric] tail_def [symmetric] host_def [symmetric]) blast
qed

theorem parser_ipv4_request_witness:
  "parser_endpoint_from_request demo_lib (ipv4_request 10 0 0 1 80 @ [0]) 10 =
    Some (endpoint_ip demo_lib [] 80, ipv4_request 10 0 0 1 80 @ [0]) \<and>
   parser_endpoint_from_request demo_lib (ipv4_request 1 2 3 4 443 @ [0]) 10 =
    Some (endpoint_ip demo_lib [2, 3, 4, 1, 187] 443, ipv4_request 1 2 3 4 443 @ [0])"
  using parser_ipv4_request [of 80 10 0 0 1 "[0]" demo_lib] parser_ipv4_request [of 443 1 2 3 4 "[0]" demo_lib]
  by (simp add: Let_def)

text \<open>
  The request for anything but a connect is refused with the null endpoint, and so is an
  unknown address type, with the buffer unchanged.
\<close>

theorem parser_refuses:
  assumes "length buffer \<ge> 4" and "2 \<le> n" and "n \<le> int (length buffer)"
    and "buffer ! 1 \<noteq> 1 \<or> buffer ! 3 \<notin> {1, 3, 4}"
  shows "parser_endpoint_from_request lib buffer n = Some (endpoint_null lib, buffer)"
  using assms by (auto simp: parser_endpoint_from_request_def peek_def)

theorem parser_refuses_witness:
  "parser_endpoint_from_request demo_lib [5, 2, 0, 1, 0, 0] 6 = Some (endpoint_null demo_lib, [5, 2, 0, 1, 0, 0])"
  by (rule parser_refuses) simp_all

lemma length_prepare_response:
  "prepare_response buffer ok = Some (n, b) \<Longrightarrow> n = 10 \<and> length b = length buffer"
  by (auto simp: prepare_response_def socks5_rsp_def split: if_splits)

lemma prepare_response_eq:
  "length buffer \<ge> 10 \<Longrightarrow>
   prepare_response buffer ok = Some (10, [5, if ok then 0 else 1, 0, 1, 0, 0, 0, 0, 0, 0] @ drop 10 buffer)"
  by (simp add: prepare_response_def socks5_rsp_def)

end
