(* ===== verification/Fast_Codec.thy ===== *)
theory Fast_Codec
  imports Kcp_Prelude "HOL-Library.Monad_Syntax"
begin

section \<open>The payload codecs (source/codec.h)\<close>

text \<open>
  The abstract class \<open>codec\<close> is the locale \<open>codec_contract\<close>: \<open>decode\<close> undoes \<open>encode\<close> in place
  and neither changes the length of the buffer. \<open>null_codec\<close> and \<open>fast_codec\<close> are its two
  interpretations. A buffer is the list of its bytes, an access outside it is \<open>None\<close>. The
  three loops of \<open>fast_codec::encode\<close> read and write eight, four and one byte at a time; a
  load or store of a wider integer is little-endian, as on the targets of the program, but
  the result does not depend on it. The C \<open>int\<close> index does not overflow: a buffer is at most
  4 MB.
\<close>

unbundle bit_operations_syntax

subsection \<open>Integers in a buffer\<close>

fun load_le :: "byte list \<Rightarrow> 'a :: len word" where
  "load_le [] = 0"
| "load_le (b # bs) = ucast b OR push_bit 8 (load_le bs)"

fun mem_le :: "nat \<Rightarrow> 'a :: len word \<Rightarrow> byte list" where
  "mem_le 0 w = []"
| "mem_le (Suc n) w = ucast w # mem_le n (drop_bit 8 w)"

definition get_bytes :: "byte list \<Rightarrow> nat \<Rightarrow> nat \<Rightarrow> byte list option" where
  "get_bytes buf i n = (if i + n \<le> length buf then Some (take n (drop i buf)) else None)"

definition put_bytes :: "byte list \<Rightarrow> nat \<Rightarrow> byte list \<Rightarrow> byte list" where
  "put_bytes buf i bs = take i buf @ bs @ drop (i + length bs) buf"

lemma length_mem_le [simp]: "length (mem_le n w) = n"
  by (induction n arbitrary: w) simp_all

lemma nth_mem_le: "k < n \<Longrightarrow> mem_le n w ! k = ucast (drop_bit (8 * k) w)"
proof (induction n arbitrary: w k)
  case (Suc n)
  then show ?case by (cases k) (simp_all add: algebra_simps)
qed simp

lemma bit_load_le:
  "bit (load_le bs :: 'a :: len word) m \<longleftrightarrow>
     m < LENGTH('a) \<and> m div 8 < length bs \<and> bit (bs ! (m div 8)) (m mod 8)"
proof (induction bs arbitrary: m)
  case (Cons b bs)
  show ?case
  proof (cases "m < 8")
    case True
    then show ?thesis by (auto simp: bit_simps Cons)
  next
    case False
    moreover from False have "m div 8 = Suc ((m - 8) div 8)" "m mod 8 = (m - 8) mod 8"
      by (simp_all add: le_div_geq le_mod_geq)
    moreover from False have "\<not> bit b m"
      by (auto dest: bit_imp_le_length)
    ultimately show ?thesis by (auto simp: bit_simps Cons)
  qed
qed simp

subsection \<open>The codecs\<close>

definition null_encode :: "byte list \<Rightarrow> int \<Rightarrow> byte list option" where
  "null_encode buffer sz = Some buffer"

definition null_decode :: "byte list \<Rightarrow> int \<Rightarrow> byte list option" where
  "null_decode buffer sz = Some buffer"

definition codec64 :: "u64 \<Rightarrow> u64" where
  "codec64 ch =
     (let left = drop_bit 4 (ch AND 0xf0f0f0f0f0f0f0f0);
          right = push_bit 4 (ch AND 0x0f0f0f0f0f0f0f0f)
      in left OR right)"

definition codec32 :: "u32 \<Rightarrow> u32" where
  "codec32 ch =
     (let left = drop_bit 4 (ch AND 0xf0f0f0f0);
          right = push_bit 4 (ch AND 0x0f0f0f0f)
      in left OR right)"

definition codec8 :: "byte \<Rightarrow> byte" where
  "codec8 ch = push_bit 4 ch OR drop_bit 4 ch"

function codec_loop64 :: "int \<Rightarrow> nat \<Rightarrow> byte list \<Rightarrow> (nat \<times> byte list) option" where
  "codec_loop64 sz i buffer =
     (if int i + 8 < sz
      then case get_bytes buffer i 8 of
             None \<Rightarrow> None
           | Some bs \<Rightarrow>
               codec_loop64 sz (i + 8) (put_bytes buffer i (mem_le 8 (codec64 (load_le bs))))
      else Some (i, buffer))"
  by pat_completeness auto
termination
  by (relation "measure (\<lambda>(sz, i, buffer). nat (sz - int i))") auto

function codec_loop32 :: "int \<Rightarrow> nat \<Rightarrow> byte list \<Rightarrow> (nat \<times> byte list) option" where
  "codec_loop32 sz i buffer =
     (if int i + 4 < sz
      then case get_bytes buffer i 4 of
             None \<Rightarrow> None
           | Some bs \<Rightarrow>
               codec_loop32 sz (i + 4) (put_bytes buffer i (mem_le 4 (codec32 (load_le bs))))
      else Some (i, buffer))"
  by pat_completeness auto
termination
  by (relation "measure (\<lambda>(sz, i, buffer). nat (sz - int i))") auto

function codec_loop8 :: "int \<Rightarrow> nat \<Rightarrow> byte list \<Rightarrow> byte list option" where
  "codec_loop8 sz i buffer =
     (if int i < sz
      then case get_bytes buffer i 1 of
             None \<Rightarrow> None
           | Some bs \<Rightarrow> codec_loop8 sz (i + 1) (put_bytes buffer i [codec8 (hd bs)])
      else Some buffer)"
  by pat_completeness auto
termination
  by (relation "measure (\<lambda>(sz, i, buffer). nat (sz - int i))") auto

definition fast_encode :: "byte list \<Rightarrow> int \<Rightarrow> byte list option" where
  "fast_encode buffer sz = do {
     (i, buffer) \<leftarrow> codec_loop64 sz 0 buffer;
     (i, buffer) \<leftarrow> codec_loop32 sz i buffer;
     codec_loop8 sz i buffer}"

definition fast_decode :: "byte list \<Rightarrow> int \<Rightarrow> byte list option" where
  "fast_decode buffer sz = fast_encode buffer sz"

declare codec_loop64.simps [simp del] codec_loop32.simps [simp del] codec_loop8.simps [simp del]

subsection \<open>A wide step is a step on each of its bytes\<close>

lemma bit_codec8: "bit (codec8 b) n \<longleftrightarrow> n < 8 \<and> bit b (if n < 4 then n + 4 else n - 4)"
  by (auto simp: codec8_def bit_simps add.commute dest: bit_imp_le_length)

lemma codec8_codec8 [simp]: "codec8 (codec8 b) = b"
  by (rule bit_word_eqI) (auto simp: bit_codec8)

lemma bit_hi64: "bit (0xf0f0f0f0f0f0f0f0 :: u64) m \<longleftrightarrow> m < LENGTH(64) \<and> 4 \<le> m mod 8"
proof -
  have "\<forall>m \<in> set [0..<64]. bit (0xf0f0f0f0f0f0f0f0 :: u64) m \<longleftrightarrow> 4 \<le> m mod 8"
    by code_simp
  then show ?thesis by (auto dest: bit_imp_le_length)
qed

lemma bit_lo64: "bit (0x0f0f0f0f0f0f0f0f :: u64) m \<longleftrightarrow> m < LENGTH(64) \<and> m mod 8 < 4"
proof -
  have "\<forall>m \<in> set [0..<64]. bit (0x0f0f0f0f0f0f0f0f :: u64) m \<longleftrightarrow> m mod 8 < 4"
    by code_simp
  then show ?thesis by (auto dest: bit_imp_le_length)
qed

lemma bit_hi32: "bit (0xf0f0f0f0 :: u32) m \<longleftrightarrow> m < LENGTH(32) \<and> 4 \<le> m mod 8"
proof -
  have "\<forall>m \<in> set [0..<32]. bit (0xf0f0f0f0 :: u32) m \<longleftrightarrow> 4 \<le> m mod 8"
    by code_simp
  then show ?thesis by (auto dest: bit_imp_le_length)
qed

lemma bit_lo32: "bit (0x0f0f0f0f :: u32) m \<longleftrightarrow> m < LENGTH(32) \<and> m mod 8 < 4"
proof -
  have "\<forall>m \<in> set [0..<32]. bit (0x0f0f0f0f :: u32) m \<longleftrightarrow> m mod 8 < 4"
    by code_simp
  then show ?thesis by (auto dest: bit_imp_le_length)
qed

text \<open>The position a bit of an integer comes from: the other nibble of its byte.\<close>

definition nibble :: "nat \<Rightarrow> nat" where
  "nibble m = (if m mod 8 < 4 then m + 4 else m - 4)"

lemma add4_mod: "(m + 4) mod 8 < (4 :: nat) \<longleftrightarrow> 4 \<le> m mod 8"
proof -
  define r where "r = m mod 8"
  have r: "r < 8" by (simp add: r_def)
  have "(m + 4) mod 8 = (r + 4) mod 8"
    unfolding r_def by (rule mod_add_left_eq [symmetric])
  also have "\<dots> = (if r < 4 then r + 4 else r - 4)"
    using r mod_less [of "r + 4" 8] mod_less [of "r - 4" 8] le_mod_geq [of 8 "r + 4"] by simp
  finally show ?thesis
    using r by (simp flip: r_def split: if_splits)
qed

lemma sub4_mod: "4 \<le> m \<Longrightarrow> (m - 4) mod 8 < (4 :: nat) \<longleftrightarrow> 4 \<le> m mod 8"
  using add4_mod [of "m - 4"] by auto

lemma mod8_le: "4 \<le> m mod (8 :: nat) \<Longrightarrow> 4 \<le> m"
  using mod_less_eq_dividend [of m 8] by linarith

lemma bit_swap:
  fixes w hi lo :: "'a :: len word"
  assumes hi: "\<And>m. bit hi m \<longleftrightarrow> m < LENGTH('a) \<and> 4 \<le> m mod 8"
    and lo: "\<And>m. bit lo m \<longleftrightarrow> m < LENGTH('a) \<and> m mod 8 < 4"
  shows "bit (drop_bit 4 (w AND hi) OR push_bit 4 (w AND lo)) m \<longleftrightarrow>
     m < LENGTH('a) \<and> bit w (nibble m)"
proof (cases "m mod 8 < 4")
  case True
  then have "nibble m = m + 4" by (simp add: nibble_def)
  moreover have "4 \<le> (m + 4) mod 8" using True add4_mod [of m] by linarith
  moreover have "\<not> (4 \<le> m \<and> (m - 4) mod 8 < 4)" using True sub4_mod [of m] by (meson leD)
  ultimately show ?thesis
    by (auto simp: bit_simps hi lo add.commute dest: bit_imp_le_length)
next
  case False
  then have "nibble m = m - 4" by (simp add: nibble_def)
  moreover have "\<not> 4 \<le> (m + 4) mod 8" using False add4_mod [of m] by linarith
  moreover have "4 \<le> m" using False mod8_le [of m] by linarith
  moreover from this have "(m - 4) mod 8 < 4" using False sub4_mod [of m] by linarith
  ultimately show ?thesis
    by (auto simp: bit_simps hi lo add.commute dest: bit_imp_le_length)
qed

lemma bit_codec64: "bit (codec64 w) m \<longleftrightarrow> m < LENGTH(64) \<and> bit w (nibble m)"
  unfolding codec64_def Let_def by (rule bit_swap [OF bit_hi64 bit_lo64])

lemma bit_codec32: "bit (codec32 w) m \<longleftrightarrow> m < LENGTH(32) \<and> bit w (nibble m)"
  unfolding codec32_def Let_def by (rule bit_swap [OF bit_hi32 bit_lo32])

lemma nibble_byte: "n < 8 \<Longrightarrow> nibble (8 * k + n) = 8 * k + (if n < 4 then n + 4 else n - 4)"
  by (simp add: nibble_def)

text \<open>Every step that moves bits by \<open>nibble\<close> acts on each byte by \<open>codec8\<close>.\<close>

lemma wide_step:
  fixes f :: "'a :: len word \<Rightarrow> 'a word"
  assumes step: "\<And>w m. bit (f w) m \<longleftrightarrow> m < LENGTH('a) \<and> bit w (nibble m)"
    and len: "8 * length bs = LENGTH('a)"
  shows "mem_le (length bs) (f (load_le bs)) = map codec8 bs"
proof (rule nth_equalityI)
  fix k assume "k < length (mem_le (length bs) (f (load_le bs)))"
  then have k: "k < length bs" by simp
  have "bit (ucast (drop_bit (8 * k) (f (load_le bs))) :: byte) n \<longleftrightarrow> bit (codec8 (bs ! k)) n"
    if n: "n < 8" for n
  proof -
    define p where "p = (if n < 4 then n + 4 else n - 4)"
    have p: "p < 8" and nib: "nibble (8 * k + n) = 8 * k + p"
      using n nibble_byte [OF n] by (auto simp: p_def)
    have idx: "(8 * k + p) div 8 = k" "(8 * k + p) mod 8 = p"
      using p by simp_all
    have "8 * k + n < LENGTH('a)" "8 * k + p < LENGTH('a)"
      using k n p len by linarith+
    then show ?thesis
      using n k p by (simp add: bit_simps step nib bit_load_le idx bit_codec8 flip: p_def)
  qed
  then have "(ucast (drop_bit (8 * k) (f (load_le bs))) :: byte) = codec8 (bs ! k)"
    by (intro bit_word_eqI) simp
  then show "mem_le (length bs) (f (load_le bs)) ! k = map codec8 bs ! k"
    using k by (simp add: nth_mem_le)
qed simp

text \<open>The buffer with the bytes from \<open>i\<close> to below \<open>j\<close> swapped.\<close>

definition swapped :: "nat \<Rightarrow> nat \<Rightarrow> byte list \<Rightarrow> byte list" where
  "swapped i j buf =
     map (\<lambda>k. if i \<le> k \<and> k < j then codec8 (buf ! k) else buf ! k) [0..<length buf]"

lemma length_swapped [simp]: "length (swapped i j buf) = length buf"
  by (simp add: swapped_def)

lemma nth_swapped:
  "k < length buf \<Longrightarrow>
   swapped i j buf ! k = (if i \<le> k \<and> k < j then codec8 (buf ! k) else buf ! k)"
  by (simp add: swapped_def)

lemma swapped_swapped: "i \<le> j \<Longrightarrow> j \<le> k \<Longrightarrow> swapped j k (swapped i j buf) = swapped i k buf"
  by (rule nth_equalityI) (auto simp: nth_swapped)

lemma swapped_none [simp]: "swapped i i buf = buf"
  by (rule nth_equalityI) (auto simp: nth_swapped)

lemma swapped_all: "swapped 0 n buf = map codec8 (take n buf) @ drop n buf"
  by (rule nth_equalityI) (auto simp: nth_swapped nth_append)

lemma swapped_involution [simp]: "swapped i j (swapped i j buf) = buf"
  by (rule nth_equalityI) (auto simp: nth_swapped)

lemma put_swapped:
  "i + n \<le> length buf \<Longrightarrow> put_bytes buf i (map codec8 (take n (drop i buf))) = swapped i (i + n) buf"
  by (rule nth_equalityI) (auto simp: put_bytes_def nth_swapped nth_append)

lemma get_bytes_Some: "get_bytes buf i n = Some bs \<longleftrightarrow> i + n \<le> length buf \<and> bs = take n (drop i buf)"
  by (auto simp: get_bytes_def)

lemma step64:
  assumes "get_bytes buf i 8 = Some bs"
  shows "put_bytes buf i (mem_le 8 (codec64 (load_le bs))) = swapped i (i + 8) buf"
proof -
  from assms have "length bs = 8" by (auto simp: get_bytes_Some)
  with wide_step [of codec64 bs, OF bit_codec64] have "mem_le 8 (codec64 (load_le bs)) = map codec8 bs"
    by simp
  with assms show ?thesis by (simp add: get_bytes_Some put_swapped)
qed

lemma step32:
  assumes "get_bytes buf i 4 = Some bs"
  shows "put_bytes buf i (mem_le 4 (codec32 (load_le bs))) = swapped i (i + 4) buf"
proof -
  from assms have "length bs = 4" by (auto simp: get_bytes_Some)
  with wide_step [of codec32 bs, OF bit_codec32] have "mem_le 4 (codec32 (load_le bs)) = map codec8 bs"
    by simp
  with assms show ?thesis by (simp add: get_bytes_Some put_swapped)
qed

lemma step8:
  assumes "get_bytes buf i 1 = Some bs"
  shows "put_bytes buf i [codec8 (hd bs)] = swapped i (i + 1) buf"
proof -
  from assms have "[codec8 (hd bs)] = map codec8 (take 1 (drop i buf))"
    by (cases "drop i buf") (auto simp: get_bytes_Some)
  with assms show ?thesis by (simp only: get_bytes_Some put_swapped)
qed

subsection \<open>The loops\<close>

lemma loop64_result:
  "codec_loop64 sz i buf = Some (j, buf') \<Longrightarrow>
   buf' = swapped i j buf \<and> i \<le> j \<and> (j = i \<or> int j < sz)"
proof (induction sz i buf rule: codec_loop64.induct)
  case (1 sz i buf)
  show ?case
  proof (cases "int i + 8 < sz")
    case True
    with "1.prems" obtain bs where bs: "get_bytes buf i 8 = Some bs"
      by (subst (asm) codec_loop64.simps) (auto split: option.splits)
    with True "1.prems" have "codec_loop64 sz (i + 8) (swapped i (i + 8) buf) = Some (j, buf')"
      by (subst (asm) codec_loop64.simps) (simp add: step64)
    with "1.IH" [OF True bs] True show ?thesis
      by (auto simp: step64 [OF bs] swapped_swapped)
  next
    case False
    with "1.prems" show ?thesis
      by (subst (asm) codec_loop64.simps) simp
  qed
qed

lemma loop32_result:
  "codec_loop32 sz i buf = Some (j, buf') \<Longrightarrow>
   buf' = swapped i j buf \<and> i \<le> j \<and> (j = i \<or> int j < sz)"
proof (induction sz i buf rule: codec_loop32.induct)
  case (1 sz i buf)
  show ?case
  proof (cases "int i + 4 < sz")
    case True
    with "1.prems" obtain bs where bs: "get_bytes buf i 4 = Some bs"
      by (subst (asm) codec_loop32.simps) (auto split: option.splits)
    with True "1.prems" have "codec_loop32 sz (i + 4) (swapped i (i + 4) buf) = Some (j, buf')"
      by (subst (asm) codec_loop32.simps) (simp add: step32)
    with "1.IH" [OF True bs] True show ?thesis
      by (auto simp: step32 [OF bs] swapped_swapped)
  next
    case False
    with "1.prems" show ?thesis
      by (subst (asm) codec_loop32.simps) simp
  qed
qed

lemma loop64_total: "sz \<le> int (length buf) \<Longrightarrow> codec_loop64 sz i buf \<noteq> None"
proof (induction sz i buf rule: codec_loop64.induct)
  case (1 sz i buf)
  show ?case
  proof (cases "int i + 8 < sz")
    case True
    with "1.prems" obtain bs where bs: "get_bytes buf i 8 = Some bs"
      by (auto simp: get_bytes_def)
    with "1.IH" [OF True bs] "1.prems" True show ?thesis
      by (subst codec_loop64.simps) (simp add: step64 [OF bs])
  next
    case False
    then show ?thesis by (subst codec_loop64.simps) simp
  qed
qed

lemma loop32_total: "sz \<le> int (length buf) \<Longrightarrow> codec_loop32 sz i buf \<noteq> None"
proof (induction sz i buf rule: codec_loop32.induct)
  case (1 sz i buf)
  show ?case
  proof (cases "int i + 4 < sz")
    case True
    with "1.prems" obtain bs where bs: "get_bytes buf i 4 = Some bs"
      by (auto simp: get_bytes_def)
    with "1.IH" [OF True bs] "1.prems" True show ?thesis
      by (subst codec_loop32.simps) (simp add: step32 [OF bs])
  next
    case False
    then show ?thesis by (subst codec_loop32.simps) simp
  qed
qed

lemma loop8_eq:
  "codec_loop8 sz i buf =
     (if sz \<le> int i then Some buf
      else if sz \<le> int (length buf) then Some (swapped i (nat sz) buf) else None)"
proof (induction sz i buf rule: codec_loop8.induct)
  case (1 sz i buf)
  show ?case
  proof (cases "int i < sz \<and> i + 1 \<le> length buf")
    case True
    then obtain bs where bs: "get_bytes buf i 1 = Some bs"
      by (auto simp: get_bytes_def)
    have "swapped (i + 1) (nat sz) (swapped i (i + 1) buf) = swapped i (nat sz) buf"
      using True by (intro swapped_swapped) auto
    moreover have "swapped i (i + 1) buf = swapped i (nat sz) buf" if "sz \<le> int i + 1"
      using that True by (intro arg_cong [of _ _ "\<lambda>j. swapped i j buf"]) linarith
    moreover have "codec_loop8 sz i buf = codec_loop8 sz (i + 1) (swapped i (i + 1) buf)"
      using True by (subst codec_loop8.simps) (simp only: bs step8 [OF bs] option.case if_True)
    moreover note "1.IH" [OF _ bs, unfolded step8 [OF bs]] True
    ultimately show ?thesis by (auto split: if_splits)
  next
    case False
    then show ?thesis
      by (subst codec_loop8.simps) (auto simp: get_bytes_def)
  qed
qed

text \<open>The codec in closed form: every byte below the size has its nibbles swapped.\<close>

lemma fast_encode_eq:
  "fast_encode buf sz =
     (if sz \<le> int (length buf) then Some (swapped 0 (nat sz) buf) else None)"
proof (cases "codec_loop64 sz 0 buf")
  case None
  with loop64_total [of sz buf 0] show ?thesis
    by (auto simp: fast_encode_def)
next
  case (Some r)
  then obtain j b where r: "codec_loop64 sz 0 buf = Some (j, b)"
    by (cases r) simp
  note j = loop64_result [OF r]
  show ?thesis
  proof (cases "codec_loop32 sz j b")
    case None
    with loop32_total [of sz b j] j r show ?thesis
      by (auto simp: fast_encode_def)
  next
    case (Some q)
    then obtain k c where q: "codec_loop32 sz j b = Some (k, c)"
      by (cases q) simp
    note k = loop32_result [OF q]
    have c: "c = swapped 0 k buf" and "k = 0 \<or> int k < sz"
      using j k by (auto simp: swapped_swapped)
    with r q show ?thesis
      by (auto simp: fast_encode_def loop8_eq swapped_swapped)
  qed
qed

subsection \<open>The contract of a codec\<close>

locale codec_contract =
  fixes encode decode :: "byte list \<Rightarrow> int \<Rightarrow> byte list option"
  assumes encode_total: "sz \<le> int (length buf) \<Longrightarrow> \<exists>buf'. encode buf sz = Some buf'"
    and encode_length: "encode buf sz = Some buf' \<Longrightarrow> length buf' = length buf"
    and encode_tail: "encode buf sz = Some buf' \<Longrightarrow> drop (nat sz) buf' = drop (nat sz) buf"
    and decode_encode: "encode buf sz = Some buf' \<Longrightarrow> decode buf' sz = Some buf"
begin

lemma transmit:
  assumes "sz \<le> int (length buf)"
  shows "Option.bind (encode buf sz) (\<lambda>b. decode b sz) = Some buf"
  using encode_total [OF assms] decode_encode [of buf sz] by auto

lemma encode_inj:
  assumes "encode a sz = Some b" and "encode a' sz = Some b"
  shows "a = a'"
  using decode_encode [OF assms(1)] decode_encode [OF assms(2)] by simp

end

interpretation null_codec: codec_contract null_encode null_decode
  by unfold_locales (simp_all add: null_encode_def null_decode_def)

interpretation fast_codec: codec_contract fast_encode fast_decode
  by unfold_locales
    (auto simp: fast_encode_eq fast_decode_def swapped_all comp_def split: if_splits)

text \<open>
  C28: The three loops of the fast codec together swap the two nibbles of every byte of the
  buffer below the size, in whatever way the size falls between the widths, and leave the
  rest alone; a size beyond the buffer is the only way to touch memory outside it.
\<close>

theorem fast_encode_nibbles:
  "fast_encode buf sz =
     (if sz \<le> int (length buf)
      then Some (map (\<lambda>b. push_bit 4 b OR drop_bit 4 b) (take (nat sz) buf) @ drop (nat sz) buf)
      else None)"
  by (simp add: fast_encode_eq swapped_all codec8_def cong: map_cong)

text \<open>
  What the fast codec encodes at one end the other end decodes to the same bytes, and the
  encoded buffer has the same length.
\<close>

theorem fast_codec_roundtrip:
  assumes "sz \<le> int (length buf)"
  shows "\<exists>b. fast_encode buf sz = Some b \<and> length b = length buf \<and> fast_decode b sz = Some buf"
proof -
  obtain b where b: "fast_encode buf sz = Some b"
    using fast_codec.encode_total [OF assms] by blast
  with fast_codec.encode_length [OF b] fast_codec.decode_encode [OF b] show ?thesis
    by simp
qed

theorem fast_codec_roundtrip_witness:
  "\<exists>b. fast_encode [1, 2, 0xab, 4, 5, 6] 6 = Some b \<and> length b = 6 \<and>
     fast_decode b 6 = Some [1, 2, 0xab, 4, 5, 6]"
  using fast_codec_roundtrip [of 6 "[1, 2, 0xab, 4, 5, 6]"] by (simp add: eval_nat_numeral)

end
