(* ===== verification/Proxy.thy ===== *)
theory Proxy
  imports Udp Socks5 Fast_Codec
begin

section \<open>The two proxies (source/kcpss.cpp, lines 31 to 184)\<close>

text \<open>
  The client accepts socks5 connections and gives each a session id; the server opens the
  connections the requests ask for. Their worlds extend that of the UDP side by their maps.
  The operations that channels and sockets call back (\<open>client_rd\<close>, \<open>client_sess\<close>, \<open>server_rd\<close>,
  \<open>server_sess\<close>, \<open>server_disc\<close>) interpret the closures kcpss.cpp installs, and \<open>client_timer\<close>,
  \<open>client_io\<close>, \<open>server_timer\<close>, \<open>server_io\<close> are one event of the loop.

  The server's map from keys to channels is the list of its entries in the order of the
  iteration in \<open>rmMap\<close>; the order is of no consequence, as no two entries have the same
  channel. \<open>e_mem\<close> is what follows the string literal \<open>"kcpss"\<close> in memory: the heartbeat
  sends the size of a pointer, eight bytes, from it.
\<close>

unbundle bit_operations_syntax

datatype codec = Null_codec | Fast_codec

fun codec_encode :: "codec \<Rightarrow> byte list \<Rightarrow> int \<Rightarrow> byte list option" where
  "codec_encode Null_codec buf n = null_encode buf n"
| "codec_encode Fast_codec buf n = fast_encode buf n"

fun codec_decode :: "codec \<Rightarrow> byte list \<Rightarrow> int \<Rightarrow> byte list option" where
  "codec_decode Null_codec buf n = null_decode buf n"
| "codec_decode Fast_codec buf n = fast_decode buf n"

record proxy_config =
  cfg_local :: "byte list"
  cfg_remote :: "byte list"
  remote_codec :: codec

definition heartbeat_sid :: int where "heartbeat_sid = - 1989"

record client = udp_world +
  c_codec :: codec
  c_channels :: "int \<rightharpoonup> ptr"
  max_sid :: int
  c_acc :: acceptor

record server = udp_world +
  s_codec :: codec
  s_channels :: "(u64 \<times> ptr) list"

text \<open>
  \<open>Channel::write (channel, buffer, size)\<close> with the size the peer announced, which need not fit
  the buffer. A size beyond the block is a read outside it. A negative size reads nothing: the
  insertion into \<open>send_buffer_\<close> throws \<open>std::length_error\<close>, which nobody catches, \<open>ikcp_send\<close>
  refuses it, and \<open>write\<close>, which takes it as a count above \<open>SSIZE_MAX\<close>, fails with -1 and sends
  nothing (\<open>bytes_write_\<close> has been decreased by then).
\<close>

definition Channel_write_negative ::
  "env \<Rightarrow> ptr \<Rightarrow> int \<Rightarrow> 'z world_scheme \<Rightarrow> (int \<times> 'z world_scheme) option" where
  "Channel_write_negative e c n w = do {
     ch \<leftarrow> chan_mem w c;
     if \<not> connected ch then None
     else do {
       w \<leftarrow> upd_chan c (\<lambda>ch. ch\<lparr>bytes_write := bytes_write ch + word_of_int n\<rparr>) w;
       case ch_kcp ch of
         Some kcp \<Rightarrow> do {
           (r, kcp) \<leftarrow> ikcp_send (e_alloc e) kcp (Some []) n;
           w \<leftarrow> upd_chan c (\<lambda>ch. ch\<lparr>ch_kcp := Some kcp\<rparr>) w;
           Some (r, w)}
       | None \<Rightarrow> Some (- 1, w)}}"

definition static_write_mem ::
  "env \<Rightarrow> ptr \<Rightarrow> byte list \<Rightarrow> int \<Rightarrow> 'z world_scheme \<Rightarrow> (int \<times> 'z world_scheme) option" where
  "static_write_mem e c mem n w =
     (if c \<notin> chan_set w then Some (0, w)
      else if n < 0 then Channel_write_negative e c n w
      else if n \<le> int (length mem) then Channel_write e c (take (nat n) mem) w
      else None)"

text \<open>Decoding happens in the segment buffer, behind the session header.\<close>

definition set_payload :: "byte list \<Rightarrow> 'z udp_world_scheme \<Rightarrow> 'z udp_world_scheme" where
  "set_payload mem w = w\<lparr>segment := take SessionHeaderSize (segment w) @ mem\<rparr>"

subsection \<open>The client (lines 39 to 95)\<close>

definition client_channel :: "int \<Rightarrow> client \<Rightarrow> ptr \<times> client" where
  "client_channel sid w =
     (case c_channels w sid of
        Some c \<Rightarrow> (c, w)
      | None \<Rightarrow> (0, w\<lparr>c_channels := (c_channels w)(sid \<mapsto> 0)\<rparr>))"

definition client_heartbeat :: "env \<Rightarrow> byte list \<Rightarrow> client \<Rightarrow> (int \<times> client) option" where
  "client_heartbeat e e_mem w =
     (let kcpss = bytes ''kcpss'' @ [0] @ e_mem
      in if length kcpss < 8 then None else udp_send e heartbeat_sid (take 8 kcpss) w)"

definition client_remote_in :: "env \<Rightarrow> u32 \<Rightarrow> int \<Rightarrow> int \<Rightarrow> client \<Rightarrow> (int \<times> client) option" where
  "client_remote_in e cv sid n w =
     (if sid = heartbeat_sid then Some (0, w)
      else do {
        mem \<leftarrow> codec_decode (c_codec w) (seg_payload (segment w)) n;
        let w = set_payload mem w;
        (case c_channels w sid of
           Some c \<Rightarrow> static_write_mem e c mem n w
         | None \<Rightarrow> Some (- 1, w))})"

definition client_local_in :: "env \<Rightarrow> int \<Rightarrow> byte list \<Rightarrow> client \<Rightarrow> (int \<times> client) option" where
  "client_local_in e sid buf w =
     (if is_hello buf (int (length buf))
      then do {
        (buf, n) \<leftarrow> echo_hello buf;
        let (c, w) = client_channel sid w;
        static_write_mem e c buf n w}
      else do {
        buf \<leftarrow> codec_encode (c_codec w) buf (int (length buf));
        udp_send e sid buf w})"

definition client_accepted :: "ptr \<Rightarrow> client \<Rightarrow> client option" where
  "client_accepted c w =
     (let sid = max_sid w
      in if sid = 2 ^ 31 - 1 then None
         else set_read_callback c (Local_in sid)
                (w\<lparr>max_sid := sid + 1, c_channels := (c_channels w)(sid \<mapsto> c)\<rparr>))"

fun client_rd :: "env \<Rightarrow> read_cb \<Rightarrow> byte list \<Rightarrow> client \<Rightarrow> client option" where
  "client_rd e (Local_in sid) buf w = map_option snd (client_local_in e sid buf w)"
| "client_rd e (Remote_in cv sid) buf w = Some w"

definition client_disc :: "disc_cb \<Rightarrow> ptr \<Rightarrow> client \<Rightarrow> client option" where
  "client_disc cb c w = Some w"

definition client_sess :: "env \<Rightarrow> u32 \<Rightarrow> int \<Rightarrow> int \<Rightarrow> client \<Rightarrow> client option" where
  "client_sess e cv sid n w = map_option snd (client_remote_in e cv sid n w)"

definition client_timer :: "env \<Rightarrow> byte list \<Rightarrow> ptr \<Rightarrow> client \<Rightarrow> client option" where
  "client_timer e e_mem p w = do {
     (cb, evId) \<leftarrow> timer_callback (react w) p;
     let w = set_react (timer_fired (react w) p) w;
     (case cb of
        Cb_channel_connect c cv \<Rightarrow> map_option snd (Channel_on_connect e client_disc c cv w)
      | Cb_channel_check c \<Rightarrow> check_connections c w
      | Cb_channel_kcp c \<Rightarrow> Channel_update_kcp e c w
      | Cb_kcp_update k \<Rightarrow> kcp_tick e udp_write k w
      | Cb_heartbeat \<Rightarrow> map_option snd (client_heartbeat e e_mem w)
      | _ \<Rightarrow> Some w)}"

text \<open>What the system answers to the calls of one readable event, by the kind of watcher.\<close>

record io_env =
  io_reads :: "byte list list"
  io_recv :: "recv_result list"
  io_accept :: int
  io_stale :: "byte list"

definition client_io :: "env \<Rightarrow> io_env \<Rightarrow> ptr \<Rightarrow> client \<Rightarrow> client option" where
  "client_io e io p w = do {
     (cb, fd) \<leftarrow> io_callback (react w) p;
     (case cb of
        Cb_channel_read c \<Rightarrow> Channel_read e client_disc (client_rd e) c (io_reads io) w
      | Cb_udp_read \<Rightarrow> udp_read_socket e (udp_on_read e (client_sess e)) (io_recv io) w
      | Cb_accept \<Rightarrow> Acceptor_accept e client_disc client_accepted (c_acc w) (io_accept io) w
      | _ \<Rightarrow> Some w)}"

definition proxy_client_new ::
  "env \<Rightarrow> u32 \<Rightarrow> byte list \<Rightarrow> byte list \<Rightarrow> codec \<Rightarrow> client \<Rightarrow> client option" where
  "proxy_client_new e cv local remote cd w = do {
     w \<leftarrow> udp_new e cv local (Some remote) w;
     let w = set_session_callback (w\<lparr>c_codec := cd, max_sid := 0, c_channels := Map.empty\<rparr>);
     Some (set_react (RegisterTimer (react w) Cb_heartbeat 19890 1000 0) w)}"

subsection \<open>The server (lines 97 to 169)\<close>

definition proxy_key :: "u32 \<Rightarrow> int \<Rightarrow> u64" where
  "proxy_key cv sid = push_bit 32 (ucast cv) OR ucast (word_of_int sid :: u32)"

fun erase_first :: "ptr \<Rightarrow> (u64 \<times> ptr) list \<Rightarrow> (u64 \<times> ptr) list" where
  "erase_first c [] = []"
| "erase_first c (kv # kvs) = (if snd kv = c then kvs else kv # erase_first c kvs)"

fun server_disc :: "disc_cb \<Rightarrow> ptr \<Rightarrow> server \<Rightarrow> server option" where
  "server_disc Rm_map c w = Some (w\<lparr>s_channels := erase_first c (s_channels w)\<rparr>)"

text \<open>Lines 123 to 144: open the connection; an exit of \<open>create_tcp\<close> ends the process.\<close>

definition server_open :: "env \<Rightarrow> u32 \<Rightarrow> int \<Rightarrow> u64 \<Rightarrow> endpoint \<Rightarrow> server \<Rightarrow> server option" where
  "server_open e cv sid key target w =
     (case create_tcp (e_sock e (used_fd w)) target of
        (Exit _, calls) \<Rightarrow> None
      | (Got fd, calls) \<Rightarrow> do {
          (c, w) \<leftarrow> Channel_new e server_disc fd (- 1) (add_trace (map Ev_sock calls) w);
          w \<leftarrow> set_read_callback c (Remote_in (sint cv) sid) w;
          w \<leftarrow> set_disconnect_callback c Rm_map w;
          Some (w\<lparr>s_channels := s_channels w @ [(key, c)]\<rparr>)})"

definition server_local_in :: "env \<Rightarrow> u32 \<Rightarrow> int \<Rightarrow> int \<Rightarrow> server \<Rightarrow> (int \<times> server) option" where
  "server_local_in e cv sid n w =
     (if sid = heartbeat_sid then Some (0, w)
      else do {
        mem \<leftarrow> codec_decode (s_codec w) (seg_payload (segment w)) n;
        let w = set_payload mem w;
        let key = proxy_key cv sid;
        (case map_of (s_channels w) key of
           Some c \<Rightarrow> static_write_mem e c mem n w
         | None \<Rightarrow> do {
             (target, mem) \<leftarrow> parser_endpoint_from_request (e_lib e) mem n;
             let w = set_payload mem w;
             let is_ok = (\<not> endpoint_is_null target);
             w \<leftarrow> (if is_ok then server_open e cv sid key target w else Some w);
             (rsp_size, rsp) \<leftarrow> prepare_response (map (alloc_byte (e_alloc e)) [0..<16]) is_ok;
             rsp \<leftarrow> codec_encode (s_codec w) rsp rsp_size;
             server_send e cv sid (take (nat rsp_size) rsp) w})})"

definition server_remote_in :: "env \<Rightarrow> u32 \<Rightarrow> byte list \<Rightarrow> int \<Rightarrow> server \<Rightarrow> (int \<times> server) option" where
  "server_remote_in e cv buf sid w = do {
     buf \<leftarrow> codec_encode (s_codec w) buf (int (length buf));
     server_send e cv sid buf w}"

fun server_rd :: "env \<Rightarrow> read_cb \<Rightarrow> byte list \<Rightarrow> server \<Rightarrow> server option" where
  "server_rd e (Local_in sid) buf w = Some w"
| "server_rd e (Remote_in cv sid) buf w = map_option snd (server_remote_in e (word_of_int cv) buf sid w)"

definition server_sess :: "env \<Rightarrow> u32 \<Rightarrow> int \<Rightarrow> int \<Rightarrow> server \<Rightarrow> server option" where
  "server_sess e cv sid n w = map_option snd (server_local_in e cv sid n w)"

definition server_timer :: "env \<Rightarrow> ptr \<Rightarrow> server \<Rightarrow> server option" where
  "server_timer e p w = do {
     (cb, evId) \<leftarrow> timer_callback (react w) p;
     let w = set_react (timer_fired (react w) p) w;
     (case cb of
        Cb_channel_connect c cv \<Rightarrow> map_option snd (Channel_on_connect e server_disc c cv w)
      | Cb_channel_check c \<Rightarrow> check_connections c w
      | Cb_channel_kcp c \<Rightarrow> Channel_update_kcp e c w
      | Cb_kcp_update k \<Rightarrow> kcp_tick e server_write k w
      | _ \<Rightarrow> Some w)}"

definition server_io :: "env \<Rightarrow> io_env \<Rightarrow> ptr \<Rightarrow> server \<Rightarrow> server option" where
  "server_io e io p w = do {
     (cb, fd) \<leftarrow> io_callback (react w) p;
     (case cb of
        Cb_channel_read c \<Rightarrow> Channel_read e server_disc (server_rd e) c (io_reads io) w
      | Cb_udp_read \<Rightarrow>
          udp_read_socket e (server_on_read e (io_stale io) (server_sess e)) (io_recv io) w
      | _ \<Rightarrow> Some w)}"

definition proxy_server_new :: "env \<Rightarrow> u32 \<Rightarrow> byte list \<Rightarrow> codec \<Rightarrow> server \<Rightarrow> server option" where
  "proxy_server_new e cv local cd w = do {
     w \<leftarrow> udp_new e cv local None w;
     Some (set_session_callback (w\<lparr>s_codec := cd, s_channels := []\<rparr>))}"

definition proxy_server_start :: "server \<Rightarrow> server" where
  "proxy_server_start w = add_trace [Ev_run] w"

subsection \<open>Starting (lines 171 to 184)\<close>

definition empty_world :: world where
  "empty_world = \<lparr>react = Reactor_new, chan_mem = Map.empty, chan_set = {}, trace = []\<rparr>"

definition empty_udp :: udp_world where
  "empty_udp = world.extend empty_world
     (udp_world.fields 0 None None False [] Map.empty 1 Map.empty Map.empty Map.empty)"

definition empty_server :: server where
  "empty_server = udp_world.extend empty_udp (server.fields Null_codec [])"

definition empty_client :: client where
  "empty_client = udp_world.extend empty_udp (client.fields Null_codec Map.empty 0 Acceptor_new)"

definition start_server :: "env \<Rightarrow> u32 \<Rightarrow> proxy_config \<Rightarrow> server option" where
  "start_server e cv cfg = do {
     w \<leftarrow> proxy_server_new e cv (cfg_local cfg) (remote_codec cfg) empty_server;
     Some (proxy_server_start w)}"

definition start_client :: "env \<Rightarrow> listen_os \<Rightarrow> u32 \<Rightarrow> proxy_config \<Rightarrow> client option" where
  "start_client e os cv cfg = do {
     ep \<leftarrow> endpoint_path (e_lib e) (cfg_local cfg);
     (_, acc, w) \<leftarrow> Acceptor_listen os (ep_port ep) Acceptor_new empty_client;
     w \<leftarrow> proxy_client_new e cv (cfg_local cfg) (cfg_remote cfg) (remote_codec cfg) w;
     Some (Acceptor_start (w\<lparr>c_acc := Acceptor_set_connect_callback acc Accepted\<rparr>))}"

end
