(* ===== verification/Channel_Life.thy ===== *)
theory Channel_Life
  imports Channel
begin

section \<open>The life of a channel\<close>

text \<open>
  A channel is created, tries to connect at most ten more times, carries data, is
  disconnected and deleted by a check timer. \<open>life_ok X w\<close> is the invariant of a world of
  channels: the set \<open>channels_\<close> is the set of live channels; each has a descriptor of its own
  below 1000 and a watcher that reads it; a timer or watcher that is armed for a channel
  belongs to a live one, at the key the code will remove it by; and a channel that is not
  connected, outside of \<open>X\<close>, has exactly one timer pending, to retry or to be deleted. \<open>X\<close>
  is the channel an operation is working on.

  The locale \<open>channel_hooks\<close> is what the channels ask of the callbacks of their client: they do
  not fail and change no channel but for what it buffers and counts. In it every event of a
  channel is shown to return and to keep the invariant.
\<close>

definition armed :: "'z world_scheme \<Rightarrow> ptr \<Rightarrow> callback ev_timer \<Rightarrow> bool" where
  "armed w p t \<longleftrightarrow> timer_mem (react w) p = Some t \<and> ti_active t"

definition chan_ok :: "'z world_scheme \<Rightarrow> ptr \<Rightarrow> channel \<Rightarrow> bool" where
  "chan_ok w c ch \<longleftrightarrow> 0 \<le> ch_fd ch \<and> ch_fd ch < 1000 \<and> ch_kcp ch = None \<and> 0 \<le> reconnect_count ch \<and>
     io_at (react w) (ch_fd ch) = Some (Cb_channel_read c)"

definition timer_ok :: "'z world_scheme \<Rightarrow> ptr \<Rightarrow> callback ev_timer \<Rightarrow> bool" where
  "timer_ok w p t \<longleftrightarrow>
     (\<forall>c k. ti_handler t = Cb_channel_connect c k \<longrightarrow>
        (\<exists>ch. chan_mem w c = Some ch \<and> \<not> connected ch \<and> 0 < reconnect_count ch \<and> ti_repeat t = 0 \<and>
           timers (react w) (1000 + ch_fd ch) = Some p)) \<and>
     (\<forall>c. ti_handler t = Cb_channel_check c \<longrightarrow>
        (\<exists>ch. chan_mem w c = Some ch \<and> \<not> connected ch \<and> ti_repeat t = 0 \<and>
           timers (react w) (2000 + ch_fd ch) = Some p))"

definition io_ok :: "'z world_scheme \<Rightarrow> ptr \<Rightarrow> callback ev_io \<Rightarrow> bool" where
  "io_ok w p t \<longleftrightarrow>
     (\<forall>c. io_handler t = Cb_channel_read c \<longrightarrow>
        (\<exists>ch. chan_mem w c = Some ch \<and> ios (react w) (ch_fd ch) = Some p))"

definition retrying :: "'z world_scheme \<Rightarrow> ptr \<Rightarrow> bool" where
  "retrying w c \<longleftrightarrow> (\<exists>p t k. armed w p t \<and> ti_handler t = Cb_channel_connect c k)"

definition closing :: "'z world_scheme \<Rightarrow> ptr \<Rightarrow> bool" where
  "closing w c \<longleftrightarrow> (\<exists>p t. armed w p t \<and> ti_handler t = Cb_channel_check c)"

definition life_ok :: "ptr set \<Rightarrow> 'z world_scheme \<Rightarrow> bool" where
  "life_ok X w \<longleftrightarrow>
     reactor_ok (react w) \<and> chan_set w = dom (chan_mem w) \<and> finite (dom (chan_mem w)) \<and> 0 \<notin> dom (chan_mem w) \<and>
     (\<forall>c ch. chan_mem w c = Some ch \<longrightarrow> chan_ok w c ch) \<and>
     (\<forall>p t. armed w p t \<longrightarrow> timer_ok w p t) \<and>
     (\<forall>p t. io_mem (react w) p = Some t \<longrightarrow> io_ok w p t) \<and>
     (\<forall>c. \<not> (retrying w c \<and> closing w c)) \<and>
     (\<forall>c ch. chan_mem w c = Some ch \<longrightarrow> \<not> connected ch \<longrightarrow> c \<notin> X \<longrightarrow> retrying w c \<or> closing w c)"

definition idle :: "'z world_scheme \<Rightarrow> ptr \<Rightarrow> bool" where
  "idle w c \<longleftrightarrow> \<not> retrying w c \<and> \<not> closing w c"

subsection \<open>What the invariant says\<close>

lemma life_chan:
  assumes "life_ok X w" and "chan_mem w c = Some ch"
  shows "0 \<le> ch_fd ch" "ch_fd ch < 1000" "ch_kcp ch = None" "0 \<le> reconnect_count ch"
    "io_at (react w) (ch_fd ch) = Some (Cb_channel_read c)"
  using assms by (auto simp: life_ok_def chan_ok_def)

lemma life_fd_inj:
  assumes "life_ok X w" and "chan_mem w c = Some ch" and "chan_mem w c' = Some ch'"
    and "ch_fd ch = ch_fd ch'"
  shows "c = c'"
  using life_chan(5) [OF assms(1,2)] life_chan(5) [OF assms(1,3)] assms(4) by simp

lemma life_connected_idle:
  assumes "life_ok X w" and "chan_mem w c = Some ch" and "connected ch"
  shows "idle w c"
  using assms by (fastforce simp: life_ok_def idle_def retrying_def closing_def timer_ok_def)

lemma life_dead_idle:
  assumes "life_ok X w" and "chan_mem w c = None"
  shows "idle w c"
  using assms by (fastforce simp: life_ok_def idle_def retrying_def closing_def timer_ok_def)

lemma life_mono: "life_ok X w \<Longrightarrow> X \<subseteq> Y \<Longrightarrow> life_ok Y w"
  unfolding life_ok_def by blast

subsection \<open>Operations that leave the channels in order\<close>

text \<open>They change what channels buffer and count, and nothing the invariant speaks of.\<close>

definition chan_same :: "channel \<Rightarrow> channel \<Rightarrow> bool" where
  "chan_same ch ch' \<longleftrightarrow> ch_fd ch' = ch_fd ch \<and> (ch_kcp ch' = None \<longleftrightarrow> ch_kcp ch = None) \<and>
     connected ch' = connected ch \<and> reconnect_count ch' = reconnect_count ch \<and>
     disconnect_cb ch' = disconnect_cb ch"

definition keep :: "'z world_scheme \<Rightarrow> 'z world_scheme \<Rightarrow> bool" where
  "keep w w' \<longleftrightarrow> react w' = react w \<and> chan_set w' = chan_set w \<and>
     (\<forall>c. rel_option chan_same (chan_mem w c) (chan_mem w' c))"

lemma chan_same_refl [simp]: "chan_same ch ch"
  by (simp add: chan_same_def)

lemma keep_refl [simp, intro]: "keep w w"
  by (simp add: keep_def option.rel_refl)

lemma keep_trans: "keep w w1 \<Longrightarrow> keep w1 w2 \<Longrightarrow> keep w w2"
proof -
  assume 1: "keep w w1" and 2: "keep w1 w2"
  have "rel_option chan_same (chan_mem w c) (chan_mem w2 c)" for c
  proof -
    have "rel_option chan_same (chan_mem w c) (chan_mem w1 c)" "rel_option chan_same (chan_mem w1 c) (chan_mem w2 c)"
      using 1 2 by (simp_all add: keep_def)
    then show ?thesis
      by (cases "chan_mem w c"; cases "chan_mem w1 c"; cases "chan_mem w2 c") (simp_all add: chan_same_def)
  qed
  with 1 2 show ?thesis by (simp add: keep_def)
qed

lemma keep_upd [simp]:
  "chan_mem w c = Some ch \<Longrightarrow> keep w (w\<lparr>chan_mem := (chan_mem w)(c \<mapsto> ch')\<rparr>) \<longleftrightarrow> chan_same ch ch'"
  by (auto simp: keep_def option.rel_refl)

lemma keep_cong: "react w2 = react w1 \<Longrightarrow> chan_mem w2 = chan_mem w1 \<Longrightarrow> chan_set w2 = chan_set w1 \<Longrightarrow>
    keep w w2 = keep w w1"
  by (simp add: keep_def)

lemma keep_trace [simp]: "keep w (add_trace evs w') = keep w w'"
  by (rule keep_cong) (simp_all add: add_trace_def)

lemma keep_chan:
  assumes "keep w w'" and "chan_mem w c = Some ch"
  obtains ch' where "chan_mem w' c = Some ch'" "chan_same ch ch'"
  using assms unfolding keep_def by (metis option_rel_Some1)

lemma keep_dom: "keep w w' \<Longrightarrow> chan_mem w' c = None \<longleftrightarrow> chan_mem w c = None"
  unfolding keep_def by (metis rel_option_None1 rel_option_None2)

lemma keep_react:
  assumes "keep w w'"
  shows "react w' = react w" "armed w' = armed w" "retrying w' = retrying w" "closing w' = closing w"
    "idle w' = idle w"
  using assms by (auto simp: keep_def armed_def retrying_def closing_def idle_def fun_eq_iff)

lemma life_keep:
  assumes "keep w w'" and "life_ok X w"
  shows "life_ok X w'"
proof -
  have old: "\<exists>ch. chan_mem w c = Some ch \<and> chan_same ch ch'" if "chan_mem w' c = Some ch'" for c ch'
    using assms(1) that unfolding keep_def by (metis option_rel_Some2)
  have new: "\<exists>ch'. chan_mem w' c = Some ch' \<and> chan_same ch ch'" if "chan_mem w c = Some ch" for c ch
    using keep_chan [OF assms(1) that] by blast
  have "dom (chan_mem w') = dom (chan_mem w)"
    using keep_dom [OF assms(1)] by (auto simp: dom_def)
  moreover have "chan_ok w' c ch" if "chan_mem w' c = Some ch" for c ch
    using old [OF that] assms by (auto simp: life_ok_def chan_ok_def chan_same_def keep_def)
  moreover have "timer_ok w' p t" if "armed w' p t" for p t
  proof -
    have "timer_ok w p t" using assms that by (simp add: life_ok_def keep_react(2))
    with new show ?thesis
      unfolding timer_ok_def keep_react(1) [OF assms(1)] chan_same_def by fastforce
  qed
  moreover have "io_ok w' p t" if "io_mem (react w') p = Some t" for p t
  proof -
    have "io_ok w p t" using assms that by (simp add: life_ok_def keep_react(1))
    with new show ?thesis
      unfolding io_ok_def keep_react(1) [OF assms(1)] chan_same_def by fastforce
  qed
  moreover have "retrying w' c \<or> closing w' c"
    if "chan_mem w' c = Some ch" "\<not> connected ch" "c \<notin> X" for c ch
    using old [OF that(1)] that(2,3) assms(2) unfolding keep_react [OF assms(1)]
    by (auto simp: life_ok_def chan_same_def)
  ultimately show ?thesis
    using assms unfolding life_ok_def keep_react [OF assms(1)] by (simp add: keep_def)
qed

subsection \<open>Changes of one channel\<close>

lemma upd_chan_Some:
  "chan_mem w c = Some ch \<Longrightarrow> upd_chan c f w = Some (w\<lparr>chan_mem := (chan_mem w)(c \<mapsto> f ch)\<rparr>)"
  by (simp add: upd_chan_def)

lemma idle_upd [simp]: "idle (w\<lparr>chan_mem := m\<rparr>) c = idle w c"
  by (simp add: idle_def retrying_def closing_def armed_def)

lemma life_upd:
  assumes "life_ok X w" and "chan_mem w c = Some ch"
    and "ch_fd ch' = ch_fd ch" "ch_kcp ch' = ch_kcp ch" "reconnect_count ch \<le> reconnect_count ch'"
    and "connected ch' = connected ch \<or> idle w c \<and> (connected ch' \<or> c \<in> X)"
  shows "life_ok X (w\<lparr>chan_mem := (chan_mem w)(c \<mapsto> ch')\<rparr>)"
proof -
  let ?w = "w\<lparr>chan_mem := (chan_mem w)(c \<mapsto> ch')\<rparr>"
  have armed: "armed ?w = armed w" and timer: "retrying ?w = retrying w" "closing ?w = closing w"
    by (auto simp: fun_eq_iff armed_def retrying_def closing_def)
  have "chan_ok ?w d dh" if "chan_mem ?w d = Some dh" for d dh
    using that assms(3-5) life_chan [OF assms(1,2)] life_chan [OF assms(1), of d dh]
    by (cases "d = c") (auto simp: chan_ok_def)
  moreover have "timer_ok ?w p t" if "armed w p t" for p t
  proof -
    have old: "timer_ok w p t"
      using assms(1) that by (simp add: life_ok_def)
    have "connected ch' = connected ch"
      if "ti_handler t = Cb_channel_check c \<or> (\<exists>k. ti_handler t = Cb_channel_connect c k)"
      using that \<open>armed w p t\<close> assms(6) by (auto simp: idle_def retrying_def closing_def)
    with old assms(2-5) show ?thesis
      by (auto simp: timer_ok_def)
  qed
  moreover have "io_ok ?w p t" if "io_mem (react w) p = Some t" for p t
    using assms(1-3) that by (fastforce simp: life_ok_def io_ok_def)
  moreover have "retrying w d \<or> closing w d"
    if "chan_mem ?w d = Some dh" "\<not> connected dh" "d \<notin> X" for d dh
    using that assms(1,2,6) by (auto simp: life_ok_def split: if_splits)
  moreover have "dom (chan_mem ?w) = dom (chan_mem w)"
    using assms(2) by auto
  ultimately show ?thesis
    using assms(1) unfolding life_ok_def armed timer by simp
qed

subsection \<open>Timers\<close>

lemma armed_register:
  assumes "reactor_ok (react w)"
  shows "armed (set_react (RegisterTimer (react w) h key 0 a) w) p t \<longleftrightarrow>
     (if p = fresh_ptr (react w)
      then t = \<lparr>ti_handler = h, ti_evId = key, ti_after = a, ti_repeat = 0, ti_active = True\<rparr>
      else armed w p t)"
  by (auto simp: armed_def set_react_def RegisterTimer_def Let_def)

lemma timers_register: "timers (RegisterTimer r h key e a) = (timers r)(key \<mapsto> fresh_ptr r)"
  by (simp add: RegisterTimer_def Let_def)

lemma armed_not_fresh: "reactor_ok (react w) \<Longrightarrow> armed w p t \<Longrightarrow> p \<noteq> fresh_ptr (react w)"
  using fresh_unused(3) [of "react w"] by (auto simp: armed_def)

text \<open>Registering the retry or the check of a channel that has no timer pending.\<close>

lemma life_register:
  assumes life: "life_ok X w" and idle: "idle w c" and ch: "chan_mem w c = Some ch" "\<not> connected ch"
    and new: "h = Cb_channel_connect c k \<and> key = 1000 + ch_fd ch \<and> 0 < reconnect_count ch \<or>
      h = Cb_channel_check c \<and> key = 2000 + ch_fd ch"
  shows "life_ok (X - {c}) (set_react (RegisterTimer (react w) h key 0 a) w)"
proof -
  let ?r = "RegisterTimer (react w) h key 0 a"
  let ?w = "set_react ?r w"
  have ok: "reactor_ok (react w)"
    using life by (simp add: life_ok_def)
  have mem [simp]: "chan_mem ?w = chan_mem w" "chan_set ?w = chan_set w" "react ?w = ?r"
    by (simp_all add: set_react_def)
  note armed = armed_register [OF ok, of h key a]
  let ?f = "fresh_ptr (react w)"
  let ?t = "\<lparr>ti_handler = h, ti_evId = key, ti_after = a, ti_repeat = 0, ti_active = True\<rparr>"
  have arm: "armed ?w p t \<longleftrightarrow> p = ?f \<and> t = ?t \<or> armed w p t" for p t
    using armed [of p t] armed_not_fresh [OF ok, of p t] by auto
  have new_armed: "armed ?w ?f ?t" by (simp add: arm)
  have retry: "retrying ?w d \<longleftrightarrow> retrying w d \<or> (\<exists>k. h = Cb_channel_connect d k)" for d
    unfolding retrying_def using new_armed arm by fastforce
  have close: "closing ?w d \<longleftrightarrow> closing w d \<or> h = Cb_channel_check d" for d
    unfolding closing_def using new_armed arm by fastforce
  have "chan_ok ?w d dh" if "chan_mem w d = Some dh" for d dh
    using life_chan [OF life that] by (auto simp: chan_ok_def)
  moreover have "timer_ok ?w p t" if "armed ?w p t" for p t
  proof (cases "p = ?f")
    case True
    then have "t = ?t" using that armed by simp
    with True new ch show ?thesis
      unfolding timer_ok_def mem timers_register by auto
  next
    case False
    then have a: "armed w p t" using that armed by simp
    then have t: "timer_ok w p t" using life by (simp add: life_ok_def)
    have key1: "1000 + ch_fd dh \<noteq> key" if "ti_handler t = Cb_channel_connect d j" "chan_mem w d = Some dh" for d j dh
    proof -
      have "d \<noteq> c" using idle a that(1) by (auto simp: idle_def retrying_def)
      then have "ch_fd dh \<noteq> ch_fd ch"
        using life_fd_inj [OF life that(2) ch(1)] by blast
      then show ?thesis
        using new life_chan(1) [OF life ch(1)] life_chan(2) [OF life that(2)] by auto
    qed
    have key2: "2000 + ch_fd dh \<noteq> key" if "ti_handler t = Cb_channel_check d" "chan_mem w d = Some dh" for d dh
    proof -
      have "d \<noteq> c" using idle a that(1) by (auto simp: idle_def closing_def)
      then have "ch_fd dh \<noteq> ch_fd ch"
        using life_fd_inj [OF life that(2) ch(1)] by blast
      then show ?thesis
        using new life_chan(2) [OF life ch(1)] life_chan(1) [OF life that(2)] by auto
    qed
    show ?thesis
      unfolding timer_ok_def mem timers_register
    proof (intro conjI allI impI)
      fix d j
      assume h: "ti_handler t = Cb_channel_connect d j"
      with t obtain dh where "chan_mem w d = Some dh" "\<not> connected dh" "0 < reconnect_count dh"
          "ti_repeat t = 0" "timers (react w) (1000 + ch_fd dh) = Some p"
        by (auto simp: timer_ok_def)
      with key1 [OF h] show "\<exists>dh. chan_mem w d = Some dh \<and> \<not> connected dh \<and> 0 < reconnect_count dh \<and>
          ti_repeat t = 0 \<and> ((timers (react w))(key \<mapsto> fresh_ptr (react w))) (1000 + ch_fd dh) = Some p"
        by simp
    next
      fix d
      assume h: "ti_handler t = Cb_channel_check d"
      with t obtain dh where "chan_mem w d = Some dh" "\<not> connected dh"
          "ti_repeat t = 0" "timers (react w) (2000 + ch_fd dh) = Some p"
        by (auto simp: timer_ok_def)
      with key2 [OF h] show "\<exists>dh. chan_mem w d = Some dh \<and> \<not> connected dh \<and>
          ti_repeat t = 0 \<and> ((timers (react w))(key \<mapsto> fresh_ptr (react w))) (2000 + ch_fd dh) = Some p"
        by simp
    qed
  qed
  moreover have "io_ok ?w p t" if "io_mem (react w) p = Some t" for p t
    using life that by (auto simp: life_ok_def io_ok_def)
  moreover have "io_mem ?r = io_mem (react w)"
    by (simp add: RegisterTimer_def Let_def)
  moreover have "\<not> (retrying ?w d \<and> closing ?w d)" for d
    using life idle new unfolding retry close by (auto simp: life_ok_def idle_def)
  moreover have "retrying ?w d \<or> closing ?w d" if "chan_mem w d = Some dh" "\<not> connected dh" "d \<notin> X - {c}" for d dh
    using life new that unfolding retry close by (auto simp: life_ok_def)
  ultimately show ?thesis
    using life RegisterTimer_ok [OF ok] unfolding life_ok_def mem by simp
qed

text \<open>A reactor that only lost timers, or got timers that are not a channel's.\<close>

definition chan_handler :: "callback \<Rightarrow> bool" where
  "chan_handler h \<longleftrightarrow> (\<exists>c k. h = Cb_channel_connect c k) \<or> (\<exists>c. h = Cb_channel_check c)"

lemma chan_handler_simps [simp]:
  "chan_handler (Cb_channel_connect c k)" "chan_handler (Cb_channel_check c)"
  "\<not> chan_handler (Cb_kcp_update q)" "\<not> chan_handler Cb_heartbeat"
  "\<not> chan_handler (Cb_channel_kcp c)" "\<not> chan_handler Cb_accept" "\<not> chan_handler Cb_udp_read"
  "\<not> chan_handler (Cb_channel_read c)"
  by (simp_all add: chan_handler_def)

lemma set_react_world [simp]:
  "react (set_react r w) = r" "chan_mem (set_react r w) = chan_mem w" "chan_set (set_react r w) = chan_set w"
  by (simp_all add: set_react_def)

lemma life_timer:
  assumes "life_ok X w" and "armed w p t"
  shows "ti_handler t = Cb_channel_connect c k \<Longrightarrow>
      \<exists>ch. chan_mem w c = Some ch \<and> \<not> connected ch \<and> 0 < reconnect_count ch \<and> ti_repeat t = 0 \<and>
        timers (react w) (1000 + ch_fd ch) = Some p"
    and "ti_handler t = Cb_channel_check c \<Longrightarrow>
      \<exists>ch. chan_mem w c = Some ch \<and> \<not> connected ch \<and> ti_repeat t = 0 \<and>
        timers (react w) (2000 + ch_fd ch) = Some p"
  using assms by (auto simp: life_ok_def timer_ok_def)

lemma life_react:
  assumes life: "life_ok X w" and ok: "reactor_ok r" and XY: "X \<subseteq> Y"
    and io: "ios r = ios (react w)" "io_mem r = io_mem (react w)"
    and sub: "\<And>p t. armed (set_react r w) p t \<Longrightarrow> chan_handler (ti_handler t) \<Longrightarrow> armed w p t"
    and keys: "\<And>p t. armed (set_react r w) p t \<Longrightarrow> chan_handler (ti_handler t) \<Longrightarrow>
      (\<forall>k. timers (react w) k = Some p \<longrightarrow> timers r k = Some p)"
    and sup: "\<And>p t c k. armed w p t \<Longrightarrow> c \<notin> Y \<Longrightarrow> ti_handler t = Cb_channel_connect c k \<or>
      ti_handler t = Cb_channel_check c \<Longrightarrow> armed (set_react r w) p t"
  shows "life_ok Y (set_react r w)"
proof -
  let ?w = "set_react r w"
  have at: "io_at r j = io_at (react w) j" for j
    by (cases "ios (react w) j") (simp_all add: io_at_def io)
  have "chan_ok ?w c ch" if "chan_mem w c = Some ch" for c ch
    using life_chan [OF life that] at by (simp add: chan_ok_def)
  moreover have "timer_ok ?w p t" if a: "armed ?w p t" for p t
  proof (cases "chan_handler (ti_handler t)")
    case True
    note k = keys [OF a True] and t = life_timer [OF life sub [OF a True]]
    show ?thesis
      unfolding timer_ok_def using t k by fastforce
  qed (auto simp: timer_ok_def)
  moreover have "io_ok ?w p t" if "io_mem (react w) p = Some t" for p t
    using life that by (auto simp: life_ok_def io_ok_def io)
  moreover have "retrying w c" if "retrying ?w c" for c
    using that sub unfolding retrying_def by (metis chan_handler_simps(1))
  moreover have "closing w c" if "closing ?w c" for c
    using that sub unfolding closing_def by (metis chan_handler_simps(2))
  moreover have "retrying ?w c \<or> closing ?w c" if "chan_mem w c = Some ch" "\<not> connected ch" "c \<notin> Y" for c ch
  proof -
    have "retrying w c \<or> closing w c"
      using life that XY unfolding life_ok_def by blast
    then show ?thesis
      unfolding retrying_def closing_def using sup [OF _ that(3)] by blast
  qed
  ultimately show ?thesis
    using life ok unfolding life_ok_def by (simp add: io) blast
qed

lemma life_register_other:
  assumes "life_ok X w" and "\<not> chan_handler h" and "key < 1000 \<or> 3000 \<le> key"
  shows "life_ok X (set_react (RegisterTimer (react w) h key e a) w)"
    and "retrying (set_react (RegisterTimer (react w) h key e a) w) = retrying w"
    and "closing (set_react (RegisterTimer (react w) h key e a) w) = closing w"
proof -
  let ?r = "RegisterTimer (react w) h key e a"
  have ok: "reactor_ok (react w)" using assms(1) by (simp add: life_ok_def)
  note fresh = fresh_unused(3) [OF ok]
  have arm: "armed (set_react ?r w) p t \<longleftrightarrow> p = fresh_ptr (react w) \<and> ti_active t \<and> t = \<lparr>ti_handler = h,
      ti_evId = key, ti_after = a, ti_repeat = 1000 * e, ti_active = True\<rparr> \<or> armed w p t" for p t
    using fresh by (auto simp: armed_def RegisterTimer_def Let_def)
  have "\<forall>k. timers (react w) k = Some p \<longrightarrow> timers ?r k = Some p"
    if a: "armed (set_react ?r w) p t" "chan_handler (ti_handler t)" for p t
  proof -
    have old: "armed w p t" using a arm assms(2) by auto
    consider c k where "ti_handler t = Cb_channel_connect c k" | c where "ti_handler t = Cb_channel_check c"
      using a(2) by (auto simp: chan_handler_def)
    then obtain ch c j where j: "chan_mem w c = Some ch" "timers (react w) j = Some p"
        "j = 1000 + ch_fd ch \<or> j = 2000 + ch_fd ch"
      by cases (use life_timer [OF assms(1) old] in blast)+
    then have "j \<noteq> key"
      using life_chan(1,2) [OF assms(1) j(1)] assms(3) by auto
    with j(2) ok show ?thesis
      unfolding timers_register reactor_ok_def by (metis fun_upd_other)
  qed
  moreover have "armed w p t" if "armed (set_react ?r w) p t" "chan_handler (ti_handler t)" for p t
    using that assms(2) arm by auto
  moreover have "armed (set_react ?r w) p t" if "armed w p t" for p t
    using that arm by blast
  moreover have "ios ?r = ios (react w)" "io_mem ?r = io_mem (react w)"
    by (simp_all add: RegisterTimer_def Let_def)
  ultimately show "life_ok X (set_react ?r w)"
    using RegisterTimer_ok [OF ok] by (intro life_react [OF assms(1)]) simp_all
  show "retrying (set_react ?r w) = retrying w"
    using assms(2) by (fastforce simp: fun_eq_iff retrying_def arm)
  show "closing (set_react ?r w) = closing w"
    using assms(2) by (fastforce simp: fun_eq_iff closing_def arm)
qed

subsection \<open>Expiry and removal of a timer\<close>

lemma timer_fired_eq:
  "timer_mem r p = Some t \<Longrightarrow> timer_mem (timer_fired r p) =
     (if ti_repeat t = 0 then (timer_mem r)(p \<mapsto> t\<lparr>ti_active := False\<rparr>) else timer_mem r)"
  "timers (timer_fired r p) = timers r" "ios (timer_fired r p) = ios r" "io_mem (timer_fired r p) = io_mem r"
  by (auto simp: timer_fired_def split: option.split)

lemma armed_fired:
  assumes "armed w p t"
  shows "armed (set_react (timer_fired (react w) p) w) q u \<longleftrightarrow> armed w q u \<and> (ti_repeat t = 0 \<longrightarrow> q \<noteq> p)"
  using assms by (auto simp: armed_def timer_fired_eq)

lemma life_fired:
  assumes life: "life_ok X w" and arm: "armed w p t"
    and Y: "X \<subseteq> Y" "\<And>c k. ti_handler t = Cb_channel_connect c k \<or> ti_handler t = Cb_channel_check c \<Longrightarrow> c \<in> Y"
  shows "life_ok Y (set_react (timer_fired (react w) p) w)"
proof (rule life_react [OF life])
  fix q u c k
  assume "armed w q u" "c \<notin> Y" "ti_handler u = Cb_channel_connect c k \<or> ti_handler u = Cb_channel_check c"
  moreover then have "q \<noteq> p" using Y(2) arm by (auto simp: armed_def)
  ultimately show "armed (set_react (timer_fired (react w) p) w) q u"
    using armed_fired [OF arm] by blast
qed (use life Y(1) armed_fired [OF arm] in \<open>auto simp: timer_fired_eq timer_fired_ok life_ok_def\<close>)

text \<open>No other timer of this channel is pending: its entry in the table is this one.\<close>

lemma life_fired_idle:
  assumes life: "life_ok X w" and arm: "armed w p t"
    and h: "ti_handler t = Cb_channel_connect c k \<or> ti_handler t = Cb_channel_check c"
  shows "idle (set_react (timer_fired (react w) p) w) c"
proof -
  have one: "q = p" if q: "armed w q u" "ti_handler u = Cb_channel_connect c j \<or> ti_handler u = Cb_channel_check c"
    for q u j
  proof -
    have excl: "\<not> (retrying w c \<and> closing w c)" using life by (simp add: life_ok_def)
    show ?thesis
    proof (cases "retrying w c")
      case True
      then have "ti_handler t = Cb_channel_connect c k" "ti_handler u = Cb_channel_connect c j"
        using excl h q arm by (auto simp: closing_def)
      with life_timer(1) [OF life arm] life_timer(1) [OF life q(1)] show ?thesis by fastforce
    next
      case False
      then have "ti_handler t = Cb_channel_check c" "ti_handler u = Cb_channel_check c"
        using h q arm by (auto simp: retrying_def)
      with life_timer(2) [OF life arm] life_timer(2) [OF life q(1)] show ?thesis by fastforce
    qed
  qed
  have "ti_repeat t = 0"
    using h life_timer [OF life arm] by blast
  with one show ?thesis
    unfolding idle_def retrying_def closing_def armed_fired [OF arm] by blast
qed

lemma RemoveTimer_eq:
  "RemoveTimer r k = Some r' \<Longrightarrow> timers r' = timers r \<and> ios r' = ios r \<and> io_mem r' = io_mem r \<and>
     timer_mem r' = (case timers r k of None \<Rightarrow> timer_mem r | Some p \<Rightarrow> (timer_mem r)(p := None))"
  by (auto simp: RemoveTimer_def split: option.splits)

lemma life_remove:
  assumes life: "life_ok X w" and idle: "idle w c" and ch: "chan_mem w c = Some ch"
    and r: "RemoveTimer (react w) (1000 + ch_fd ch) = Some r"
  shows "life_ok X (set_react r w)" "idle (set_react r w) c" "closing (set_react r w) = closing w"
proof -
  note eq = RemoveTimer_eq [OF r]
  have ok: "reactor_ok (react w)" using life by (simp add: life_ok_def)
  have sub: "armed w p t" if "armed (set_react r w) p t" for p t
    using that eq by (auto simp: armed_def split: option.splits if_splits)
  have sup: "armed (set_react r w) p t"
    if a: "armed w p t" "ti_handler t = Cb_channel_connect d k \<or> ti_handler t = Cb_channel_check d" for p t d k
  proof -
    have "timers (react w) (1000 + ch_fd ch) \<noteq> Some p"
    proof
      assume p: "timers (react w) (1000 + ch_fd ch) = Some p"
      obtain dh j where dh: "chan_mem w d = Some dh" "timers (react w) j = Some p"
          "j = 1000 + ch_fd dh \<and> ti_handler t = Cb_channel_connect d k \<or> j = 2000 + ch_fd dh"
        using a(2) life_timer [OF life a(1)] by metis
      have "j = 1000 + ch_fd ch"
        using p dh(2) ok unfolding reactor_ok_def by blast
      then have "ch_fd ch = ch_fd dh" "ti_handler t = Cb_channel_connect d k"
        using dh(3) life_chan(1,2) [OF life ch] life_chan(1,2) [OF life dh(1)] by auto
      then have "ti_handler t = Cb_channel_connect c k"
        using life_fd_inj [OF life ch dh(1)] by simp
      then show False
        using idle a(1) by (auto simp: idle_def retrying_def)
    qed
    with a(1) eq show ?thesis
      by (auto simp: armed_def split: option.splits)
  qed
  with sub eq RemoveTimer_ok [OF ok r] show "life_ok X (set_react r w)"
    by (intro life_react [OF life]) auto
  show "idle (set_react r w) c"
    using sub idle unfolding idle_def retrying_def closing_def by blast
  show "closing (set_react r w) = closing w"
    unfolding closing_def fun_eq_iff using sub sup by blast
qed

subsection \<open>Birth and death of a channel\<close>

lemma life_new:
  assumes life: "life_ok X w" and c: "c \<noteq> 0" "chan_mem w c = None"
    and fd: "0 \<le> fd" "fd < 1000" "io_at (react w) fd = None"
  shows "life_ok (insert c X) (set_react (RegisterIO (react w) (Cb_channel_read c) fd)
      (w\<lparr>chan_mem := (chan_mem w)(c \<mapsto> new_channel fd cv), chan_set := insert c (chan_set w)\<rparr>))"
proof -
  let ?r = "RegisterIO (react w) (Cb_channel_read c) fd"
  let ?w = "set_react ?r
      (w\<lparr>chan_mem := (chan_mem w)(c \<mapsto> new_channel fd cv), chan_set := insert c (chan_set w)\<rparr>)"
  have ok: "reactor_ok (react w)" using life by (simp add: life_ok_def)
  note at = io_table.register_at [OF ok, of "Cb_channel_read c" fd]
  have armed: "armed ?w = armed w" and timer: "retrying ?w = retrying w" "closing ?w = closing w"
    by (auto simp: fun_eq_iff armed_def retrying_def closing_def RegisterIO_def Let_def)
  have "chan_ok ?w d dh" if "chan_mem ?w d = Some dh" for d dh
  proof (cases "d = c")
    case True
    with that fd at show ?thesis by (auto simp: chan_ok_def new_channel_def)
  next
    case False
    then have "chan_mem w d = Some dh" using that by simp
    from life_chan [OF life this] fd(3) at show ?thesis by (auto simp: chan_ok_def)
  qed
  moreover have "timer_ok ?w p t" if "armed w p t" for p t
  proof -
    have "timer_ok w p t" using life that by (simp add: life_ok_def)
    then show ?thesis
      unfolding timer_ok_def using c(2) by (fastforce simp del: fun_upd_apply simp: fun_upd_def)
  qed
  moreover have "io_ok ?w p t" if t: "io_mem (react ?w) p = Some t" for p t
  proof (cases "p = fresh_ptr (react w)")
    case True
    with t show ?thesis
      by (auto simp: io_ok_def RegisterIO_def Let_def new_channel_def)
  next
    case False
    then have "io_mem (react w) p = Some t"
      using t by (simp add: RegisterIO_def Let_def)
    then have old: "io_ok w p t" using life by (simp add: life_ok_def)
    show ?thesis
      unfolding io_ok_def
    proof (intro allI impI)
      fix d
      assume "io_handler t = Cb_channel_read d"
      with old obtain dh where dh: "chan_mem w d = Some dh" "ios (react w) (ch_fd dh) = Some p"
        by (auto simp: io_ok_def)
      then have "ch_fd dh \<noteq> fd" "d \<noteq> c"
        using life_chan(5) [OF life dh(1)] fd(3) c(2) by auto
      with dh show "\<exists>ch. chan_mem ?w d = Some ch \<and> ios (react ?w) (ch_fd ch) = Some p"
        by (simp add: RegisterIO_def Let_def)
    qed
  qed
  moreover have "retrying w d \<or> closing w d"
    if "chan_mem ?w d = Some dh" "\<not> connected dh" "d \<notin> insert c X" for d dh
    using that life by (auto simp: life_ok_def split: if_splits)
  ultimately show ?thesis
    using life RegisterIO_ok [OF ok] c(1) unfolding life_ok_def armed timer by simp
qed

lemma life_delete:
  assumes life: "life_ok X w" and idle: "idle w c" and ch: "chan_mem w c = Some ch"
  obtains w' where "Channel_delete c w = Some w'" "life_ok X w'" "retrying w' = retrying w"
    "closing w' = closing w" "chan_mem w' = (chan_mem w)(c := None)"
    "trace w' = trace w @ [Ev_close (ch_fd ch)]"
proof -
  have ok: "reactor_ok (react w)" using life by (simp add: life_ok_def)
  obtain r where r: "RemoveIO (react w) (ch_fd ch) = Some r"
    using io_table.remove_live [OF ok life_chan(5) [OF life ch]] by blast
  define w' where "w' = add_trace [Ev_close (ch_fd ch)]
       (w\<lparr>react := r, chan_set := chan_set w - {c}, chan_mem := (chan_mem w)(c := None)\<rparr>)"
  have w' [simp]: "react w' = r" "chan_mem w' = (chan_mem w)(c := None)" "chan_set w' = chan_set w - {c}"
    by (simp_all add: w'_def add_trace_def)
  have r_eq: "timer_mem r = timer_mem (react w)" "timers r = timers (react w)" "ios r = ios (react w)"
    using r by (auto simp: RemoveIO_def split: option.splits)
  have armed: "armed w' = armed w" and timer: "retrying w' = retrying w" "closing w' = closing w"
    by (auto simp: fun_eq_iff armed_def retrying_def closing_def r_eq)
  have "chan_ok w' d dh" if "chan_mem w' d = Some dh" for d dh
  proof -
    have d: "chan_mem w d = Some dh" "d \<noteq> c" using that by (auto split: if_splits)
    then have "ch_fd dh \<noteq> ch_fd ch" using life_fd_inj [OF life d(1) ch] by blast
    then show ?thesis
      using life_chan [OF life d(1)] io_table.remove_at [OF ok r] by (auto simp: chan_ok_def)
  qed
  moreover have "timer_ok w' p t" if "armed w p t" for p t
  proof -
    have "ti_handler t \<noteq> Cb_channel_connect c k" "ti_handler t \<noteq> Cb_channel_check c" for k
      using idle that by (auto simp: idle_def retrying_def closing_def)
    with life that show ?thesis
      by (fastforce simp: life_ok_def timer_ok_def r_eq)
  qed
  moreover have "io_ok w' p t" if t: "io_mem (react w') p = Some t" for p t
  proof -
    have p: "io_mem (react w) p = Some t" "ios (react w) (ch_fd ch) \<noteq> Some p"
      using r t by (auto simp: RemoveIO_def split: option.splits if_splits)
    then have "io_ok w p t" using life by (simp add: life_ok_def)
    with p(2) ch show ?thesis
      unfolding io_ok_def w' r_eq by (metis fun_upd_other option.inject)
  qed
  moreover have "retrying w d \<or> closing w d"
    if "chan_mem w' d = Some dh" "\<not> connected dh" "d \<notin> X" for d dh
    using that life by (auto simp: life_ok_def split: if_splits)
  moreover have "reactor_ok r"
    by (rule RemoveIO_ok [OF ok r])
  moreover have "dom (chan_mem w') = dom (chan_mem w) - {c}"
    by auto
  ultimately have "life_ok X w'"
    using life unfolding life_ok_def armed timer by simp
  moreover have "Channel_delete c w = Some w'"
    using ch r life_chan(3) [OF life ch] by (simp add: Channel_delete_def w'_def)
  ultimately show thesis
    using that timer by (simp add: w'_def add_trace_def)
qed

subsection \<open>Writing\<close>

lemma keep_upd_chan: "upd_chan c f w = Some w' \<Longrightarrow> (\<And>ch. chan_same ch (f ch)) \<Longrightarrow> keep w w'"
  by (auto simp: upd_chan_def split: option.splits)

lemma write_keep: "Channel_write e c buf w = Some (r, w') \<Longrightarrow> keep w w'"
  by (auto simp: Channel_write_def upd_chan_def bind_eq_Some_conv chan_same_def split: if_splits option.splits)

lemma static_write_keep: "Channel_static_write e c buf w = Some (r, w') \<Longrightarrow> keep w w'"
  using write_keep by (auto simp: Channel_static_write_def split: if_splits)

lemma write_returns:
  assumes "chan_mem w c = Some ch" and "ch_kcp ch = None"
  shows "\<exists>r w'. Channel_write e c buf w = Some (r, w')"
  using assms by (simp add: Channel_write_def upd_chan_def)

lemma static_write_returns:
  assumes "life_ok X w"
  shows "\<exists>r w'. Channel_static_write e c buf w = Some (r, w')"
proof (cases "chan_mem w c")
  case None
  then show ?thesis
    using assms by (simp add: Channel_static_write_def life_ok_def domIff)
next
  case (Some ch)
  then show ?thesis
    using write_returns [OF Some life_chan(3) [OF assms Some]] by (simp add: Channel_static_write_def)
qed

subsection \<open>The contract of the callbacks\<close>

text \<open>
  \<open>obs\<close> is what the client of the channels keeps of them and \<open>forget c\<close> what a disconnect of \<open>c\<close>
  takes out of it. An operation on \<open>c\<close> leaves what is kept as it was and disconnects nobody, or
  disconnects \<open>c\<close> and nobody else.
\<close>

definition outcome ::
  "('z world_scheme \<Rightarrow> 'o) \<Rightarrow> (ptr \<Rightarrow> 'o \<Rightarrow> 'o) \<Rightarrow> ptr \<Rightarrow> 'z world_scheme \<Rightarrow> 'z world_scheme \<Rightarrow> bool" where
  "outcome obs forget c w w' \<longleftrightarrow>
     (\<forall>d. map_option disconnect_cb (chan_mem w' d) = map_option disconnect_cb (chan_mem w d)) \<and>
     (obs w' = obs w \<and> closing w' = closing w \<or>
      obs w' = (if map_option disconnect_cb (chan_mem w c) = Some None then obs w else forget c (obs w)) \<and>
      closing w' = (closing w)(c := True) \<and> \<not> closing w c \<and> chan_mem w c \<noteq> None)"

lemma keep_disconnect_cb:
  "keep w w' \<Longrightarrow> map_option disconnect_cb (chan_mem w' d) = map_option disconnect_cb (chan_mem w d)"
  by (cases "chan_mem w d"; cases "chan_mem w' d") (auto simp: keep_def chan_same_def dest: spec [of _ d])

lemma keep_outcome:
  assumes "keep w w'" and "obs w' = obs w"
  shows "outcome obs forget c w w'"
  unfolding outcome_def using keep_disconnect_cb [OF assms(1)] keep_react(4) [OF assms(1)] assms(2) by simp

lemma keep_outcome_trans:
  assumes "keep w w1" and "obs w1 = obs w" and "outcome obs forget c w1 w2"
  shows "outcome obs forget c w w2"
  using assms(3) keep_dom [OF assms(1), of c]
  unfolding outcome_def keep_disconnect_cb [OF assms(1)] keep_react [OF assms(1)] assms(2) by auto

lemma life_shrink:
  assumes "life_ok X w" and "\<And>ch. chan_mem w c = Some ch \<Longrightarrow> \<not> connected ch \<Longrightarrow> retrying w c \<or> closing w c"
  shows "life_ok (X - {c}) w"
  using assms unfolding life_ok_def by blast

locale channel_hooks =
  fixes disc :: "disc_cb \<Rightarrow> ptr \<Rightarrow> 'z world_scheme \<Rightarrow> 'z world_scheme option"
    and rd :: "read_cb \<Rightarrow> byte list \<Rightarrow> 'z world_scheme \<Rightarrow> 'z world_scheme option"
    and obs :: "'z world_scheme \<Rightarrow> 'o"
    and forget :: "ptr \<Rightarrow> 'o \<Rightarrow> 'o"
  assumes obs_frame: "obs (w\<lparr>react := r\<rparr>) = obs w" "obs (w\<lparr>chan_mem := m\<rparr>) = obs w"
      "obs (w\<lparr>chan_set := s\<rparr>) = obs w" "obs (w\<lparr>trace := t\<rparr>) = obs w"
    and disc_keep: "\<exists>w'. disc cb c w = Some w' \<and> keep w w' \<and> obs w' = forget c (obs w)"
    and rd_keep: "rd rcb buf w = Some w' \<Longrightarrow> keep w w' \<and> obs w' = obs w"
begin

lemma obs_ops: "obs (set_react r w) = obs w" "obs (add_trace evs w) = obs w"
  by (simp_all add: set_react_def add_trace_def obs_frame)

lemma obs_upd: "upd_chan c f w = Some w' \<Longrightarrow> obs w' = obs w"
  by (auto simp: upd_chan_def obs_frame split: option.splits)

lemma obs_write: "Channel_write e c buf w = Some (r, w') \<Longrightarrow> obs w' = obs w"
  by (auto simp: Channel_write_def bind_eq_Some_conv obs_ops dest!: obs_upd split: if_splits option.splits)

lemma on_disconnect_returns:
  assumes life: "life_ok X w" and idle: "idle w c" and ch: "chan_mem w c = Some ch"
  shows "\<exists>w'. Channel_on_disconnect disc c w = Some w' \<and> life_ok (X - {c}) w' \<and> outcome obs forget c w w'"
proof -
  obtain w1 where w1: "(case disconnect_cb ch of Some cb \<Rightarrow> disc cb c w | None \<Rightarrow> Some w) = Some w1"
      "keep w w1" "obs w1 = (if disconnect_cb ch = None then obs w else forget c (obs w))"
  proof (cases "disconnect_cb ch")
    case (Some cb)
    then show thesis using disc_keep [of cb c w] that by auto
  qed (use that in auto)
  obtain ch1 where ch1: "chan_mem w1 c = Some ch1" "chan_same ch ch1"
    using keep_chan [OF w1(2) ch] by blast
  note live1 = life_keep [OF w1(2) life] and idle1 = idle [folded keep_react(5) [OF w1(2)]]
  define w2 where "w2 = w1\<lparr>chan_mem := (chan_mem w1)(c \<mapsto> ch1\<lparr>connected := False\<rparr>)\<rparr>"
  have w2: "life_ok (insert c X) w2" "idle w2 c" "chan_mem w2 c = Some (ch1\<lparr>connected := False\<rparr>)"
    unfolding w2_def using idle1
    by (auto intro!: life_upd [OF life_mono [OF live1, of "insert c X"] ch1(1)])
  define w' where "w' = set_react (RegisterTimer (react w2) (Cb_channel_check c) (2000 + ch_fd ch) 0 10000) w2"
  have fd: "ch_fd ch1 = ch_fd ch" using ch1(2) by (simp add: chan_same_def)
  have "life_ok (insert c X - {c}) w'"
    unfolding w'_def using fd by (intro life_register [OF w2]) simp_all
  then have "life_ok (X - {c}) w'" by simp
  moreover have "Channel_on_disconnect disc c w = Some w'"
    using ch w1(1) ch1(1) by (simp add: Channel_on_disconnect_def upd_chan_def w2_def w'_def)
  moreover have "outcome obs forget c w w'"
  proof -
    have ok: "reactor_ok (react w2)" using w2(1) by (simp add: life_ok_def)
    have "closing w' d \<longleftrightarrow> closing w2 d \<or> d = c" for d
      using armed_not_fresh [OF ok]
      unfolding closing_def w'_def armed_register [OF ok] by (fastforce split: if_splits)
    moreover have "closing w2 = closing w"
      using keep_react(4) [OF w1(2)] by (simp add: w2_def closing_def armed_def fun_eq_iff)
    moreover have "map_option disconnect_cb (chan_mem w' d) = map_option disconnect_cb (chan_mem w d)" for d
      using keep_disconnect_cb [OF w1(2), of d] ch ch1
      by (cases "d = c") (simp_all add: w'_def w2_def chan_same_def)
    moreover have "obs w' = obs w1"
      by (simp add: w'_def w2_def obs_ops obs_frame)
    ultimately show ?thesis
      using idle ch w1(3) by (auto simp: outcome_def idle_def fun_eq_iff)
  qed
  ultimately show ?thesis by blast
qed

lemma outcome_react:
  assumes "closing (set_react r w) = closing w" and "outcome obs forget c (set_react r w) w'"
  shows "outcome obs forget c w w'"
  using assms(2) unfolding outcome_def assms(1) obs_ops by simp

text \<open>The flush of what was written before the connection was there.\<close>

lemma flush_returns:
  assumes life: "life_ok X w" and ch: "chan_mem w c = Some ch" "connected ch" "disconnect_cb ch = disconnect_cb old"
  shows "\<exists>w'. (if buf \<noteq> [] then do {
         (_, w) \<leftarrow> Channel_write e c buf w;
         w \<leftarrow> upd_chan c (\<lambda>ch. ch\<lparr>send_buffer := []\<rparr>) w;
         Some (0 :: int, w)}
       else Some (0, w)) = Some (0, w') \<and> life_ok (X - {c}) w' \<and> keep w w' \<and> obs w' = obs w"
proof -
  have life': "life_ok (X - {c}) w"
    using ch by (intro life_shrink [OF life]) simp
  show ?thesis
  proof (cases "buf = []")
    case False
    obtain r w1 where w1: "Channel_write e c buf w = Some (r, w1)"
      using write_returns [OF ch(1) life_chan(3) [OF life ch(1)]] by blast
    note k1 = write_keep [OF w1]
    obtain ch1 where ch1: "chan_mem w1 c = Some ch1" "chan_same ch ch1"
      using keep_chan [OF k1 ch(1)] by blast
    define w2 where "w2 = w1\<lparr>chan_mem := (chan_mem w1)(c \<mapsto> ch1\<lparr>send_buffer := []\<rparr>)\<rparr>"
    have "keep w w2"
      unfolding w2_def using ch1(1) by (intro keep_trans [OF k1]) (simp add: chan_same_def)
    moreover have "obs w2 = obs w"
      using obs_write [OF w1] by (simp add: w2_def obs_frame)
    ultimately show ?thesis
      using False w1 ch1(1) life_keep [OF _ life'] by (simp add: upd_chan_def w2_def)
  qed (use life' in auto)
qed

lemma on_connect_returns:
  assumes life: "life_ok X w" and idle: "idle w c" and ch: "chan_mem w c = Some ch" "\<not> connected ch"
    and timer: "0 < reconnect_count ch \<Longrightarrow> timer_at (react w) (1000 + ch_fd ch) \<noteq> None"
  shows "\<exists>r w'. Channel_on_connect e disc c cv w = Some (r, w') \<and> life_ok (X - {c}) w' \<and> outcome obs forget c w w' \<and>
    (reconnect_count ch < 10 \<longrightarrow> obs w' = obs w \<and> closing w' = closing w)"
proof -
  note chan = life_chan [OF life ch(1)]
  have ok: "reactor_ok (react w)" using life by (simp add: life_ok_def)
  have removed: "\<exists>r. RemoveTimer (react w) (1000 + ch_fd ch) = Some r" if "0 < reconnect_count ch"
    using timer [OF that] timer_table.remove_live [OF ok] by blast
  define upd where "upd f = w\<lparr>chan_mem := (chan_mem w)(c \<mapsto> f ch)\<rparr>" for f
  have upd: "upd_chan c f w = Some (upd f)" "chan_mem (upd f) c = Some (f ch)" "react (upd f) = react w"
      "idle (upd f) c" "closing (upd f) = closing w" "obs (upd f) = obs w" for f
    using ch idle by (simp_all add: upd_chan_def upd_def obs_frame closing_def armed_def fun_eq_iff)
  have life_X: "life_ok (insert c X) w"
    using life by (rule life_mono) auto
  have upd_life: "life_ok (insert c X) (upd f)"
    if "ch_fd (f ch) = ch_fd ch" "ch_kcp (f ch) = ch_kcp ch" "reconnect_count ch \<le> reconnect_count (f ch)" for f
    unfolding upd_def using life_upd [OF life_X ch(1), of "f ch"] that idle by simp
  have upd_out: "outcome obs forget c w w'"
    if "outcome obs forget c (upd f) w'" "disconnect_cb (f ch) = disconnect_cb ch" for f w'
    using that ch unfolding outcome_def upd by (auto simp: upd_def)
  have drop_c: "insert c X - {c} = X - {c}" by blast
  have fd: "\<not> (ch_fd ch < 0 \<or> 1024 \<le> ch_fd ch)"
    using chan(1,2) by simp
  define again where "again = (\<lambda>ch :: channel. ch\<lparr>reconnect_count := reconnect_count ch + 1\<rparr>)"
  have again: "ch_fd (again ch) = ch_fd ch" "ch_kcp (again ch) = ch_kcp ch" "connected (again ch) = connected ch"
      "reconnect_count (again ch) = reconnect_count ch + 1" "disconnect_cb (again ch) = disconnect_cb ch"
    by (simp_all add: again_def)
  have life_again: "life_ok (insert c X) (upd again)"
    using again by (intro upd_life) simp_all
  consider (late) "\<not> e_writable e (ch_fd ch)" "reconnect_count ch + 1 > 10" |
    (retry) "\<not> e_writable e (ch_fd ch)" "\<not> reconnect_count ch + 1 > 10" | (there) "e_writable e (ch_fd ch)"
    by blast
  then show ?thesis
  proof cases
    case late
    then obtain r where r: "RemoveTimer (react w) (1000 + ch_fd ch) = Some r"
      using removed by auto
    then have "RemoveTimer (react (upd again)) (1000 + ch_fd (again ch)) = Some r"
      by (simp add: upd again)
    note rem = life_remove [OF life_again upd(4) upd(2) this]
    obtain w' where w': "Channel_on_disconnect disc c (set_react r (upd again)) = Some w'"
        "life_ok (insert c X - {c}) w'" "outcome obs forget c (set_react r (upd again)) w'"
      using on_disconnect_returns [OF rem(1,2), of "again ch"] upd(2) by auto
    have "outcome obs forget c w w'"
      by (rule upd_out [of again, OF outcome_react [OF rem(3) w'(3)] again(5)])
    then show ?thesis
      using late fd ch r w'(1,2) upd(1,3) by (simp add: Channel_on_connect_def drop_c flip: again_def)
  next
    case retry
    let ?w = "set_react (RegisterTimer (react (upd again)) (Cb_channel_connect c cv) (1000 + ch_fd ch) 0 100000) (upd again)"
    have "life_ok (insert c X - {c}) ?w"
      using again ch(2) chan(4) by (intro life_register [OF life_again upd(4) upd(2)]) simp_all
    moreover have "closing ?w = closing (upd again)"
    proof -
      have "reactor_ok (react (upd again))" using life_again by (simp add: life_ok_def)
      from armed_register [OF this] armed_not_fresh [OF this] show ?thesis
        by (fastforce simp: closing_def fun_eq_iff)
    qed
    then have "outcome obs forget c (upd again) ?w" "closing ?w = closing w" "obs ?w = obs w"
      by (simp_all add: outcome_def obs_ops upd)
    moreover from upd_out [OF this(1) again(5)] have "outcome obs forget c w ?w" .
    ultimately show ?thesis
      using retry fd ch upd(1,3) by (simp add: Channel_on_connect_def drop_c flip: again_def)
  next
    case there
    define r where "r = (if 0 < reconnect_count ch then the (RemoveTimer (react w) (1000 + ch_fd ch)) else react w)"
    have r: "(if 0 < reconnect_count ch then RemoveTimer (react w) (1000 + ch_fd ch) else Some (react w)) = Some r"
      using removed by (auto simp: r_def)
    define there where "there = (\<lambda>ch :: channel. ch\<lparr>connected := True\<rparr>)"
    have there_simps: "ch_fd (there ch) = ch_fd ch" "ch_kcp (there ch) = ch_kcp ch" "connected (there ch)"
        "reconnect_count (there ch) = reconnect_count ch" "disconnect_cb (there ch) = disconnect_cb ch"
      by (simp_all add: there_def)
    have "life_ok (insert c X) (upd there)"
      using there_simps by (intro upd_life) simp_all
    note rem = life_remove [OF this upd(4) upd(2), of r]
    let ?w = "set_react r (upd there)"
    have w1: "life_ok (insert c X) ?w" "closing ?w = closing (upd there)"
    proof (atomize(full), cases "0 < reconnect_count ch")
      case True
      then show "life_ok (insert c X) ?w \<and> closing ?w = closing (upd there)"
        using r rem there_simps(1) by (simp add: upd)
    next
      case False
      then have "?w = upd there" using r upd(3) by (simp add: set_react_def)
      then show "life_ok (insert c X) ?w \<and> closing ?w = closing (upd there)"
        using \<open>life_ok (insert c X) (upd there)\<close> by simp
    qed
    have ch1: "chan_mem ?w c = Some (there ch)" by (simp add: upd)
    obtain w' where w': "(if send_buffer ch \<noteq> [] then do {
         (_, w) \<leftarrow> Channel_write e c (send_buffer ch) ?w;
         w \<leftarrow> upd_chan c (\<lambda>ch. ch\<lparr>send_buffer := []\<rparr>) w;
         Some (0 :: int, w)}
       else Some (0, ?w)) = Some (0, w')" "life_ok (insert c X - {c}) w'" "keep ?w w'" "obs w' = obs ?w"
      using flush_returns [OF w1(1) ch1 there_simps(3) refl, of "send_buffer ch" e] by blast
    have "outcome obs forget c w w'"
      by (rule upd_out [of there, OF outcome_react [OF w1(2) keep_outcome [OF w'(3,4)]] there_simps(5)])
    moreover have "obs w' = obs w" "closing w' = closing w"
      using w'(4) keep_react(4) [OF w'(3)] w1(2) upd(5,6) by (simp_all add: obs_ops)
    moreover have "upd_chan c there (set_react r w) = Some ?w"
      using ch by (simp add: set_react_def upd_chan_def upd_def)
    then have "Channel_on_connect e disc c cv w = Some (0, w')"
      unfolding Channel_on_connect_def there_def [symmetric]
      using there fd ch(1) r w'(1) by (simp del: bind_assoc)
    ultimately show ?thesis
      using w'(2) unfolding drop_c by blast
  qed
qed

lemma new_returns:
  assumes life: "life_ok X w" and c: "c = e_new e (used_ptr w)" "c \<noteq> 0" "\<not> used_ptr w c"
    and fd: "0 \<le> fd" "fd < 1000" "\<not> used_fd w fd"
  shows "\<exists>w'. Channel_new e disc fd cv w = Some (c, w') \<and> life_ok (X - {c}) w' \<and> obs w' = obs w \<and>
    closing w' = closing w \<and> chan_set w' = insert c (chan_set w) \<and>
    (\<forall>d. map_option disconnect_cb (chan_mem w' d) =
       (if d = c then Some None else map_option disconnect_cb (chan_mem w d)))"
proof -
  let ?w = "set_react (RegisterIO (react w) (Cb_channel_read c) fd)
      (w\<lparr>chan_mem := (chan_mem w)(c \<mapsto> new_channel fd cv), chan_set := insert c (chan_set w)\<rparr>)"
  have new: "life_ok (insert c X) ?w"
    using c fd by (intro life_new [OF life]) (simp_all add: used_ptr_def used_fd_def)
  have "idle w c"
    using c life_dead_idle [OF life] by (simp add: used_ptr_def)
  then have idle: "idle ?w c" and closing: "closing ?w = closing w"
    by (simp_all add: idle_def retrying_def closing_def armed_def RegisterIO_def Let_def fun_eq_iff)
  have ch: "chan_mem ?w c = Some (new_channel fd cv)" "\<not> connected (new_channel fd cv)"
      "reconnect_count (new_channel fd cv) = 0"
    by (simp_all add: new_channel_def)
  obtain r w' where w': "Channel_on_connect e disc c cv ?w = Some (r, w')" "life_ok (insert c X - {c}) w'"
      "outcome obs forget c ?w w'" "obs w' = obs ?w" "closing w' = closing ?w"
    using on_connect_returns [OF new idle ch(1,2), of e cv] ch(3) by auto
  have "Channel_new e disc fd cv w = Some (c, w')"
    using w'(1) by (simp add: Channel_new_def Let_def set_react_def flip: c(1))
  moreover have "insert c X - {c} = X - {c}" by blast
  moreover have "chan_set w' = insert c (chan_set w)"
  proof -
    have "d \<in> dom (chan_mem w') \<longleftrightarrow> d = c \<or> d \<in> dom (chan_mem w)" for d
      using w'(3) unfolding outcome_def
      by (cases "chan_mem w' d"; cases "chan_mem w d"; cases "d = c") (auto dest: spec [of _ d])
    then have "dom (chan_mem w') = insert c (dom (chan_mem w))" by auto
    with life w'(2) show ?thesis by (simp add: life_ok_def)
  qed
  ultimately show ?thesis
    using w' closing by (auto simp: outcome_def new_channel_def obs_ops obs_frame)
qed

lemma on_read_keep:
  assumes "chan_mem w c = Some ch" and "ch_kcp ch = None" and "Channel_on_read e rd c buf w = Some w'"
  shows "keep w w' \<and> obs w' = obs w"
proof (cases "read_callback ch")
  case None
  with assms show ?thesis by (simp add: Channel_on_read_def)
next
  case (Some cb)
  let ?w = "w\<lparr>chan_mem := (chan_mem w)(c \<mapsto> ch\<lparr>bytes_read := bytes_read ch + of_nat (length buf)\<rparr>)\<rparr>"
  have "rd cb buf ?w = Some w'"
    using assms Some by (simp add: Channel_on_read_def upd_chan_def)
  moreover have "keep w ?w"
    using assms(1) by (simp add: chan_same_def)
  ultimately show ?thesis
    using rd_keep [of cb buf ?w w'] keep_trans by (simp add: obs_frame) blast
qed

lemma read_ok:
  assumes "life_ok X w" and "Channel_read e disc rd c reads w = Some w'"
  shows "life_ok X w' \<and> outcome obs forget c w w'"
  using assms
proof (induction reads arbitrary: w)
  case Nil
  then show ?case by (auto intro: keep_outcome)
next
  case (Cons d reads)
  obtain ch where ch: "chan_mem w c = Some ch"
    using Cons.prems(2) by (cases "chan_mem w c") auto
  show ?case
  proof (cases "connected ch \<and> d \<noteq> []")
    case True
    then obtain w1 where w1: "Channel_on_read e rd c d w = Some w1"
        "w' = w1 \<or> Channel_read e disc rd c reads w1 = Some w'"
      using Cons.prems(2) ch by (auto simp: bind_eq_Some_conv split: if_splits)
    note k = on_read_keep [OF ch life_chan(3) [OF Cons.prems(1) ch] w1(1)]
    then have life1: "life_ok X w1"
      using life_keep Cons.prems(1) by blast
    from w1(2) show ?thesis
    proof
      assume "w' = w1"
      with k life1 show ?thesis by (simp add: keep_outcome)
    next
      assume "Channel_read e disc rd c reads w1 = Some w'"
      from Cons.IH [OF life1 this] k show ?thesis
        using keep_outcome_trans by blast
    qed
  next
    case False
    then show ?thesis
    proof (cases "connected ch")
      case True
      then have "Channel_on_disconnect disc c w = Some w'"
        using False Cons.prems(2) ch by simp
      moreover have "idle w c"
        by (rule life_connected_idle [OF Cons.prems(1) ch True])
      ultimately show ?thesis
        using on_disconnect_returns [OF Cons.prems(1) _ ch] life_mono [of "X - {c}" w' X] by auto
    next
      case False
      with Cons.prems ch show ?thesis by (auto intro: keep_outcome)
    qed
  qed
qed

text \<open>The expiry of the timers of a channel.\<close>

lemma connect_timer:
  assumes life: "life_ok X w" and arm: "armed w p t" and h: "ti_handler t = Cb_channel_connect c cv"
  shows "\<exists>r w'. Channel_on_connect e disc c cv (set_react (timer_fired (react w) p) w) = Some (r, w') \<and>
    life_ok X w' \<and> outcome obs forget c w w'"
proof -
  let ?w = "set_react (timer_fired (react w) p) w"
  obtain ch where ch: "chan_mem w c = Some ch" "\<not> connected ch" "timers (react w) (1000 + ch_fd ch) = Some p"
    using life_timer(1) [OF life arm h] by blast
  have "life_ok (insert c X) ?w"
    using h by (intro life_fired [OF life arm]) auto
  moreover have "idle ?w c"
    using h by (intro life_fired_idle [OF life arm]) simp
  moreover have "timer_at (react w) (1000 + ch_fd ch) \<noteq> None"
    using ch(3) arm by (simp add: timer_at_def armed_def)
  ultimately obtain r w' where w': "Channel_on_connect e disc c cv ?w = Some (r, w')"
      "life_ok (insert c X - {c}) w'" "outcome obs forget c ?w w'"
    using on_connect_returns [of "insert c X" ?w c ch e cv] ch by auto
  have "closing ?w = closing w"
  proof -
    have "armed w q u \<and> ti_handler u = Cb_channel_check d \<Longrightarrow> q \<noteq> p" for q u d
      using arm h by (auto simp: armed_def)
    then show ?thesis
      unfolding closing_def fun_eq_iff armed_fired [OF arm] by blast
  qed
  then have "outcome obs forget c w w'"
    using w'(3) by (rule outcome_react)
  moreover have "life_ok X w'"
    using w'(2) by (rule life_mono) auto
  ultimately show ?thesis using w'(1) by blast
qed

end

lemma check_timer:
  assumes life: "life_ok X w" and arm: "armed w p t" and h: "ti_handler t = Cb_channel_check c"
  obtains w' where "check_connections c (set_react (timer_fired (react w) p) w) = Some w'" "life_ok X w'"
    "chan_mem w' = (chan_mem w)(c := None)" "closing w' = (closing w)(c := False)" "closing w c"
proof -
  let ?w = "set_react (timer_fired (react w) p) w"
  obtain ch where ch: "chan_mem w c = Some ch" "\<not> connected ch"
    using life_timer(2) [OF life arm h] by blast
  have live: "life_ok (insert c X) ?w"
    using h by (intro life_fired [OF life arm]) auto
  have idle: "idle ?w c"
    using h by (intro life_fired_idle [OF life arm]) simp
  obtain w' where w': "Channel_delete c ?w = Some w'" "life_ok (insert c X) w'" "closing w' = closing ?w"
      "chan_mem w' = (chan_mem ?w)(c := None)"
    using life_delete [OF live idle] ch by (metis set_react_world(2))
  have "closing w' d \<longleftrightarrow> closing w d \<and> d \<noteq> c" for d
  proof (cases "d = c")
    case True
    then show ?thesis using idle w'(3) by (simp add: idle_def)
  next
    case False
    then have "armed w q u \<and> ti_handler u = Cb_channel_check d \<Longrightarrow> q \<noteq> p" for q u
      using arm h by (auto simp: armed_def)
    with False show ?thesis
      unfolding w'(3) closing_def armed_fired [OF arm] by blast
  qed
  then have closing: "closing w' = (closing w)(c := False)"
    by (auto simp: fun_eq_iff)
  have "c \<noteq> 0"
    using life ch(1) by (auto simp: life_ok_def)
  then have check: "check_connections c ?w = Some w'"
    using w'(1) ch by (simp add: check_connections_def)
  have "life_ok (insert c X - {c}) w'"
    using w'(4) by (intro life_shrink [OF w'(2)]) simp
  then have life': "life_ok X w'"
    by (rule life_mono) blast
  have "closing w c"
    using arm h by (auto simp: closing_def)
  with that [OF check life' _ closing] w'(4) show thesis
    by simp
qed

end
