(* ===== verification/Udp_Server.thy ===== *)
theory Udp_Server
  imports Udp
begin

section \<open>The maps of the server's socket\<close>

text \<open>
  The server finds a block by its conversation number and the endpoint to answer to by the
  same number. \<open>maps_ok\<close> is what its steps keep: every number in \<open>conv_kcp_\<close> has a live block
  of this number and an endpoint. \<open>client_conv_\<close> has no such guarantee: releasing a block
  does not take out every endpoint that points to it, and does not stop its timer. The last
  two theorems say exactly when the released block is touched.
\<close>

definition maps_ok :: "'z udp_world_scheme \<Rightarrow> bool" where
  "maps_ok w \<longleftrightarrow>
     (\<forall>cv k. conv_kcp w cv = Some k \<longrightarrow>
        (\<exists>kcp. kcp_mem w k = Some kcp \<and> conv kcp = cv) \<and> conv_ep w cv \<noteq> None) \<and>
     (\<forall>k. k \<in> dom (kcp_mem w) \<longrightarrow> k < kcp_fresh w) \<and>
     (\<forall>ep k. client_conv w ep = Some k \<longrightarrow> k < kcp_fresh w)"

lemma maps_okD:
  assumes "maps_ok w" and "conv_kcp w cv = Some k"
  obtains kcp where "kcp_mem w k = Some kcp" "conv kcp = cv"
  using assms unfolding maps_ok_def by blast

lemma maps_fresh: "maps_ok w \<Longrightarrow> kcp_mem w (kcp_fresh w) = None"
  unfolding maps_ok_def by (metis domIff less_irrefl)

lemma set_react_fields [simp]:
  "kcp_mem (set_react r w) = kcp_mem w" "conv_kcp (set_react r w) = conv_kcp w"
  "conv_ep (set_react r w) = conv_ep w" "client_conv (set_react r w) = client_conv w"
  "kcp_fresh (set_react r w) = kcp_fresh w" "segment (set_react r w) = segment w"
  "react (set_react r w) = r" "chan_mem (set_react r w) = chan_mem w"
  "chan_set (set_react r w) = chan_set w" "udp_cb (set_react r w) = udp_cb w"
  by (simp_all add: set_react_def)

text \<open>A new block: its number, its set-up and its timer.\<close>

lemma crtete_kcp_eq:
  assumes "grants_all (e_alloc e)"
  shows "\<exists>kcp. crtete_kcp e cv w =
      Some (kcp_fresh w, set_react (RegisterTimer (react w) (Cb_kcp_update (kcp_fresh w)) 19890 1 0)
        ((set_kcp (kcp_fresh w) kcp w)\<lparr>kcp_fresh := kcp_fresh w + 1\<rparr>)) \<and>
    conv kcp = cv \<and> mss kcp = 1376 \<and> stream kcp = 0 \<and> output_set kcp"
proof -
  obtain k0 where k0: "ikcp_create (e_alloc e) cv = Some k0" "conv k0 = cv" "mss k0 = 1376" "stream k0 = 0"
    using assms by (auto simp: ikcp_create_def Let_def kcp_consts)
  have react: "react ((set_kcp k kcp w)\<lparr>kcp_fresh := n\<rparr>) = react w" for k kcp n
    by (simp add: set_kcp_def)
  let ?kcp = "snd (ikcp_wndsize (snd (ikcp_nodelay (ikcp_setoutput k0 True) 1 1 2 1)) 4096 4096)"
  have "conv ?kcp = cv" "mss ?kcp = 1376" "stream ?kcp = 0" "output_set ?kcp"
    using k0 by (simp_all add: ikcp_wndsize_def ikcp_nodelay_def ikcp_setoutput_def Let_def)
  moreover have "crtete_kcp e cv w =
      Some (kcp_fresh w, set_react (RegisterTimer (react w) (Cb_kcp_update (kcp_fresh w)) 19890 1 0)
        ((set_kcp (kcp_fresh w) ?kcp w)\<lparr>kcp_fresh := kcp_fresh w + 1\<rparr>))"
    using k0 by (simp add: crtete_kcp_def Let_def react)
  ultimately show ?thesis by blast
qed

lemma release_old_ok:
  assumes "maps_ok w" and "release_old ep w = Some w'"
  shows "maps_ok w'"
proof (cases "client_conv w ep")
  case None
  with assms show ?thesis by (simp add: release_old_def)
next
  case (Some old)
  with assms(2) obtain kcp where kcp: "kcp_mem w old = Some kcp"
    and w': "w' = w\<lparr>kcp_mem := (kcp_mem w)(old := None), conv_ep := (conv_ep w)(conv kcp := None),
       conv_kcp := (conv_kcp w)(conv kcp := None)\<rparr>"
    by (cases "kcp_mem w old") (auto simp: release_old_def)
  have "\<exists>kcp'. kcp_mem w' k = Some kcp' \<and> conv kcp' = cv" "conv_ep w' cv \<noteq> None"
    if k: "conv_kcp w' cv = Some k" for cv k
  proof -
    have cv: "cv \<noteq> conv kcp" "conv_kcp w cv = Some k"
      using k w' by (auto split: if_splits)
    then obtain kcp' where "kcp_mem w k = Some kcp'" "conv kcp' = cv"
      using maps_okD [OF assms(1)] by blast
    with cv kcp have "k \<noteq> old" by auto
    with \<open>kcp_mem w k = Some kcp'\<close> \<open>conv kcp' = cv\<close> show "\<exists>kcp'. kcp_mem w' k = Some kcp' \<and> conv kcp' = cv"
      by (auto simp: w')
    show "conv_ep w' cv \<noteq> None"
      using assms(1) cv by (auto simp: maps_ok_def w')
  qed
  with assms(1) show ?thesis
    by (auto simp: maps_ok_def w' dom_def)
qed

lemma release_old_frame:
  "release_old ep w = Some w' \<Longrightarrow> kcp_fresh w' = kcp_fresh w \<and> react w' = react w \<and> client_conv w' = client_conv w"
  by (cases "client_conv w ep"; cases "kcp_mem w (the (client_conv w ep))") (auto simp: release_old_def)

lemma new_client_eq:
  assumes "grants_all (e_alloc e)" and "release_old (ep_sockaddr ep) w = Some w1"
  obtains kcp w' where "new_client e cv ep w = Some (kcp_fresh w, w')" "conv kcp = cv"
    "mss kcp = 1376" "stream kcp = 0" "output_set kcp"
    "kcp_mem w' = (kcp_mem w1)(kcp_fresh w \<mapsto> kcp)" "kcp_fresh w' = kcp_fresh w + 1"
    "client_conv w' = (client_conv w)(ep_sockaddr ep \<mapsto> kcp_fresh w)"
    "conv_kcp w' = (conv_kcp w1)(cv \<mapsto> kcp_fresh w)" "conv_ep w' = (conv_ep w1)(cv \<mapsto> ep)"
    "react w' = RegisterTimer (react w) (Cb_kcp_update (kcp_fresh w)) 19890 1 0"
proof -
  note frame = release_old_frame [OF assms(2)]
  obtain kcp where "crtete_kcp e cv w1 =
      Some (kcp_fresh w1, set_react (RegisterTimer (react w1) (Cb_kcp_update (kcp_fresh w1)) 19890 1 0)
        ((set_kcp (kcp_fresh w1) kcp w1)\<lparr>kcp_fresh := kcp_fresh w1 + 1\<rparr>))"
    "conv kcp = cv" "mss kcp = 1376" "stream kcp = 0" "output_set kcp"
    using crtete_kcp_eq [OF assms(1)] by blast
  with frame that show thesis
    unfolding new_client_def assms(2) by (simp add: set_kcp_def set_react_def)
qed

lemma new_client_ok:
  assumes "maps_ok w" and "grants_all (e_alloc e)" and "release_old (ep_sockaddr ep) w = Some w1"
    and "new_client e cv ep w = Some (k, w')"
  shows "maps_ok w' \<and> conv_kcp w' cv = Some k \<and> conv_ep w' cv = Some ep"
proof -
  obtain kcp w2 where n: "new_client e cv ep w = Some (kcp_fresh w, w2)" "conv kcp = cv"
      "kcp_mem w2 = (kcp_mem w1)(kcp_fresh w \<mapsto> kcp)" "kcp_fresh w2 = kcp_fresh w + 1"
      "client_conv w2 = (client_conv w)(ep_sockaddr ep \<mapsto> kcp_fresh w)"
      "conv_kcp w2 = (conv_kcp w1)(cv \<mapsto> kcp_fresh w)" "conv_ep w2 = (conv_ep w1)(cv \<mapsto> ep)"
    using new_client_eq [OF assms(2,3)] by blast
  then have w2: "w2 = w'" "k = kcp_fresh w" using assms(4) by simp_all
  have w1: "maps_ok w1" "kcp_fresh w1 = kcp_fresh w" "client_conv w1 = client_conv w"
    using release_old_ok [OF assms(1,3)] release_old_frame [OF assms(3)] by simp_all
  have "(\<exists>kcp'. kcp_mem w2 j = Some kcp' \<and> conv kcp' = c) \<and> conv_ep w2 c \<noteq> None"
    if "conv_kcp w2 c = Some j" for c j
  proof (cases "c = cv")
    case True
    with that n show ?thesis by auto
  next
    case False
    with that n have j: "conv_kcp w1 c = Some j" by simp
    then obtain kcp' where kcp': "kcp_mem w1 j = Some kcp'" "conv kcp' = c"
      using maps_okD [OF w1(1)] by blast
    then have "j \<noteq> kcp_fresh w"
      using maps_fresh [OF w1(1)] w1(2) by auto
    with False n kcp' j w1(1) show ?thesis
      by (auto simp: maps_ok_def)
  qed
  moreover have "j < kcp_fresh w2" if "j \<in> dom (kcp_mem w2)" for j
    using that n w1 by (auto simp: maps_ok_def less_Suc_eq split: if_splits)
  moreover have "j < kcp_fresh w2" if "client_conv w2 a = Some j" for a j
    using that n w1 by (auto simp: maps_ok_def less_Suc_eq split: if_splits)
  ultimately have "maps_ok w2"
    unfolding maps_ok_def by blast
  with n show ?thesis by (simp add: w2)
qed

lemma known_client_ok:
  assumes "maps_ok w" and "conv_kcp w cv = Some k"
  shows "maps_ok (known_client cv k ep w) \<and> conv_kcp (known_client cv k ep w) cv = Some k \<and>
    (\<exists>ep'. conv_ep (known_client cv k ep w) cv = Some ep' \<and> endpoint_eq ep' ep)"
proof -
  obtain old where old: "conv_ep w cv = Some old"
    using assms by (auto simp: maps_ok_def)
  have "k < kcp_fresh w"
    using assms by (auto simp: maps_ok_def)
  with assms old show ?thesis
    by (auto simp: known_client_def get_conv_ep_def maps_ok_def endpoint_eq_def)
qed

lemma find_client_None:
  assumes "grants_all (e_alloc e)"
  shows "find_client e cv ep w = None \<longleftrightarrow>
    conv_kcp w cv = None \<and> (\<exists>old. client_conv w (ep_sockaddr ep) = Some old \<and> kcp_mem w old = None)"
proof (cases "conv_kcp w cv")
  case None
  show ?thesis
  proof (cases "release_old (ep_sockaddr ep) w")
    case rel: None
    then show ?thesis
      using None by (auto simp: find_client_def new_client_def release_old_def bind_eq_None_conv
        split: option.splits)
  next
    case (Some w1)
    obtain w' where "new_client e cv ep w = Some (kcp_fresh w, w')"
      using new_client_eq [OF assms Some] by blast
    with None Some show ?thesis
      by (cases "client_conv w (ep_sockaddr ep)"; cases "kcp_mem w (the (client_conv w (ep_sockaddr ep)))")
        (auto simp: find_client_def release_old_def)
  qed
qed (simp add: find_client_def)

lemma find_client_Some:
  assumes "maps_ok w" and "grants_all (e_alloc e)" and "find_client e cv ep w = Some (k, w')"
  shows "maps_ok w' \<and> conv_kcp w' cv = Some k \<and> (\<exists>ep'. conv_ep w' cv = Some ep' \<and> endpoint_eq ep' ep)"
proof (cases "conv_kcp w cv")
  case None
  then have new: "new_client e cv ep w = Some (k, w')"
    using assms(3) by (simp add: find_client_def)
  then obtain w1 where "release_old (ep_sockaddr ep) w = Some w1"
    by (cases "release_old (ep_sockaddr ep) w") (auto simp: new_client_def)
  from new_client_ok [OF assms(1,2) this new] show ?thesis
    by (auto simp: endpoint_eq_def)
next
  case (Some k')
  with assms(3) have "w' = known_client cv k ep w" "k' = k"
    by (auto simp: find_client_def)
  with known_client_ok [OF assms(1)] Some show ?thesis by simp
qed

subsection \<open>Properties\<close>


text \<open>A socket that has not received anything, and what the system answers in the examples.\<close>

definition demo_udp :: udp_world where
  "demo_udp = \<lparr>react = Reactor_new, chan_mem = Map.empty, chan_set = {}, trace = [],
     udp_fd = 3, udp_kcp = None, udp_target = None, udp_cb = True, segment = replicate 1376 0,
     kcp_mem = Map.empty, kcp_fresh = 1, client_conv = Map.empty, conv_ep = Map.empty,
     conv_kcp = Map.empty\<rparr>"

definition demo_env :: env where
  "demo_env = \<lparr>e_now = 0, e_alloc = malloc_all, e_lib = demo_lib, e_writable = (\<lambda>_. True),
     e_write = (\<lambda>_ b. int (length b)), e_new = (\<lambda>_. 1), e_sock = (\<lambda>_. \<lparr>os_socket = 7, os_bind = 0,
     os_connect = 0, os_in_progress = False\<rparr>)\<rparr>"

lemma demo_udp_ok [simp]: "maps_ok demo_udp" "reactor_ok (react demo_udp)"
  by (simp_all add: maps_ok_def demo_udp_def Reactor_new_ok)

lemma demo_env_alloc [simp]: "grants_all (e_alloc demo_env)"
  by (simp add: demo_env_def)


text \<open>The first datagram of a conversation from an endpoint nobody has used.\<close>

lemma find_client_first:
  assumes "grants_all (e_alloc e)" and "conv_kcp w a = None" and "client_conv w (ep_sockaddr ep) = None"
  obtains kcp w' where "find_client e a ep w = Some (kcp_fresh w, w')" "conv kcp = a"
    "kcp_mem w' = (kcp_mem w)(kcp_fresh w \<mapsto> kcp)" "kcp_fresh w' = kcp_fresh w + 1"
    "client_conv w' = (client_conv w)(ep_sockaddr ep \<mapsto> kcp_fresh w)"
    "conv_kcp w' = (conv_kcp w)(a \<mapsto> kcp_fresh w)" "conv_ep w' = (conv_ep w)(a \<mapsto> ep)"
    "react w' = RegisterTimer (react w) (Cb_kcp_update (kcp_fresh w)) 19890 1 0"
proof -
  have rel: "release_old (ep_sockaddr ep) w = Some w"
    using assms(3) by (simp add: release_old_def)
  show thesis
    by (rule new_client_eq [OF assms(1) rel, of a]) (use assms(2) in \<open>auto simp: find_client_def intro: that\<close>)
qed

text \<open>A second conversation from the same endpoint: the first block is released.\<close>

lemma find_client_second:
  assumes "grants_all (e_alloc e)" and "conv_kcp w b = None" and "client_conv w (ep_sockaddr ep) = Some k"
    and "kcp_mem w k = Some kcp"
  obtains kcp' w' where "find_client e b ep w = Some (kcp_fresh w, w')"
    "kcp_mem w' = (kcp_mem w)(k := None, kcp_fresh w \<mapsto> kcp')"
    "client_conv w' = (client_conv w)(ep_sockaddr ep \<mapsto> kcp_fresh w)"
    "conv_kcp w' = (conv_kcp w)(conv kcp := None, b \<mapsto> kcp_fresh w)"
    "react w' = RegisterTimer (react w) (Cb_kcp_update (kcp_fresh w)) 19890 1 0"
proof -
  have rel: "release_old (ep_sockaddr ep) w = Some (w\<lparr>kcp_mem := (kcp_mem w)(k := None),
      conv_ep := (conv_ep w)(conv kcp := None), conv_kcp := (conv_kcp w)(conv kcp := None)\<rparr>)"
    using assms(3,4) by (simp add: release_old_def)
  show thesis
    by (rule new_client_eq [OF assms(1) rel, of b]) (use assms(2) in \<open>auto simp: find_client_def intro: that\<close>)
qed

text \<open>
  C26: When a second conversation comes from the endpoint of a first one, as after a restart of
  the client, the block of the first is released while its timer stays armed, and the next
  expiry of this timer touches the released block.
\<close>

theorem stale_timer_touches_released:
  assumes "maps_ok w" and "reactor_ok (react w)" and "grants_all (e_alloc e)" and "a \<noteq> b"
    and "conv_kcp w a = None" and "conv_kcp w b = None" and "client_conv w (ep_sockaddr ep) = None"
  shows "\<exists>k w1 k' w2 p t. find_client e a ep w = Some (k, w1) \<and> find_client e b ep w1 = Some (k', w2) \<and>
     timer_mem (react w2) p = Some t \<and> ti_active t \<and> ti_handler t = Cb_kcp_update k \<and>
     kcp_tick e wr k w2 = None"
proof -
  obtain kcp w1 where 1: "find_client e a ep w = Some (kcp_fresh w, w1)" "conv kcp = a"
      "kcp_mem w1 = (kcp_mem w)(kcp_fresh w \<mapsto> kcp)" "kcp_fresh w1 = kcp_fresh w + 1"
      "client_conv w1 = (client_conv w)(ep_sockaddr ep \<mapsto> kcp_fresh w)"
      "conv_kcp w1 = (conv_kcp w)(a \<mapsto> kcp_fresh w)"
      "react w1 = RegisterTimer (react w) (Cb_kcp_update (kcp_fresh w)) 19890 1 0"
    using find_client_first [OF assms(3,5,7)] by blast
  have "conv_kcp w1 b = None" "client_conv w1 (ep_sockaddr ep) = Some (kcp_fresh w)"
      "kcp_mem w1 (kcp_fresh w) = Some kcp"
    using 1 assms(4,6) by simp_all
  then obtain kcp' w2 where 2: "find_client e b ep w1 = Some (kcp_fresh w1, w2)"
      "kcp_mem w2 = (kcp_mem w1)(kcp_fresh w := None, kcp_fresh w1 \<mapsto> kcp')"
      "react w2 = RegisterTimer (react w1) (Cb_kcp_update (kcp_fresh w1)) 19890 1 0"
    using find_client_second [OF assms(3)] by blast
  have "kcp_mem w2 (kcp_fresh w) = None"
    using 1(4) 2(2) by simp
  then have "kcp_tick e wr (kcp_fresh w) w2 = None"
    by (simp add: kcp_tick_def)
  moreover have "\<exists>t. timer_mem (react w2) (fresh_ptr (react w)) = Some t \<and> ti_active t \<and>
      ti_handler t = Cb_kcp_update (kcp_fresh w)"
    using 1(7) 2(3) by (simp add: RegisterTimer_def Let_def)
  ultimately show ?thesis
    using 1(1) 2(1) by blast
qed

theorem stale_timer_touches_released_witness:
  "\<exists>k w1 k' w2. find_client demo_env 7 endpoint_default demo_udp = Some (k, w1) \<and>
     find_client demo_env 8 endpoint_default w1 = Some (k', w2) \<and> kcp_tick demo_env udp_write k w2 = None"
  using stale_timer_touches_released [OF demo_udp_ok demo_env_alloc, of 7 8 endpoint_default udp_write]
  by (auto simp: demo_udp_def)

text \<open>
  C27: Roaming breaks the map of endpoints: when a conversation moves from one endpoint to
  another and a new conversation then starts at its old endpoint, its block is released although
  it is in use, and its own next datagram reads the released block.
\<close>

theorem roaming_touches_released:
  assumes "maps_ok w" and "grants_all (e_alloc e)" and "a \<noteq> b" and "ep_sockaddr ep1 \<noteq> ep_sockaddr ep2"
    and "conv_kcp w a = None" and "conv_kcp w b = None"
    and "client_conv w (ep_sockaddr ep1) = None"
  shows "\<exists>k w1 w2 k' w3. find_client e a ep1 w = Some (k, w1) \<and> find_client e a ep2 w1 = Some (k, w2) \<and>
     find_client e b ep1 w2 = Some (k', w3) \<and> find_client e a ep2 w3 = None"
proof -
  obtain kcp w1 where 1: "find_client e a ep1 w = Some (kcp_fresh w, w1)" "conv kcp = a"
      "kcp_mem w1 = (kcp_mem w)(kcp_fresh w \<mapsto> kcp)" "kcp_fresh w1 = kcp_fresh w + 1"
      "client_conv w1 = (client_conv w)(ep_sockaddr ep1 \<mapsto> kcp_fresh w)"
      "conv_kcp w1 = (conv_kcp w)(a \<mapsto> kcp_fresh w)" "conv_ep w1 = (conv_ep w)(a \<mapsto> ep1)"
    using find_client_first [OF assms(2,5,7)] by metis
  define w2 where "w2 = known_client a (kcp_fresh w) ep2 w1"
  have 2: "find_client e a ep2 w1 = Some (kcp_fresh w, w2)"
    using 1 by (simp add: find_client_def w2_def)
  have w2: "kcp_mem w2 = kcp_mem w1" "kcp_fresh w2 = kcp_fresh w1" "conv_kcp w2 = conv_kcp w1"
      "client_conv w2 = (client_conv w1)(ep_sockaddr ep2 \<mapsto> kcp_fresh w)"
    using 1 assms(4) by (simp_all add: w2_def known_client_def get_conv_ep_def endpoint_eq_def)
  have "conv_kcp w2 b = None" "client_conv w2 (ep_sockaddr ep1) = Some (kcp_fresh w)"
      "kcp_mem w2 (kcp_fresh w) = Some kcp"
    using 1 w2 assms(3,4,6) by simp_all
  then obtain kcp' w3 where 3: "find_client e b ep1 w2 = Some (kcp_fresh w2, w3)"
      "kcp_mem w3 = (kcp_mem w2)(kcp_fresh w := None, kcp_fresh w2 \<mapsto> kcp')"
      "client_conv w3 = (client_conv w2)(ep_sockaddr ep1 \<mapsto> kcp_fresh w2)"
      "conv_kcp w3 = (conv_kcp w2)(conv kcp := None, b \<mapsto> kcp_fresh w2)"
    using find_client_second [OF assms(2)] by metis
  have "conv_kcp w3 a = None" "client_conv w3 (ep_sockaddr ep2) = Some (kcp_fresh w)"
      "kcp_mem w3 (kcp_fresh w) = None"
    using 1 w2 3 assms(3,4) by simp_all
  then have "find_client e a ep2 w3 = None"
    using find_client_None [OF assms(2)] by blast
  with 1(1) 2 3(1) show ?thesis by blast
qed

theorem roaming_touches_released_witness:
  "\<exists>k w1 w2 k' w3.
     find_client demo_env 7 (endpoint_sockaddr demo_lib (inet_sockaddr 80 1)) demo_udp = Some (k, w1) \<and>
     find_client demo_env 7 (endpoint_sockaddr demo_lib (inet_sockaddr 80 2)) w1 = Some (k, w2) \<and>
     find_client demo_env 8 (endpoint_sockaddr demo_lib (inet_sockaddr 80 1)) w2 = Some (k', w3) \<and>
     find_client demo_env 7 (endpoint_sockaddr demo_lib (inet_sockaddr 80 2)) w3 = None"
proof (rule roaming_touches_released)
  show "ep_sockaddr (endpoint_sockaddr demo_lib (inet_sockaddr 80 1)) \<noteq>
      ep_sockaddr (endpoint_sockaddr demo_lib (inet_sockaddr 80 2))"
    by (simp add: endpoint_sockaddr_def inet_sockaddr_def zero_sockaddr_def)
  show "maps_ok demo_udp" by simp
qed (simp_all add: demo_udp_def demo_env_def)

end
