(* ===== verification/Proxy_Life.thy ===== *)
theory Proxy_Life
  imports Proxy Channel_Life Udp_Server
begin

section \<open>The channels of the two proxies\<close>

text \<open>
  \<open>server_run\<close> and \<open>client_run\<close> are the worlds a proxy can reach: by starting and then by any
  sequence of timers and readable watchers whose handling returns. Nothing is assumed of what
  peers send. Of the operating system it is assumed (\<open>env_ok\<close>) that a new object or descriptor
  is not one in use, and that \<open>socket\<close> and \<open>accept\<close> answer descriptors below the limit the
  process runs under (\<open>RLIMIT_NOFILE\<close>), or fail. The properties hold for a limit of at most
  1000: the timer ids of the code are \<open>1000 + fd\<close> for a connection being set up and
  \<open>2000 + fd\<close> for one about to be deleted, and two descriptors 1000 apart, which the usual
  limit of 1024 allows, share an id.
  The callbacks of both proxies meet the contract of \<open>channel_hooks\<close>, and the two properties
  are rule inductions over the runs.
\<close>

definition env_ok :: "int \<Rightarrow> env \<Rightarrow> bool" where
  "env_ok limit e \<longleftrightarrow>
     (\<forall>live. finite {p. live p} \<longrightarrow> e_new e live \<noteq> 0 \<and> \<not> live (e_new e live)) \<and>
     (\<forall>live. os_socket (e_sock e live) = - 1 \<or>
        0 \<le> os_socket (e_sock e live) \<and> os_socket (e_sock e live) < limit \<and> \<not> live (os_socket (e_sock e live)))"

subsection \<open>What the UDP side and the callbacks leave alone\<close>

lemma keep_ext: "react w' = react w \<Longrightarrow> chan_mem w' = chan_mem w \<Longrightarrow> chan_set w' = chan_set w \<Longrightarrow> keep w w'"
  using keep_cong [of w' w w] by simp

lemma send_on_keep: "send_on e k sid buf w = Some (r, w') \<Longrightarrow> keep w w'"
  by (rule keep_ext) (auto simp: send_on_def bind_eq_Some_conv set_kcp_def)

lemma server_send_keep: "server_send e cv sid buf w = Some (r, w') \<Longrightarrow> keep w w'"
  using send_on_keep by (auto simp: server_send_def intro: keep_ext split: option.splits)

lemma udp_send_keep: "udp_send e sid buf w = Some (r, w') \<Longrightarrow> keep w w'"
  using send_on_keep by (auto simp: udp_send_def bind_eq_Some_conv)

lemma write_negative_keep: "Channel_write_negative e c n w = Some (r, w') \<Longrightarrow> keep w w'"
  by (auto simp: Channel_write_negative_def upd_chan_def bind_eq_Some_conv chan_same_def
      split: if_splits option.splits)

lemma static_write_mem_keep: "static_write_mem e c mem n w = Some (r, w') \<Longrightarrow> keep w w'"
  using write_keep write_negative_keep by (auto simp: static_write_mem_def split: if_splits)

lemma set_payload_keep [simp]: "keep w (set_payload mem w)"
  by (rule keep_ext) (simp_all add: set_payload_def)

lemma send_on_more: "send_on e k sid buf (w :: server) = Some (r, w') \<Longrightarrow> s_channels w' = s_channels w"
  by (auto simp: send_on_def bind_eq_Some_conv set_kcp_def)

lemma server_send_more: "server_send e cv sid buf (w :: server) = Some (r, w') \<Longrightarrow> s_channels w' = s_channels w"
  using send_on_more by (auto simp: server_send_def split: option.splits)

lemma upd_chan_more: "upd_chan c f (w :: server) = Some w' \<Longrightarrow> s_channels w' = s_channels w"
  by (auto simp: upd_chan_def split: option.splits)

lemma write_more: "Channel_write e c buf (w :: server) = Some (r, w') \<Longrightarrow> s_channels w' = s_channels w"
  by (auto simp: Channel_write_def bind_eq_Some_conv add_trace_def dest!: upd_chan_more split: if_splits option.splits)

lemma write_negative_more:
  "Channel_write_negative e c n (w :: server) = Some (r, w') \<Longrightarrow> s_channels w' = s_channels w"
  by (auto simp: Channel_write_negative_def bind_eq_Some_conv dest!: upd_chan_more
      split: if_splits option.splits)

lemma static_write_mem_more:
  "static_write_mem e c mem n (w :: server) = Some (r, w') \<Longrightarrow> s_channels w' = s_channels w"
  using write_more write_negative_more by (auto simp: static_write_mem_def split: if_splits)

lemma client_channel_keep: "client_channel sid w = (c, w') \<Longrightarrow> keep w w'"
  by (auto simp: client_channel_def intro!: keep_ext split: option.splits)

lemma client_local_in_keep:
  assumes "client_local_in e sid buf w = Some (r, w')"
  shows "keep w w'"
proof (cases "is_hello buf (int (length buf))")
  case True
  obtain c w1 where w1: "client_channel sid w = (c, w1)" by fastforce
  then obtain buf' n where "static_write_mem e c buf' n w1 = Some (r, w')"
    using assms True by (auto simp: client_local_in_def bind_eq_Some_conv)
  with w1 show ?thesis
    using client_channel_keep static_write_mem_keep keep_trans by blast
next
  case False
  with assms show ?thesis
    using udp_send_keep by (auto simp: client_local_in_def bind_eq_Some_conv)
qed

interpretation client_ch: channel_hooks client_disc "client_rd e" "\<lambda>_. ()" "\<lambda>_ _. ()" for e
proof unfold_locales
  fix rcb buf w w'
  assume "client_rd e rcb buf w = Some w'"
  then show "keep w w' \<and> () = ()"
    using client_local_in_keep by (cases rcb) auto
qed (auto simp: client_disc_def)

interpretation server_ch: channel_hooks server_disc "server_rd e" s_channels erase_first for e
proof unfold_locales
  fix cb c w
  show "\<exists>w'. server_disc cb c w = Some w' \<and> keep w w' \<and> s_channels w' = erase_first c (s_channels w)"
    by (cases cb) (auto intro: keep_ext)
next
  fix rcb buf w w'
  assume "server_rd e rcb buf w = Some w'"
  then show "keep w w' \<and> s_channels w' = s_channels w"
    using server_send_keep server_send_more
    by (cases rcb) (auto simp: server_remote_in_def bind_eq_Some_conv)
qed simp_all

subsection \<open>Invariants of a receive loop\<close>

lemma udp_recv_loop_inv:
  assumes frame: "\<And>w k kcp seg. P w \<Longrightarrow> P ((set_kcp k kcp w)\<lparr>segment := seg\<rparr>)"
    and "udp_recv_loop sess k w = Some w'"
    and "\<And>cv sid n w w'. P w \<Longrightarrow> sess cv sid n w = Some w' \<Longrightarrow> P w'" and "P w"
  shows "P w'"
  using assms(2-4)
proof (induction rule: udp_recv_loop.raw_induct [rotated, consumes 1, case_names step])
  case (step loop sess k w w')
  obtain kcp n out kcp1 where recv: "kcp_mem w k = Some kcp" "ikcp_recv kcp True (int MTU) = Some (n, out, kcp1)"
    using step(2) by (auto simp: bind_eq_Some_conv)
  define w1 where "w1 = (set_kcp k kcp1 w)\<lparr>segment := out @ drop (length out) (segment w)\<rparr>"
  have P1: "P w1"
    unfolding w1_def using frame step.prems(2) .
  consider "w' = w1" | "loop sess k w1 = Some w'" |
    w2 where "sess (conv kcp1) (seg_sid (segment w1)) (seg_size (segment w1)) w1 = Some w2" "loop sess k w2 = Some w'"
    using step(2) recv
    by (auto simp: Let_def bind_eq_Some_conv simp flip: w1_def split: if_splits)
  then show ?case
    by cases (use step P1 in blast)+
qed

lemma udp_read_socket_inv:
  assumes "udp_read_socket e on_read rs w = Some w'" and "P w"
    and frame: "\<And>w t. P w \<Longrightarrow> P (w\<lparr>udp_target := t\<rparr>)"
    and on_read: "\<And>d a w w'. P w \<Longrightarrow> on_read d a w = Some w' \<Longrightarrow> P w'"
  shows "P w'"
  using assms(1,2)
proof (induction rs arbitrary: w)
  case (Cons r rs)
  define w1 where "w1 = (if udp_target w = None
               then w\<lparr>udp_target := Some (endpoint_sockaddr (e_lib e) (recv_from r))\<rparr> else w)"
  have step: "udp_read_socket e on_read (r # rs) w =
      (case r of
         Recv_error \<Rightarrow> udp_read_socket e on_read rs w1
       | Recv a d \<Rightarrow>
           if d = [] then Some w1
           else if length d < SIZE_4M then on_read d a w1
           else Option.bind (on_read d a w1) (udp_read_socket e on_read rs))"
    unfolding w1_def udp_read_socket.simps Let_def by (rule refl)
  have P1: "P w1"
    using frame Cons.prems(2) by (simp add: w1_def)
  note eq = Cons.prems(1) [unfolded step]
  show ?case
  proof (cases r)
    case Recv_error
    with eq have "udp_read_socket e on_read rs w1 = Some w'" by simp
    from Cons.IH [OF this P1] show ?thesis .
  next
    case (Recv a d)
    note eq = eq [unfolded Recv recv_result.case]
    show ?thesis
    proof (cases "d = []")
      case True
      with eq have "w' = w1" by simp
      with P1 show ?thesis by simp
    next
      case d: False
      show ?thesis
      proof (cases "length d < SIZE_4M")
        case True
        with eq d have "on_read d a w1 = Some w'" by simp
        from on_read [OF P1 this] show ?thesis .
      next
        case False
        with eq d obtain w2 where "on_read d a w1 = Some w2" and "udp_read_socket e on_read rs w2 = Some w'"
          by (cases "on_read d a w1") simp_all
        from Cons.IH [OF this(2) on_read [OF P1 this(1)]] show ?thesis .
      qed
    qed
  qed
qed simp

lemma socket_output_inv:
  assumes "udp_socket_output wr cv out w = Some w'" and "P w"
    and "\<And>d w w'. P w \<Longrightarrow> wr cv d w = Some w' \<Longrightarrow> P w'"
  shows "P w'"
  using assms(1,2)
  by (induction out arbitrary: w) (use assms(3) in \<open>fastforce simp: bind_eq_Some_conv\<close>)+

lemma kcp_tick_inv:
  assumes "kcp_tick e wr k w = Some w'" and "P w"
    and "\<And>k kcp w. P w \<Longrightarrow> P (set_kcp k kcp w)"
    and "\<And>cv d w w'. P w \<Longrightarrow> wr cv d w = Some w' \<Longrightarrow> P w'"
  shows "P w'"
  using assms by (auto simp: kcp_tick_def bind_eq_Some_conv intro: socket_output_inv [where P = P])

subsection \<open>The server's map of channels\<close>

text \<open>
  A key of the map belongs to a channel that is alive and not waiting to be deleted, every
  such channel has a key, and each will be taken out of the map when it is disconnected.
\<close>

definition srv_ok :: "server \<Rightarrow> bool" where
  "srv_ok w \<longleftrightarrow> life_ok {} w \<and>
     distinct (map fst (s_channels w)) \<and> distinct (map snd (s_channels w)) \<and>
     (\<forall>c ch. chan_mem w c = Some ch \<longrightarrow> disconnect_cb ch = Some Rm_map) \<and>
     (\<forall>c. c \<in> snd ` set (s_channels w) \<longleftrightarrow> chan_mem w c \<noteq> None \<and> \<not> closing w c)"

lemma erase_first_set: "distinct (map snd kvs) \<Longrightarrow> set (erase_first c kvs) = {kv \<in> set kvs. snd kv \<noteq> c}"
  by (induction kvs) force+

lemma erase_first_distinct:
  "distinct (map f kvs) \<Longrightarrow> distinct (map f (erase_first c kvs)) \<and> set (erase_first c kvs) \<subseteq> set kvs"
  by (induction kvs) auto

lemma srv_outcome:
  assumes "srv_ok w" and "life_ok {} w'" and out: "outcome s_channels erase_first c w w'"
  shows "srv_ok w'"
proof -
  have cb: "map_option disconnect_cb (chan_mem w' d) = map_option disconnect_cb (chan_mem w d)" for d
    using out by (simp add: outcome_def)
  then have dom: "chan_mem w' d = None \<longleftrightarrow> chan_mem w d = None" for d
    by (metis option.map_disc_iff)
  have "disconnect_cb ch = Some Rm_map" if "chan_mem w' d = Some ch" for d ch
    using cb [of d] that assms(1) by (cases "chan_mem w d") (auto simp: srv_ok_def)
  moreover have "s_channels w' = s_channels w \<and> closing w' = closing w \<or>
      s_channels w' = erase_first c (s_channels w) \<and> closing w' = (closing w)(c := True)"
    using out assms(1) by (auto simp: outcome_def srv_ok_def split: if_splits)
  then have "distinct (map fst (s_channels w')) \<and> distinct (map snd (s_channels w')) \<and>
      (\<forall>d. d \<in> snd ` set (s_channels w') \<longleftrightarrow> chan_mem w' d \<noteq> None \<and> \<not> closing w' d)"
  proof
    assume e: "s_channels w' = erase_first c (s_channels w) \<and> closing w' = (closing w)(c := True)"
    have "d \<in> snd ` set (s_channels w') \<longleftrightarrow> d \<in> snd ` set (s_channels w) \<and> d \<noteq> c" for d
      using e erase_first_set [of "s_channels w" c] assms(1) by (auto simp: srv_ok_def)
    moreover have "distinct (map fst (s_channels w'))" "distinct (map snd (s_channels w'))"
      using e assms(1) erase_first_distinct [of fst "s_channels w" c] erase_first_distinct [of snd "s_channels w" c]
      by (simp_all add: srv_ok_def)
    ultimately show ?thesis
      using e assms(1) dom by (auto simp: srv_ok_def)
  qed (use assms(1) dom in \<open>simp add: srv_ok_def\<close>)
  ultimately show ?thesis
    using assms(2) by (simp add: srv_ok_def)
qed

lemma srv_keep: "srv_ok w \<Longrightarrow> keep w w' \<Longrightarrow> s_channels w' = s_channels w \<Longrightarrow> srv_ok w'"
  using srv_outcome [of w w'] life_keep [of w w'] keep_outcome [of w w' s_channels]
  by (simp add: srv_ok_def)

lemma srv_ext: "srv_ok w \<Longrightarrow> react w' = react w \<Longrightarrow> chan_mem w' = chan_mem w \<Longrightarrow> chan_set w' = chan_set w \<Longrightarrow>
    s_channels w' = s_channels w \<Longrightarrow> srv_ok w'"
  by (rule srv_keep [OF _ keep_ext])

lemma srv_kcp_timer:
  assumes "srv_ok w" and "r = react w"
  shows "srv_ok (set_react (RegisterTimer r (Cb_kcp_update k) 19890 a b) w)"
proof -
  have "life_ok {} w" using assms by (simp add: srv_ok_def)
  note r = life_register_other [OF this, of "Cb_kcp_update k" 19890 a b]
  from assms(1) show ?thesis
    unfolding srv_ok_def assms(2) using r by (simp add: set_react_def)
qed

lemma crtete_srv: "crtete_kcp e cv w = Some (k, w') \<Longrightarrow> srv_ok w \<Longrightarrow> srv_ok w'"
  by (auto simp: crtete_kcp_def Let_def bind_eq_Some_conv set_kcp_def intro!: srv_kcp_timer elim!: srv_ext)

subsection \<open>Every step of the server\<close>

lemma release_old_srv: "release_old ep w = Some w' \<Longrightarrow> srv_ok w \<Longrightarrow> srv_ok w'"
  by (auto simp: release_old_def bind_eq_Some_conv elim!: srv_ext split: option.splits)

lemma find_client_srv:
  assumes "find_client e cv ep w = Some (k, w')" and "srv_ok w"
  shows "srv_ok w'"
proof (cases "conv_kcp w cv")
  case None
  with assms(1) obtain w1 w2 where "release_old (ep_sockaddr ep) w = Some w1" "crtete_kcp e cv w1 = Some (k, w2)"
      and w': "w' = w2\<lparr>client_conv := (client_conv w2)(ep_sockaddr ep \<mapsto> k),
                conv_kcp := (conv_kcp w2)(cv \<mapsto> k), conv_ep := (conv_ep w2)(cv \<mapsto> ep)\<rparr>"
    by (auto simp: find_client_def new_client_def bind_eq_Some_conv)
  then have "srv_ok w2"
    using release_old_srv crtete_srv assms(2) by blast
  then show ?thesis
    by (rule srv_ext) (simp_all add: w')
next
  case (Some k')
  with assms(1) have w': "w' = known_client cv k ep w"
    by (auto simp: find_client_def)
  show ?thesis
    by (rule srv_ext [OF assms(2)]) (auto simp: w' known_client_def get_conv_ep_def Let_def split: option.split)
qed

lemma set_read_callback_keep: "set_read_callback c cb w = Some w' \<Longrightarrow> keep w w'"
  unfolding set_read_callback_def by (erule keep_upd_chan) (simp add: chan_same_def)

lemma server_open_srv:
  assumes ok: "srv_ok w" and e: "env_ok 1000 e" and key: "map_of (s_channels w) key = None"
    and w': "server_open e cv sid key target w = Some w'"
  shows "srv_ok w'"
proof -
  let ?fd = "os_socket (e_sock e (used_fd w))"
  have fd: "0 \<le> ?fd \<and> ?fd < 1000 \<and> \<not> used_fd w ?fd"
  proof -
    have "?fd \<noteq> - 1"
      using w' by (auto simp: server_open_def create_tcp_def Let_def)
    moreover have "?fd = - 1 \<or> 0 \<le> ?fd \<and> ?fd < 1000 \<and> \<not> used_fd w ?fd"
      using e unfolding env_ok_def by blast
    ultimately show ?thesis by blast
  qed
  obtain calls where calls: "create_tcp (e_sock e (used_fd w)) target = (Got ?fd, calls)"
    using fd by (auto simp: create_tcp_def Let_def)
  let ?w = "add_trace (map Ev_sock calls) w"
  define c where "c = e_new e (used_ptr ?w)"
  have ok1: "srv_ok ?w"
    by (rule srv_ext [OF ok]) (simp_all add: add_trace_def)
  then have life: "life_ok {} ?w" by (simp add: srv_ok_def)
  have c: "c \<noteq> 0" "\<not> used_ptr ?w c"
  proof -
    have "finite {p. used_ptr ?w p}"
      using life by (simp add: life_ok_def used_ptr_def dom_def)
    with e have "c \<noteq> 0 \<and> \<not> used_ptr ?w c" unfolding env_ok_def c_def by blast
    then show "c \<noteq> 0" "\<not> used_ptr ?w c" by simp_all
  qed
  have "\<not> used_fd ?w ?fd"
    using fd by (simp add: used_fd_def add_trace_def)
  then obtain w1 where w1: "Channel_new e server_disc ?fd (- 1) ?w = Some (c, w1)" "life_ok {} w1"
      "s_channels w1 = s_channels ?w" "closing w1 = closing ?w"
      "\<And>d. map_option disconnect_cb (chan_mem w1 d) =
         (if d = c then Some None else map_option disconnect_cb (chan_mem ?w d))"
    using server_ch.new_returns [OF life c_def c, of ?fd "- 1"] fd by auto
  obtain w2 where w2: "set_read_callback c (Remote_in (sint cv) sid) w1 = Some w2"
      "Option.bind (set_disconnect_callback c Rm_map w2)
         (\<lambda>w. Some (w\<lparr>s_channels := s_channels w @ [(key, c)]\<rparr>)) = Some w'"
    using w' calls w1(1) by (auto simp: server_open_def bind_eq_Some_conv)
  note k = set_read_callback_keep [OF w2(1)]
  have s2: "s_channels w2 = s_channels w"
    using w2(1) w1(3) upd_chan_more by (auto simp: set_read_callback_def add_trace_def)
  obtain ch where ch: "chan_mem w2 c = Some ch" "disconnect_cb ch = None"
    using keep_disconnect_cb [OF k, of c] w1(5) [of c] by auto
  have eq: "w' = w2\<lparr>chan_mem := (chan_mem w2)(c \<mapsto> ch\<lparr>disconnect_cb := Some Rm_map\<rparr>),
      s_channels := s_channels w @ [(key, c)]\<rparr>"
    using w2(2) ch s2 by (simp add: set_disconnect_callback_def upd_chan_def)
  have live2: "life_ok {} w2"
    by (rule life_keep [OF k w1(2)])
  have "life_ok {} (w2\<lparr>chan_mem := (chan_mem w2)(c \<mapsto> ch\<lparr>disconnect_cb := Some Rm_map\<rparr>)\<rparr>)"
    by (rule life_upd [OF live2 ch(1)]) simp_all
  then have live': "life_ok {} w'"
    unfolding eq by (rule life_keep [OF keep_ext, rotated 3]) simp_all
  have closing: "closing w' = closing w"
  proof -
    have "closing w' = closing w2" "closing ?w = closing w"
      by (simp_all add: eq closing_def armed_def add_trace_def fun_eq_iff)
    then show ?thesis using keep_react(4) [OF k] w1(4) by simp
  qed
  have chans: "map_option disconnect_cb (chan_mem w' d) =
      (if d = c then Some (Some Rm_map) else map_option disconnect_cb (chan_mem w d))" for d
    using keep_disconnect_cb [OF k, of d] w1(5) [of d] by (simp add: eq add_trace_def)
  then have dom: "chan_mem w' d \<noteq> None \<longleftrightarrow> d = c \<or> chan_mem w d \<noteq> None" for d
    by (metis option.map_disc_iff option.simps(3))
  have new: "chan_mem w c = None"
    using c(2) by (simp add: used_ptr_def add_trace_def)
  then have "\<not> closing w c"
    using life_dead_idle [of "{}" w c] ok by (simp add: srv_ok_def idle_def)
  moreover have "disconnect_cb ch = Some Rm_map" if "chan_mem w' d = Some ch" for d ch
    using chans [of d] that ok by (cases "chan_mem w d") (auto simp: srv_ok_def split: if_splits)
  moreover have "c \<notin> snd ` set (s_channels w)"
    using ok new by (simp add: srv_ok_def)
  moreover have "key \<notin> fst ` set (s_channels w)"
    using key by (simp add: map_of_eq_None_iff)
  moreover have "s_channels w' = s_channels w @ [(key, c)]"
    by (simp add: eq)
  ultimately show ?thesis
    using ok live' dom unfolding srv_ok_def closing by auto
qed

lemma server_local_in_srv:
  assumes ok: "srv_ok w" and e: "env_ok 1000 e" and w': "server_local_in e cv sid n w = Some (r, w')"
  shows "srv_ok w'"
proof (cases "sid = heartbeat_sid")
  case True
  with ok w' show ?thesis by (simp add: server_local_in_def)
next
  case sid: False
  obtain mem where mem: "codec_decode (s_codec w) (seg_payload (segment w)) n = Some mem"
    using w' sid by (auto simp: server_local_in_def bind_eq_Some_conv)
  have pay: "srv_ok (set_payload m w)" "s_channels (set_payload m w) = s_channels w"
      "set_payload m' (set_payload m w) = set_payload m' (set_payload m w)" for m m'
    by (auto intro: srv_keep [OF ok] simp: set_payload_def keep_ext)
  show ?thesis
  proof (cases "map_of (s_channels w) (proxy_key cv sid)")
    case (Some c)
    then have "static_write_mem e c mem n (set_payload mem w) = Some (r, w')"
      using w' sid mem pay(2) by (simp add: server_local_in_def Let_def)
    then show ?thesis
      using srv_keep [OF pay(1) static_write_mem_keep static_write_mem_more] by blast
  next
    case None
    obtain target mem2 where p: "parser_endpoint_from_request (e_lib e) mem n = Some (target, mem2)"
      using w' sid mem pay(2) None by (auto simp: server_local_in_def Let_def bind_eq_Some_conv)
    let ?w = "set_payload mem2 (set_payload mem w)"
    have w1: "srv_ok ?w" "s_channels ?w = s_channels w"
      by (auto intro: srv_keep [OF pay(1)] simp: set_payload_def keep_ext)
    obtain w2 where w2: "(if \<not> endpoint_is_null target
        then server_open e cv sid (proxy_key cv sid) target ?w else Some ?w) = Some w2"
      and "\<exists>buf. server_send e cv sid buf w2 = Some (r, w')"
      using w' sid mem pay(2) None p by (auto simp: server_local_in_def Let_def bind_eq_Some_conv)
    moreover have "srv_ok w2"
      using server_open_srv [OF w1(1) e] w1 w2 None by (auto split: if_splits)
    ultimately show ?thesis
      using srv_keep server_send_keep server_send_more by blast
  qed
qed

lemma server_on_read_srv:
  assumes "srv_ok w" and "env_ok 1000 e" and "server_on_read e stale (server_sess e) buf target w = Some w'"
  shows "srv_ok w'"
proof -
  obtain k w1 kcp ret kcp1 where w1: "find_client e (the (ikcp_getconv (buf @ stale)))
        (endpoint_sockaddr (e_lib e) target) w = Some (k, w1)"
    and w': "w' = set_kcp k kcp1 w1 \<or> udp_recv_loop (server_sess e) k (set_kcp k kcp1 w1) = Some w'"
    using assms(3) by (auto simp: server_on_read_def Let_def bind_eq_Some_conv split: if_splits)
  have kcp: "srv_ok (set_kcp j x v)" "srv_ok ((set_kcp j x v)\<lparr>segment := seg\<rparr>)" if "srv_ok v" for j x v seg
    using that by (auto elim!: srv_ext simp: set_kcp_def)
  have "srv_ok (set_kcp k kcp1 w1)"
    using find_client_srv [OF w1 assms(1)] by (rule kcp(1))
  moreover have "srv_ok v'" if "srv_ok v" "server_sess e cv sid n v = Some v'" for cv sid n v v'
    using that server_local_in_srv [OF that(1) assms(2)] by (auto simp: server_sess_def)
  ultimately show ?thesis
    using w' udp_recv_loop_inv [where P = srv_ok, OF kcp(2)] by blast
qed

lemma fired_closing:
  assumes "armed w p t" and "\<not> chan_handler (ti_handler t)"
  shows "closing (set_react (timer_fired (react w) p) w) = closing w"
proof -
  have "armed w q u \<and> ti_handler u = Cb_channel_check d \<Longrightarrow> q \<noteq> p" for q u d
    using assms by (auto simp: armed_def)
  then show ?thesis
    unfolding closing_def fun_eq_iff armed_fired [OF assms(1)] by blast
qed

lemma fired_life:
  assumes "life_ok {} w" and "armed w p t" and "\<not> chan_handler (ti_handler t)"
  shows "life_ok {} (set_react (timer_fired (react w) p) w)"
  using assms(3) by (intro life_fired [OF assms(1,2)]) (auto simp: chan_handler_def)

lemma update_kcp_keep: "Channel_update_kcp e c w = Some w' \<Longrightarrow> keep w w'"
  by (auto simp: Channel_update_kcp_def upd_chan_def bind_eq_Some_conv chan_same_def split: option.splits)

lemma update_kcp_more: "Channel_update_kcp e c (w :: server) = Some w' \<Longrightarrow> s_channels w' = s_channels w"
  by (auto simp: Channel_update_kcp_def bind_eq_Some_conv add_trace_def dest!: upd_chan_more split: option.splits)

lemma check_more: "check_connections c (w :: server) = Some w' \<Longrightarrow> s_channels w' = s_channels w"
  by (auto simp: check_connections_def Channel_delete_def add_trace_def bind_eq_Some_conv split: if_splits)

lemma srv_fired:
  assumes "srv_ok w" and "armed w p t" and "\<not> chan_handler (ti_handler t)"
  shows "srv_ok (set_react (timer_fired (react w) p) w)"
  using assms(1) fired_life [OF _ assms(2,3)] fired_closing [OF assms(2,3)]
  by (simp add: srv_ok_def set_react_def)

lemma server_timer_srv:
  assumes ok: "srv_ok w" and arm: "armed w p t" and w': "server_timer e p w = Some w'"
  shows "srv_ok w'"
proof -
  let ?w = "set_react (timer_fired (react w) p) w"
  have life: "life_ok {} w" using ok by (simp add: srv_ok_def)
  have step: "(case ti_handler t of
        Cb_channel_connect c cv \<Rightarrow> map_option snd (Channel_on_connect e server_disc c cv ?w)
      | Cb_channel_check c \<Rightarrow> check_connections c ?w
      | Cb_channel_kcp c \<Rightarrow> Channel_update_kcp e c ?w
      | Cb_kcp_update k \<Rightarrow> kcp_tick e server_write k ?w
      | _ \<Rightarrow> Some ?w) = Some w'"
    using w' arm by (simp add: server_timer_def timer_callback_def armed_def Let_def)
  note fired = srv_fired [OF ok arm]
  show ?thesis
  proof (cases "ti_handler t")
    case (Cb_channel_connect c cv)
    with step server_ch.connect_timer [OF life arm this, of e] show ?thesis
      using srv_outcome [OF ok] by auto
  next
    case (Cb_channel_check c)
    then obtain v where v: "check_connections c ?w = Some v" "life_ok {} v"
        "chan_mem v = (chan_mem w)(c := None)" "closing v = (closing w)(c := False)" "closing w c"
      using check_timer [OF life arm] by metis
    have "s_channels v = s_channels w"
      using check_more [OF v(1)] by (simp add: set_react_def)
    with ok v(2-5) have "srv_ok v"
      by (auto simp: srv_ok_def)
    with step v(1) Cb_channel_check show ?thesis by simp
  next
    case (Cb_channel_kcp c)
    with step have "Channel_update_kcp e c ?w = Some w'" by simp
    with fired Cb_channel_kcp show ?thesis
      using srv_keep update_kcp_keep update_kcp_more by simp blast
  next
    case (Cb_kcp_update k)
    have set: "srv_ok (set_kcp j x v)" if "srv_ok v" for j x v
      using that by (rule srv_ext) (simp_all add: set_kcp_def)
    have wr: "srv_ok v'" if "srv_ok v" "server_write cv d v = Some v'" for cv d v v'
      using that(2) by (intro srv_ext [OF that(1)])
        (auto simp: server_write_def get_conv_ep_def add_trace_def Let_def split: option.splits)
    have "kcp_tick e server_write k ?w = Some w'"
      using step Cb_kcp_update by simp
    then show ?thesis
      using kcp_tick_inv [where P = srv_ok, OF _ _ set wr] fired Cb_kcp_update by simp
  qed (use step fired in auto)
qed

lemma server_io_srv:
  assumes ok: "srv_ok w" and e: "env_ok 1000 e" and w': "server_io e io p w = Some w'"
  shows "srv_ok w'"
proof -
  obtain cb fd where cb: "io_callback (react w) p = Some (cb, fd)"
    using w' by (auto simp: server_io_def bind_eq_Some_conv)
  show ?thesis
  proof (cases cb)
    case (Cb_channel_read c)
    then have read: "Channel_read e server_disc (server_rd e) c (io_reads io) w = Some w'"
      using w' cb by (simp add: server_io_def)
    have "life_ok {} w" using ok by (simp add: srv_ok_def)
    from server_ch.read_ok [OF this read] show ?thesis
      using srv_outcome [OF ok] by blast
  next
    case Cb_udp_read
    then have "udp_read_socket e (server_on_read e (io_stale io) (server_sess e)) (io_recv io) w = Some w'"
      using w' cb by (simp add: server_io_def)
    then show ?thesis
      using ok
    proof (rule udp_read_socket_inv [where P = srv_ok])
      show "srv_ok (v\<lparr>udp_target := a\<rparr>)" if "srv_ok v" for v a
        using that by (rule srv_ext) simp_all
    qed (rule server_on_read_srv [OF _ e])
  qed (use ok w' cb in \<open>auto simp: server_io_def\<close>)
qed

subsection \<open>Starting\<close>

definition no_channels :: "'z world_scheme \<Rightarrow> bool" where
  "no_channels w \<longleftrightarrow> reactor_ok (react w) \<and> chan_mem w = Map.empty \<and> chan_set w = {} \<and>
     (\<forall>p t. timer_mem (react w) p = Some t \<longrightarrow> \<not> chan_handler (ti_handler t)) \<and>
     (\<forall>p t c. io_mem (react w) p = Some t \<longrightarrow> io_handler t \<noteq> Cb_channel_read c)"

lemma no_channels_life: "no_channels w \<Longrightarrow> life_ok X w"
  by (auto simp: no_channels_def life_ok_def armed_def timer_ok_def io_ok_def retrying_def chan_handler_def)

lemma no_channels_timer:
  "no_channels w \<Longrightarrow> r = react w \<Longrightarrow> \<not> chan_handler h \<Longrightarrow> no_channels (set_react (RegisterTimer r h k e a) w)"
  using RegisterTimer_ok [of "react w" h k e a]
  by (auto simp: no_channels_def RegisterTimer_def Let_def split: if_splits)

lemma no_channels_io:
  "no_channels w \<Longrightarrow> r = react w \<Longrightarrow> \<forall>c. h \<noteq> Cb_channel_read c \<Longrightarrow> no_channels (set_react (RegisterIO r h fd) w)"
  using RegisterIO_ok [of "react w" h fd]
  by (auto simp: no_channels_def RegisterIO_def Let_def split: if_splits)

lemma no_channels_ext:
  "no_channels w \<Longrightarrow> react w' = react w \<Longrightarrow> chan_mem w' = chan_mem w \<Longrightarrow> chan_set w' = chan_set w \<Longrightarrow> no_channels w'"
  by (simp add: no_channels_def)

lemma no_channels_empty:
  "react w = Reactor_new \<Longrightarrow> chan_mem w = Map.empty \<Longrightarrow> chan_set w = {} \<Longrightarrow> no_channels w"
  by (simp add: no_channels_def Reactor_new_ok) (simp add: Reactor_new_def)

lemma crtete_no_channels:
  assumes "crtete_kcp e cv w = Some (k, w')" and "no_channels w"
  shows "no_channels w'"
proof -
  obtain kcp where "w' = set_react (RegisterTimer (react w) (Cb_kcp_update (kcp_fresh w)) 19890 1 0)
      ((set_kcp (kcp_fresh w) kcp w)\<lparr>kcp_fresh := kcp_fresh w + 1\<rparr>)"
    using assms(1) by (auto simp: crtete_kcp_def Let_def bind_eq_Some_conv set_kcp_def)
  moreover have "no_channels ((set_kcp (kcp_fresh w) kcp w)\<lparr>kcp_fresh := kcp_fresh w + 1\<rparr>)"
    by (rule no_channels_ext [OF assms(2)]) (simp_all add: set_kcp_def)
  ultimately show ?thesis
    by (auto intro: no_channels_timer simp: set_kcp_def)
qed

lemma udp_new_no_channels:
  assumes "udp_new e cv addr remote w = Some w'" and "no_channels w"
  shows "no_channels w'"
proof -
  define w0 where "w0 = w\<lparr>udp_kcp := None, udp_target := None, udp_cb := False\<rparr>"
  obtain ep where ep: "endpoint_path (e_lib e) addr = Some ep"
    using assms(1) by (cases "endpoint_path (e_lib e) addr") (simp_all add: udp_new_def Let_def)
  obtain res calls where res: "create_udp (e_lib e) (e_sock e (used_fd w0)) ep = (res, calls)"
    by fastforce
  obtain fd where fd: "res = Got fd"
    using assms(1) ep res by (cases res) (simp_all add: udp_new_def Let_def flip: w0_def)
  define w1 where "w1 = add_trace (map Ev_sock calls) (w0\<lparr>udp_fd := fd\<rparr>)"
  define w2 where "w2 = set_react (RegisterIO (react w1) Cb_udp_read fd) w1"
  have "Option.bind (case remote of
                 None \<Rightarrow> Some w2
               | Some a \<Rightarrow> map_option (\<lambda>ep. w2\<lparr>udp_target := Some ep\<rparr>) (endpoint_path (e_lib e) a))
      (\<lambda>w. Option.bind (crtete_kcp e cv w) (\<lambda>(k, w).
         Some (w\<lparr>udp_kcp := Some k, segment := map (alloc_byte (e_alloc e)) [0..<MTU]\<rparr>))) = Some w'"
    using assms(1) ep res fd by (simp add: udp_new_def Let_def w2_def w1_def cong: option.case_cong flip: w0_def)
  then obtain w3 k w4 where w3: "w3 = w2 \<or> (\<exists>t. w3 = w2\<lparr>udp_target := t\<rparr>)"
      "crtete_kcp e cv w3 = Some (k, w4)"
      "w' = w4\<lparr>udp_kcp := Some k, segment := map (alloc_byte (e_alloc e)) [0..<MTU]\<rparr>"
    by (auto simp: bind_eq_Some_conv split: option.splits)
  have "no_channels w1"
    by (rule no_channels_ext [OF assms(2)]) (simp_all add: w1_def w0_def add_trace_def)
  then have "no_channels w2"
    unfolding w2_def by (rule no_channels_io) simp_all
  then have "no_channels w3"
    using w3(1) by (auto elim: no_channels_ext)
  from crtete_no_channels [OF w3(2) this] show ?thesis
    by (rule no_channels_ext) (simp_all add: w3(3))
qed

lemma start_server_srv:
  assumes "start_server e cv cfg = Some w"
  shows "srv_ok w"
proof -
  obtain w1 where w1: "udp_new e cv (cfg_local cfg) None empty_server = Some w1"
    "w = add_trace [Ev_run] (set_session_callback (w1\<lparr>s_codec := remote_codec cfg, s_channels := []\<rparr>))"
    using assms by (auto simp: start_server_def proxy_server_new_def proxy_server_start_def bind_eq_Some_conv)
  have "no_channels empty_server"
    by (rule no_channels_empty) (simp_all add: empty_server_def empty_udp_def empty_world_def udp_world.defs server.defs world.defs)
  from udp_new_no_channels [OF w1(1) this] have "no_channels w1" .
  then have "no_channels w"
    by (rule no_channels_ext) (simp_all add: w1(2) add_trace_def set_session_callback_def)
  moreover have "s_channels w = []"
    by (simp add: w1(2) add_trace_def set_session_callback_def)
  ultimately show ?thesis
    using no_channels_life [of w] by (simp add: srv_ok_def no_channels_def)
qed

subsection \<open>Every step of the client\<close>

lemma client_remote_in_keep: "client_remote_in e cv sid n w = Some (r, w') \<Longrightarrow> keep w w'"
  using static_write_mem_keep keep_trans [OF set_payload_keep]
  by (fastforce simp: client_remote_in_def bind_eq_Some_conv Let_def split: if_splits option.splits)

lemma client_udp_read_keep:
  assumes "udp_on_read e (client_sess e) buf target w = Some w'"
  shows "keep w w'"
proof (cases "udp_kcp w")
  case None
  with assms show ?thesis by (simp add: udp_on_read_def)
next
  case (Some k)
  then obtain kcp where loop: "udp_recv_loop (client_sess e) k (set_kcp k kcp w) = Some w'"
    using assms by (auto simp: udp_on_read_def bind_eq_Some_conv)
  show ?thesis
  proof (rule udp_recv_loop_inv [where P = "keep w", OF _ loop])
    show "keep w ((set_kcp j x v)\<lparr>segment := seg\<rparr>)" if "keep w v" for v j x seg
      using that by (rule keep_trans) (simp add: keep_ext set_kcp_def)
    show "keep w v'" if "keep w v" "client_sess e c sid n v = Some v'" for c sid n v v'
      using that(2) keep_trans [OF that(1) client_remote_in_keep] by (auto simp: client_sess_def)
    show "keep w (set_kcp k kcp w)"
      by (simp add: keep_ext set_kcp_def)
  qed
qed

lemma client_timer_life:
  assumes life: "life_ok {} w" and arm: "armed w p t" and w': "client_timer e e_mem p w = Some w'"
  shows "life_ok {} w'"
proof -
  let ?w = "set_react (timer_fired (react w) p) w"
  have step: "(case ti_handler t of
        Cb_channel_connect c cv \<Rightarrow> map_option snd (Channel_on_connect e client_disc c cv ?w)
      | Cb_channel_check c \<Rightarrow> check_connections c ?w
      | Cb_channel_kcp c \<Rightarrow> Channel_update_kcp e c ?w
      | Cb_kcp_update k \<Rightarrow> kcp_tick e udp_write k ?w
      | Cb_heartbeat \<Rightarrow> map_option snd (client_heartbeat e e_mem ?w)
      | _ \<Rightarrow> Some ?w) = Some w'"
    using w' arm by (simp add: client_timer_def timer_callback_def armed_def Let_def)
  note fired = fired_life [OF life arm]
  show ?thesis
  proof (cases "ti_handler t")
    case (Cb_channel_connect c cv)
    with step client_ch.connect_timer [OF life arm this, of e] show ?thesis by auto
  next
    case (Cb_channel_check c)
    then obtain v where "check_connections c ?w = Some v" "life_ok {} v"
      using check_timer [OF life arm] by metis
    with step Cb_channel_check show ?thesis by simp
  next
    case (Cb_channel_kcp c)
    with step have "keep ?w w'" by (simp add: update_kcp_keep)
    with fired Cb_channel_kcp show ?thesis using life_keep by simp
  next
    case (Cb_kcp_update k)
    then have tick: "kcp_tick e udp_write k ?w = Some w'" using step by simp
    have "keep ?w w'"
    proof (rule kcp_tick_inv [where P = "keep ?w", OF tick])
      show "keep ?w (set_kcp j x v)" if "keep ?w v" for j x v
        using that by (rule keep_trans) (simp add: keep_ext set_kcp_def)
      show "keep ?w v'" if "keep ?w v" "udp_write cv d v = Some v'" for cv d v v'
        using that by (auto simp: udp_write_def bind_eq_Some_conv)
    qed simp
    with fired Cb_kcp_update show ?thesis using life_keep by simp
  next
    case Cb_heartbeat
    with step have "keep ?w w'"
      using udp_send_keep by (auto simp: client_heartbeat_def Let_def split: if_splits)
    with fired Cb_heartbeat show ?thesis using life_keep by simp
  qed (use step fired in auto)
qed

lemma accept_life:
  assumes life: "life_ok {} w" and e: "env_ok 1000 e" and fd: "fd < 1000" "\<not> used_fd w fd"
    and w': "Acceptor_accept e client_disc client_accepted acc fd w = Some w'"
  shows "life_ok {} w'"
proof -
  have fd0: "0 \<le> fd"
  proof (rule ccontr)
    assume "\<not> 0 \<le> fd"
    then have "Channel_new e client_disc fd (- 1) w = None"
      by (simp add: Channel_new_def Channel_on_connect_def Let_def new_channel_def)
    with w' show False by (simp add: Acceptor_accept_def)
  qed
  define c where "c = e_new e (used_ptr w)"
  have "finite {p. used_ptr w p}"
    using life by (simp add: life_ok_def used_ptr_def dom_def)
  then have c: "c \<noteq> 0 \<and> \<not> used_ptr w c"
    using e unfolding env_ok_def c_def by blast
  then obtain w1 where w1: "Channel_new e client_disc fd (- 1) w = Some (c, w1)" "life_ok {} w1"
    using client_ch.new_returns [OF life c_def _ _ fd0 fd(1,2), of "- 1"] by auto
  then have "Acceptor_on_connect client_accepted acc c w1 = Some w'"
    using w' by (simp add: Acceptor_accept_def)
  then have "w' = w1 \<or> client_accepted c w1 = Some w'"
    by (auto simp: Acceptor_on_connect_def split: option.splits)
  then have "keep w1 w'"
  proof
    assume acc: "client_accepted c w1 = Some w'"
    let ?w = "w1\<lparr>max_sid := max_sid w1 + 1, c_channels := (c_channels w1)(max_sid w1 \<mapsto> c)\<rparr>"
    have "keep ?w w'"
      using acc by (auto simp: client_accepted_def Let_def intro: set_read_callback_keep split: if_splits)
    moreover have "keep w1 ?w" by (simp add: keep_ext)
    ultimately show ?thesis using keep_trans by blast
  qed simp
  then show ?thesis using life_keep w1(2) by blast
qed

lemma client_io_life:
  assumes life: "life_ok {} w" and e: "env_ok 1000 e" and fd: "io_accept io < 1000" "\<not> used_fd w (io_accept io)"
    and w': "client_io e io p w = Some w'"
  shows "life_ok {} w'"
proof -
  obtain cb fd where cb: "io_callback (react w) p = Some (cb, fd)"
    using w' by (auto simp: client_io_def bind_eq_Some_conv)
  show ?thesis
  proof (cases cb)
    case (Cb_channel_read c)
    then have "Channel_read e client_disc (client_rd e) c (io_reads io) w = Some w'"
      using w' cb by (simp add: client_io_def)
    from client_ch.read_ok [OF life this] show ?thesis by blast
  next
    case Cb_udp_read
    then have "udp_read_socket e (udp_on_read e (client_sess e)) (io_recv io) w = Some w'"
      using w' cb by (simp add: client_io_def)
    then show ?thesis
      using life
    proof (rule udp_read_socket_inv [where P = "life_ok {}"])
      show "life_ok {} (v\<lparr>udp_target := a\<rparr>)" if "life_ok {} v" for v :: client and a
        using that by (rule life_keep [rotated]) (simp add: keep_ext)
      show "life_ok {} v'" if "life_ok {} v" "udp_on_read e (client_sess e) d a v = Some v'" for d a v v'
        using life_keep [OF client_udp_read_keep [OF that(2)] that(1)] .
    qed
  next
    case Cb_accept
    then show ?thesis
      using w' cb accept_life [OF life e fd] by (simp add: client_io_def)
  qed (use life w' cb in \<open>auto simp: client_io_def\<close>)
qed

lemma start_client_life:
  assumes "start_client e os cv cfg = Some w"
  shows "life_ok {} w"
proof -
  obtain port r acc w1 w2 where w1: "Acceptor_listen os port Acceptor_new empty_client = Some (r, acc, w1)"
      "proxy_client_new e cv (cfg_local cfg) (cfg_remote cfg) (remote_codec cfg) w1 = Some w2"
      "w = Acceptor_start (w2\<lparr>c_acc := Acceptor_set_connect_callback acc Accepted\<rparr>)"
    using assms by (auto simp: start_client_def bind_eq_Some_conv)
  have "no_channels empty_client"
    by (rule no_channels_empty) (simp_all add: empty_client_def empty_udp_def empty_world_def udp_world.defs client.defs world.defs)
  then have n: "no_channels (add_trace evs empty_client)" for evs
    by (rule no_channels_ext) (simp_all add: add_trace_def)
  have "no_channels w1"
    using w1(1) n by (auto simp: Acceptor_listen_def Let_def add_trace_def
      intro!: no_channels_io split: option.splits bool.splits)
  then obtain w3 where w3: "no_channels w3" "w2 = set_react (RegisterTimer (react w3) Cb_heartbeat 19890 1000 0) w3"
  proof -
    obtain w3 where "udp_new e cv (cfg_local cfg) (Some (cfg_remote cfg)) w1 = Some w3"
        "w2 = (let w = set_session_callback (w3\<lparr>c_codec := remote_codec cfg, max_sid := 0, c_channels := Map.empty\<rparr>)
          in set_react (RegisterTimer (react w) Cb_heartbeat 19890 1000 0) w)"
      using w1(2) by (auto simp: proxy_client_new_def bind_eq_Some_conv Let_def)
    moreover from udp_new_no_channels [OF this(1) \<open>no_channels w1\<close>]
    have "no_channels (set_session_callback (w3\<lparr>c_codec := remote_codec cfg, max_sid := 0, c_channels := Map.empty\<rparr>))"
      by (rule no_channels_ext) (simp_all add: set_session_callback_def)
    ultimately show thesis using that by (simp add: Let_def)
  qed
  have "no_channels w2"
    unfolding w3(2) by (rule no_channels_timer [OF w3(1)]) simp_all
  then have "no_channels w"
    by (rule no_channels_ext) (simp_all add: w1(3) Acceptor_start_def add_trace_def)
  then show ?thesis by (rule no_channels_life)
qed

subsection \<open>Runs\<close>

inductive server_run :: "int \<Rightarrow> server \<Rightarrow> bool" for limit where
  start: "start_server e cv cfg = Some w \<Longrightarrow> server_run limit w"
| timer: "server_run limit w \<Longrightarrow> armed w p t \<Longrightarrow> server_timer e p w = Some w' \<Longrightarrow> server_run limit w'"
| io: "server_run limit w \<Longrightarrow> env_ok limit e \<Longrightarrow> server_io e io p w = Some w' \<Longrightarrow> server_run limit w'"

inductive client_run :: "int \<Rightarrow> client \<Rightarrow> bool" for limit where
  start: "start_client e os cv cfg = Some w \<Longrightarrow> client_run limit w"
| timer: "client_run limit w \<Longrightarrow> armed w p t \<Longrightarrow> client_timer e e_mem p w = Some w' \<Longrightarrow> client_run limit w'"
| io: "client_run limit w \<Longrightarrow> env_ok limit e \<Longrightarrow> io_accept io < limit \<Longrightarrow> \<not> used_fd w (io_accept io) \<Longrightarrow>
    client_io e io p w = Some w' \<Longrightarrow> client_run limit w'"

lemma env_ok_mono: "env_ok limit e \<Longrightarrow> limit \<le> 1000 \<Longrightarrow> env_ok 1000 e"
  unfolding env_ok_def by (meson less_le_trans)

lemma server_run_ok: "server_run limit w \<Longrightarrow> limit \<le> 1000 \<Longrightarrow> srv_ok w"
  by (induction rule: server_run.induct)
    (auto intro: start_server_srv server_timer_srv server_io_srv env_ok_mono)

lemma client_run_ok: "client_run limit w \<Longrightarrow> limit \<le> 1000 \<Longrightarrow> life_ok {} w"
proof (induction rule: client_run.induct)
  case (io w e io p w')
  then have "io_accept io < 1000" "env_ok 1000 e" using env_ok_mono by simp_all
  with io show ?case using client_io_life by blast
qed (auto intro: start_client_life client_timer_life)

subsection \<open>Properties\<close>

text \<open>A system that hands out the first free address, descriptor 7, and connects to nobody.\<close>

definition demo_os :: env where
  "demo_os = demo_env\<lparr>e_writable := \<lambda>_. False,
     e_new := \<lambda>live. if live 1 then Suc (LEAST p. \<not> live (Suc p)) else 1,
     e_sock := \<lambda>live. \<lparr>os_socket = if live 7 then - 1 else 7, os_bind = 0, os_connect = 0,
       os_in_progress = False\<rparr>\<rparr>"

lemma demo_os_ok: "env_ok 1000 demo_os"
proof -
  have "\<not> live (Suc (LEAST p. \<not> live (Suc p)))" if "finite {p. live p}" for live :: "ptr \<Rightarrow> bool"
  proof (rule LeastI_ex [of "\<lambda>p. \<not> live (Suc p)"], rule ccontr)
    assume "\<nexists>p. \<not> live (Suc p)"
    then have "range Suc \<subseteq> {p. live p}" by auto
    from finite_subset [OF this that] have "finite (UNIV :: nat set)"
      by (rule finite_imageD) simp
    then show False by simp
  qed
  then show ?thesis
    by (auto simp: env_ok_def demo_os_def)
qed

definition demo_config :: proxy_config where
  "demo_config = \<lparr>cfg_local = bytes ''kcp'' @ bytes ''://'' @ bytes ''1.2.3.4'' @ bytes '':'' @ decimal 8388,
     cfg_remote = [], remote_codec = Null_codec\<rparr>"

lemma demo_start: "\<exists>w. start_server demo_os 7 demo_config = Some w"
proof -
  obtain ep where ep: "endpoint_path (e_lib demo_os) (cfg_local demo_config) = Some ep"
    using endpoint_path_reads [of "bytes ''kcp''" "bytes ''1.2.3.4''" 8388 "e_lib demo_os"]
    by (simp add: bytes_def byte_of_def demo_config_def)
  let ?w = "empty_server\<lparr>udp_kcp := None, udp_target := None, udp_cb := False\<rparr>"
  have "\<not> used_fd ?w 7"
    by (simp add: empty_server_def empty_udp_def empty_world_def udp_world.defs server.defs world.defs
      used_fd_def io_at_def Reactor_new_def)
  then have "os_socket (e_sock demo_os (used_fd ?w)) = 7" "os_bind (e_sock demo_os (used_fd ?w)) = 0"
    by (simp_all add: demo_os_def)
  then obtain calls where "create_udp (e_lib demo_os) (e_sock demo_os (used_fd ?w)) ep = (Got 7, calls)"
    by (cases "ep_port ep = 0") (simp_all add: create_udp_def Let_def)
  moreover have "\<exists>k w'. crtete_kcp demo_os 7 w = Some (k, w')" for w :: server
    using crtete_kcp_eq [of demo_os 7 w] by (auto simp: demo_os_def)
  ultimately have "\<exists>w. udp_new demo_os 7 (cfg_local demo_config) None empty_server = Some w"
    using ep by (fastforce simp: udp_new_def Let_def bind_eq_Some_conv)
  then show ?thesis
    by (auto simp: start_server_def proxy_server_new_def)
qed

text \<open>
  C4: Run under a descriptor limit (\<open>RLIMIT_NOFILE\<close>) of at most 1000, the server reaches only
  worlds, whatever its peers and targets send, in which no two keys and no two channels of its
  map are the same, each key belongs to a channel that is alive and not about to be deleted,
  each such channel has a key, and no two live channels share a descriptor. The limit is needed:
  with descriptors 5 and 1005 the connect timer of the one and the check timer of the other have
  the same id.
\<close>

theorem server_map_exact:
  assumes "server_run limit w" and "limit \<le> 1000"
  shows "distinct (map fst (s_channels w)) \<and> distinct (map snd (s_channels w)) \<and>
    (\<forall>c. (\<exists>key. map_of (s_channels w) key = Some c) \<longleftrightarrow> c \<in> chan_set w \<and> \<not> closing w c) \<and>
    (\<forall>c d ch dh. chan_mem w c = Some ch \<and> chan_mem w d = Some dh \<and> ch_fd ch = ch_fd dh \<longrightarrow> c = d)"
proof -
  have ok: "srv_ok w" by (rule server_run_ok [OF assms])
  then have life: "life_ok {} w" by (simp add: srv_ok_def)
  have "(\<exists>key. map_of (s_channels w) key = Some c) \<longleftrightarrow> c \<in> snd ` set (s_channels w)" for c
    using ok by (force simp: srv_ok_def dest: map_of_SomeD)
  with ok life life_fd_inj [OF life] show ?thesis
    by (auto simp: srv_ok_def life_ok_def dom_def)
qed

theorem server_map_exact_witness:
  "\<exists>w. start_server demo_os 7 demo_config = Some w \<and> distinct (map fst (s_channels w)) \<and>
     distinct (map snd (s_channels w))"
  using demo_start server_map_exact [OF server_run.start, of _ _ _ _ 1000] by (meson order_refl)

text \<open>Handling a timer of a channel, for any client of the channels.\<close>

lemma outcome_chan_set:
  assumes "life_ok X w" and "life_ok Y w'" and "outcome obs forget c w w'"
  shows "chan_set w' = chan_set w"
proof -
  have "chan_mem w' d = None \<longleftrightarrow> chan_mem w d = None" for d
    using assms(3) unfolding outcome_def by (metis option.map_disc_iff)
  then have "dom (chan_mem w') = dom (chan_mem w)" by (auto simp: dom_def)
  with assms(1,2) show ?thesis by (simp add: life_ok_def)
qed

lemma server_timer_returns:
  assumes ok: "srv_ok w" and arm: "armed w p t" and h: "chan_handler (ti_handler t)"
  shows "\<exists>w'. server_timer e p w = Some w' \<and> srv_ok w' \<and>
    (\<forall>c. c \<in> chan_set w \<and> c \<notin> chan_set w' \<longrightarrow> ti_handler t = Cb_channel_check c)"
proof -
  have life: "life_ok {} w" using ok by (simp add: srv_ok_def)
  have eq: "server_timer e p w = (case ti_handler t of
        Cb_channel_connect c cv \<Rightarrow>
          map_option snd (Channel_on_connect e server_disc c cv (set_react (timer_fired (react w) p) w))
      | Cb_channel_check c \<Rightarrow> check_connections c (set_react (timer_fired (react w) p) w)
      | _ \<Rightarrow> server_timer e p w)"
    using arm by (simp add: server_timer_def timer_callback_def armed_def Let_def split: callback.split)
  consider (connect) c cv where "ti_handler t = Cb_channel_connect c cv" | (check) c where "ti_handler t = Cb_channel_check c"
    using h by (auto simp: chan_handler_def)
  then show ?thesis
  proof cases
    case connect
    obtain r w' where w': "Channel_on_connect e server_disc c cv (set_react (timer_fired (react w) p) w) = Some (r, w')"
        "life_ok {} w'" "outcome s_channels erase_first c w w'"
      using server_ch.connect_timer [OF life arm connect, of e] by blast
    then have "server_timer e p w = Some w'"
      using eq connect by simp
    moreover note server_timer_srv [OF ok arm this] outcome_chan_set [OF life w'(2,3)]
    ultimately show ?thesis by auto
  next
    case check
    obtain w' where w': "check_connections c (set_react (timer_fired (react w) p) w) = Some w'" "life_ok {} w'"
        "chan_mem w' = (chan_mem w)(c := None)"
      using check_timer [OF life arm check] by metis
    then have "server_timer e p w = Some w'"
      using eq check by simp
    moreover note server_timer_srv [OF ok arm this]
    moreover have "chan_set w' = chan_set w - {c}"
      using life w'(2,3) by (auto simp: life_ok_def)
    ultimately show ?thesis using check by auto
  qed
qed

lemma client_timer_returns:
  assumes life: "life_ok {} w" and arm: "armed w p t" and h: "chan_handler (ti_handler t)"
  shows "\<exists>w'. client_timer e e_mem p w = Some w' \<and> life_ok {} w' \<and>
    (\<forall>c. c \<in> chan_set w \<and> c \<notin> chan_set w' \<longrightarrow> ti_handler t = Cb_channel_check c)"
proof -
  have eq: "client_timer e e_mem p w = (case ti_handler t of
        Cb_channel_connect c cv \<Rightarrow>
          map_option snd (Channel_on_connect e client_disc c cv (set_react (timer_fired (react w) p) w))
      | Cb_channel_check c \<Rightarrow> check_connections c (set_react (timer_fired (react w) p) w)
      | _ \<Rightarrow> client_timer e e_mem p w)"
    using arm by (simp add: client_timer_def timer_callback_def armed_def Let_def split: callback.split)
  consider (connect) c cv where "ti_handler t = Cb_channel_connect c cv" | (check) c where "ti_handler t = Cb_channel_check c"
    using h by (auto simp: chan_handler_def)
  then show ?thesis
  proof cases
    case connect
    obtain r w' where w': "Channel_on_connect e client_disc c cv (set_react (timer_fired (react w) p) w) = Some (r, w')"
        "life_ok {} w'" "outcome (\<lambda>_. ()) (\<lambda>_ _. ()) c w w'"
      using client_ch.connect_timer [OF life arm connect, of e] by blast
    then show ?thesis
      using eq connect outcome_chan_set [OF life w'(2,3)] by auto
  next
    case check
    obtain w' where w': "check_connections c (set_react (timer_fired (react w) p) w) = Some w'" "life_ok {} w'"
        "chan_mem w' = (chan_mem w)(c := None)"
      using check_timer [OF life arm check] by metis
    moreover have "chan_set w' = chan_set w - {c}"
      using life w'(2,3) by (auto simp: life_ok_def)
    ultimately show ?thesis using eq check by auto
  qed
qed

text \<open>
  C6: Every timer that is pending for a channel of the client or of the server is handled
  without touching a deleted channel or watcher, whatever the system answers, and keeps the
  invariant all their runs have; a channel is deleted only by its own check timer.
\<close>

theorem channel_timers_return:
  assumes "srv_ok ws" and "armed ws p t" and "chan_handler (ti_handler t)"
    and "life_ok {} wc" and "armed wc q u" and "chan_handler (ti_handler u)"
  shows "(\<exists>w'. server_timer e p ws = Some w' \<and> srv_ok w' \<and>
       (\<forall>c. c \<in> chan_set ws \<and> c \<notin> chan_set w' \<longrightarrow> ti_handler t = Cb_channel_check c)) \<and>
    (\<exists>w'. client_timer e e_mem q wc = Some w' \<and> life_ok {} w' \<and>
       (\<forall>c. c \<in> chan_set wc \<and> c \<notin> chan_set w' \<longrightarrow> ti_handler u = Cb_channel_check c))"
  using server_timer_returns [OF assms(1-3)] client_timer_returns [OF assms(4-6)] by blast

lemma demo_opened:
  "\<exists>w t. server_open demo_os 5 1 9 endpoint_default empty_server = Some w \<and> armed w 2 t \<and>
     ti_handler t = Cb_channel_connect 1 (- 1)"
  by (simp add: server_open_def demo_os_def create_tcp_def used_fd_def used_ptr_def io_at_def Reactor_new_def
      empty_server_def empty_udp_def empty_world_def udp_world.defs server.defs world.defs
      Channel_new_def Channel_on_connect_def new_channel_def upd_chan_def set_read_callback_def
      set_disconnect_callback_def add_trace_def RegisterIO_def RegisterTimer_def Let_def set_react_def armed_def)

lemma demo_accepted:
  "\<exists>w t. Acceptor_accept demo_os client_disc client_accepted (Acceptor_set_connect_callback Acceptor_new Accepted) 7 empty_client = Some w \<and> armed w 2 t \<and>
     ti_handler t = Cb_channel_connect 1 (- 1)"
  by (simp add: Acceptor_accept_def demo_os_def used_fd_def used_ptr_def io_at_def Reactor_new_def
      empty_client_def empty_udp_def empty_world_def udp_world.defs client.defs world.defs
      Channel_new_def Channel_on_connect_def new_channel_def upd_chan_def set_read_callback_def
      set_disconnect_callback_def add_trace_def RegisterIO_def RegisterTimer_def Let_def set_react_def armed_def
      Acceptor_on_connect_def Acceptor_set_connect_callback_def Acceptor_new_def client_accepted_def)

theorem channel_timers_return_witness:
  "\<exists>ws wc t u.
     server_open demo_os 5 1 9 endpoint_default empty_server = Some ws \<and>
     Acceptor_accept demo_os client_disc client_accepted (Acceptor_set_connect_callback Acceptor_new Accepted)
       7 empty_client = Some wc \<and>
     armed ws 2 t \<and> armed wc 2 u \<and> server_timer demo_os 2 ws \<noteq> None \<and> client_timer demo_os [] 2 wc \<noteq> None"
proof -
  have none: "no_channels empty_server" "no_channels empty_client"
    by (rule no_channels_empty; simp add: empty_server_def empty_client_def empty_udp_def empty_world_def
      udp_world.defs server.defs client.defs world.defs)+
  have "s_channels empty_server = []"
    by (simp add: empty_server_def server.defs udp_world.defs world.defs empty_udp_def empty_world_def)
  with none(1) have srv: "srv_ok empty_server"
    using no_channels_life [OF none(1)] by (simp add: srv_ok_def no_channels_def)
  obtain ws t where ws: "server_open demo_os 5 1 9 endpoint_default empty_server = Some ws" "armed ws 2 t"
      "ti_handler t = Cb_channel_connect 1 (- 1)"
    using demo_opened by blast
  have "srv_ok ws"
    by (rule server_open_srv [OF srv demo_os_ok _ ws(1)])
      (simp add: \<open>s_channels empty_server = []\<close>)
  obtain wc u where wc: "Acceptor_accept demo_os client_disc client_accepted
       (Acceptor_set_connect_callback Acceptor_new Accepted) 7 empty_client = Some wc" "armed wc 2 u"
      "ti_handler u = Cb_channel_connect 1 (- 1)"
    using demo_accepted by blast
  have "\<not> used_fd empty_client 7"
    by (simp add: empty_client_def empty_udp_def empty_world_def udp_world.defs client.defs world.defs
      used_fd_def io_at_def Reactor_new_def)
  then have "life_ok {} wc"
    by (intro accept_life [OF no_channels_life [OF none(2)] demo_os_ok _ _ wc(1)]) simp_all
  with channel_timers_return [OF \<open>srv_ok ws\<close> ws(2) _ this wc(2), of demo_os "[]"] ws wc show ?thesis
    by (intro exI [of _ ws] exI [of _ wc] exI [of _ t] exI [of _ u]) auto
qed

end
