(* ===== verification/Ini.thy ===== *)
theory Ini
  imports Endpoint "HOL-Library.List_Lexorder" "HOL-Library.Monad_Syntax"
begin

section \<open>The configuration file reader (depends/ini/ini.h)\<close>

text \<open>
  \<open>inipp::Ini<char>\<close>: strings are lists of bytes, and a \<open>std::map\<close> is the list of its entries
  in increasing order of the keys, in which \<open>generate\<close> and \<open>default_section\<close> walk through it.
  Characters are compared as unsigned bytes, and only ASCII blanks are spaces, as in the
  C locale the program runs in. \<open>replace\<close> searches and splices at positions of the string; it
  never returns when \<open>from\<close> is empty. The private members \<open>local_symbol\<close> and \<open>global_symbol\<close>
  return a string as one character, which no instance of the template can compile, so
  \<open>interpolate\<close>, which needs them, is not part of any program.
\<close>

subsection \<open>Trimming and replacing (lines 43 to 68)\<close>

definition ltrim :: "byte list \<Rightarrow> byte list" where
  "ltrim s = dropWhile is_space s"

definition rtrim :: "byte list \<Rightarrow> byte list" where
  "rtrim s = rev (dropWhile is_space (rev s))"

text \<open>\<open>str.find (from, pos)\<close>.\<close>

function str_find :: "byte list \<Rightarrow> byte list \<Rightarrow> nat \<Rightarrow> nat option" where
  "str_find str pat pos =
     (if length str < pos + length pat then None
      else if take (length pat) (drop pos str) = pat then Some pos
      else str_find str pat (pos + 1))"
  by pat_completeness auto
termination
  by (relation "measure (\<lambda>(str, pat, pos). length str + 1 - pos)") auto

declare str_find.simps [simp del]

partial_function (option) replace_from ::
  "byte list \<Rightarrow> byte list \<Rightarrow> nat \<Rightarrow> bool \<Rightarrow> byte list \<Rightarrow> (bool \<times> byte list) option"
where
  "replace_from pat to start changed str =
     (case str_find str pat start of
        None \<Rightarrow> Some (changed, str)
      | Some pos \<Rightarrow>
          replace_from pat to (pos + length to) True
            (take pos str @ to @ drop (pos + length pat) str))"

definition ini_replace :: "byte list \<Rightarrow> byte list \<Rightarrow> byte list \<Rightarrow> (bool \<times> byte list) option" where
  "ini_replace str pat to = replace_from pat to 0 False str"

definition extract_string :: "byte list \<Rightarrow> byte list \<times> bool" where
  "extract_string value = (value, True)"

subsection \<open>Sections\<close>

type_synonym 'v smap = "(byte list \<times> 'v) list"

fun smap_insert :: "byte list \<Rightarrow> 'v \<Rightarrow> 'v smap \<Rightarrow> 'v smap" where
  "smap_insert k v [] = [(k, v)]"
| "smap_insert k v ((k', v') # m) =
     (if k < k' then (k, v) # (k', v') # m
      else if k = k' then (k', v') # m
      else (k', v') # smap_insert k v m)"

fun smap_update :: "byte list \<Rightarrow> 'v \<Rightarrow> 'v smap \<Rightarrow> 'v smap" where
  "smap_update k v [] = []"
| "smap_update k v ((k', v') # m) = (if k = k' then (k', v) # m else (k', v') # smap_update k v m)"

text \<open>\<open>sections[name]\<close> makes an empty section when there is none.\<close>

definition smap_at :: "byte list \<Rightarrow> ('a list) smap \<Rightarrow> 'a list \<times> ('a list) smap" where
  "smap_at k m = (case map_of m k of Some v \<Rightarrow> (v, m) | None \<Rightarrow> ([], smap_insert k [] m))"

type_synonym ini_section = "(byte list) smap"

record ini =
  sections :: "ini_section smap"
  errors :: "byte list list"

definition char_section_start :: byte where "char_section_start = 91"
definition char_section_end :: byte where "char_section_end = 93"
definition char_assign :: byte where "char_assign = 61"
definition char_comment :: byte where "char_comment = 59"
definition newline :: byte where "newline = 10"

lemmas ini_chars = char_section_start_def char_section_end_def char_assign_def char_comment_def
  newline_def

definition ini_empty :: ini where
  "ini_empty = \<lparr>sections = [], errors = []\<rparr>"

definition ini_clear :: "ini \<Rightarrow> ini" where
  "ini_clear i = i\<lparr>sections := [], errors := []\<rparr>"

definition gen_entry :: "byte list \<times> byte list \<Rightarrow> byte list" where
  "gen_entry v = fst v @ [char_assign] @ snd v @ [newline]"

definition gen_section :: "byte list \<times> ini_section \<Rightarrow> byte list" where
  "gen_section sec =
     [char_section_start] @ fst sec @ [char_section_end, newline] @ concat (map gen_entry (snd sec))"

definition ini_generate :: "ini \<Rightarrow> byte list" where
  "ini_generate i = concat (map gen_section (sections i))"

subsection \<open>Parsing (lines 121 to 154)\<close>

text \<open>
  What the successive \<open>getline\<close> calls answer until the end of the stream is seen: the last
  line is what follows the last newline, and may be empty.
\<close>

fun getlines :: "byte list \<Rightarrow> byte list list" where
  "getlines [] = [[]]"
| "getlines (c # cs) =
     (if c = newline then [] # getlines cs
      else (case getlines cs of l # ls \<Rightarrow> (c # l) # ls | [] \<Rightarrow> [[c]]))"

definition add_error :: "byte list \<Rightarrow> ini \<Rightarrow> ini" where
  "add_error line i = i\<lparr>errors := errors i @ [line]\<rparr>"

definition find_assign :: "byte list \<Rightarrow> nat option" where
  "find_assign line =
     (let n = length (takeWhile (\<lambda>c. c \<noteq> char_assign) line)
      in if n < length line then Some n else None)"

definition parse_assign :: "byte list \<Rightarrow> nat \<Rightarrow> byte list \<Rightarrow> ini \<Rightarrow> ini" where
  "parse_assign line pos section i =
     (let variable = rtrim (take pos line);
          value = ltrim (drop (pos + 1) line);
          (sec, secs) = smap_at section (sections i)
      in if map_of sec variable = None
         then i\<lparr>sections := smap_update section (smap_insert variable value sec) secs\<rparr>
         else add_error line (i\<lparr>sections := secs\<rparr>))"

definition parse_line :: "byte list \<Rightarrow> byte list \<times> ini \<Rightarrow> byte list \<times> ini" where
  "parse_line line s =
     (let (section, i) = s;
          line = rtrim (ltrim line);
          len = length line
      in if len = 0 then (section, i)
      else
        let pos = find_assign line;
            front = hd line
        in if front = char_comment then (section, i)
        else if front = char_section_start
        then (if last line = char_section_end then (take (len - 2) (drop 1 line), i)
              else (section, add_error line i))
        else (case pos of
                None \<Rightarrow> (section, add_error line i)
              | Some pos \<Rightarrow>
                  if pos \<noteq> 0 then (section, parse_assign line pos section i)
                  else (section, add_error line i)))"

definition ini_parse :: "byte list \<Rightarrow> ini \<Rightarrow> ini" where
  "ini_parse is i = snd (fold parse_line (getlines is) ([], i))"

text \<open>Every section gets the entries it does not have (lines 171 to 175).\<close>

definition default_section :: "ini_section \<Rightarrow> ini \<Rightarrow> ini" where
  "default_section sec i =
     i\<lparr>sections := map (\<lambda>(name, sec2). (name, fold (\<lambda>(k, v). smap_insert k v) sec sec2)) (sections i)\<rparr>"

definition ini_lookup :: "ini \<Rightarrow> byte list \<Rightarrow> byte list \<Rightarrow> byte list" where
  "ini_lookup i section variable =
     (case map_of (sections i) section of
        None \<Rightarrow> []
      | Some sec \<Rightarrow> (case map_of sec variable of None \<Rightarrow> [] | Some v \<Rightarrow> v))"

subsection \<open>Replacing ends exactly for a non-empty pattern\<close>

text \<open>The reference: split at the first occurrence, go on behind it.\<close>

function replace_spec :: "byte list \<Rightarrow> byte list \<Rightarrow> byte list \<Rightarrow> byte list" where
  "replace_spec pat to str =
     (case str_find str pat 0 of
        None \<Rightarrow> str
      | Some pos \<Rightarrow>
          if pat = [] then str
          else take pos str @ to @ replace_spec pat to (drop (pos + length pat) str))"
  by pat_completeness auto
termination
proof (relation "measure (\<lambda>(pat, to, str). length str)", goal_cases)
  case (2 pat to str pos)
  have "str_find s p q = Some r \<Longrightarrow> r + length p \<le> length s" for s p q r
    by (induction s p q rule: str_find.induct) (subst (asm) str_find.simps, auto split: if_splits)
  with 2 show ?case by (cases pat) force+
qed simp

declare replace_spec.simps [simp del]

lemma str_find_Some:
  "str_find str pat pos = Some p \<Longrightarrow>
   pos \<le> p \<and> p + length pat \<le> length str \<and> take (length pat) (drop p str) = pat"
proof (induction str pat pos rule: str_find.induct)
  case (1 str pat pos)
  then show ?case
    by (subst (asm) (2) str_find.simps) (auto split: if_splits)
qed

lemma str_find_drop: "str_find (xs @ str) pat (length xs + pos) = map_option ((+) (length xs)) (str_find str pat pos)"
proof (induction str pat pos rule: str_find.induct)
  case (1 str pat pos)
  then show ?case
    by (subst (1 2) str_find.simps) (auto simp: add.assoc)
qed

lemma replace_from_spec:
  assumes "pat \<noteq> []"
  shows "replace_from pat to (length xs) changed (xs @ str) =
    Some (changed \<or> str_find str pat 0 \<noteq> None, xs @ replace_spec pat to str)"
proof (induction "length str" arbitrary: xs changed str rule: less_induct)
  case less
  have found: "str_find (xs @ str) pat (length xs) = map_option ((+) (length xs)) (str_find str pat 0)"
    using str_find_drop [of xs str pat 0] by simp
  show ?case
  proof (cases "str_find str pat 0")
    case None
    then show ?thesis
      using found by (simp add: replace_from.simps replace_spec.simps [of pat to str])
  next
    case (Some pos)
    let ?rest = "drop (pos + length pat) str" and ?xs = "xs @ take pos str @ to"
    have p: "pos + length pat \<le> length str"
      using str_find_Some [OF Some] by simp
    then have "length ?rest < length str"
      using assms by (cases pat) auto
    from less [OF this, of ?xs True] have
      "replace_from pat to (length ?xs) True (?xs @ ?rest) = Some (True, ?xs @ replace_spec pat to ?rest)"
      by simp
    moreover have "replace_from pat to (length xs) changed (xs @ str) =
        replace_from pat to (length ?xs) True (?xs @ ?rest)"
      using found Some p by (subst replace_from.simps) (simp add: add.assoc)
    ultimately show ?thesis
      using Some assms by (simp add: replace_spec.simps [of pat to str])
  qed
qed

lemma replace_from_empty:
  assumes "replace_from pat to start changed str = Some r" and "start \<le> length str"
  shows "pat \<noteq> []"
proof -
  have "start \<le> length str \<longrightarrow> pat \<noteq> []"
    using assms(1)
  proof (induction rule: replace_from.raw_induct [rotated, consumes 1])
    case (1 f pat to start changed str r)
    show ?case
    proof
      assume len: "start \<le> length str"
      show "pat \<noteq> []"
      proof
        assume "pat = []"
        with len have "str_find str pat start = Some start"
          by (subst str_find.simps) simp
        with 1 have "f pat to (start + length to) True (take start str @ to @ drop start str) = Some r"
          using \<open>pat = []\<close> by simp
        with "1.IH" len \<open>pat = []\<close> show False by fastforce
      qed
    qed
  qed
  with assms(2) show ?thesis by blast
qed

text \<open>
  C33: Replacing a non-empty pattern returns, with every occurrence from left to right replaced
  and the replacement never searched again; with an empty pattern the loop does not end.
\<close>

theorem ini_replace_returns:
  "ini_replace str pat to =
     (if pat = [] then None else Some (str_find str pat 0 \<noteq> None, replace_spec pat to str))"
proof (cases "pat = []")
  case True
  then have "replace_from pat to 0 False str = Some r \<Longrightarrow> False" for r
    using replace_from_empty [of pat to 0 False str r] by simp
  with True show ?thesis
    by (cases "replace_from pat to 0 False str") (auto simp: ini_replace_def)
next
  case False
  with replace_from_spec [OF False, of to "[]" False str] show ?thesis
    by (simp add: ini_replace_def)
qed

subsection \<open>What is generated is read back\<close>

lemma ltrim_id: "s = [] \<or> \<not> is_space (hd s) \<Longrightarrow> ltrim s = s"
  by (cases s) (auto simp: ltrim_def)

lemma rtrim_id: "s = [] \<or> \<not> is_space (last s) \<Longrightarrow> rtrim s = s"
  by (cases s rule: rev_cases) (auto simp: rtrim_def)

text \<open>Text that is not changed by trimming and stays on its line.\<close>

definition plain :: "byte list \<Rightarrow> bool" where
  "plain s \<longleftrightarrow> newline \<notin> set s \<and> (s = [] \<or> \<not> is_space (hd s) \<and> \<not> is_space (last s))"

definition key_ok :: "byte list \<Rightarrow> bool" where
  "key_ok k \<longleftrightarrow> plain k \<and> k \<noteq> [] \<and> char_assign \<notin> set k \<and> hd k \<noteq> char_comment \<and>
     hd k \<noteq> char_section_start"

definition section_ok :: "byte list \<times> ini_section \<Rightarrow> bool" where
  "section_ok sec \<longleftrightarrow> newline \<notin> set (fst sec) \<and> snd sec \<noteq> [] \<and>
     sorted_wrt (<) (map fst (snd sec)) \<and> list_all (\<lambda>(k, v). key_ok k \<and> plain v) (snd sec)"

definition ini_ok :: "ini \<Rightarrow> bool" where
  "ini_ok i \<longleftrightarrow> sorted_wrt (<) (map fst (sections i)) \<and> list_all section_ok (sections i)"

lemma getlines_line: "newline \<notin> set l \<Longrightarrow> getlines (l @ newline # rest) = l # getlines rest"
  by (induction l) (auto simp: ini_chars)

lemma smap_insert_last: "\<forall>k' \<in> set (map fst m). k' < k \<Longrightarrow> smap_insert k v m = m @ [(k, v)]"
  by (induction m) (auto dest: less_asym)

lemma smap_update_last:
  "k \<notin> set (map fst m) \<Longrightarrow> smap_update k v (m @ (k, w) # m') = m @ (k, v) # m'"
  by (induction m) auto

lemma map_of_absent: "\<forall>k' \<in> set (map fst m). k' < (k :: byte list) \<Longrightarrow> map_of m k = None"
  by (auto simp: map_of_eq_None_iff)

lemma parse_header:
  assumes "newline \<notin> set name"
  shows "parse_line ([char_section_start] @ name @ [char_section_end]) (s, i) = (name, i)"
proof -
  let ?l = "[char_section_start] @ name @ [char_section_end]"
  have "ltrim ?l = ?l" "rtrim ?l = ?l"
    by (simp_all add: ltrim_id rtrim_id is_space_def ini_chars)
  moreover have "take (length ?l - 2) (drop 1 ?l) = name" "?l \<noteq> []" "last ?l = char_section_end"
      "hd ?l \<noteq> char_comment"
    by (simp_all add: ini_chars)
  ultimately show ?thesis
    by (simp add: parse_line_def)
qed

lemma find_assign_at: "char_assign \<notin> set k \<Longrightarrow> find_assign (k @ char_assign # v) = Some (length k)"
proof -
  assume "char_assign \<notin> set k"
  then have "takeWhile (\<lambda>c. c \<noteq> char_assign) (k @ char_assign # v) = k"
    by (auto simp: takeWhile_append)
  then show ?thesis by (simp add: find_assign_def)
qed

lemma parse_entry:
  assumes "key_ok k" and "plain v"
  shows "parse_line (k @ [char_assign] @ v) (s, i) = (s, parse_assign (k @ [char_assign] @ v) (length k) s i)"
proof -
  let ?l = "k @ [char_assign] @ v"
  have "\<not> is_space char_assign"
    by (simp add: is_space_def ini_chars)
  then have "\<not> is_space (hd ?l)" "\<not> is_space (last ?l)"
    using assms by (cases "v = []"; simp add: key_ok_def plain_def)+
  then have "ltrim ?l = ?l" "rtrim ?l = ?l"
    by (simp_all only: ltrim_id rtrim_id simp_thms)
  with assms show ?thesis
    by (simp add: parse_line_def find_assign_at key_ok_def)
qed

text \<open>The entries of a section, added behind those that are there.\<close>

lemma parse_assign_adds:
  assumes key: "key_ok k" "plain v" and new: "\<forall>k' \<in> set (map fst es). k' < k"
    and old: "\<forall>n \<in> set (map fst secs). n < name"
  shows "parse_assign (k @ [char_assign] @ v) (length k) name
      (i\<lparr>sections := secs @ (if es = [] then [] else [(name, es)])\<rparr>) =
    i\<lparr>sections := secs @ [(name, es @ [(k, v)])]\<rparr>"
proof -
  have kv: "rtrim k = k" "ltrim v = v"
    using key by (auto simp: key_ok_def plain_def intro!: rtrim_id ltrim_id)
  have notin: "name \<notin> set (map fst secs)"
    using old by auto
  have at: "smap_at name (secs @ (if es = [] then [] else [(name, es)])) = (es, secs @ [(name, es)])"
    using map_of_absent [OF old] smap_insert_last [OF old, of "[]"]
    by (auto simp: smap_at_def map_add_def)
  have "parse_assign (k @ [char_assign] @ v) (length k) name (i\<lparr>sections := s\<rparr>) =
      i\<lparr>sections := secs @ [(name, es @ [(k, v)])]\<rparr>"
    if "smap_at name s = (es, secs @ [(name, es)])" for s
    using that map_of_absent [OF new] smap_insert_last [OF new, of v] smap_update_last [OF notin]
    by (simp add: parse_assign_def Let_def kv)
  from this [OF at] show ?thesis .
qed

lemma fold_entries:
  assumes "list_all (\<lambda>(k, v). key_ok k \<and> plain v) es" and "sorted_wrt (<) (map fst (es0 @ es))"
    and "\<forall>n \<in> set (map fst secs). n < name"
  shows "fold parse_line (map (\<lambda>(k, v). k @ [char_assign] @ v) es)
      (name, i\<lparr>sections := secs @ (if es0 = [] then [] else [(name, es0)])\<rparr>) =
    (name, i\<lparr>sections := secs @ (if es0 @ es = [] then [] else [(name, es0 @ es)])\<rparr>)"
  using assms
proof (induction es arbitrary: es0)
  case (Cons e es)
  obtain k v where e: "e = (k, v)" by (cases e)
  have kv: "key_ok k" "plain v" and new: "\<forall>k' \<in> set (map fst es0). k' < k"
    using Cons.prems e by (auto simp: sorted_wrt_append)
  have "fold parse_line (map (\<lambda>(k, v). k @ [char_assign] @ v) es)
      (name, i\<lparr>sections := secs @ [(name, es0 @ [(k, v)])]\<rparr>) =
    (name, i\<lparr>sections := secs @ [(name, es0 @ e # es)]\<rparr>)"
    using Cons.IH [of "es0 @ [(k, v)]"] Cons.prems e by simp
  then show ?case
    using parse_entry [OF kv] parse_assign_adds [OF kv new Cons.prems(3)] e by simp
qed simp

lemma gen_entry_pair: "gen_entry (k, v) = k @ [char_assign] @ v @ [newline]"
  by (simp add: gen_entry_def)

lemma getlines_entries:
  assumes "list_all (\<lambda>(k, v). key_ok k \<and> plain v) es"
  shows "getlines (concat (map gen_entry es) @ rest) =
    map (\<lambda>(k, v). k @ [char_assign] @ v) es @ getlines rest"
  using assms
proof (induction es)
  case (Cons e es)
  obtain k v where e: "e = (k, v)" by (cases e)
  have "newline \<notin> set (k @ [char_assign] @ v)"
    using Cons.prems e by (auto simp: key_ok_def plain_def ini_chars)
  from getlines_line [OF this, of "concat (map gen_entry es) @ rest"] Cons e show ?case
    by (simp add: gen_entry_pair)
qed simp

lemma getlines_section:
  assumes "section_ok sec"
  shows "getlines (gen_section sec @ rest) =
    ([char_section_start] @ fst sec @ [char_section_end]) #
    map (\<lambda>(k, v). k @ [char_assign] @ v) (snd sec) @ getlines rest"
proof -
  have "newline \<notin> set ([char_section_start] @ fst sec @ [char_section_end])"
    using assms by (auto simp: section_ok_def ini_chars)
  from getlines_line [OF this] assms show ?thesis
    by (simp add: gen_section_def section_ok_def getlines_entries)
qed

lemma parse_sections:
  assumes "list_all section_ok secs" and "sorted_wrt (<) (map fst (secs0 @ secs))"
  shows "snd (fold parse_line (getlines (concat (map gen_section secs))) (s, i\<lparr>sections := secs0\<rparr>)) =
    i\<lparr>sections := secs0 @ secs\<rparr>"
  using assms
proof (induction secs arbitrary: secs0 s)
  case Nil
  then show ?case by (simp add: parse_line_def ltrim_def rtrim_def)
next
  case (Cons sec secs)
  obtain name es where sec: "sec = (name, es)" by (cases sec)
  have ok: "section_ok (name, es)" and old: "\<forall>n \<in> set (map fst secs0). n < name"
    using Cons.prems sec by (auto simp: sorted_wrt_append)
  then have es: "list_all (\<lambda>(k, v). key_ok k \<and> plain v) es" "sorted_wrt (<) (map fst es)" "es \<noteq> []"
      "newline \<notin> set name"
    by (simp_all add: section_ok_def)
  have "fold parse_line (map (\<lambda>(k, v). k @ [char_assign] @ v) es) (name, i\<lparr>sections := secs0\<rparr>) =
      (name, i\<lparr>sections := secs0 @ [(name, es)]\<rparr>)"
    using fold_entries [of es "[]" secs0 name i] es old by simp
  then show ?case
    using Cons.IH [of "secs0 @ [(name, es)]" name] Cons.prems ok
    by (simp add: sec getlines_section parse_header [OF es(4), simplified])
qed

lemma parse_generated: "ini_ok i \<Longrightarrow> errors i = [] \<Longrightarrow> ini_parse (ini_generate i) ini_empty = i"
  using parse_sections [of "sections i" "[]" "[]" ini_empty]
  by (cases i) (simp add: ini_parse_def ini_generate_def ini_ok_def ini_empty_def)

text \<open>
  C32: A configuration whose sections and keys are in order, whose sections are not empty and
  whose names and values have no newlines and no blanks at their ends, is read back from the
  text that is generated for it, without an error.
\<close>

theorem ini_generate_parse:
  assumes "ini_ok i" and "errors i = []"
  shows "ini_parse (ini_generate i) ini_empty = i"
  using assms by (rule parse_generated)

text \<open>
  The section of a client, as in the sample configuration of the program.
\<close>

definition demo_ini :: ini where
  "demo_ini = \<lparr>sections = [(bytes ''client'', [(bytes ''local'', bytes ''tcp://127.0.0.1:2080''),
     (bytes ''remote'', bytes ''kcp://1.2.3.4:8388'')]), (bytes ''log'', [(bytes ''level'', bytes ''warn'')])],
     errors = []\<rparr>"

theorem ini_generate_parse_witness: "ini_parse (ini_generate demo_ini) ini_empty = demo_ini"
proof -
  have "ini_ok demo_ini"
    by (simp add: ini_ok_def demo_ini_def section_ok_def key_ok_def plain_def bytes_def byte_of_def
      is_space_def ini_chars)
  then show ?thesis
    by (rule ini_generate_parse) (simp add: demo_ini_def)
qed

end
