(* ===== verification/Mlog.thy ===== *)
theory Mlog
  imports Endpoint "HOL-Library.Char_ord"
begin

section \<open>Logging, time and dumps (source/mlog.h, source/timeUtility.h, source/public.h)\<close>

text \<open>
  A log statement \<open>LOG_X << a << b << c\<close> makes a chain of temporary objects \<open>A\<close>; each is moved
  into the next and destroyed, and the one that is still alive writes the end of the line. The
  stream is the list of the bytes written so far. The levels are ordered as the enum is, by an
  instance of \<open>linorder\<close>.
\<close>

unbundle bit_operations_syntax

datatype LogLevel = DBUG | INFO | WARN | CRIT

fun level_num :: "LogLevel \<Rightarrow> nat" where
  "level_num DBUG = 0"
| "level_num INFO = 1"
| "level_num WARN = 2"
| "level_num CRIT = 3"

lemma level_num_inj: "level_num a = level_num b \<longleftrightarrow> a = b"
  by (cases a; cases b) simp_all

instantiation LogLevel :: linorder
begin

definition less_eq_LogLevel :: "LogLevel \<Rightarrow> LogLevel \<Rightarrow> bool" where
  "less_eq_LogLevel a b \<longleftrightarrow> level_num a \<le> level_num b"

definition less_LogLevel :: "LogLevel \<Rightarrow> LogLevel \<Rightarrow> bool" where
  "less_LogLevel a b \<longleftrightarrow> level_num a < level_num b"

instance
  by standard (auto simp: less_eq_LogLevel_def less_LogLevel_def level_num_inj)

end

fun level_str :: "LogLevel \<Rightarrow> byte list" where
  "level_str DBUG = bytes ''[DBUG] ''"
| "level_str INFO = bytes ''[INFO] ''"
| "level_str WARN = bytes ''[WARN] ''"
| "level_str CRIT = bytes ''[CRIT] ''"

text \<open>The global level starts at \<open>INFO\<close> and is replaced by \<open>set_level\<close>.\<close>

definition initial_level :: LogLevel where "initial_level = INFO"

definition set_level :: "LogLevel \<Rightarrow> LogLevel \<Rightarrow> LogLevel" where
  "set_level level outlevel = level"

subsection \<open>The temporary objects (lines 33 to 55)\<close>

text \<open>\<open>A_move r\<close> answers the new object and what \<open>r\<close> is afterwards.\<close>

record log_A = live :: bool

definition A_dead :: log_A where "A_dead = \<lparr>live = False\<rparr>"
definition A_on :: log_A where "A_on = \<lparr>live = True\<rparr>"

definition A_move :: "log_A \<Rightarrow> log_A \<times> log_A" where
  "A_move r = (if live r then (\<lparr>live = True\<rparr>, r\<lparr>live := False\<rparr>) else (\<lparr>live = False\<rparr>, r))"

definition A_destroy :: "log_A \<Rightarrow> byte list \<Rightarrow> byte list" where
  "A_destroy a os = (if live a then os @ [10] else os)"

text \<open>\<open>operator<< (A&&, t)\<close>: write, and return the argument as a new object.\<close>

definition A_put :: "log_A \<Rightarrow> byte list \<Rightarrow> byte list \<Rightarrow> log_A \<times> log_A \<times> byte list" where
  "A_put a t os =
     (let os = (if live a then os @ t else os);
          (a', a) = A_move a
      in (a', a, os))"

text \<open>\<open>operator<< (mlog&, t)\<close>.\<close>

definition mlog_put :: "LogLevel \<Rightarrow> LogLevel \<Rightarrow> byte list \<Rightarrow> byte list \<Rightarrow> log_A \<times> byte list" where
  "mlog_put outlevel level t os =
     (if level \<ge> outlevel
      then
        let (a1, a0, os) = A_put A_on (level_str level) os;
            (a2, a1, os) = A_put a1 t os
        in (a2, A_destroy a0 (A_destroy a1 os))
      else (A_dead, os))"

text \<open>The rest of the statement; at its end the last object is destroyed.\<close>

fun log_rest :: "byte list list \<Rightarrow> log_A \<times> byte list \<Rightarrow> byte list" where
  "log_rest [] (a, os) = A_destroy a os"
| "log_rest (t # ts) (a, os) =
     (let (a', a, os) = A_put a t os
      in A_destroy a (log_rest ts (a', os)))"

definition log_statement :: "LogLevel \<Rightarrow> LogLevel \<Rightarrow> byte list list \<Rightarrow> byte list \<Rightarrow> byte list" where
  "log_statement outlevel level ts os =
     (case ts of [] \<Rightarrow> os | t # ts \<Rightarrow> log_rest ts (mlog_put outlevel level t os))"

lemma log_rest_live: "log_rest ts (A_on, os) = os @ concat ts @ [10]"
  by (induction ts arbitrary: os) (simp_all add: A_on_def A_destroy_def A_put_def A_move_def)

lemma log_rest_dead: "log_rest ts (A_dead, os) = os"
  by (induction ts arbitrary: os) (simp_all add: A_dead_def A_destroy_def A_put_def A_move_def)

text \<open>
  A log statement of a level at or above the current one writes its tag, its items and
  exactly one newline, however many items it has; one below writes nothing.
\<close>

theorem log_statement_line:
  assumes "ts \<noteq> []"
  shows "log_statement outlevel level ts os =
    (if outlevel \<le> level then os @ level_str level @ concat ts @ [10] else os)"
proof (cases ts)
  case (Cons t rest)
  have "outlevel \<le> level \<Longrightarrow> mlog_put outlevel level t os = (A_on, os @ level_str level @ t)"
    by (simp add: mlog_put_def A_put_def A_move_def A_destroy_def A_on_def)
  then show ?thesis
    using log_rest_live log_rest_dead by (simp add: Cons log_statement_def mlog_put_def)
qed (use assms in simp)

theorem log_statement_line_witness:
  "log_statement INFO WARN [bytes ''a'', bytes ''b''] [] = bytes ''[WARN] ab'' @ [10] \<and>
   log_statement INFO DBUG [bytes ''a''] [] = []"
  using log_statement_line [of "[bytes ''a'', bytes ''b'']" INFO WARN "[]"]
    log_statement_line [of "[bytes ''a'']" INFO DBUG "[]"]
  by (simp add: bytes_def less_eq_LogLevel_def)

subsection \<open>The clock (timeUtility.h, lines 55 to 61)\<close>

text \<open>Milliseconds of the wall clock in 32 bits; the clock's answer is an argument.\<close>

definition now_ms :: "int \<Rightarrow> int \<Rightarrow> u32" where
  "now_ms tv_sec tv_nsec = word_of_int tv_sec * 1000 + word_of_int tv_nsec div 1000000"

lemma now_ms_wraps:
  assumes "0 \<le> nsec" and "nsec < 10 ^ 9"
  shows "uint (now_ms sec nsec) = (sec * 1000 + nsec div 1000000) mod 2 ^ 32"
proof -
  have small: "take_bit 32 nsec = nsec"
    using assms by (intro take_bit_int_eq_self) simp_all
  have "uint (word_of_int nsec div 1000000 :: u32) = nsec div 1000000"
    using assms by (simp add: uint_div small unsigned_of_int)
  then have "(word_of_int nsec div 1000000 :: u32) = word_of_int (nsec div 1000000)"
    by (metis word_of_int_uint)
  then have now: "now_ms sec nsec = word_of_int (sec * 1000 + nsec div 1000000)"
    by (simp add: now_ms_def)
  show ?thesis
    unfolding now uint_word_of_int by simp
qed

end
