(* ===== verification/Kcpss_Main.thy ===== *)
theory Kcpss_Main
  imports Proxy_Life Ini Mlog
begin

section \<open>Configuration and start (source/kcpss.cpp, lines 186 to 268)\<close>

text \<open>
  \<open>main\<close> picks the configuration file and the mode and starts one of the proxies. The file
  system and \<open>getopt\<close> are arguments: whether a file can be read and what it holds, and the
  option letters in their order. \<open>Exit\<close> is a call of \<open>exit\<close>.
\<close>

text \<open>\<open>std::tolower\<close> in the C locale.\<close>

definition tolower :: "byte \<Rightarrow> byte" where
  "tolower c = (if 65 \<le> c \<and> c \<le> 90 then c + 32 else c)"

definition log_level_of :: "byte list \<Rightarrow> LogLevel" where
  "log_level_of logLevel =
     (if logLevel = bytes ''critical'' \<or> logLevel = bytes ''crit'' then CRIT
      else if logLevel = bytes ''warn'' \<or> logLevel = bytes ''warning'' then WARN
      else if logLevel = bytes ''info'' then INFO
      else if logLevel = bytes ''debug'' \<or> logLevel = bytes ''dbug'' then DBUG
      else INFO)"

definition parse_config :: "byte list option \<Rightarrow> byte list \<Rightarrow> (proxy_config \<times> LogLevel) result" where
  "parse_config file modeString =
     (case file of
        None \<Rightarrow> Exit 0
      | Some is \<Rightarrow>
          let iniConfig = ini_parse is ini_empty;
              run_config = \<lparr>cfg_local = [], cfg_remote = [], remote_codec = Null_codec\<rparr>;
              run_config =
                (if modeString = bytes ''server''
                 then run_config\<lparr>cfg_local := ini_lookup iniConfig (bytes ''server'') (bytes ''local''),
                                 cfg_remote := []\<rparr>
                 else if modeString = bytes ''client''
                 then run_config\<lparr>cfg_local := ini_lookup iniConfig (bytes ''client'') (bytes ''local''),
                                 cfg_remote := ini_lookup iniConfig (bytes ''client'') (bytes ''remote'')\<rparr>
                 else run_config);
              run_config = run_config\<lparr>remote_codec := Fast_codec\<rparr>;
              logLevel = map tolower (ini_lookup iniConfig (bytes ''log'') (bytes ''level''))
          in Got (run_config, set_level (log_level_of logLevel) initial_level))"

text \<open>The loop over the options; the version and the usage end the process.\<close>

fun parse_options :: "char list \<Rightarrow> byte list \<Rightarrow> byte list result" where
  "parse_options [] modeString = Got modeString"
| "parse_options (opt # opts) modeString =
     (if opt = CHR ''s'' then parse_options opts (bytes ''server'')
      else if opt = CHR ''c'' then parse_options opts (bytes ''client'')
      else if opt = CHR ''v'' then Exit 0
      else Exit 1)"

datatype kcpss_run = Run_server "server option" | Run_client "client option" | Run_nothing

definition config_file :: "(byte list \<Rightarrow> byte list option) \<Rightarrow> byte list" where
  "config_file files =
     (if files (bytes ''./kcpss.ini'') \<noteq> None then bytes ''./kcpss.ini'' else bytes ''/etc/kcpss.ini'')"

definition kcpss_main ::
  "env \<Rightarrow> listen_os \<Rightarrow> u32 \<Rightarrow> (byte list \<Rightarrow> byte list option) \<Rightarrow> char list \<Rightarrow> kcpss_run result" where
  "kcpss_main e os cv files opts =
     (case parse_options opts [] of
        Exit code \<Rightarrow> Exit code
      | Got modeString \<Rightarrow>
          (case parse_config (files (config_file files)) modeString of
             Exit code \<Rightarrow> Exit code
           | Got (config, level) \<Rightarrow>
               Got (if modeString = bytes ''server'' then Run_server (start_server e cv config)
                    else if modeString = bytes ''client'' then Run_client (start_client e os cv config)
                    else Run_nothing)))"

subsection \<open>Properties\<close>

lemma parse_options_last:
  "set opts \<subseteq> {CHR ''s'', CHR ''c''} \<Longrightarrow>
   parse_options opts m =
     Got (if opts = [] then m else if last opts = CHR ''s'' then bytes ''server'' else bytes ''client'')"
  by (induction opts arbitrary: m) auto

text \<open>A word written in any mixture of small and capital letters.\<close>

definition spelled :: "string \<Rightarrow> byte list \<Rightarrow> bool" where
  "spelled word s \<longleftrightarrow>
     list_all2 (\<lambda>x y. y = x \<or> 97 \<le> x \<and> x \<le> 122 \<and> y + 32 = x) (bytes word) s"

lemma tolower_small:
  assumes "97 \<le> x" and "x \<le> 122"
  shows "tolower y = x \<longleftrightarrow> y = x \<or> y + 32 = x"
  using assms unfolding tolower_def by unat_arith

lemma spelled_tolower:
  assumes "list_all (\<lambda>x. 97 \<le> x \<and> x \<le> 122) (bytes word)"
  shows "spelled word s \<longleftrightarrow> map tolower s = bytes word"
proof -
  have "list_all2 (\<lambda>x y. y = x \<or> 97 \<le> x \<and> x \<le> 122 \<and> y + 32 = x) xs ys \<longleftrightarrow> map tolower ys = xs"
    if "list_all (\<lambda>x. 97 \<le> x \<and> x \<le> 122) xs" for xs ys
    using that by (induction xs ys rule: list_induct2') (auto simp: tolower_small)
  from this [OF assms] show ?thesis by (simp add: spelled_def)
qed

text \<open>The names of the levels.\<close>

definition level_names :: "(string \<times> LogLevel) list" where
  "level_names =
     [(''critical'', CRIT), (''crit'', CRIT), (''warn'', WARN), (''warning'', WARN), (''info'', INFO),
      (''debug'', DBUG), (''dbug'', DBUG)]"

lemma level_names_small:
  "(word, l) \<in> set level_names \<Longrightarrow> list_all (\<lambda>x. 97 \<le> x \<and> x \<le> 122) (bytes word)"
  by (auto simp: level_names_def bytes_def byte_of_def)

lemma log_level_named:
  assumes "(word, l) \<in> set level_names" and "spelled word s"
  shows "log_level_of (map tolower s) = l"
  using assms(1) spelled_tolower [OF level_names_small [OF assms(1)], of s] assms(2)
  by (auto simp: level_names_def log_level_of_def bytes_def byte_of_def)

lemma log_level_other:
  assumes "\<forall>(word, l) \<in> set level_names. \<not> spelled word s"
  shows "log_level_of (map tolower s) = INFO"
proof -
  have "map tolower s \<noteq> bytes word" if "(word, l) \<in> set level_names" for word l
    using assms that spelled_tolower [OF level_names_small [OF that], of s] by auto
  then show ?thesis
    by (auto simp: level_names_def log_level_of_def)
qed

text \<open>
  C34: With a generated configuration file in place, \<open>./kcpss.ini\<close> or else \<open>/etc/kcpss.ini\<close>, the
  program starts the proxy of the last of the options \<open>-s\<close> and \<open>-c\<close> on the addresses
  that the section of this mode holds, a server without a remote address, and always with the
  fast codec. The log level is the one the file names: critical or crit, warn or warning, info,
  debug or dbug, in small or capital letters, and info for any other text.
\<close>

theorem generated_config_runs:
  assumes "ini_ok i" and "errors i = []" and "opts \<noteq> []" and "set opts \<subseteq> {CHR ''s'', CHR ''c''}"
    and "files (bytes ''./kcpss.ini'') = Some (ini_generate i) \<or>
      files (bytes ''./kcpss.ini'') = None \<and> files (bytes ''/etc/kcpss.ini'') = Some (ini_generate i)"
  shows "let server = \<lparr>cfg_local = ini_lookup i (bytes ''server'') (bytes ''local''), cfg_remote = [],
           remote_codec = Fast_codec\<rparr>;
      client = \<lparr>cfg_local = ini_lookup i (bytes ''client'') (bytes ''local''),
           cfg_remote = ini_lookup i (bytes ''client'') (bytes ''remote''), remote_codec = Fast_codec\<rparr>;
      named = ini_lookup i (bytes ''log'') (bytes ''level'')
    in kcpss_main e os cv files opts =
        Got (if last opts = CHR ''s'' then Run_server (start_server e cv server)
             else Run_client (start_client e os cv client)) \<and>
      (\<forall>mode \<in> {bytes ''server'', bytes ''client''}. \<exists>level.
        parse_config (Some (ini_generate i)) mode =
          Got (if mode = bytes ''server'' then server else client, level) \<and>
        (\<forall>(word, l) \<in> set level_names. spelled word named \<longrightarrow> level = l) \<and>
        ((\<forall>(word, l) \<in> set level_names. \<not> spelled word named) \<longrightarrow> level = INFO))"
proof -
  have ne: "bytes ''client'' \<noteq> bytes ''server''" by (simp add: bytes_def byte_of_def)
  define named server client where "named = ini_lookup i (bytes ''log'') (bytes ''level'')"
    and "server = \<lparr>cfg_local = ini_lookup i (bytes ''server'') (bytes ''local''), cfg_remote = [],
           remote_codec = Fast_codec\<rparr>"
    and "client = \<lparr>cfg_local = ini_lookup i (bytes ''client'') (bytes ''local''),
           cfg_remote = ini_lookup i (bytes ''client'') (bytes ''remote''), remote_codec = Fast_codec\<rparr>"
  have config: "parse_config (Some (ini_generate i)) mode =
      Got (if mode = bytes ''server'' then server else client, log_level_of (map tolower named))"
    if "mode \<in> {bytes ''server'', bytes ''client''}" for mode
    using that parse_generated [OF assms(1,2)] ne
    by (auto simp: parse_config_def Let_def set_level_def named_def server_def client_def)
  have "files (config_file files) = Some (ini_generate i)"
    using assms(5) by (auto simp: config_file_def)
  with config parse_options_last [OF assms(4)] assms(3) ne
  have "kcpss_main e os cv files opts =
        Got (if last opts = CHR ''s'' then Run_server (start_server e cv server)
             else Run_client (start_client e os cv client))"
    by (simp add: kcpss_main_def)
  moreover have "\<forall>(word, l) \<in> set level_names. spelled word named \<longrightarrow> log_level_of (map tolower named) = l"
    using log_level_named by blast
  ultimately show ?thesis
    using config log_level_other [of named]
    unfolding Let_def named_def [symmetric] server_def [symmetric] client_def [symmetric] by blast
qed

lemma demo_ini_ok: "ini_ok demo_ini" "errors demo_ini = []"
  by (simp_all add: ini_ok_def demo_ini_def section_ok_def key_ok_def plain_def bytes_def byte_of_def
      is_space_def ini_chars)

definition demo_listen :: listen_os where
  "demo_listen = \<lparr>lo_socket = 3, lo_ioctl = []\<rparr>"

theorem generated_config_runs_witness:
  "(\<exists>config. kcpss_main demo_os demo_listen 7 (\<lambda>_. Some (ini_generate demo_ini)) ''sc'' =
     Got (Run_client (start_client demo_os demo_listen 7 config)) \<and>
     cfg_local config = bytes ''tcp://127.0.0.1:2080'' \<and> cfg_remote config = bytes ''kcp://1.2.3.4:8388'') \<and>
   (\<exists>config. parse_config (Some (ini_generate demo_ini)) (bytes ''client'') = Got (config, WARN))"
proof -
  note run = generated_config_runs [OF demo_ini_ok, of "''sc''" "\<lambda>_. Some (ini_generate demo_ini)" demo_os demo_listen 7]
  have level: "spelled ''warn'' (ini_lookup demo_ini (bytes ''log'') (bytes ''level''))"
    by (simp add: spelled_def demo_ini_def ini_lookup_def bytes_def byte_of_def)
  have "(''warn'', WARN) \<in> set level_names"
    by (simp add: level_names_def)
  with run level have "\<exists>config. parse_config (Some (ini_generate demo_ini)) (bytes ''client'') = Got (config, WARN)"
    by (fastforce simp: Let_def)
  moreover have "kcpss_main demo_os demo_listen 7 (\<lambda>_. Some (ini_generate demo_ini)) ''sc'' =
     Got (Run_client (start_client demo_os demo_listen 7
       \<lparr>cfg_local = bytes ''tcp://127.0.0.1:2080'', cfg_remote = bytes ''kcp://1.2.3.4:8388'',
        remote_codec = Fast_codec\<rparr>))"
    using run by (simp add: Let_def demo_ini_def ini_lookup_def bytes_def byte_of_def)
  ultimately show ?thesis by force
qed

end
