(* ===== verification/Udp_Frames.thy ===== *)
theory Udp_Frames
  imports Udp
begin

section \<open>Frames and the receive loop of a UDP socket\<close>

text \<open>
  What \<open>udp::send\<close> queues are frames of one KCP segment each, and what a frame says is what
  was put in (\<open>frame_reads\<close>). The locale \<open>session_client\<close> is the contract of a session
  callback: it handles a frame without failing and leaves the receive side of the block
  alone. Under it the receive loop returns when no complete message is left.
\<close>

unbundle bit_operations_syntax

subsection \<open>Sending\<close>

definition frame :: "int \<Rightarrow> byte list \<Rightarrow> byte list" where
  "frame sid d = session_header sid (int (length d)) @ d"

lemma length_session_header [simp]: "length (session_header sid n) = 8"
  by (simp add: session_header_def)

lemma length_frame [simp]: "length (frame sid d) = length d + 8"
  by (simp add: frame_def)

text \<open>A message of one segment, out of a buffer that may be longer than it.\<close>

lemma ikcp_send_one:
  assumes "grants_all al" and "mss kcp = 1376" and "stream kcp = 0"
    and "0 < n" and "n \<le> 1376" and "n \<le> length b"
  shows "ikcp_send al kcp (Some b) (int n) = Some (0, send_queue kcp [frag_seg al (take n b, 0)])"
proof -
  have count: "frag_count kcp (int n) = 1"
    using assms(2,4,5) by (simp add: frag_count_def)
  show ?thesis
    using assms count
    by (simp add: ikcp_send_def send_rest_def IKCP_WND_RCV_def send_frags.simps(2) new_seg_Some
        frag_seg_def send_queue_def Let_def)
qed

lemma put_segment_frame:
  "length d \<le> 1368 \<Longrightarrow> length seg = 1376 \<Longrightarrow>
   length (put_segment sid (int (length d)) d seg) = 1376 \<and>
   take (length d + 8) (put_segment sid (int (length d)) d seg) = frame sid d"
  by (simp add: put_segment_def frame_def udp_consts)

lemma send_queue_append: "send_queue (send_queue kcp xs) ys = send_queue kcp (xs @ ys)"
  by (simp add: send_queue_def)

lemma send_queue_fields [simp]:
  "stream (send_queue kcp xs) = stream kcp" "conv (send_queue kcp xs) = conv kcp"
  "rcv_queue (send_queue kcp xs) = rcv_queue kcp" "rcv_buf (send_queue kcp xs) = rcv_buf kcp"
  by (simp_all add: send_queue_def)

lemma send_chunks_frames:
  assumes "grants_all al" and "mss kcp = 1376" and "stream kcp = 0" and "length seg = 1376"
  shows "\<exists>seg'. length seg' = 1376 \<and>
    send_chunks al sid buf kcp seg =
      Some (0, send_queue kcp (map (\<lambda>d. frag_seg al (frame sid d, 0)) (chunks 1368 buf)), seg')"
  using assms
proof (induction al sid buf kcp seg rule: send_chunks.induct)
  case (1 al sid buf kcp seg)
  show ?case
  proof (cases "length buf > MAX_PAYLOAD")
    case True
    let ?d = "take MAX_PAYLOAD buf" and ?seg = "put_segment sid (int MAX_PAYLOAD) (take MAX_PAYLOAD buf) seg"
    let ?k = "send_queue kcp [frag_seg al (frame sid ?d, 0)]"
    have len: "length ?d = 1368"
      using True by (simp add: udp_consts)
    then have seg: "length ?seg = 1376" "take 1376 ?seg = frame sid ?d"
      using put_segment_frame [of ?d seg sid] "1.prems" by (simp_all add: udp_consts)
    then have sent: "ikcp_send al kcp (Some ?seg) (int MTU) = Some (0, ?k)"
      using ikcp_send_one [of al kcp 1376 ?seg] "1.prems" True by (simp add: MTU_def MAX_PAYLOAD_def SessionHeaderSize_def)
    from "1.IH" [OF True refl sent refl] "1.prems" seg obtain seg' where
      "length seg' = 1376"
      "send_chunks al sid (drop MAX_PAYLOAD buf) ?k ?seg = Some (0, send_queue ?k
        (map (\<lambda>d. frag_seg al (frame sid d, 0)) (chunks 1368 (drop MAX_PAYLOAD buf))), seg')"
      by auto
    moreover have "chunks 1368 buf = take 1368 buf # chunks 1368 (drop 1368 buf)"
      using True by (simp add: chunks_large udp_consts)
    ultimately show ?thesis
      using True sent by (subst send_chunks.simps) (simp add: Let_def send_queue_append udp_consts)
  next
    case False
    then have len: "length buf \<le> 1368" by (simp add: udp_consts)
    let ?seg = "put_segment sid (int (length buf)) buf seg"
    have seg: "length ?seg = 1376" "take (length buf + 8) ?seg = frame sid buf"
      using put_segment_frame [of buf seg sid] "1.prems" len by simp_all
    have "ikcp_send al kcp (Some ?seg) (int (length buf + SessionHeaderSize)) =
        Some (0, send_queue kcp [frag_seg al (frame sid buf, 0)])"
      using ikcp_send_one [of al kcp "length buf + 8" ?seg] "1.prems" len seg
      by (simp add: SessionHeaderSize_def add.commute)
    then show ?thesis
      using False seg len by (subst send_chunks.simps) (simp add: Let_def chunks_small)
  qed
qed

subsection \<open>Reading a frame\<close>

lemma frame_reads:
  assumes "- (2 ^ 31) \<le> sid" and "sid < 2 ^ 31" and "length d < 2 ^ 31"
  shows "seg_sid (frame sid d @ rest) = sid" and "seg_size (frame sid d @ rest) = int (length d)"
    and "take (length d) (seg_payload (frame sid d @ rest)) = d"
proof -
  have 1: "load32 (h ! 0) (h ! 1) (h ! 2) (h ! 3) = a" "load32 (h ! 4) (h ! 5) (h ! 6) (h ! 7) = b"
    if "h = mem32 a @ mem32 b @ t" for h a b t
    using load32_mem32 [of a] load32_mem32 [of b] that by (simp_all add: mem32_def eval_nat_numeral)
  have h: "frame sid d @ rest = mem32 (word_of_int sid) @ mem32 (word_of_int (int (length d))) @ d @ rest"
    by (simp add: frame_def session_header_def)
  have w: "sint (word_of_int x :: u32) = x" if "- (2 ^ 31) \<le> x" "x < 2 ^ 31" for x
    using that i32_id [of x] by (simp add: sint_u32_eq i32_def unsigned_of_int signed_take_bit_take_bit)
  show "seg_sid (frame sid d @ rest) = sid"
    unfolding seg_sid_def using 1 [OF h] w [OF assms(1,2)] by simp
  show "seg_size (frame sid d @ rest) = int (length d)"
    unfolding seg_size_def using 1 [OF h] w [of "int (length d)"] assms(3) by simp
  show "take (length d) (seg_payload (frame sid d @ rest)) = d"
    by (simp add: seg_payload_def frame_def SessionHeaderSize_def)
qed

subsection \<open>The receive side of a block\<close>

definition rcv_segs :: "IKCPCB \<Rightarrow> IKCPSEG list" where
  "rcv_segs kcp = rcv_queue kcp @ rcv_buf kcp"

lemma rcv_segs_refill [simp]: "rcv_segs (recv_refill b kcp) = rcv_segs kcp"
  by (simp add: rcv_segs_def recv_refill_def move_ready_eq Let_def)

lemma rcv_segs_pop:
  "rcv_segs (recv_pop kcp) = drop (length (first_msg (rcv_queue kcp))) (rcv_segs kcp)"
  using length_first_msg_le [of "rcv_queue kcp"] by (simp add: rcv_segs_def recv_pop_def Let_def)

text \<open>A segment that holds one whole frame, as \<open>udp::send\<close> queues them.\<close>

definition frame_seg :: "IKCPSEG \<Rightarrow> bool" where
  "frame_seg s \<longleftrightarrow> seg_frg s = 0 \<and> unat (seg_len s) = length (seg_data s) \<and>
     (\<exists>sid d. - (2 ^ 31) \<le> sid \<and> sid < 2 ^ 31 \<and> length d \<le> 1368 \<and> seg_data s = frame sid d)"

lemma frame_seg_sent:
  assumes "- (2 ^ 31) \<le> sid" and "sid < 2 ^ 31" and "length d \<le> 1368"
  shows "frame_seg (frag_seg al (frame sid d, 0))"
proof -
  have "unat (of_nat (length d + 8) :: u32) = length d + 8"
    using assms(3) by (intro unat_of_nat_u32) simp
  with assms show ?thesis
    by (auto simp: frame_seg_def frag_seg_def)
qed

definition frames_ok :: "IKCPCB \<Rightarrow> bool" where
  "frames_ok kcp \<longleftrightarrow> list_all frame_seg (rcv_segs kcp)"

lemma recv_frame:
  assumes "frames_ok kcp" and "rcv_queue kcp = s # q"
  obtains sid d b where "- (2 ^ 31) \<le> sid" "sid < 2 ^ 31" "length d \<le> 1368" "seg_data s = frame sid d"
    "ikcp_recv kcp True (int MTU) =
       Some (int (length d + 8), frame sid d, recv_refill b (recv_pop kcp))"
    "rcv_segs (recv_refill b (recv_pop kcp)) = tl (rcv_segs kcp)"
proof -
  have s: "frame_seg s"
    using assms by (simp add: frames_ok_def rcv_segs_def)
  then obtain sid d where d: "- (2 ^ 31) \<le> sid" "sid < 2 ^ 31" "length d \<le> 1368" "seg_data s = frame sid d"
    by (auto simp: frame_seg_def)
  have len: "unat (seg_len s) = length d + 8" and frg: "seg_frg s = 0"
    using s d(4) by (simp_all add: frame_seg_def)
  have first: "first_msg (rcv_queue kcp) = [s]"
    using frg by (simp add: assms(2))
  have "ikcp_peeksize kcp = sint (seg_len s)"
    using frg by (simp add: ikcp_peeksize_def assms(2))
  moreover have "unat (seg_len s) < 2 ^ 31"
    using len d(3) by simp
  ultimately have peek: "ikcp_peeksize kcp = int (length d + 8)"
    using sint_small [of "seg_len s"] len by simp
  show thesis
  proof (rule that [OF d])
    show "ikcp_recv kcp True (int MTU) = Some (int (length d + 8), frame sid d,
        recv_refill (nrcv_que kcp \<ge> rcv_wnd kcp) (recv_pop kcp))"
      using peek d(3,4) len first by (simp add: ikcp_recv_eq assms(2) MTU_def)
    show "rcv_segs (recv_refill (nrcv_que kcp \<ge> rcv_wnd kcp) (recv_pop kcp)) = tl (rcv_segs kcp)"
      using first by (simp add: rcv_segs_pop drop_Suc)
  qed
qed

subsection \<open>The contract of a session callback\<close>

text \<open>
  \<open>out\<close> is what the client of the socket has handed on so far, \<open>put sid d\<close> what it hands on for a
  frame with the payload \<open>d\<close>.
\<close>

definition frame_of :: "IKCPSEG \<Rightarrow> int \<times> byte list" where
  "frame_of s = (seg_sid (seg_data s), seg_payload (seg_data s))"

lemma frame_of_sent:
  assumes "- (2 ^ 31) \<le> sid" and "sid < 2 ^ 31" and "length d \<le> 1368"
  shows "frame_of (frag_seg al (frame sid d, 0)) = (sid, d)"
proof -
  have "seg_data (frag_seg al (frame sid d, 0)) = frame sid d"
    by (simp add: frag_seg_def)
  with frame_reads(1) [OF assms(1,2), of d "[]"] assms(3) show ?thesis
    by (simp add: frame_of_def) (simp add: frame_def seg_payload_def SessionHeaderSize_def)
qed

locale session_client =
  fixes sess :: "u32 \<Rightarrow> int \<Rightarrow> int \<Rightarrow> 'z udp_world_scheme \<Rightarrow> 'z udp_world_scheme option"
    and inv :: "'z udp_world_scheme \<Rightarrow> bool"
    and out :: "'z udp_world_scheme \<Rightarrow> 'o list"
    and put :: "int \<Rightarrow> byte list \<Rightarrow> 'o list"
  assumes segment_size: "inv w \<Longrightarrow> length (segment w) = 1376"
    and callback_set: "inv w \<Longrightarrow> udp_cb w"
    and received: "inv w \<Longrightarrow> length seg = 1376 \<Longrightarrow> inv ((set_kcp k kcp w)\<lparr>segment := seg\<rparr>)"
    and received_out: "out ((set_kcp k kcp w)\<lparr>segment := seg\<rparr>) = out w"
    and handled: "inv w \<Longrightarrow> segment w = frame sid d @ rest \<Longrightarrow> - (2 ^ 31) \<le> sid \<Longrightarrow> sid < 2 ^ 31 \<Longrightarrow>
        length d \<le> 1368 \<Longrightarrow> \<exists>w'. sess cv sid (int (length d)) w = Some w' \<and> inv w' \<and>
          out w' = out w @ put sid d \<and>
          (\<forall>k kcp. kcp_mem w k = Some kcp \<longrightarrow> (\<exists>kcp'. kcp_mem w' k = Some kcp' \<and>
             rcv_queue kcp' = rcv_queue kcp \<and> rcv_buf kcp' = rcv_buf kcp))"
begin

lemma received_keeps:
  assumes "inv w" and "length d \<le> 1376"
  shows "inv ((set_kcp k kcp w)\<lparr>segment := d @ drop (length d) (segment w)\<rparr>)"
  using assms segment_size [OF assms(1)] by (intro received) simp_all

text \<open>One round of the loop takes one segment and hands on what it holds.\<close>

lemma recv_round:
  assumes inv: "inv w" and kcp: "kcp_mem w k = Some kcp" and ok: "frames_ok kcp" and "rcv_queue kcp = s # q"
  shows "\<exists>w' kcp'. udp_recv_loop sess k w = udp_recv_loop sess k w' \<and> inv w' \<and> kcp_mem w' k = Some kcp' \<and>
    rcv_segs kcp = s # rcv_segs kcp' \<and> (rcv_buf kcp = [] \<longrightarrow> rcv_buf kcp' = []) \<and> out w' = out w @ case_prod put (frame_of s)"
proof -
  obtain sid d b where d: "- (2 ^ 31) \<le> sid" "sid < 2 ^ 31" "length d \<le> 1368" "seg_data s = frame sid d"
    and recv: "ikcp_recv kcp True (int MTU) =
       Some (int (length d + 8), frame sid d, recv_refill b (recv_pop kcp))"
    and segs: "rcv_segs (recv_refill b (recv_pop kcp)) = tl (rcv_segs kcp)"
    using recv_frame [OF ok assms(4)] by blast
  define kcp1 where "kcp1 = recv_refill b (recv_pop kcp)"
  define w1 where "w1 = (set_kcp k kcp1 w)\<lparr>segment := frame sid d @ drop (length d + 8) (segment w)\<rparr>"
  have w1: "inv w1" "kcp_mem w1 k = Some kcp1" "out w1 = out w"
    using received_keeps [OF inv, of "frame sid d" k kcp1] d(3) received_out
    by (simp_all add: w1_def) (simp add: set_kcp_def)
  have buf: "rcv_buf kcp1 = []" if "rcv_buf kcp = []"
    using that by (simp add: kcp1_def recv_refill_def recv_pop_def move_ready_eq Let_def)
  have reads: "seg_sid (segment w1) = sid" "seg_size (segment w1) = int (length d)"
    using frame_reads [OF d(1,2)] d(3) by (simp_all add: w1_def)
  have cb: "udp_cb (set_kcp k kcp1 w)"
    using callback_set [OF inv] by (simp add: set_kcp_def)
  obtain w2 kcp2 where w2: "sess (conv kcp1) sid (int (length d)) w1 = Some w2" "inv w2"
      "kcp_mem w2 k = Some kcp2" "rcv_queue kcp2 = rcv_queue kcp1" "rcv_buf kcp2 = rcv_buf kcp1"
      "out w2 = out w1 @ put sid d"
    using handled [OF w1(1), of sid d] d w1(2) by (fastforce simp: w1_def)
  have "udp_recv_loop sess k w = udp_recv_loop sess k w2"
    using kcp recv reads w2(1)
    by (subst udp_recv_loop.simps) (simp add: Let_def cb flip: kcp1_def w1_def)
  moreover have "rcv_segs kcp = s # rcv_segs kcp2"
    using segs w2(4,5) assms(4) by (simp add: rcv_segs_def kcp1_def)
  moreover have "frame_of s = (sid, d)"
    using frame_reads(1) [OF d(1,2), of d "[]"] d(3,4)
    by (simp add: frame_of_def) (simp add: frame_def seg_payload_def SessionHeaderSize_def)
  ultimately show ?thesis
    using w2 w1(3) buf by auto
qed

text \<open>The loop returns, with no complete message left and everything handed on in order.\<close>

lemma recv_loop_returns:
  assumes "inv w" and "kcp_mem w k = Some kcp" and "frames_ok kcp"
  shows "\<exists>w' kcp' ss. udp_recv_loop sess k w = Some w' \<and> inv w' \<and> kcp_mem w' k = Some kcp' \<and>
     rcv_queue kcp' = [] \<and> (rcv_buf kcp = [] \<longrightarrow> rcv_buf kcp' = []) \<and>
     rcv_segs kcp = ss @ rcv_segs kcp' \<and> out w' = out w @ concat (map (case_prod put \<circ> frame_of) ss)"
  using assms
proof (induction "length (rcv_segs kcp)" arbitrary: w kcp rule: less_induct)
  case less
  show ?case
  proof (cases "rcv_queue kcp")
    case Nil
    let ?w = "(set_kcp k kcp w)\<lparr>segment := segment w\<rparr>"
    have "ikcp_recv kcp True (int MTU) = Some (- 1, [], kcp)"
      using Nil by (simp add: ikcp_recv_eq)
    then have "udp_recv_loop sess k w = Some ?w"
      using less.prems by (simp add: udp_recv_loop.simps [of sess k w])
    moreover have "inv ?w" "kcp_mem ?w k = Some kcp" "out ?w = out w"
      by (rule received [OF less.prems(1) segment_size [OF less.prems(1)]], simp add: set_kcp_def, rule received_out)
    ultimately show ?thesis
      using Nil by (intro exI [of _ ?w] exI [of _ kcp] exI [of _ "[]"]) simp
  next
    case (Cons s q)
    then obtain w1 kcp1 where 1: "udp_recv_loop sess k w = udp_recv_loop sess k w1" "inv w1"
        "kcp_mem w1 k = Some kcp1" "rcv_segs kcp = s # rcv_segs kcp1"
        "rcv_buf kcp = [] \<longrightarrow> rcv_buf kcp1 = []" "out w1 = out w @ case_prod put (frame_of s)"
      using recv_round [OF less.prems] by blast
    then have "frames_ok kcp1" "length (rcv_segs kcp1) < length (rcv_segs kcp)"
      using less.prems(3) by (simp_all add: frames_ok_def)
    from less.hyps [OF this(2) 1(2,3) this(1)] obtain w' kcp' ss where
      "udp_recv_loop sess k w1 = Some w'" "inv w'" "kcp_mem w' k = Some kcp'" "rcv_queue kcp' = []"
      "rcv_buf kcp1 = [] \<longrightarrow> rcv_buf kcp' = []" "rcv_segs kcp1 = ss @ rcv_segs kcp'"
      "out w' = out w1 @ concat (map (case_prod put \<circ> frame_of) ss)" by blast
    with 1 show ?thesis
      by (intro exI [of _ w'] exI [of _ kcp'] exI [of _ "s # ss"]) simp
  qed
qed

end

subsection \<open>Properties\<close>

text \<open>
  C11: Sending a payload queues frames of one segment each, every one with the session id and
  its own size in the header and at most 1368 bytes behind it, and the payloads of the frames
  put together are the payload, also when it is empty or a multiple of the limit.
\<close>

theorem udp_send_frames:
  assumes "grants_all al" and "mss kcp = 1376" and "stream kcp = 0" and "length seg = 1376"
    and "- (2 ^ 31) \<le> sid" and "sid < 2 ^ 31"
  shows "\<exists>segs seg'. send_chunks al sid buf kcp seg = Some (0, send_queue kcp segs, seg') \<and>
    (\<forall>s \<in> set segs. frame_seg s \<and> seg_sid (seg_data s) = sid \<and>
       seg_size (seg_data s) = int (length (seg_payload (seg_data s)))) \<and>
    concat (map (\<lambda>s. seg_payload (seg_data s)) segs) = buf"
proof -
  let ?segs = "map (\<lambda>d. frag_seg al (frame sid d, 0)) (chunks 1368 buf)"
  obtain seg' where sent: "send_chunks al sid buf kcp seg = Some (0, send_queue kcp ?segs, seg')"
    using send_chunks_frames [OF assms(1-4)] by blast
  have data: "seg_data (frag_seg al (frame sid d, 0)) = frame sid d" for d
    by (simp add: frag_seg_def)
  have pay: "seg_payload (frame sid d) = d" for d
    by (simp add: seg_payload_def frame_def SessionHeaderSize_def)
  have "frame_seg (frag_seg al (frame sid d, 0)) \<and> seg_sid (frame sid d) = sid \<and>
      seg_size (frame sid d) = int (length d)" if "d \<in> set (chunks 1368 buf)" for d
  proof -
    have "length d \<le> 1368"
      using chunks_bound [of 1368 d buf] that by simp
    with frame_seg_sent [OF assms(5,6) this] frame_reads [of sid d "[]"] assms(5,6) show ?thesis by simp
  qed
  moreover have "concat (map (\<lambda>s. seg_payload (seg_data s)) ?segs) = buf"
    by (simp add: comp_def data pay)
  ultimately show ?thesis
    using sent by (intro exI [of _ ?segs] exI [of _ seg']) (simp add: data pay)
qed

theorem udp_send_frames_witness:
  "\<exists>segs seg'. send_chunks malloc_all 5 [1, 2, 3] demo_kcp (replicate 1376 0) = Some (0, send_queue demo_kcp segs, seg') \<and>
     concat (map (\<lambda>s. seg_payload (seg_data s)) segs) = [1, 2, 3]"
  using udp_send_frames [of malloc_all demo_kcp "replicate 1376 0" 5 "[1, 2, 3]"] by auto

end
