(* ===== verification/Proxy_Data.thy ===== *)
theory Proxy_Data
  imports Proxy_Life Udp_Frames
begin

section \<open>What the tunnel delivers\<close>

text \<open>
  The server encodes what a target sends and cuts it into frames; the client takes the frames
  out of its KCP block, decodes each in the segment buffer and writes it to the connection of
  the session. \<open>client_stream\<close> interprets the contract of \<open>session_client\<close> on the client's
  callback, and the first property puts the two ends together. The others say what happens
  when the size in a frame is not that of a frame, and when an address is used again.
\<close>

definition recode :: "codec \<Rightarrow> byte list \<Rightarrow> byte list" where
  "recode cd d = (case cd of Null_codec \<Rightarrow> d | Fast_codec \<Rightarrow> map codec8 d)"

lemma recode_simps [simp]: "length (recode cd d) = length d" "recode cd (recode cd d) = d"
  "recode cd (d @ d') = recode cd d @ recode cd d'" "recode cd [] = []"
  by (simp_all add: recode_def comp_def split: codec.split)

lemma codec_decode_eq:
  "n \<le> length buf \<Longrightarrow> codec_decode cd buf (int n) = Some (recode cd (take n buf) @ drop n buf)"
  by (cases cd) (simp_all add: null_decode_def fast_decode_def fast_encode_eq swapped_all recode_def)

lemma codec_encode_eq: "codec_encode cd buf (int (length buf)) = Some (recode cd buf)"
  by (cases cd) (simp_all add: null_encode_def fast_encode_eq swapped_all recode_def)

lemma codec_decode_length:
  "codec_decode cd buf n = Some mem \<Longrightarrow> length mem = length buf"
  by (cases cd) (auto simp: null_decode_def fast_decode_def fast_encode_eq split: if_splits)

lemma codec_decode_total: "n \<le> int (length buf) \<Longrightarrow> \<exists>mem. codec_decode cd buf n = Some mem"
  by (cases cd) (simp_all add: null_decode_def fast_decode_def fast_encode_eq)

lemma recode_concat: "concat (map (recode cd) ds) = recode cd (concat ds)"
  by (induction ds) simp_all

subsection \<open>The client's side\<close>

definition client_inv :: "codec \<Rightarrow> (int \<rightharpoonup> ptr) \<Rightarrow> (ptr \<rightharpoonup> bool \<times> int) \<Rightarrow> client \<Rightarrow> bool" where
  "client_inv cd chs cs w \<longleftrightarrow> life_ok {} w \<and> length (segment w) = 1376 \<and> udp_cb w \<and>
     c_codec w = cd \<and> c_channels w = chs \<and>
     (\<forall>c. map_option (\<lambda>ch. (connected ch, ch_fd ch)) (chan_mem w c) = cs c)"

definition deliver ::
  "codec \<Rightarrow> (int \<rightharpoonup> ptr) \<Rightarrow> (ptr \<rightharpoonup> bool \<times> int) \<Rightarrow> int \<Rightarrow> byte list \<Rightarrow> sys_event list" where
  "deliver cd chs cs sid d =
     (if sid = heartbeat_sid then []
      else case Option.bind (chs sid) cs of
             Some (True, fd) \<Rightarrow> [Ev_write fd (recode cd d)]
           | _ \<Rightarrow> [])"

lemma write_none_kcp:
  "chan_mem w c = Some ch \<Longrightarrow> ch_kcp ch = None \<Longrightarrow> Channel_write e c buf w =
     (if connected ch
      then Some (e_write e (ch_fd ch) buf, add_trace [Ev_write (ch_fd ch) buf]
        (w\<lparr>chan_mem := (chan_mem w)(c \<mapsto> ch\<lparr>bytes_write := bytes_write ch + of_nat (length buf)\<rparr>)\<rparr>))
      else Some (0, w\<lparr>chan_mem := (chan_mem w)(c \<mapsto> ch\<lparr>send_buffer := send_buffer ch @ buf\<rparr>)\<rparr>))"
  by (simp add: Channel_write_def upd_chan_def)

lemma static_write_mem_eq:
  assumes "life_ok X w" and "n \<le> length mem"
  shows "\<exists>r w'. static_write_mem e c mem (int n) w = Some (r, w') \<and> keep w w' \<and>
    trace w' = trace w @ (case chan_mem w c of
        Some ch \<Rightarrow> if connected ch then [Ev_write (ch_fd ch) (take n mem)] else []
      | None \<Rightarrow> []) \<and>
    w' = w\<lparr>trace := trace w', chan_mem := chan_mem w'\<rparr>"
proof (cases "chan_mem w c")
  case None
  then have "c \<notin> chan_set w" using assms(1) by (auto simp: life_ok_def)
  with None show ?thesis by (simp add: static_write_mem_def)
next
  case (Some ch)
  then have c: "c \<in> chan_set w" using assms(1) by (auto simp: life_ok_def)
  note wr = write_none_kcp [OF Some life_chan(3) [OF assms(1) Some], of e "take n mem"]
  show ?thesis
    using c wr Some assms(2)
    by (auto simp: static_write_mem_def add_trace_def keep_upd chan_same_def
      intro: write_keep)
qed

lemma client_inv_keep:
  assumes "client_inv cd chs cs w" and "keep w w'" and "c_codec w' = c_codec w" "c_channels w' = c_channels w"
    and "udp_cb w' = udp_cb w" "length (segment w') = length (segment w)"
  shows "client_inv cd chs cs w'"
proof -
  have "map_option (\<lambda>ch. (connected ch, ch_fd ch)) (chan_mem w' c) =
      map_option (\<lambda>ch. (connected ch, ch_fd ch)) (chan_mem w c)" for c
  proof -
    have "rel_option chan_same (chan_mem w c) (chan_mem w' c)" using assms(2) by (simp add: keep_def)
    then show ?thesis
      by (cases "chan_mem w c"; cases "chan_mem w' c") (simp_all add: chan_same_def)
  qed
  with assms life_keep [OF assms(2)] show ?thesis
    by (simp add: client_inv_def)
qed

lemma set_payload_channels [simp]: "c_channels (set_payload m w) = c_channels w"
  by (simp add: set_payload_def)

lemma client_handles:
  assumes inv: "client_inv cd chs cs w" and seg: "segment w = frame sid d @ rest"
  shows "\<exists>r w'. client_remote_in e cv sid (int (length d)) w = Some (r, w') \<and> client_inv cd chs cs w' \<and>
    trace w' = trace w @ deliver cd chs cs sid d \<and> kcp_mem w' = kcp_mem w"
proof (cases "sid = heartbeat_sid")
  case True
  with inv show ?thesis by (simp add: client_remote_in_def deliver_def)
next
  case sid: False
  have pay: "seg_payload (segment w) = d @ rest"
    by (simp add: seg frame_def seg_payload_def SessionHeaderSize_def)
  define w1 where "w1 = set_payload (recode cd d @ rest) w"
  have w1 [simp]: "trace w1 = trace w" "kcp_mem w1 = kcp_mem w" "c_channels w1 = chs" "chan_mem w1 = chan_mem w"
    using inv by (simp_all add: w1_def set_payload_def client_inv_def)
  have "length (segment w1) = length (segment w)"
    by (simp add: w1_def set_payload_def seg SessionHeaderSize_def)
  then have inv1: "client_inv cd chs cs w1"
    using inv by (intro client_inv_keep [OF inv]) (simp_all add: w1_def, simp_all add: set_payload_def)
  have "codec_decode (c_codec w) (seg_payload (segment w)) (int (length d)) = Some (recode cd d @ rest)"
    using inv pay by (simp add: codec_decode_eq client_inv_def)
  then have step: "client_remote_in e cv sid (int (length d)) w =
      (case chs sid of Some c \<Rightarrow> static_write_mem e c (recode cd d @ rest) (int (length d)) w1 | None \<Rightarrow> Some (- 1, w1))"
    using sid inv by (simp add: client_remote_in_def Let_def client_inv_def w1_def cong: option.case_cong)
  show ?thesis
  proof (cases "chs sid")
    case None
    with step inv1 sid show ?thesis by (simp add: deliver_def)
  next
    case (Some c)
    have cs: "cs c = map_option (\<lambda>ch. (connected ch, ch_fd ch)) (chan_mem w c)"
      using inv by (simp add: client_inv_def)
    have "life_ok {} w1" using inv1 by (simp add: client_inv_def)
    then obtain r w' where w': "static_write_mem e c (recode cd d @ rest) (int (length d)) w1 = Some (r, w')"
        "keep w1 w'" "trace w' = trace w @ (case chan_mem w c of
          Some ch \<Rightarrow> if connected ch then [Ev_write (ch_fd ch) (take (length d) (recode cd d @ rest))] else []
        | None \<Rightarrow> [])"
        "w' = w1\<lparr>trace := trace w', chan_mem := chan_mem w'\<rparr>"
      using static_write_mem_eq [of "{}" w1 "length d" "recode cd d @ rest" e c] by auto
    have same: "c_codec w' = c_codec w1" "c_channels w' = c_channels w1" "udp_cb w' = udp_cb w1"
        "segment w' = segment w1" "kcp_mem w' = kcp_mem w1"
      by (subst w'(4), simp)+
    then have "client_inv cd chs cs w'"
      using client_inv_keep [OF inv1 w'(2)] by simp
    moreover have "trace w' = trace w @ deliver cd chs cs sid d"
      using sid Some cs w'(3) by (cases "chan_mem w c") (auto simp: deliver_def)
    ultimately show ?thesis
      using step Some w'(1) same(5) by simp
  qed
qed

interpretation client_stream: session_client "client_sess e" "client_inv cd chs cs" trace "deliver cd chs cs"
  for e cd chs cs
proof unfold_locales
  fix w :: client and seg :: "byte list" and k kcp
  assume inv: "client_inv cd chs cs w" and "length seg = 1376"
  then show "client_inv cd chs cs ((set_kcp k kcp w)\<lparr>segment := seg\<rparr>)"
    by (intro client_inv_keep [OF inv]) (simp_all add: set_kcp_def keep_ext client_inv_def)
next
  fix w sid d rest cv
  assume "client_inv cd chs cs w" "segment w = frame sid d @ rest"
  from client_handles [OF this, of e cv] obtain r w' where w':
    "client_remote_in e cv sid (int (length d)) w = Some (r, w')" "client_inv cd chs cs w'"
    "trace w' = trace w @ deliver cd chs cs sid d" "kcp_mem w' = kcp_mem w" by blast
  then show "\<exists>w'. client_sess e cv sid (int (length d)) w = Some w' \<and> client_inv cd chs cs w' \<and>
      trace w' = trace w @ deliver cd chs cs sid d \<and>
      (\<forall>k kcp. kcp_mem w k = Some kcp \<longrightarrow> (\<exists>kcp'. kcp_mem w' k = Some kcp' \<and>
         rcv_queue kcp' = rcv_queue kcp \<and> rcv_buf kcp' = rcv_buf kcp))"
    by (auto simp: client_sess_def)
qed (simp_all add: client_inv_def set_kcp_def)

subsection \<open>From end to end\<close>

text \<open>What a segment carries of a message.\<close>

definition seg_contents :: "IKCPSEG \<Rightarrow> u32 \<times> u32 \<times> byte list" where
  "seg_contents s = (seg_frg s, seg_len s, seg_data s)"

lemma same_contents:
  assumes "map seg_contents xs = map seg_contents ys"
  shows "list_all frame_seg xs = list_all frame_seg ys" "map frame_of xs = map frame_of ys"
proof -
  have "list_all2 (\<lambda>x y. seg_contents x = seg_contents y) xs ys"
    using assms by (simp add: list_all2_conv_all_nth list_eq_iff_nth_eq)
  then show "list_all frame_seg xs = list_all frame_seg ys" "map frame_of xs = map frame_of ys"
    by (induction rule: list_all2_induct) (simp_all add: seg_contents_def frame_seg_def frame_of_def)
qed

text \<open>
  C3: Bytes that the server reads from a target reach the socket of the client's connection:
  the frames in which the server sends them, once they are in the receive queue of the client's
  block, are written to the descriptor of the session in order, decoded, and put together they
  are the bytes, of any number, with either codec; and the receive loop returns.
\<close>

theorem tunnel_delivers:
  assumes "grants_all al" and "mss skcp = 1376" and "stream skcp = 0" and "length seg = 1376"
    and "- (2 ^ 31) \<le> sid" and "sid < 2 ^ 31" and "sid \<noteq> heartbeat_sid"
    and "codec_encode (c_codec w) buf (int (length buf)) = Some ebuf"
    and "send_chunks al sid ebuf skcp seg = Some (0, send_queue skcp segs, seg')"
    and "life_ok {} w" and "length (segment w) = 1376" and "udp_cb w"
    and "c_channels w sid = Some c" and "chan_mem w c = Some ch" and "connected ch"
    and "kcp_mem w k = Some kcp" and "map seg_contents (rcv_queue kcp) = map seg_contents segs" and "rcv_buf kcp = []"
  shows "\<exists>w' ds. udp_recv_loop (client_sess e) k w = Some w' \<and>
    trace w' = trace w @ map (Ev_write (ch_fd ch)) ds \<and> concat ds = buf"
proof -
  let ?segs = "map (\<lambda>d. frag_seg al (frame sid d, 0)) (chunks 1368 ebuf)"
  obtain seg'' where "send_chunks al sid ebuf skcp seg = Some (0, send_queue skcp ?segs, seg'')"
    using send_chunks_frames [OF assms(1-4)] by blast
  with assms(9) have "snd_queue skcp @ ?segs = snd_queue skcp @ segs"
    by (auto simp: send_queue_def dest: arg_cong [of _ _ snd_queue])
  then have segs: "segs = ?segs" by simp
  let ?cs = "\<lambda>c. map_option (\<lambda>ch. (connected ch, ch_fd ch)) (chan_mem w c)"
  have inv: "client_inv (c_codec w) (c_channels w) ?cs w"
    using assms(10-12) by (simp add: client_inv_def)
  have all: "rcv_segs kcp = rcv_queue kcp"
    using assms(18) by (simp add: rcv_segs_def)
  note same = same_contents [OF assms(17), unfolded segs]
  have len: "length d \<le> 1368" if "d \<in> set (chunks 1368 ebuf)" for d
    using chunks_bound [of 1368 d ebuf] that by simp
  have "frames_ok kcp"
    unfolding frames_ok_def all same(1) using frame_seg_sent [OF assms(5,6) len] by (simp add: list_all_iff)
  then obtain w' kcp' ss where w': "udp_recv_loop (client_sess e) k w = Some w'" "rcv_segs kcp = ss @ rcv_segs kcp'"
      "rcv_queue kcp' = []" "rcv_buf kcp' = []"
      "trace w' = trace w @
         concat (map (case_prod (deliver (c_codec w) (c_channels w) ?cs) \<circ> frame_of) ss)"
    using client_stream.recv_loop_returns [OF inv assms(16), of e] assms(18) by blast
  then have "ss = rcv_queue kcp"
    using all by (simp add: rcv_segs_def)
  then have frames: "map frame_of ss = map (Pair sid) (chunks 1368 ebuf)"
    using same(2) frame_of_sent [OF assms(5,6) len] by simp
  have put: "deliver (c_codec w) (c_channels w) ?cs sid d = [Ev_write (ch_fd ch) (recode (c_codec w) d)]" for d
    using assms(7,13-15) by (simp add: deliver_def)
  have "map (case_prod (deliver (c_codec w) (c_channels w) ?cs) \<circ> frame_of) ss =
      map (\<lambda>d. [Ev_write (ch_fd ch) (recode (c_codec w) d)]) (chunks 1368 ebuf)"
    using put arg_cong [OF frames, of "map (case_prod (deliver (c_codec w) (c_channels w) ?cs))"] by simp
  then have "trace w' = trace w @ map (Ev_write (ch_fd ch)) (map (recode (c_codec w)) (chunks 1368 ebuf))"
    using w'(5) by (simp only: concat_map_singleton) (simp add: comp_def)
  moreover have "concat (map (recode (c_codec w)) (chunks 1368 ebuf)) = buf"
    using assms(8) by (auto simp: recode_concat codec_encode_eq)
  ultimately show ?thesis
    using w'(1) by blast
qed

text \<open>A client with one connection, which is there, and one message of the server.\<close>

definition demo_message :: IKCPSEG where
  "demo_message = frag_seg malloc_all (frame 0 [1, 2, 3], 0)"

definition demo_client :: client where
  "demo_client = empty_client\<lparr>segment := replicate 1376 0, udp_cb := True,
     kcp_mem := [1 \<mapsto> demo_kcp\<lparr>rcv_queue := [demo_message], rcv_buf := []\<rparr>]\<rparr>"

definition demo_there :: env where
  "demo_there = demo_os\<lparr>e_writable := \<lambda>_. True\<rparr>"

lemma demo_connected:
  "\<exists>w ch. Acceptor_accept demo_there client_disc client_accepted (Acceptor_set_connect_callback Acceptor_new Accepted)
      7 demo_client = Some w \<and> c_codec w = Null_codec \<and> length (segment w) = 1376 \<and> udp_cb w \<and> c_channels w 0 = Some 1 \<and>
     chan_mem w 1 = Some ch \<and> connected ch \<and> ch_fd ch = 7 \<and> trace w = [] \<and>
     kcp_mem w 1 = Some (demo_kcp\<lparr>rcv_queue := [demo_message], rcv_buf := []\<rparr>)"
  by (simp add: Acceptor_accept_def demo_there_def demo_os_def used_fd_def used_ptr_def io_at_def Reactor_new_def
      demo_client_def empty_client_def empty_udp_def empty_world_def udp_world.defs client.defs world.defs
      Channel_new_def Channel_on_connect_def new_channel_def upd_chan_def set_read_callback_def
      set_disconnect_callback_def add_trace_def RegisterIO_def RegisterTimer_def Let_def set_react_def armed_def
      Acceptor_on_connect_def Acceptor_set_connect_callback_def Acceptor_new_def client_accepted_def)

lemma demo_there_ok: "env_ok 1000 demo_there"
  using demo_os_ok by (auto simp: demo_there_def env_ok_def)

lemma demo_connected_life:
  assumes "Acceptor_accept demo_there client_disc client_accepted acc 7 demo_client = Some w"
  shows "life_ok {} w"
proof (rule accept_life [OF _ demo_there_ok _ _ assms])
  have "no_channels demo_client"
    by (rule no_channels_empty) (simp_all add: demo_client_def empty_client_def empty_udp_def empty_world_def
      udp_world.defs client.defs world.defs)
  then show "life_ok {} demo_client" by (rule no_channels_life)
  show "\<not> used_fd demo_client 7"
    by (simp add: demo_client_def empty_client_def empty_udp_def empty_world_def udp_world.defs client.defs
      world.defs used_fd_def io_at_def Reactor_new_def)
qed simp

theorem tunnel_delivers_witness:
  "\<exists>w w' ds. Acceptor_accept demo_there client_disc client_accepted
       (Acceptor_set_connect_callback Acceptor_new Accepted) 7 demo_client = Some w \<and>
     udp_recv_loop (client_sess demo_there) 1 w = Some w' \<and>
     trace w' = map (Ev_write 7) ds \<and> concat ds = [1, 2, 3]"
proof -
  obtain w ch where w: "Acceptor_accept demo_there client_disc client_accepted
       (Acceptor_set_connect_callback Acceptor_new Accepted) 7 demo_client = Some w"
      "c_codec w = Null_codec" "length (segment w) = 1376" "udp_cb w" "c_channels w 0 = Some 1"
      "chan_mem w 1 = Some ch" "connected ch" "ch_fd ch = 7" "trace w = []"
      "kcp_mem w 1 = Some (demo_kcp\<lparr>rcv_queue := [demo_message], rcv_buf := []\<rparr>)"
    using demo_connected by blast
  have "\<exists>seg'. send_chunks malloc_all 0 [1, 2, 3] demo_kcp (replicate 1376 0) =
      Some (0, send_queue demo_kcp [demo_message], seg')"
    using send_chunks_frames [of malloc_all demo_kcp "replicate 1376 0" 0 "[1, 2, 3]"]
    by (auto simp: chunks_small demo_message_def)
  then obtain seg' where "send_chunks malloc_all 0 [1, 2, 3] demo_kcp (replicate 1376 0) =
      Some (0, send_queue demo_kcp [demo_message], seg')" by blast
  with tunnel_delivers [of malloc_all demo_kcp "replicate 1376 0" 0 w "[1, 2, 3]" "[1, 2, 3]" "[demo_message]" seg'
      1 ch 1 "demo_kcp\<lparr>rcv_queue := [demo_message], rcv_buf := []\<rparr>" demo_there]
    w demo_connected_life [OF w(1)]
  show ?thesis
    by (simp add: heartbeat_sid_def null_encode_def)
qed

subsection \<open>Sizes the peer chooses\<close>

lemma static_write_mem_None:
  assumes "life_ok X w" and "chan_mem w c = Some ch" and "0 \<le> n"
  shows "static_write_mem e c mem n w = None \<longleftrightarrow> int (length mem) < n"
proof -
  have "c \<in> chan_set w" using assms by (auto simp: life_ok_def)
  moreover have "\<exists>r w'. Channel_write e c buf w = Some (r, w')" for buf
    by (rule write_returns [OF assms(2) life_chan(3) [OF assms(1,2)]])
  ultimately show ?thesis
    using assms(3) by (force simp: static_write_mem_def)
qed

lemma static_write_mem_negative:
  assumes "life_ok X w" and "chan_mem w c = Some ch" and "n < 0"
  shows "if connected ch then \<exists>w'. static_write_mem e c mem n w = Some (- 1, w') \<and> trace w' = trace w
         else static_write_mem e c mem n w = None"
proof -
  have "c \<in> chan_set w" using assms by (auto simp: life_ok_def)
  with assms life_chan(3) [OF assms(1,2)] show ?thesis
    by (simp add: static_write_mem_def Channel_write_negative_def upd_chan_def)
qed

lemma decode_write_size:
  fixes w :: "'z udp_world_scheme" and e :: env and n :: int and cd :: codec
  assumes "life_ok {} w" and "chan_mem w c = Some ch" and "length (segment w) = 1376"
  defines "out \<equiv> Option.bind (codec_decode cd (seg_payload (segment w)) n)
      (\<lambda>mem. static_write_mem e c mem n (set_payload mem w))"
  shows "0 \<le> n \<Longrightarrow> out = None \<longleftrightarrow> 1368 < n"
    and "n < 0 \<Longrightarrow>
      if connected ch then \<exists>w'. out = Some (- 1, w') \<and> trace w' = trace w else out = None"
proof -
  have len: "length (seg_payload (segment w)) = 1368"
    using assms(3) by (simp add: seg_payload_def SessionHeaderSize_def)
  have pay: "life_ok {} (set_payload mem w)" "chan_mem (set_payload mem w) c = Some ch"
    "trace (set_payload mem w) = trace w" for mem
    using assms(1,2) life_keep [OF set_payload_keep] by (simp_all add: set_payload_def)
  show "out = None \<longleftrightarrow> 1368 < n" if "0 \<le> n"
  proof (cases "codec_decode cd (seg_payload (segment w)) n")
    case None
    then show ?thesis
      using codec_decode_total [of n "seg_payload (segment w)" cd] len by (fastforce simp: out_def)
  next
    case (Some mem)
    then show ?thesis
      using static_write_mem_None [OF pay(1,2) that] codec_decode_length [OF Some] len
      by (simp add: out_def)
  qed
  assume n: "n < 0"
  then obtain mem where "codec_decode cd (seg_payload (segment w)) n = Some mem"
    using codec_decode_total [of n "seg_payload (segment w)" cd] by fastforce
  with static_write_mem_negative [OF pay(1,2) n, of e mem mem] pay(3) [of mem]
  show "if connected ch then \<exists>w'. out = Some (- 1, w') \<and> trace w' = trace w else out = None"
    by (auto simp: out_def split: if_splits)
qed

text \<open>
  C15: The size in the header of a frame is the peer's, and neither end compares it with what was
  received. For a session that has a live connection at that end, a frame that announces more
  than 1368 bytes makes it read outside the segment buffer, and a size from 0 to 1368 does not,
  whatever was received. A negative size reads nothing: if the connection is established the
  write fails with -1 and nothing is sent, and if it is still being set up the insertion into
  its buffer throws and the process ends.
\<close>

theorem peer_size_unchecked:
  assumes "life_ok {} wc" and "length (segment wc) = 1376" and "c_channels wc sid = Some c"
    and "chan_mem wc c = Some ch"
    and "srv_ok ws" and "length (segment ws) = 1376" and "map_of (s_channels ws) (proxy_key cv sid) = Some d"
    and "chan_mem ws d = Some dh" and "sid \<noteq> heartbeat_sid"
  shows "(0 \<le> n \<longrightarrow>
      (client_remote_in e cv sid n wc = None \<longleftrightarrow> 1368 < n) \<and>
      (server_local_in e cv sid n ws = None \<longleftrightarrow> 1368 < n)) \<and>
    (n < 0 \<longrightarrow>
      (if connected ch
       then \<exists>w'. client_remote_in e cv sid n wc = Some (- 1, w') \<and> trace w' = trace wc
       else client_remote_in e cv sid n wc = None) \<and>
      (if connected dh
       then \<exists>w'. server_local_in e cv sid n ws = Some (- 1, w') \<and> trace w' = trace ws
       else server_local_in e cv sid n ws = None))"
proof -
  have c: "client_remote_in e cv sid n wc =
      Option.bind (codec_decode (c_codec wc) (seg_payload (segment wc)) n)
        (\<lambda>mem. static_write_mem e c mem n (set_payload mem wc))"
    using assms(3,9) by (simp add: client_remote_in_def Let_def)
  have life: "life_ok {} ws" using assms(5) by (simp add: srv_ok_def)
  have "s_channels (set_payload mem ws) = s_channels ws" for mem
    by (simp add: set_payload_def)
  then have s: "server_local_in e cv sid n ws =
      Option.bind (codec_decode (s_codec ws) (seg_payload (segment ws)) n)
        (\<lambda>mem. static_write_mem e d mem n (set_payload mem ws))"
    using assms(7,9) by (simp add: server_local_in_def Let_def)
  show ?thesis
    unfolding c s using decode_write_size [OF assms(1,4,2)] decode_write_size [OF life assms(8,6)]
    by blast
qed

lemma demo_served:
  "\<exists>w. server_open demo_os 5 1 (proxy_key 5 0) endpoint_default (empty_server\<lparr>segment := replicate 1376 0\<rparr>) = Some w \<and>
     length (segment w) = 1376 \<and> s_channels w = [(proxy_key 5 0, 1)]"
  by (simp add: server_open_def demo_os_def create_tcp_def used_fd_def used_ptr_def io_at_def Reactor_new_def
      empty_server_def empty_udp_def empty_world_def udp_world.defs server.defs world.defs
      Channel_new_def Channel_on_connect_def new_channel_def upd_chan_def set_read_callback_def
      set_disconnect_callback_def add_trace_def RegisterIO_def RegisterTimer_def Let_def set_react_def)

theorem peer_size_unchecked_witness:
  "\<exists>wc ws. Acceptor_accept demo_there client_disc client_accepted
       (Acceptor_set_connect_callback Acceptor_new Accepted) 7 demo_client = Some wc \<and>
     server_open demo_os 5 1 (proxy_key 5 0) endpoint_default (empty_server\<lparr>segment := replicate 1376 0\<rparr>) = Some ws \<and>
     client_remote_in demo_os 5 0 1369 wc = None \<and> server_local_in demo_os 5 0 1369 ws = None \<and>
     client_remote_in demo_os 5 0 1368 wc \<noteq> None \<and> server_local_in demo_os 5 0 1368 ws \<noteq> None"
proof -
  obtain wc ch where wc: "Acceptor_accept demo_there client_disc client_accepted
       (Acceptor_set_connect_callback Acceptor_new Accepted) 7 demo_client = Some wc"
      "length (segment wc) = 1376" "c_channels wc 0 = Some 1" "chan_mem wc 1 = Some ch"
    using demo_connected by blast
  obtain ws where ws: "server_open demo_os 5 1 (proxy_key 5 0) endpoint_default
       (empty_server\<lparr>segment := replicate 1376 0\<rparr>) = Some ws"
      "length (segment ws) = 1376" "s_channels ws = [(proxy_key 5 0, 1)]"
    using demo_served by blast
  have "no_channels (empty_server\<lparr>segment := replicate 1376 0\<rparr>)"
    by (rule no_channels_empty) (simp_all add: empty_server_def empty_udp_def empty_world_def
      udp_world.defs server.defs world.defs)
  moreover from this have "life_ok {} (empty_server\<lparr>segment := replicate 1376 0\<rparr>)"
    by (rule no_channels_life)
  moreover have "s_channels (empty_server\<lparr>segment := replicate 1376 0\<rparr>) = []"
    by (simp add: empty_server_def server.defs udp_world.defs world.defs empty_udp_def empty_world_def)
  ultimately have "srv_ok (empty_server\<lparr>segment := replicate 1376 0\<rparr>)"
    by (simp add: srv_ok_def no_channels_def)
  then have srv: "srv_ok ws"
    using \<open>s_channels (empty_server\<lparr>segment := replicate 1376 0\<rparr>) = []\<close>
    by (intro server_open_srv [OF _ demo_os_ok _ ws(1)]) simp_all
  have "1 \<in> snd ` set (s_channels ws)" by (simp add: ws(3))
  with srv obtain dh where "chan_mem ws 1 = Some dh"
    unfolding srv_ok_def by blast
  then have size: "(0 \<le> n \<longrightarrow> (client_remote_in demo_os 5 0 n wc = None \<longleftrightarrow> 1368 < n) \<and>
      (server_local_in demo_os 5 0 n ws = None \<longleftrightarrow> 1368 < n))" for n
    using peer_size_unchecked [OF demo_connected_life [OF wc(1)] wc(2-4) srv ws(2), of 5 1 dh n demo_os] ws(3)
    by (simp add: heartbeat_sid_def)
  show ?thesis
    using wc(1) ws(1,3) size [of 1369] size [of 1368] by (simp add: heartbeat_sid_def)
qed

subsection \<open>Addresses that are used again\<close>

lemma accept_there:
  assumes fd: "0 \<le> fd" "fd < 1000" and there: "e_writable e fd" and sid: "max_sid w < 2 ^ 31 - 1"
    and acc: "connect_cb acc = Some cb"
  obtains w' ch where "Acceptor_accept e client_disc client_accepted acc fd w = Some w'"
    "c_channels w' = (c_channels w)(max_sid w \<mapsto> e_new e (used_ptr w))" "c_codec w' = c_codec w"
    "chan_mem w' = (chan_mem w)(e_new e (used_ptr w) \<mapsto> ch)" "connected ch" "ch_fd ch = fd" "ch_kcp ch = None"
    "chan_set w' = insert (e_new e (used_ptr w)) (chan_set w)" "trace w' = trace w" "udp_cb w' = udp_cb w"
proof -
  let ?c = "e_new e (used_ptr w)"
  let ?ch = "(new_channel fd (- 1))\<lparr>connected := True, read_callback := Some (Local_in (max_sid w))\<rparr>"
  let ?w = "w\<lparr>react := RegisterIO (react w) (Cb_channel_read ?c) fd, chan_mem := (chan_mem w)(?c \<mapsto> ?ch),
      chan_set := insert ?c (chan_set w), max_sid := max_sid w + 1,
      c_channels := (c_channels w)(max_sid w \<mapsto> ?c)\<rparr>"
  have "Acceptor_accept e client_disc client_accepted acc fd w = Some ?w"
    using assms
    by (simp add: Acceptor_accept_def Channel_new_def Channel_on_connect_def new_channel_def upd_chan_def
        set_react_def Acceptor_on_connect_def client_accepted_def set_read_callback_def Let_def)
  then show thesis
    by (rule that [of ?w ?ch]) (simp_all add: new_channel_def)
qed

text \<open>
  C16: The client never forgets a session: when the connection of a session has been deleted and
  a new connection gets its address, late data of the old session is written to the new
  connection, which belongs to somebody else's session.
\<close>

theorem stale_session_misdelivers:
  assumes "life_ok {} w" and "env_ok 1000 e" and "c_channels w sid = Some c" and "c = e_new e (used_ptr w)"
    and "sid \<noteq> max_sid w" and "sid \<noteq> heartbeat_sid" and "max_sid w < 2 ^ 31 - 1" and "connect_cb acc = Some cb"
    and "0 \<le> fd" and "fd < 1000" and "\<not> used_fd w fd" and "e_writable e fd"
    and "length d + length rest = 1368"
  shows "\<exists>w' r w''. Acceptor_accept e client_disc client_accepted acc fd w = Some w' \<and>
     c_channels w' (max_sid w) = Some c \<and> c_channels w' sid = Some c \<and>
     client_remote_in e cv sid (int (length d)) (w'\<lparr>segment := frame sid d @ rest\<rparr>) = Some (r, w'') \<and>
     trace w'' = trace w @ [Ev_write fd (recode (c_codec w) d)]"
proof -
  obtain w' ch where w': "Acceptor_accept e client_disc client_accepted acc fd w = Some w'"
      "c_channels w' = (c_channels w)(max_sid w \<mapsto> c)" "c_codec w' = c_codec w"
      "chan_mem w' = (chan_mem w)(c \<mapsto> ch)" "connected ch" "ch_fd ch = fd" "ch_kcp ch = None"
      "chan_set w' = insert c (chan_set w)" "trace w' = trace w"
    using accept_there [OF assms(9,10,12,7,8)] unfolding assms(4) [symmetric] by metis
  have "life_ok {} w'"
    by (rule accept_life [OF assms(1,2,10,11) w'(1)])
  then have life: "life_ok {} (w'\<lparr>segment := frame sid d @ rest\<rparr>)"
    by (rule life_keep [OF keep_ext, rotated 3]) simp_all
  have "codec_decode (c_codec w) (d @ rest) (int (length d)) = Some (recode (c_codec w) d @ rest)"
    by (simp add: codec_decode_eq)
  moreover have pay: "seg_payload (frame sid d @ rest) = d @ rest"
    by (simp add: frame_def seg_payload_def SessionHeaderSize_def)
  moreover define v where "v = set_payload (recode (c_codec w) d @ rest) (w'\<lparr>segment := frame sid d @ rest\<rparr>)"
  moreover have "life_ok {} v" "chan_mem v c = Some ch" "trace v = trace w"
    using life_keep [OF set_payload_keep life] w' by (simp_all add: v_def) (simp_all add: set_payload_def w')
  moreover from static_write_mem_eq [OF this(1), of "length d" "recode (c_codec w) d @ rest" e c]
  obtain r w'' where "static_write_mem e c (recode (c_codec w) d @ rest) (int (length d)) v = Some (r, w'')"
      "trace w'' = trace w @ [Ev_write fd (recode (c_codec w) d)]"
    using calculation w'(5,6) by auto
  ultimately have "client_remote_in e cv sid (int (length d)) (w'\<lparr>segment := frame sid d @ rest\<rparr>) = Some (r, w'')"
    using assms(3,5,6) w'(2,3) by (simp add: client_remote_in_def Let_def)
  with w'(1,2) assms(3,5) \<open>trace w'' = trace w @ [Ev_write fd (recode (c_codec w) d)]\<close> show ?thesis
    by (intro exI [of _ w'] exI [of _ r] exI [of _ w'']) simp
qed

theorem stale_session_misdelivers_witness:
  "\<exists>w' r w''. Acceptor_accept demo_there client_disc client_accepted
       (Acceptor_set_connect_callback Acceptor_new Accepted) 7
       (empty_client\<lparr>c_channels := [0 \<mapsto> 1], max_sid := 1\<rparr>) = Some w' \<and>
     client_remote_in demo_there 5 0 3 (w'\<lparr>segment := frame 0 [1, 2, 3] @ replicate 1365 0\<rparr>) = Some (r, w'') \<and>
     trace w'' = [Ev_write 7 [1, 2, 3]]"
proof -
  let ?w = "empty_client\<lparr>c_channels := [0 \<mapsto> 1], max_sid := 1\<rparr>"
  have fields: "chan_mem empty_client = Map.empty" "chan_set empty_client = {}" "react empty_client = Reactor_new"
      "trace empty_client = []" "c_codec empty_client = Null_codec"
    by (simp_all add: empty_client_def empty_udp_def empty_world_def udp_world.defs client.defs world.defs)
  then have "no_channels ?w"
    by (intro no_channels_empty) simp_all
  then have life: "life_ok {} ?w" by (rule no_channels_life)
  have "1 = e_new demo_there (used_ptr ?w)" "\<not> used_fd ?w 7"
    by (simp_all add: demo_there_def demo_os_def used_ptr_def used_fd_def fields io_at_def Reactor_new_def)
  with stale_session_misdelivers [OF life demo_there_ok, of 0 1 "Acceptor_set_connect_callback Acceptor_new Accepted"
      Accepted 7 "[1, 2, 3]" "replicate 1365 0" 5] fields
  show ?thesis
    by (auto simp: heartbeat_sid_def Acceptor_set_connect_callback_def demo_there_def recode_def)
qed

end
