(* ===== verification/Snappy_Stubs.thy ===== *)
theory Snappy_Stubs
  imports Kcp_Prelude "HOL-Library.Monad_Syntax"
begin

section \<open>Snappy: memory, bit tricks and variable-length integers\<close>

text \<open>
  The helpers of depends/snappy/snappy-stubs-internal.h and the copies of snappy.cc that the
  rest of the codec is written with. A buffer is the list of its bytes and a pointer into it
  an index; \<open>mem_read\<close> and \<open>mem_write\<close> are the only accesses and are \<open>None\<close> outside the
  buffer, so a result \<open>Some\<close> of any operation below says that it stayed inside. The build has
  no config.h, so the portable versions of the bit operations are the ones compiled, on a
  little-endian 64-bit machine. The Varint encoder and parser end the theory with their
  round trip.
\<close>

named_theorems snappy_mem "accesses inside a buffer"

subsection \<open>Memory\<close>

definition mem_read :: "byte list \<Rightarrow> nat \<Rightarrow> nat \<Rightarrow> byte list option" where
  "mem_read m p n = (if p + n \<le> length m then Some (take n (drop p m)) else None)"

definition mem_write :: "byte list \<Rightarrow> nat \<Rightarrow> byte list \<Rightarrow> byte list option" where
  "mem_write m p bs =
     (if p + length bs \<le> length m then Some (take p m @ bs @ drop (p + length bs) m) else None)"

fun le_word :: "byte list \<Rightarrow> 'a :: len word" where
  "le_word [] = 0"
| "le_word (b # bs) = ucast b OR push_bit 8 (le_word bs)"

definition load32 :: "byte list \<Rightarrow> nat \<Rightarrow> u32 option" where
  "load32 m p = map_option le_word (mem_read m p 4)"

definition load64 :: "byte list \<Rightarrow> nat \<Rightarrow> u64 option" where
  "load64 m p = map_option le_word (mem_read m p 8)"

definition store32 :: "byte list \<Rightarrow> nat \<Rightarrow> u32 \<Rightarrow> byte list option" where
  "store32 m p v =
     mem_write m p [ucast v, ucast (drop_bit 8 v), ucast (drop_bit 16 v), ucast (drop_bit 24 v)]"

definition unaligned_copy64 :: "byte list \<Rightarrow> nat \<Rightarrow> byte list \<Rightarrow> nat \<Rightarrow> byte list option" where
  "unaligned_copy64 sm src dm dst = do { t \<leftarrow> mem_read sm src 8; mem_write dm dst t }"

definition unaligned_copy128 :: "byte list \<Rightarrow> nat \<Rightarrow> byte list \<Rightarrow> nat \<Rightarrow> byte list option" where
  "unaligned_copy128 sm src dm dst = do { t \<leftarrow> mem_read sm src 16; mem_write dm dst t }"

lemma mem_read_Some [snappy_mem]: "p + n \<le> length m \<Longrightarrow> mem_read m p n = Some (take n (drop p m))"
  by (simp add: mem_read_def)

lemma mem_write_Some [snappy_mem]:
  "p + length bs \<le> length m \<Longrightarrow>
   mem_write m p bs = Some (take p m @ bs @ drop (p + length bs) m)"
  by (simp add: mem_write_def)

lemma ex_bool [simp]: "\<exists>b. b" "\<exists>b. \<not> b"
  by blast+

lemma mem_read_length: "mem_read m p n = Some bs \<Longrightarrow> length bs = n \<and> p + n \<le> length m"
  by (auto simp: mem_read_def split: if_splits)

lemma mem_write_length: "mem_write m p bs = Some m' \<Longrightarrow> length m' = length m"
  by (auto simp: mem_write_def split: if_splits)

lemma mem_write_nth:
  assumes "mem_write m p bs = Some m'"
  shows "m' ! k = (if p \<le> k \<and> k < p + length bs then bs ! (k - p) else m ! k)"
  using assms
  by (auto simp: mem_write_def nth_append min_def not_less le_imp_diff_is_add
      split: if_splits intro!: arg_cong [of _ _ "(!) m"])

lemma mem_write_take:
  "mem_write m p bs = Some m' \<Longrightarrow> take (p + length bs) m' = take p m @ bs"
  by (auto simp: mem_write_def split: if_splits)

lemma mem_write_drop:
  "mem_write m p bs = Some m' \<Longrightarrow> p + length bs \<le> l \<Longrightarrow> drop l m' = drop l m"
  by (auto simp: mem_write_def split: if_splits)

lemma le_word_bit:
  "bit (le_word bs :: 'a :: len word) i \<longleftrightarrow>
   i < LENGTH('a) \<and> i div 8 < length bs \<and> bit (bs ! (i div 8)) (i mod 8)"
proof (induction bs arbitrary: i)
  case (Cons b bs)
  show ?case
  proof (cases "i < 8")
    case True
    then show ?thesis
      by (auto simp: bit_simps)
  next
    case False
    then have "i div 8 = Suc ((i - 8) div 8)" and "i mod 8 = (i - 8) mod 8"
      by (simp_all add: le_div_geq le_mod_geq)
    moreover have "\<not> bit b i"
      using False bit_imp_le_length [of b i] by auto
    ultimately show ?thesis
      using False Cons.IH [of "i - 8"] by (auto simp: bit_simps)
  qed
qed simp

lemma le_word_inj:
  assumes "length as = length bs" and "8 * length bs \<le> LENGTH('a)"
    and "(le_word as :: 'a :: len word) = le_word bs"
  shows "as = bs"
proof (rule nth_equalityI)
  fix k assume k: "k < length as"
  show "as ! k = bs ! k"
  proof (rule bit_word_eqI)
    fix n assume n: "n < LENGTH(8)"
    have "(8 * k + n) div 8 = k" "(8 * k + n) mod 8 = n"
      using n by simp_all
    moreover have "8 * k + n < LENGTH('a)"
      using n k assms(1,2) by simp
    ultimately show "bit (as ! k) n = bit (bs ! k) n"
      using arg_cong [OF assms(3), of "\<lambda>w. bit w (8 * k + n)"] k assms(1)
      by (simp add: le_word_bit)
  qed
qed (use assms in simp)

subsection \<open>Bits\<close>

definition log2_floor_step :: "nat \<Rightarrow> u32 \<times> nat \<Rightarrow> u32 \<times> nat" where
  "log2_floor_step i s =
     (let shift = 2 ^ i; x = drop_bit shift (fst s)
      in if x \<noteq> 0 then (x, snd s + shift) else s)"

definition log2_floor_nonzero :: "u32 \<Rightarrow> nat option" where
  "log2_floor_nonzero n =
     (let (v, l) = fold log2_floor_step [4, 3, 2, 1, 0] (n, 0)
      in if n \<noteq> 0 \<and> v = 1 then Some l else None)"

definition log2_floor :: "u32 \<Rightarrow> int option" where
  "log2_floor n = (if n = 0 then Some (- 1) else map_option int (log2_floor_nonzero n))"

definition find_lsb_step :: "nat \<Rightarrow> u32 \<times> nat \<Rightarrow> u32 \<times> nat" where
  "find_lsb_step shift s =
     (let x = push_bit shift (fst s) in if x \<noteq> 0 then (x, snd s - shift) else s)"

definition find_lsb32 :: "u32 \<Rightarrow> nat" where
  "find_lsb32 n = snd (fold find_lsb_step [16, 8, 4, 2, 1] (n, 31))"

definition find_lsb64 :: "u64 \<Rightarrow> nat" where
  "find_lsb64 n =
     (let bottombits = ucast n :: u32
      in if bottombits = 0 then 32 + find_lsb32 (ucast (drop_bit 32 n))
         else find_lsb32 bottombits)"

text \<open>The loop of Log2FloorNonZero keeps \<open>v = n >> l\<close> and halves the range of \<open>v\<close>.\<close>

lemma log2_floor_step_inv:
  assumes "log2_floor_step i (v, l) = (v', l')" and "v \<noteq> 0" and "unat v < 2 ^ 2 ^ Suc i"
  shows "v' \<noteq> 0 \<and> unat v' < 2 ^ 2 ^ i \<and>
    (\<exists>k. l' = l + k \<and> unat v' = unat v div 2 ^ k)"
proof (cases "drop_bit (2 ^ i) v = 0")
  case True
  then have "unat v div 2 ^ 2 ^ i = 0"
    by (metis drop_bit_eq_div unat_drop_bit_eq unsigned_0)
  then have "unat v < 2 ^ 2 ^ i"
    by (simp add: div_eq_0_iff)
  with True assms show ?thesis
    by (auto simp: log2_floor_step_def intro: exI [of _ 0])
next
  case False
  have "unat v < 2 ^ 2 ^ i * 2 ^ 2 ^ i"
    using assms(3) by (simp add: mult_2 flip: power_add)
  then have "unat v div 2 ^ 2 ^ i < 2 ^ 2 ^ i"
    by (simp add: less_mult_imp_div_less)
  moreover have "unat (drop_bit (2 ^ i) v) = unat v div 2 ^ 2 ^ i"
    by (simp only: unat_drop_bit_eq drop_bit_eq_div [where ?'a = nat])
  moreover have "v' = drop_bit (2 ^ i) v" and "l' = l + 2 ^ i"
    using False assms(1) by (auto simp: log2_floor_step_def Let_def)
  ultimately show ?thesis
    using False by auto
qed

lemma log2_floor_fold:
  assumes "fold log2_floor_step (rev [0..<i]) (v, l) = (v', l')" and "v \<noteq> 0"
    and "unat v < 2 ^ 2 ^ i"
  shows "v' = 1 \<and> (\<exists>k. l' = l + k \<and> unat v div 2 ^ k = 1)"
  using assms
proof (induction i arbitrary: v l)
  case 0
  then have "unat v = 1"
    by (metis One_nat_def less_2_cases power_0 power_one_right unat_eq_zero)
  then have "v = 1"
    by (metis unsigned_1 word_unat_eq_iff)
  with 0 show ?case
    by (auto intro: exI [of _ 0])
next
  case (Suc i)
  obtain v1 l1 where s: "log2_floor_step i (v, l) = (v1, l1)"
    by (cases "log2_floor_step i (v, l)")
  from log2_floor_step_inv [OF s Suc.prems(2,3)] obtain k where
    k: "v1 \<noteq> 0" "unat v1 < 2 ^ 2 ^ i" "l1 = l + k" "unat v1 = unat v div 2 ^ k"
    by blast
  have "fold log2_floor_step (rev [0..<i]) (v1, l1) = (v', l')"
    using Suc.prems(1) s by simp
  from Suc.IH [OF this k(1,2)] obtain j where "v' = 1" "l' = l1 + j" "unat v1 div 2 ^ j = 1"
    by blast
  with k(3,4) show ?case
    by (intro conjI exI [of _ "k + j"]) (simp_all add: power_add div_mult2_eq)
qed

lemma log2_floor_nonzero_spec:
  assumes "n \<noteq> 0"
  obtains l where "log2_floor_nonzero n = Some l" and "2 ^ l \<le> unat n" and "unat n < 2 ^ Suc l"
proof -
  obtain v l where f: "fold log2_floor_step (rev [0..<5]) (n, 0) = (v, l)"
    by (cases "fold log2_floor_step (rev [0..<5]) (n, 0)")
  have "unat n < 2 ^ 2 ^ 5"
    using unsigned_less [of n, where 'a = nat] by simp
  from log2_floor_fold [OF f assms this] have v: "v = 1" and d: "unat n div 2 ^ l = 1"
    by auto
  have "rev [0..<5] = [4, 3, 2, 1, 0 :: nat]"
    by (simp add: upt_rec)
  with f v assms have "log2_floor_nonzero n = Some l"
    by (simp add: log2_floor_nonzero_def)
  moreover have "2 ^ l \<le> unat n"
    using d by (metis div_less less_numeral_extra(1) not_le order_less_irrefl zero_neq_one)
  moreover have "unat n < 2 ^ Suc l"
    using d dividend_less_div_times [of "2 ^ l" "unat n"] by simp
  ultimately show ?thesis
    by (rule that)
qed

lemma log2_floor_pos:
  assumes "0 < k" and "k < 2 ^ 32"
  obtains l where "log2_floor (of_nat k) = Some (int l)" and "2 ^ l \<le> k" and "k < 2 ^ Suc l"
proof -
  have u: "unat (of_nat k :: u32) = k"
    by (rule unat_of_nat_u32 [OF assms(2)])
  with assms(1) have "(of_nat k :: u32) \<noteq> 0"
    by (metis less_numeral_extra(3) unsigned_0)
  then show ?thesis
    by (metis log2_floor_def log2_floor_nonzero_spec option.simps(9) that u)
qed

text \<open>The loop of FindLSBSetNonZero keeps the lowest set bit of \<open>n << (31 - rc)\<close> below 32.\<close>

definition lowest_bit :: "'a :: len word \<Rightarrow> nat \<Rightarrow> bool" where
  "lowest_bit w l \<longleftrightarrow> bit w l \<and> (\<forall>i < l. \<not> bit w i)"

lemma lowest_bit_exists:
  assumes "w \<noteq> (0 :: 'a :: len word)"
  obtains l where "lowest_bit w l" and "l < LENGTH('a)"
proof -
  obtain i where "bit w i"
    using assms by (metis bit_0_eq bit_eq_iff bot_apply bot_bool_def)
  then have "lowest_bit w (LEAST i. bit w i)"
    unfolding lowest_bit_def by (metis LeastI not_less_Least)
  then show ?thesis
    using that bit_imp_le_length unfolding lowest_bit_def by blast
qed

lemma find_lsb_step_inv:
  assumes "lowest_bit v m" and "r + m = 31 + l" and "m \<le> 31" and "31 < m + 2 * s"
  shows "\<exists>v' r' m'. find_lsb_step s (v, r) = (v', r') \<and> lowest_bit v' m' \<and> r' + m' = 31 + l \<and>
    m' \<le> 31 \<and> 31 < m' + s"
proof (cases "m + s \<le> 31")
  case True
  have l: "lowest_bit (push_bit s v) (m + s)"
    using assms(1) True by (auto simp: lowest_bit_def bit_simps)
  then have "push_bit s v \<noteq> 0"
    by (metis bit_0_eq bot_apply bot_bool_def lowest_bit_def)
  then have "find_lsb_step s (v, r) = (push_bit s v, r - s)"
    by (simp add: find_lsb_step_def)
  with l True assms show ?thesis
    by (intro exI [of _ "push_bit s v"] exI [of _ "r - s"] exI [of _ "m + s"]) simp
next
  case False
  have "push_bit s v = 0"
  proof (rule bit_word_eqI)
    fix i assume "i < LENGTH(32)"
    then have "s \<le> i \<Longrightarrow> i - s < m"
      using False by auto
    then show "bit (push_bit s v) i = bit (0 :: u32) i"
      using assms(1) by (auto simp: lowest_bit_def bit_simps)
  qed
  then have "find_lsb_step s (v, r) = (v, r)"
    by (simp add: find_lsb_step_def)
  with False assms show ?thesis
    by (intro exI [of _ v] exI [of _ r] exI [of _ m]) simp
qed

lemma find_lsb32_spec:
  assumes "lowest_bit n l" and "l < 32"
  shows "find_lsb32 n = l"
proof -
  obtain v1 r1 m1 where 1: "find_lsb_step 16 (n, 31) = (v1, r1)"
    "lowest_bit v1 m1" "r1 + m1 = 31 + l" "m1 \<le> 31" "31 < m1 + 16"
    using find_lsb_step_inv [of n l 31 l 16] assms by auto
  obtain v2 r2 m2 where 2: "find_lsb_step 8 (v1, r1) = (v2, r2)"
    "lowest_bit v2 m2" "r2 + m2 = 31 + l" "m2 \<le> 31" "31 < m2 + 8"
    using find_lsb_step_inv [of v1 m1 r1 l 8] 1 by auto
  obtain v3 r3 m3 where 3: "find_lsb_step 4 (v2, r2) = (v3, r3)"
    "lowest_bit v3 m3" "r3 + m3 = 31 + l" "m3 \<le> 31" "31 < m3 + 4"
    using find_lsb_step_inv [of v2 m2 r2 l 4] 2 by auto
  obtain v4 r4 m4 where 4: "find_lsb_step 2 (v3, r3) = (v4, r4)"
    "lowest_bit v4 m4" "r4 + m4 = 31 + l" "m4 \<le> 31" "31 < m4 + 2"
    using find_lsb_step_inv [of v3 m3 r3 l 2] 3 by auto
  obtain v5 r5 m5 where 5: "find_lsb_step 1 (v4, r4) = (v5, r5)"
    "r5 + m5 = 31 + l" "m5 \<le> 31" "31 < m5 + 1"
    using find_lsb_step_inv [of v4 m4 r4 l 1] 4 by auto
  from 5(2-4) have "r5 = l"
    by simp
  with 1(1) 2(1) 3(1) 4(1) 5(1) show ?thesis
    by (simp add: find_lsb32_def)
qed

lemma find_lsb64_spec:
  assumes "lowest_bit n l" and "l < 64"
  shows "find_lsb64 n = l"
proof (cases "l < 32")
  case True
  then have "lowest_bit (ucast n :: u32) l"
    using assms by (auto simp: lowest_bit_def bit_simps)
  moreover from this have "(ucast n :: u32) \<noteq> 0"
    by (metis bit_0_eq bot_apply bot_bool_def lowest_bit_def)
  ultimately show ?thesis
    using True by (simp add: find_lsb64_def find_lsb32_spec)
next
  case False
  then have "(ucast n :: u32) = 0"
    using assms by (intro bit_word_eqI) (auto simp: lowest_bit_def bit_simps)
  moreover have "lowest_bit (ucast (drop_bit 32 n) :: u32) (l - 32)"
    using assms False by (auto simp: lowest_bit_def bit_simps)
  ultimately show ?thesis
    using False assms(2) by (simp add: find_lsb64_def find_lsb32_spec)
qed

subsection \<open>Varint\<close>

definition varint_encode32 :: "u32 \<Rightarrow> byte list" where
  "varint_encode32 v =
     (if v < 2 ^ 7 then [ucast v]
      else if v < 2 ^ 14 then [ucast (v OR 128), ucast (drop_bit 7 v)]
      else if v < 2 ^ 21 then
        [ucast (v OR 128), ucast (drop_bit 7 v OR 128), ucast (drop_bit 14 v)]
      else if v < 2 ^ 28 then
        [ucast (v OR 128), ucast (drop_bit 7 v OR 128), ucast (drop_bit 14 v OR 128),
         ucast (drop_bit 21 v)]
      else
        [ucast (v OR 128), ucast (drop_bit 7 v OR 128), ucast (drop_bit 14 v OR 128),
         ucast (drop_bit 21 v OR 128), ucast (drop_bit 28 v)])"

definition varint_append32 :: "byte list \<Rightarrow> u32 \<Rightarrow> byte list" where
  "varint_append32 s v = s @ varint_encode32 v"

fun varint_byte :: "byte list \<Rightarrow> (u32 \<times> byte list) option" where
  "varint_byte [] = None"
| "varint_byte (b # p) = Some (ucast b, p)"

definition varint_parse32 :: "byte list \<Rightarrow> (u32 \<times> byte list) option" where
  "varint_parse32 p = do {
     (b, p) \<leftarrow> varint_byte p;
     let r = b AND 127;
     if b < 128 then Some (r, p) else do {
     (b, p) \<leftarrow> varint_byte p;
     let r = r OR push_bit 7 (b AND 127);
     if b < 128 then Some (r, p) else do {
     (b, p) \<leftarrow> varint_byte p;
     let r = r OR push_bit 14 (b AND 127);
     if b < 128 then Some (r, p) else do {
     (b, p) \<leftarrow> varint_byte p;
     let r = r OR push_bit 21 (b AND 127);
     if b < 128 then Some (r, p) else do {
     (b, p) \<leftarrow> varint_byte p;
     let r = r OR push_bit 28 (b AND 127);
     if b < 16 then Some (r, p) else None }}}}}"

text \<open>
  Each byte carries seven bits and, but for the last, the continuation bit: \<open>bits_below\<close>
  turns a bound on a word into the bits that are clear.
\<close>

lemma word_less_exp_iff:
  "n < LENGTH('a) \<Longrightarrow> (w :: 'a :: len word) < 2 ^ n \<longleftrightarrow> unat w < 2 ^ n"
  proof -
  assume "n < LENGTH('a)"
  then have "unat (of_nat (2 ^ n) :: 'a word) = 2 ^ n"
    unfolding unat_of_nat by (simp add: take_bit_nat_eq_self_iff flip: take_bit_eq_mod)
  then have "unat (2 ^ n :: 'a word) = 2 ^ n"
    by simp
  then show ?thesis
    by (simp add: word_less_nat_alt)
qed

lemma take_bit_below:
  assumes "(w :: 'a :: len word) < 2 ^ n"
  shows "take_bit n w = w"
  using less_mask_eq [OF assms] by (simp add: take_bit_eq_mask)

lemma bits_below: "(w :: 'a :: len word) < 2 ^ n \<Longrightarrow> bit w i \<Longrightarrow> i < n"
  by (metis bit_take_bit_iff take_bit_below)

lemma varint_encode32_length: "length (varint_encode32 v) \<le> 5" "varint_encode32 v \<noteq> []"
  by (simp_all add: varint_encode32_def)

lemma varint_more: "\<not> (ucast (ucast (v OR 128 :: u32) :: byte) :: u32) < 128"
proof
  assume "(ucast (ucast (v OR 128 :: u32) :: byte) :: u32) < 128"
  then have "(ucast (ucast (v OR 128 :: u32) :: byte) :: u32) < 2 ^ 7"
    by simp
  moreover have "(128 :: u32) = 2 ^ 7"
    by simp
  then have "bit (ucast (ucast (v OR 128 :: u32) :: byte) :: u32) 7"
    by (simp only:) (simp add: bit_simps del: power_numeral)
  ultimately show False
    using bits_below by blast
qed

lemma varint_seven:
  "ucast (ucast (v OR 128 :: u32) :: byte) AND 127 = (take_bit 7 v :: u32)"
  "ucast (ucast v :: byte) AND 127 = (take_bit 7 v :: u32)"
proof -
  have m: "(127 :: u32) = mask 7" "(128 :: u32) = 2 ^ 7"
    by (simp_all add: mask_eq_exp_minus_1)
  show "ucast (ucast (v OR 128 :: u32) :: byte) AND 127 = (take_bit 7 v :: u32)"
    unfolding m by (rule bit_word_eqI) (auto simp: bit_simps simp del: power_numeral)
  show "ucast (ucast v :: byte) AND 127 = (take_bit 7 v :: u32)"
    unfolding m by (rule bit_word_eqI) (auto simp: bit_simps)
qed

lemma varint_join:
  "take_bit n v OR push_bit n (take_bit m (drop_bit n v)) = (take_bit (n + m) v :: u32)"
  by (rule bit_word_eqI) (auto simp: bit_simps)

lemma varint_last:
  assumes "(v :: u32) < 2 ^ (n + k)" and "n + k < 32" and "k \<le> 8"
  shows "(ucast (ucast (drop_bit n v) :: byte) :: u32) < 2 ^ k"
proof -
  have "unat (drop_bit n v) < 2 ^ k"
    using assms(1,2) word_less_exp_iff [of "n + k" v]
    by (simp add: unat_drop_bit_eq drop_bit_nat_def power_add less_mult_imp_div_less mult.commute)
  then have "(drop_bit n v) < 2 ^ k"
    using assms word_less_exp_iff [of k "drop_bit n v"] by simp
  moreover from this have "(ucast (ucast (drop_bit n v) :: byte) :: u32) = drop_bit n v"
    using assms(3)
    by (intro bit_word_eqI) (auto simp: bit_simps dest: bits_below [of "drop_bit n v" k])
  ultimately show ?thesis
    by simp
qed

lemma varint_parse_encode: "varint_parse32 (varint_encode32 v @ rest) = Some (v, rest)"
proof -
  have j2: "take_bit 7 v OR push_bit 7 (take_bit 7 (drop_bit 7 v)) = take_bit 14 v"
    and j3: "take_bit 14 v OR push_bit 14 (take_bit 7 (drop_bit 14 v)) = take_bit 21 v"
    and j4: "take_bit 21 v OR push_bit 21 (take_bit 7 (drop_bit 21 v)) = take_bit 28 v"
    and j5: "take_bit 28 v OR push_bit 28 (take_bit 7 (drop_bit 28 v)) = take_bit 35 v"
    using varint_join [of 7 v 7] varint_join [of 14 v 7] varint_join [of 21 v 7]
      varint_join [of 28 v 7] by simp_all
  have whole: "take_bit 35 v = v"
    by (simp add: take_bit_word_eq_self)
  have small: "v < 2 ^ n \<Longrightarrow> take_bit n v = v" for n
    by (rule take_bit_below)
  note parts = varint_encode32_def varint_parse32_def Let_def varint_more
    varint_seven j2 j3 j4 j5 whole
  consider "v < 2 ^ 7" | "\<not> v < 2 ^ 7" "v < 2 ^ 14" | "\<not> v < 2 ^ 7" "\<not> v < 2 ^ 14" "v < 2 ^ 21"
    | "\<not> v < 2 ^ 7" "\<not> v < 2 ^ 14" "\<not> v < 2 ^ 21" "v < 2 ^ 28"
    | "\<not> v < 2 ^ 7" "\<not> v < 2 ^ 14" "\<not> v < 2 ^ 21" "\<not> v < 2 ^ 28"
    by blast
  then show ?thesis
  proof cases
    case 1
    then show ?thesis
      using varint_last [of v 0 7] small [of 7] by (simp add: parts del: push_bit_and)
  next
    case 2
    then show ?thesis
      using varint_last [of v 7 7] small [of 14] by (simp add: parts del: push_bit_and)
  next
    case 3
    then show ?thesis
      using varint_last [of v 14 7] small [of 21] by (simp add: parts del: push_bit_and)
  next
    case 4
    then show ?thesis
      using varint_last [of v 21 7] small [of 28] by (simp add: parts del: push_bit_and)
  next
    case 5
    have "unat (drop_bit 28 v) < 2 ^ 4"
      using unsigned_less [of v, where 'a = nat]
      by (simp add: unat_drop_bit_eq drop_bit_nat_def less_mult_imp_div_less)
    then have "drop_bit 28 v < 2 ^ 4"
      using word_less_exp_iff [of 4 "drop_bit 28 v"] by simp
    have "bit v (28 + n) \<Longrightarrow> n < 4" for n
      using bits_below [OF \<open>drop_bit 28 v < 2 ^ 4\<close>, of n] by (simp add: bit_drop_bit_eq)
    then have "(ucast (ucast (drop_bit 28 v) :: byte) :: u32) = drop_bit 28 v"
      by (intro bit_word_eqI) (force simp: bit_simps)
    with \<open>drop_bit 28 v < 2 ^ 4\<close> have "(ucast (ucast (drop_bit 28 v) :: byte) :: u32) < 16"
      by simp
    with 5 show ?thesis
      by (simp add: parts del: push_bit_and)
  qed
qed

text \<open>
  The variable-length encoding of every 32-bit value parses back to that value, in
  one to five bytes, and the parser stops exactly behind them.
\<close>

theorem varint_roundtrip:
  "varint_parse32 (varint_append32 [] v @ rest) = Some (v, rest) \<and>
   length (varint_append32 [] v) \<in> {1..5}"
  using varint_encode32_length [of v]
  by (auto simp: varint_append32_def varint_parse_encode Suc_le_eq)

end
