(* ===== verification/Snappy_Copy.thy ===== *)
theory Snappy_Copy
  imports Snappy_Stubs
begin

section \<open>Snappy: copies whose source and destination overlap\<close>

text \<open>
  IncrementalCopySlow and IncrementalCopy of depends/snappy/snappy.cc (the branch without
  SSSE3). Both are given one buffer, since a copy element of the format reads what the
  decompressor has written there. \<open>lz_copy\<close> is what such an element means: every byte is the
  one \<open>ofs\<close> places before it, those the copy itself appended included. The fast routine moves
  eight bytes at a time and scribbles past the end of the copy; the theory shows that up to
  the end of the copy it leaves what the meaning says, and that it never touches a byte
  behind \<open>buf_limit\<close>.
\<close>

subsection \<open>The meaning of a copy\<close>

primrec lz_copy :: "'a list \<Rightarrow> nat \<Rightarrow> nat \<Rightarrow> 'a list" where
  "lz_copy out ofs 0 = out"
| "lz_copy out ofs (Suc n) = (let l = lz_copy out ofs n in l @ [l ! (length l - ofs)])"

lemma lz_copy_length [simp]: "length (lz_copy out ofs n) = length out + n"
  by (induction n) (simp_all add: Let_def)

lemma lz_copy_prefix: "take (length out) (lz_copy out ofs n) = out"
  by (induction n) (simp_all add: Let_def)

lemma lz_copy_nth:
  assumes "0 < ofs" and "ofs \<le> length out" and "length out - ofs \<le> k" and "k < length out + n"
  shows "lz_copy out ofs n ! k = out ! (length out - ofs + (k - (length out - ofs)) mod ofs)"
  using assms(3,4)
proof (induction n arbitrary: k)
  case 0
  with assms(2) show ?case
    by simp
next
  case (Suc n)
  show ?case
  proof (cases "k < length out + n")
    case True
    with Suc show ?thesis
      by (simp add: Let_def nth_append)
  next
    case False
    with Suc.prems have k: "k = length out + n"
      by simp
    have "length out + n - ofs - (length out - ofs) = n"
      and "k - (length out - ofs) = n + ofs"
      using assms(2) k by simp_all
    with Suc.IH [of "length out + n - ofs"] assms(1,2) k show ?thesis
      by (simp add: Let_def nth_append)
  qed
qed

lemma lz_copy_old: "k < length out \<Longrightarrow> lz_copy out ofs n ! k = out ! k"
  by (metis lz_copy_prefix nth_take)

lemma lz_copy_shift:
  assumes "0 < ofs" and "ofs \<le> length out" and "length out - ofs + q * ofs \<le> k"
    and "k < length out + n"
  shows "lz_copy out ofs n ! k = lz_copy out ofs n ! (k - q * ofs)"
proof -
  let ?b = "length out - ofs"
  have "(k - ?b) mod ofs = (k - q * ofs - ?b) mod ofs"
  proof -
    have "k - ?b = k - q * ofs - ?b + q * ofs"
      using assms(3) by simp
    then show ?thesis
      by (metis mod_mult_self1)
  qed
  with assms show ?thesis
    by (simp add: lz_copy_nth)
qed

lemma lz_copy_take: "i \<le> n \<Longrightarrow> take (length out + i) (lz_copy out ofs n) = lz_copy out ofs i"
  by (induction n) (auto simp: Let_def le_Suc_eq)

lemma lz_copy_add: "lz_copy (lz_copy out d a) d b = lz_copy out d (a + b)"
  by (induction b) (simp_all add: Let_def add.assoc)

lemma lz_copy_append:
  assumes "0 < ofs" and "ofs \<le> length out"
  shows "lz_copy (pre @ out) ofs n = pre @ lz_copy out ofs n"
proof (induction n)
  case (Suc n)
  have "(pre @ lz_copy out ofs n) ! (length pre + length out + n - ofs)
    = lz_copy out ofs n ! (length out + n - ofs)"
    using assms nth_append_length_plus [of pre "lz_copy out ofs n" "length out + n - ofs"]
    by (simp add: add.assoc)
  with Suc assms show ?case
    by (simp add: Let_def add.assoc)
qed simp

subsection \<open>The routines\<close>

function incremental_copy_slow :: "byte list \<Rightarrow> nat \<Rightarrow> nat \<Rightarrow> nat \<Rightarrow> byte list option" where
  "incremental_copy_slow m src op op_limit =
     (if op < op_limit then do {
        b \<leftarrow> mem_read m src 1;
        m \<leftarrow> mem_write m op b;
        incremental_copy_slow m (src + 1) (op + 1) op_limit }
      else Some m)"
  by pat_completeness auto
termination
  by (relation "measure (\<lambda>(m, src, op, op_limit). op_limit - op)") auto

declare incremental_copy_slow.simps [simp del]

text \<open>The loop that doubles a short pattern; for an empty one it would not end.\<close>

partial_function (option) expand_pattern ::
  "byte list \<Rightarrow> nat \<Rightarrow> nat \<Rightarrow> nat \<Rightarrow> (byte list \<times> nat) option" where [code]:
  "expand_pattern m src op pattern_size =
     (if pattern_size < 8 then do {
        m \<leftarrow> unaligned_copy64 m src m op;
        expand_pattern m src (op + pattern_size) (pattern_size * 2) }
      else Some (m, op))"

definition copy_two :: "byte list \<Rightarrow> nat \<Rightarrow> nat \<Rightarrow> byte list option" where
  "copy_two m src op = do {
     m \<leftarrow> unaligned_copy64 m src m op;
     unaligned_copy64 m (src + 8) m (op + 8) }"

function copy_slop :: "byte list \<Rightarrow> nat \<Rightarrow> nat \<Rightarrow> nat \<Rightarrow> (byte list \<times> nat \<times> nat) option" where
  "copy_slop m src op buf_limit =
     (if op + 16 < buf_limit then do {
        m \<leftarrow> copy_two m src op;
        copy_slop m (src + 16) (op + 16) buf_limit }
      else Some (m, src, op))"
  by pat_completeness auto
termination
  by (relation "measure (\<lambda>(m, src, op, buf_limit). buf_limit - op)") auto

declare copy_slop.simps [simp del]

definition copy_blocks :: "byte list \<Rightarrow> nat \<Rightarrow> nat \<Rightarrow> nat \<Rightarrow> nat \<Rightarrow> (nat \<times> byte list) option" where
  "copy_blocks m src op op_limit buf_limit =
     (if op_limit + 16 \<le> buf_limit then do {
        m \<leftarrow> copy_two m src op;
        m \<leftarrow> (if op + 16 < op_limit then copy_two m (src + 16) (op + 16) else Some m);
        m \<leftarrow> (if op + 32 < op_limit then copy_two m (src + 32) (op + 32) else Some m);
        m \<leftarrow> (if op + 48 < op_limit then copy_two m (src + 48) (op + 48) else Some m);
        Some (op_limit, m) }
      else do {
        (m, src, op) \<leftarrow> copy_slop m src op buf_limit;
        if op_limit \<le> op then Some (op_limit, m)
        else do {
          (m, src, op) \<leftarrow>
            (if op + 8 \<le> buf_limit then do {
               m \<leftarrow> unaligned_copy64 m src m op;
               Some (m, src + 8, op + 8) }
             else Some (m, src, op));
          m \<leftarrow> incremental_copy_slow m src op op_limit;
          Some (op_limit, m) } })"

definition incremental_copy ::
  "byte list \<Rightarrow> nat \<Rightarrow> nat \<Rightarrow> nat \<Rightarrow> nat \<Rightarrow> (nat \<times> byte list) option" where
  "incremental_copy m src op op_limit buf_limit =
     (if \<not> (src < op \<and> op \<le> op_limit \<and> op_limit \<le> buf_limit) then None
      else if op - src < 8 then
        if op + 11 \<le> buf_limit then do {
          (m, op) \<leftarrow> expand_pattern m src op (op - src);
          if op_limit \<le> op then Some (op_limit, m)
          else copy_blocks m src op op_limit buf_limit }
        else do {
          m \<leftarrow> incremental_copy_slow m src op op_limit;
          Some (op_limit, m) }
      else copy_blocks m src op op_limit buf_limit)"

subsection \<open>What the routines leave\<close>

text \<open>
  \<open>copied m0 op0 p bl m n\<close>: the buffer \<open>m\<close> holds up to \<open>n\<close> what a copy of distance \<open>p\<close> to
  position \<open>op0\<close> of \<open>m0\<close> means, and is unchanged from \<open>bl\<close> on.
\<close>

definition copied :: "byte list \<Rightarrow> nat \<Rightarrow> nat \<Rightarrow> nat \<Rightarrow> byte list \<Rightarrow> nat \<Rightarrow> bool" where
  "copied m0 op0 p bl m n \<longleftrightarrow>
     op0 \<le> n \<and> length m = length m0 \<and> drop bl m = drop bl m0 \<and>
     take n m = lz_copy (take op0 m0) p (n - op0)"

definition move :: "byte list \<Rightarrow> nat \<Rightarrow> nat \<Rightarrow> nat \<Rightarrow> byte list option" where
  "move m s d w = do { t \<leftarrow> mem_read m s w; mem_write m d t }"

lemma copied_start: "op0 \<le> length m0 \<Longrightarrow> copied m0 op0 p bl m0 op0"
  by (simp add: copied_def)

lemma copied_step:
  assumes c: "copied m0 op0 p bl m d" and p: "0 < p" "p \<le> op0" "op0 \<le> length m0"
    and s: "s + q * p = d" "0 < q" "op0 \<le> s + p"
    and n: "n \<le> w" "n \<le> d - s" "d + w \<le> bl" "bl \<le> length m0"
  obtains m' where "move m s d w = Some m'" and "copied m0 op0 p bl m' (d + n)"
proof -
  let ?t = "take w (drop s m)" and ?L = "lz_copy (take op0 m0) p"
  have len: "length m = length m0" and old: "take d m = ?L (d - op0)" and "op0 \<le> d"
    and dr: "drop bl m = drop bl m0"
    using c by (simp_all add: copied_def)
  have t: "mem_read m s w = Some ?t" "length ?t = w"
    using s n len by (simp_all add: mem_read_def)
  then obtain m' where m': "mem_write m d ?t = Some m'"
    using n len by (simp add: mem_write_def)
  have len': "length m' = length m0"
    using mem_write_length [OF m'] len by simp
  have "take (d + n) m' = ?L (d + n - op0)"
  proof (rule nth_equalityI)
    show "length (take (d + n) m') = length (?L (d + n - op0))"
      using len' n p(3) \<open>op0 \<le> d\<close> by simp
    fix k assume "k < length (take (d + n) m')"
    then have k: "k < d + n"
      by simp
    have low: "?L (d + n - op0) ! i = m ! i" if "i < d" for i
    proof -
      have "take d (?L (d + n - op0)) = ?L (d - op0)"
        using lz_copy_take [of "d - op0" "d + n - op0" "take op0 m0" p] p(3) \<open>op0 \<le> d\<close> by simp
      with old that show ?thesis
        by (metis nth_take)
    qed
    show "take (d + n) m' ! k = ?L (d + n - op0) ! k"
    proof (cases "k < d")
      case True
      with k show ?thesis
        using low [OF True] by (simp add: mem_write_nth [OF m'])
    next
      case False
      have "?L (d + n - op0) ! k = ?L (d + n - op0) ! (k - q * p)"
        using p s k n False \<open>op0 \<le> d\<close> by (intro lz_copy_shift) auto
      also have "\<dots> = m ! (k - q * p)"
        using k n s False by (intro low) auto
      also have "k - q * p = s + (k - d)"
        using s False by auto
      also have "m ! (s + (k - d)) = m' ! k"
        using k n t(2) False s len by (simp add: mem_write_nth [OF m'])
      finally show ?thesis
        using k by simp
    qed
  qed
  moreover have "drop bl m' = drop bl m0"
    using mem_write_drop [OF m', of bl] t(2) n(3) dr by simp
  ultimately show ?thesis
    using that [of m'] t(1) m' len' \<open>op0 \<le> d\<close> by (simp add: move_def copied_def)
qed

lemma copied_take:
  assumes "copied m0 op0 p bl m n" and "op0 \<le> k" "k \<le> n" "op0 \<le> length m0"
  shows "copied m0 op0 p bl m k"
proof -
  have "take k m = take k (take n m)"
    using assms(3) by (simp add: min_def)
  also have "\<dots> = take k (lz_copy (take op0 m0) p (n - op0))"
    using assms(1) by (simp add: copied_def)
  also have "\<dots> = lz_copy (take op0 m0) p (k - op0)"
    using lz_copy_take [of "k - op0" "n - op0" "take op0 m0" p] assms(2-4) by simp
  finally show ?thesis
    using assms by (simp add: copied_def)
qed

lemma unaligned_copy64_move: "unaligned_copy64 m s m d = move m s d 8"
  by (simp add: unaligned_copy64_def move_def)

lemma slow_copied:
  assumes "copied m0 op0 p bl m d" and "0 < p" "p \<le> op0" "op0 \<le> length m0"
    and "s + q * p = d" "0 < q" "op0 \<le> s + p" and "op0 \<le> lim" "lim \<le> bl" "bl \<le> length m0"
  obtains m' where "incremental_copy_slow m s d lim = Some m'" and "copied m0 op0 p bl m' lim"
  using assms
proof (induction m s d lim arbitrary: thesis rule: incremental_copy_slow.induct)
  case (1 m s d lim)
  show thesis
  proof (cases "d < lim")
    case True
    have "1 \<le> d - s"
      using "1.prems"(6,7,3) by (cases q) auto
    from copied_step [OF "1.prems"(2-8), of 1 1] this True "1.prems"(10,11) obtain m1 where
      m1: "move m s d 1 = Some m1" "copied m0 op0 p bl m1 (d + 1)"
      by auto
    then obtain b where b: "mem_read m s 1 = Some b" "mem_write m d b = Some m1"
      by (auto simp: move_def split: Option.bind_splits)
    obtain m' where "incremental_copy_slow m1 (s + 1) (d + 1) lim = Some m'"
      "copied m0 op0 p bl m' lim"
      by (rule "1.IH" [OF True b, of thesis]) (use "1.prems"(3-11) m1(2) True in auto)
    with True b show thesis
      by (intro "1.prems"(1) [of m']) (simp_all add: incremental_copy_slow.simps [of m])
  next
    case False
    with "1.prems"(2-) copied_take [OF "1.prems"(2), of lim] show thesis
      by (intro "1.prems"(1) [of m]) (simp_all add: incremental_copy_slow.simps [of m])
  qed
qed

lemma expand_copied:
  assumes "copied m0 op0 p bl m d" and "0 < p" "p \<le> op0" "op0 \<le> length m0"
    and "s + ps = d" "ps = 2 ^ i * p" "s + p = op0" and "op0 + 11 \<le> bl" "bl \<le> length m0"
    and "p < 8" "ps < 16"
  obtains m' d' j where "expand_pattern m s d ps = Some (m', d')"
    and "copied m0 op0 p bl m' d'" and "s + 2 ^ j * p = d'" and "8 \<le> d' - s" "d' < s + 16"
  using assms
proof (induction "8 - ps" arbitrary: m d ps i thesis rule: less_induct)
  case less
  show thesis
  proof (cases "ps < 8")
    case True
    have pos: "0 < ps"
      using less.prems(3,7) by simp
    have d8: "d + 8 \<le> bl"
    proof -
      have "ps < 4 \<or> i = 0 \<or> (p < 4 \<and> ps = 2 * p \<or> ps = 4)"
        using True less.prems(3,7,11) by (cases i; cases "i - 1"; cases "i - 2") auto
      moreover have "d = op0 + (ps - p)" "p \<le> ps"
        using less.prems(3,6,7,8) by auto
      ultimately show ?thesis
        using less.prems(3,7,9) True by auto
    qed
    obtain m1 where m1: "move m s d 8 = Some m1" "copied m0 op0 p bl m1 (d + ps)"
      by (rule copied_step [OF less.prems(2-5), of s "2 ^ i" ps 8])
        (use less.prems(6-11) d8 True in \<open>auto simp: mult.commute\<close>)
    show thesis
    proof (rule less.hyps [of "ps * 2" m1 "d + ps" _ "Suc i"])
      show "8 - ps * 2 < 8 - ps"
        using True pos by simp
      show "thesis" if "expand_pattern m1 s (d + ps) (ps * 2) = Some (m', d')"
        "copied m0 op0 p bl m' d'" "s + 2 ^ j * p = d'" "8 \<le> d' - s" "d' < s + 16" for m' d' j
        using that m1(1) True less.prems(1) [of m' d' j]
        by (simp add: expand_pattern.simps [of m] unaligned_copy64_move)
    qed (use less.prems m1(2) True in \<open>auto simp: mult.commute\<close>)
  next
    case False
    then show thesis
      using less.prems(2-12) less.prems(1) [of m d i]
      by (simp add: expand_pattern.simps [of m])
  qed
qed

lemma copy_two_copied:
  assumes c: "copied m0 op0 p bl m d" and p: "0 < p" "p \<le> op0" "op0 \<le> length m0"
    and s: "s + q * p = d" "0 < q" "op0 \<le> s + p" "8 \<le> d - s"
    and n: "d + 16 \<le> bl" "bl \<le> length m0"
  obtains m' where "copy_two m s d = Some m'" and "copied m0 op0 p bl m' (d + 16)"
proof -
  obtain m1 where m1: "move m s d 8 = Some m1" "copied m0 op0 p bl m1 (d + 8)"
    by (rule copied_step [OF c p s(1-3), of 8 8]) (use s n in auto)
  obtain m2 where m2: "move m1 (s + 8) (d + 8) 8 = Some m2" "copied m0 op0 p bl m2 (d + 8 + 8)"
    by (rule copied_step [OF m1(2) p, of "s + 8" q 8 8]) (use s n in auto)
  from m1(1) m2 show ?thesis
    by (intro that [of m2]) (simp_all add: copy_two_def unaligned_copy64_move add.commute)
qed

lemma copy_slop_copied:
  assumes "copied m0 op0 p bl m d" and "0 < p" "p \<le> op0" "op0 \<le> length m0"
    and "s + q * p = d" "0 < q" "op0 \<le> s + p" "8 \<le> d - s" and "d \<le> bl" "bl \<le> length m0"
  obtains m' s' d' where "copy_slop m s d bl = Some (m', s', d')" and "copied m0 op0 p bl m' d'"
    and "s' + q * p = d'" and "s \<le> s'" and "d' \<le> bl"
  using assms
proof (induction m s d bl arbitrary: thesis rule: copy_slop.induct)
  case (1 m s d bl)
  show thesis
  proof (cases "d + 16 < bl")
    case True
    obtain m1 where m1: "copy_two m s d = Some m1" "copied m0 op0 p bl m1 (d + 16)"
      by (rule copy_two_copied [OF "1.prems"(2-9)]) (use True "1.prems" in auto)
    show thesis
    proof (rule "1.IH" [OF True m1(1)])
      show thesis if "copy_slop m1 (s + 16) (d + 16) bl = Some (m', s', d')"
        "copied m0 op0 p bl m' d'" "s' + q * p = d'" "s + 16 \<le> s'" "d' \<le> bl" for m' s' d'
        using that True m1(1) "1.prems"(1) [of m' s' d']
        by (simp add: copy_slop.simps [of m])
    qed (use "1.prems" m1(2) True in auto)
  next
    case False
    then show thesis
      using "1.prems"(2-) "1.prems"(1) [of m s d] by (simp add: copy_slop.simps [of m])
  qed
qed

lemma copy_blocks_copied:
  assumes c: "copied m0 op0 p bl m d" and p: "0 < p" "p \<le> op0" "op0 \<le> length m0"
    and s: "s + q * p = d" "0 < q" "op0 \<le> s + p" "8 \<le> d - s"
    and lim: "d \<le> lim" "lim \<le> d + 64" "lim \<le> bl" "bl \<le> length m0"
  obtains m' where "copy_blocks m s d lim bl = Some (lim, m')" and "copied m0 op0 p bl m' lim"
proof (cases "lim + 16 \<le> bl")
  case True
  have two: "\<exists>m2. (if d + k < lim then copy_two m1 (s + k) (d + k) else Some m1) = Some m2 \<and>
      copied m0 op0 p bl m2 (if d + k < lim then d + j else e)"
    if "copied m0 op0 p bl m1 e" and "d + k < lim \<Longrightarrow> e = d + k" and "j = k + 16" for m1 e k j
  proof (cases "d + k < lim")
    case True
    with that have c1: "copied m0 op0 p bl m1 (d + k)"
      by simp
    obtain m2 where "copy_two m1 (s + k) (d + k) = Some m2"
      "copied m0 op0 p bl m2 (d + k + 16)"
      by (rule copy_two_copied [OF c1 p, of "s + k" q])
        (use True s lim \<open>lim + 16 \<le> bl\<close> in auto)
    with True that(3) show ?thesis
      by (simp add: add.assoc)
  qed (use that in simp)
  obtain m1 where m1: "copy_two m s d = Some m1" "copied m0 op0 p bl m1 (d + 16)"
    by (rule copy_two_copied [OF c p s]) (use lim True in auto)
  obtain m2 where m2: "(if d + 16 < lim then copy_two m1 (s + 16) (d + 16) else Some m1) = Some m2"
    "copied m0 op0 p bl m2 (if d + 16 < lim then d + 32 else d + 16)"
    using two [OF m1(2), of 16 32] by auto
  obtain m3 where m3: "(if d + 32 < lim then copy_two m2 (s + 32) (d + 32) else Some m2) = Some m3"
    "copied m0 op0 p bl m3 (if d + 32 < lim then d + 48 else if d + 16 < lim then d + 32 else d + 16)"
    using two [OF m2(2), of 32 48] by auto
  obtain m4 where m4: "(if d + 48 < lim then copy_two m3 (s + 48) (d + 48) else Some m3) = Some m4"
    "copied m0 op0 p bl m4 (if d + 48 < lim then d + 64 else if d + 32 < lim then d + 48
       else if d + 16 < lim then d + 32 else d + 16)"
    using two [OF m3(2), of 48 64] by auto
  have "copied m0 op0 p bl m4 lim"
    by (rule copied_take [OF m4(2)]) (use lim c p in \<open>auto simp: copied_def\<close>)
  with m1 m2(1) m3(1) m4(1) True show ?thesis
    by (intro that [of m4]) (simp_all add: copy_blocks_def)
next
  case False
  obtain m1 s1 d1 where m1: "copy_slop m s d bl = Some (m1, s1, d1)" "copied m0 op0 p bl m1 d1"
    "s1 + q * p = d1" "s \<le> s1" "d1 \<le> bl"
    by (rule copy_slop_copied [OF c p s]) (use lim in auto)
  show ?thesis
  proof (cases "lim \<le> d1")
    case True
    have "copied m0 op0 p bl m1 lim"
      by (rule copied_take [OF m1(2)]) (use True lim c p in \<open>auto simp: copied_def\<close>)
    with m1(1) True False show ?thesis
      by (intro that [of m1]) (simp_all add: copy_blocks_def)
  next
    case gap: False
    have "\<exists>m2 s2 d2. (if d1 + 8 \<le> bl
        then do { m \<leftarrow> unaligned_copy64 m1 s1 m1 d1; Some (m, s1 + 8, d1 + 8) }
        else Some (m1, s1, d1)) = Some (m2, s2, d2) \<and> copied m0 op0 p bl m2 d2 \<and>
        s2 + q * p = d2 \<and> s1 \<le> s2"
    proof (cases "d1 + 8 \<le> bl")
      case True
      obtain m2 where "move m1 s1 d1 8 = Some m2" "copied m0 op0 p bl m2 (d1 + 8)"
        by (rule copied_step [OF m1(2) p m1(3) s(2), of 8 8]) (use s m1 lim True in auto)
      with True m1(3) show ?thesis
        by (simp add: unaligned_copy64_move)
    qed (use m1 in simp)
    then obtain m2 s2 d2 where m2: "(if d1 + 8 \<le> bl
        then do { m \<leftarrow> unaligned_copy64 m1 s1 m1 d1; Some (m, s1 + 8, d1 + 8) }
        else Some (m1, s1, d1)) = Some (m2, s2, d2)"
      "copied m0 op0 p bl m2 d2" "s2 + q * p = d2" "s1 \<le> s2"
      by blast
    obtain m3 where "incremental_copy_slow m2 s2 d2 lim = Some m3" "copied m0 op0 p bl m3 lim"
      by (rule slow_copied [OF m2(2) p m2(3) s(2)])
        (use s m1(4) m2(4) c lim in \<open>auto simp: copied_def\<close>)
    with m1(1) m2(1) gap False show ?thesis
      by (intro that [of m3]) (simp_all add: copy_blocks_def)
  qed
qed

text \<open>
  The routine as a whole: on the arguments its assertions allow and lengths up to the 64 bytes
  a copy element can have, every path ends, stays inside the buffer, leaves the meaning of
  the copy up to \<open>op_limit\<close> and the bytes from \<open>buf_limit\<close> on untouched.
\<close>

lemma incremental_copy_copied:
  assumes "s < d" "d \<le> lim" "lim \<le> d + 64" "lim \<le> bl" "bl \<le> length m"
  obtains m' where "incremental_copy m s d lim bl = Some (lim, m')"
    and "copied m d (d - s) bl m' lim"
proof -
  let ?p = "d - s"
  have c: "copied m d ?p bl m d" and p: "0 < ?p" "?p \<le> d" "d \<le> length m" and q: "s + 1 * ?p = d"
    using assms by (auto intro: copied_start)
  show ?thesis
  proof (cases "?p < 8")
    case False
    obtain m' where "copy_blocks m s d lim bl = Some (lim, m')" "copied m d ?p bl m' lim"
      by (rule copy_blocks_copied [OF c p q]) (use assms False in auto)
    with assms False show ?thesis
      by (intro that [of m']) (simp_all add: incremental_copy_def)
  next
    case short: True
    show ?thesis
    proof (cases "d + 11 \<le> bl")
      case True
      obtain m1 d1 j where m1: "expand_pattern m s d ?p = Some (m1, d1)" "copied m d ?p bl m1 d1"
        "s + 2 ^ j * ?p = d1" "8 \<le> d1 - s" "d1 < s + 16"
        by (rule expand_copied [OF c p, of s ?p 0]) (use assms short True in auto)
      have "d \<le> d1"
        using m1(2) by (simp add: copied_def)
      show ?thesis
      proof (cases "lim \<le> d1")
        case True
        have "copied m d ?p bl m1 lim"
          by (rule copied_take [OF m1(2)]) (use assms True in auto)
        with m1(1) True short assms \<open>d + 11 \<le> bl\<close> show ?thesis
          by (intro that [of m1]) (simp_all add: incremental_copy_def)
      next
        case False
        obtain m' where "copy_blocks m1 s d1 lim bl = Some (lim, m')" "copied m d ?p bl m' lim"
          by (rule copy_blocks_copied [OF m1(2) p m1(3)])
            (use assms False m1(4) \<open>d \<le> d1\<close> in auto)
        with m1(1) False short assms \<open>d + 11 \<le> bl\<close> show ?thesis
          by (intro that [of m']) (simp_all add: incremental_copy_def)
      qed
    next
      case False
      obtain m' where "incremental_copy_slow m s d lim = Some m'" "copied m d ?p bl m' lim"
        by (rule slow_copied [OF c p q]) (use assms in auto)
      with False short assms show ?thesis
        by (intro that [of m']) (simp_all add: incremental_copy_def)
    qed
  qed
qed

text \<open>
  C39: IncrementalCopy is IncrementalCopySlow made fast: on arguments its assertions allow and
  copies of at most 64 bytes it returns \<open>op_limit\<close> with the same bytes before \<open>op_limit\<close>,
  those of a byte-by-byte copy at distance \<open>op - src\<close>, and although it moves eight bytes at a
  time it leaves everything from \<open>buf_limit\<close> on as it was.
\<close>

theorem incremental_copy_equiv:
  assumes "src < op" "op \<le> op_limit" "op_limit \<le> op + 64" "op_limit \<le> buf_limit"
    "buf_limit \<le> length m"
  shows "\<exists>fast slow. incremental_copy m src op op_limit buf_limit = Some (op_limit, fast) \<and>
    incremental_copy_slow m src op op_limit = Some slow \<and>
    take op_limit fast = take op_limit slow \<and>
    take op_limit fast = lz_copy (take op m) (op - src) (op_limit - op) \<and>
    length fast = length m \<and> drop buf_limit fast = drop buf_limit m"
proof -
  obtain fast where fast: "incremental_copy m src op op_limit buf_limit = Some (op_limit, fast)"
    "copied m op (op - src) buf_limit fast op_limit"
    using incremental_copy_copied [OF assms] by blast
  have "copied m op (op - src) buf_limit m op"
    using assms by (intro copied_start) simp
  then obtain slow where "incremental_copy_slow m src op op_limit = Some slow"
    "copied m op (op - src) buf_limit slow op_limit"
    by (rule slow_copied [of _ _ _ _ _ _ src 1]) (use assms in auto)
  with fast show ?thesis
    by (auto simp: copied_def)
qed

theorem incremental_copy_equiv_witness:
  "\<exists>fast slow. incremental_copy ([97, 98] @ replicate 38 0) 0 2 22 40 = Some (22, fast) \<and>
    incremental_copy_slow ([97, 98] @ replicate 38 0) 0 2 22 = Some slow \<and>
    take 22 fast = take 22 slow \<and>
    take 22 fast = lz_copy (take 2 ([97, 98] @ replicate 38 0)) (2 - 0) (22 - 2) \<and>
    length fast = length ([97, 98] @ replicate 38 (0 :: byte)) \<and>
    drop 40 fast = drop 40 ([97, 98] @ replicate 38 0)"
  by (rule incremental_copy_equiv) simp_all

end
