(* ===== verification/Snappy_Format.thy ===== *)
theory Snappy_Format
  imports Snappy_Copy
begin

section \<open>Snappy: the compressed format\<close>

text \<open>
  A reference decoder for the format that depends/snappy/snappy-internal.h and the comments
  of snappy.cc describe: a sequence of elements, each a tag byte, its operands and, for a
  literal, the bytes themselves. It works on whole byte lists and knows nothing of buffers,
  refills or block copies. The decompressor is shown to compute it, the compressor to be
  inverted by it. The length of a long literal is taken modulo \<open>2 ^ 32\<close>, as the code's
  unsigned addition does.
\<close>

datatype element = Literal "byte list" | Copy nat nat

fun le_nat :: "byte list \<Rightarrow> nat" where
  "le_nat [] = 0"
| "le_nat (b # bs) = unat b + 256 * le_nat bs"

definition take_bytes :: "nat \<Rightarrow> byte list \<Rightarrow> (byte list \<times> byte list) option" where
  "take_bytes n bs = (if n \<le> length bs then Some (take n bs, drop n bs) else None)"

fun parse_element :: "byte list \<Rightarrow> (element \<times> byte list) option" where
  "parse_element [] = None"
| "parse_element (c # bs) =
     (let t = unat c; m = t div 4 in
      if t mod 4 = 0 then
        if m < 60 then do { (l, bs) \<leftarrow> take_bytes (m + 1) bs; Some (Literal l, bs) }
        else do {
          (e, bs) \<leftarrow> take_bytes (m - 59) bs;
          (l, bs) \<leftarrow> take_bytes ((le_nat e + 1) mod 2 ^ 32) bs;
          Some (Literal l, bs) }
      else if t mod 4 = 1 then do {
        (e, bs) \<leftarrow> take_bytes 1 bs;
        Some (Copy (256 * (t div 32) + le_nat e) (4 + m mod 8), bs) }
      else do {
        (e, bs) \<leftarrow> take_bytes (if t mod 4 = 2 then 2 else 4) bs;
        Some (Copy (le_nat e) (m + 1), bs) })"

fun apply_element :: "byte list \<Rightarrow> element \<Rightarrow> byte list option" where
  "apply_element out (Literal l) = Some (out @ l)"
| "apply_element out (Copy d n) =
     (if 0 < d \<and> d \<le> length out then Some (lz_copy out d n) else None)"

lemma take_bytes_Some:
  "take_bytes n bs = Some (l, r) \<longleftrightarrow> bs = l @ r \<and> length l = n"
  by (auto simp: take_bytes_def)

lemma parse_element_shorter:
  "parse_element bs = Some (e, r) \<Longrightarrow> length r < length bs"
  by (cases bs) (auto simp: Let_def take_bytes_Some split: if_splits Option.bind_splits)

function snappy_decode :: "byte list \<Rightarrow> byte list \<Rightarrow> byte list option" where
  "snappy_decode bs out =
     (if bs = [] then Some out
      else do {
        (e, bs) \<leftarrow> parse_element bs;
        out \<leftarrow> apply_element out e;
        snappy_decode bs out })"
  by pat_completeness auto
termination
  by (relation "measure (\<lambda>(bs, out). length bs)") (auto simp: parse_element_shorter)

declare snappy_decode.simps [simp del]

definition snappy_format :: "byte list \<Rightarrow> byte list option" where
  "snappy_format z = do {
     (n, bs) \<leftarrow> varint_parse32 z;
     out \<leftarrow> snappy_decode bs [];
     if length out = unat n then Some out else None }"

lemma snappy_decode_Nil [simp]: "snappy_decode [] out = Some out"
  by (simp add: snappy_decode.simps)

lemma snappy_decode_step:
  "parse_element bs = Some (e, r) \<Longrightarrow>
   snappy_decode bs out = apply_element out e \<bind> snappy_decode r"
  by (cases "bs = []") (auto simp: snappy_decode.simps [of bs])

lemma snappy_decode_stuck:
  "bs \<noteq> [] \<Longrightarrow> parse_element bs = None \<Longrightarrow> snappy_decode bs out = None"
  by (simp add: snappy_decode.simps [of bs])

lemma take_bytes_append:
  "take_bytes n bs = Some (l, r) \<Longrightarrow> take_bytes n (bs @ ys) = Some (l, r @ ys)"
  by (auto simp: take_bytes_Some)

lemma parse_element_append:
  "parse_element bs = Some (e, r) \<Longrightarrow> parse_element (bs @ ys) = Some (e, r @ ys)"
  by (cases bs) (auto simp: Let_def take_bytes_append split: if_splits Option.bind_splits)

text \<open>Decoding composes: what is left behind a decoded prefix is decoded after it.\<close>

lemma snappy_decode_append:
  "snappy_decode xs out = Some out' \<Longrightarrow> snappy_decode (xs @ ys) out = snappy_decode ys out'"
proof (induction xs out rule: snappy_decode.induct)
  case (1 bs out)
  show ?case
  proof (cases "bs = []")
    case False
    then obtain e r o1 where p: "parse_element bs = Some (e, r)" "apply_element out e = Some o1"
      "snappy_decode r o1 = Some out'"
      using "1.prems" by (auto simp: snappy_decode.simps [of bs] split: Option.bind_splits)
    with "1.IH" [OF False p(1) refl p(2)] show ?thesis
      by (simp add: snappy_decode_step [OF parse_element_append [OF p(1)]])
  qed (use 1 in simp)
qed

lemma apply_element_grows: "apply_element out e = Some out' \<Longrightarrow> length out \<le> length out'"
  by (cases e) (auto split: if_splits)

lemma snappy_decode_grows: "snappy_decode bs out = Some out' \<Longrightarrow> length out \<le> length out'"
proof (induction bs out rule: snappy_decode.induct)
  case (1 bs out)
  show ?case
  proof (cases "bs = []")
    case False
    then obtain e r o1 where p: "parse_element bs = Some (e, r)" "apply_element out e = Some o1"
      "snappy_decode r o1 = Some out'"
      using "1.prems" by (auto simp: snappy_decode.simps [of bs] split: Option.bind_splits)
    with "1.IH" [OF False p(1) refl p(2)] apply_element_grows [OF p(2)] show ?thesis
      by simp
  qed (use 1 in simp)
qed

text \<open>Earlier output changes nothing, since no copy reaches behind the start of its own part.\<close>

lemma apply_element_behind:
  "apply_element out e = Some out' \<Longrightarrow> apply_element (pre @ out) e = Some (pre @ out')"
  by (cases e) (auto simp: lz_copy_append split: if_splits)

lemma snappy_decode_behind:
  "snappy_decode bs out = Some out' \<Longrightarrow> snappy_decode bs (pre @ out) = Some (pre @ out')"
proof (induction bs out rule: snappy_decode.induct)
  case (1 bs out)
  show ?case
  proof (cases "bs = []")
    case False
    then obtain e r o1 where p: "parse_element bs = Some (e, r)" "apply_element out e = Some o1"
      "snappy_decode r o1 = Some out'"
      using "1.prems" by (auto simp: snappy_decode.simps [of bs] split: Option.bind_splits)
    with "1.IH" [OF False p(1) refl p(2)] show ?thesis
      by (simp add: snappy_decode_step [OF p(1)] apply_element_behind [OF p(2)])
  qed (use 1 in simp)
qed

subsection \<open>Little-endian operands\<close>

lemma le_nat_less: "le_nat bs < 256 ^ length bs"
proof (induction bs)
  case (Cons b bs)
  have "unat b < 256"
    using unsigned_less [of b, where 'a = nat] by simp
  with Cons show ?case
    by simp
qed simp

lemma le_word_of_nat: "(le_word bs :: 'a :: len word) = of_nat (le_nat bs)"
proof (induction bs)
  case (Cons b bs)
  have "of_nat (le_nat (b # bs)) = (ucast b + push_bit 8 (le_word bs) :: 'a word)"
    by (simp add: Cons push_bit_eq_mult mult.commute)
  also have "\<dots> = ucast b OR push_bit 8 (le_word bs)"
    by (rule disjunctive_add) (auto simp: bit_simps dest: bit_imp_le_length)
  finally show ?case
    by simp
qed simp

lemma unat_le_word:
  assumes "8 * length bs \<le> LENGTH('a)"
  shows "unat (le_word bs :: 'a :: len word) = le_nat bs"
proof -
  have "le_nat bs < 2 ^ (8 * length bs)"
    using le_nat_less [of bs] by (simp add: power_mult)
  also have "\<dots> \<le> 2 ^ LENGTH('a)"
    using assms by (rule power_increasing) simp
  finally show ?thesis
    unfolding le_word_of_nat unat_of_nat by (simp flip: take_bit_eq_mod add: take_bit_nat_eq_self)
qed

lemma le_word_take:
  assumes "n \<le> length bs"
  shows "take_bit (8 * n) (le_word bs :: 'a :: len word) = le_word (take n bs)"
proof (rule bit_word_eqI)
  fix i
  have "i < 8 * n \<longleftrightarrow> i div 8 < n"
    by (auto simp: less_mult_imp_div_less div_less_iff_less_mult mult.commute)
  with assms show "bit (take_bit (8 * n) (le_word bs :: 'a word)) i = bit (le_word (take n bs) :: 'a word) i"
    by (auto simp: bit_simps le_word_bit)
qed

end
