(* ===== verification/Snappy_Emit.thy ===== *)
theory Snappy_Emit
  imports Snappy_Format
begin

section \<open>Snappy: emitting literals and copies\<close>

text \<open>
  HashBytes, MaxCompressedLength, EmitLiteral, EmitCopyAtMost64 and EmitCopy of
  depends/snappy/snappy.cc. An emitter is given the output buffer and
  the position to write at and returns both; it may write past the position it returns, as
  the code does to save branches. The lemmas give the bytes an emitter appends, how the
  reference decoder reads them, and the room it needs.
\<close>

definition hash_bytes :: "u32 \<Rightarrow> nat \<Rightarrow> u32" where
  "hash_bytes bytes shift = (let kMul = 0x1e35a7bd in drop_bit shift (bytes * kMul))"

definition hash_at :: "byte list \<Rightarrow> nat \<Rightarrow> nat \<Rightarrow> u32 option" where
  "hash_at m p shift = map_option (\<lambda>v. hash_bytes v shift) (load32 m p)"

definition max_compressed_length :: "nat \<Rightarrow> nat" where
  "max_compressed_length source_len = 32 + source_len + source_len div 6"

definition emit_literal ::
  "bool \<Rightarrow> byte list \<Rightarrow> nat \<Rightarrow> byte list \<Rightarrow> nat \<Rightarrow> nat \<Rightarrow> (nat \<times> byte list) option" where
  "emit_literal allow_fast_path dst op m literal len =
     (if len = 0 then None
      else let n = len - 1 in
        if allow_fast_path \<and> len \<le> 16 then do {
          dst \<leftarrow> mem_write dst op [of_nat (n * 4)];
          dst \<leftarrow> unaligned_copy128 m literal dst (op + 1);
          Some (op + 1 + len, dst) }
        else do {
          (op, dst) \<leftarrow>
            (if n < 60 then do {
               dst \<leftarrow> mem_write dst op [of_nat (n * 4)];
               Some (op + 1, dst) }
             else do {
               l \<leftarrow> log2_floor (of_nat n);
               let count = nat l div 8 + 1;
               if l < 0 \<or> 4 < count then None
               else do {
                 dst \<leftarrow> mem_write dst op [of_nat ((59 + count) * 4)];
                 dst \<leftarrow> store32 dst (op + 1) (of_nat n);
                 Some (op + 1 + count, dst) } });
          t \<leftarrow> mem_read m literal len;
          dst \<leftarrow> mem_write dst op t;
          Some (op + len, dst) })"

definition emit_copy_at_most64 ::
  "bool \<Rightarrow> byte list \<Rightarrow> nat \<Rightarrow> nat \<Rightarrow> nat \<Rightarrow> (nat \<times> byte list) option" where
  "emit_copy_at_most64 len_less_than_12 dst op offset len =
     (if \<not> (4 \<le> len \<and> len \<le> 64 \<and> offset < 65536 \<and> len_less_than_12 = (len < 12)) then None
      else if len_less_than_12 \<and> offset < 2048 then do {
        dst \<leftarrow> mem_write dst op [of_nat (1 + (len - 4) * 4 + (offset div 8 AND 0xe0))];
        dst \<leftarrow> mem_write dst (op + 1) [of_nat (offset AND 0xff)];
        Some (op + 2, dst) }
      else do {
        dst \<leftarrow> store32 dst op (of_nat (2 + (len - 1) * 4 + offset * 256));
        Some (op + 3, dst) })"

function emit_copies64 :: "byte list \<Rightarrow> nat \<Rightarrow> nat \<Rightarrow> nat \<Rightarrow> (nat \<times> byte list \<times> nat) option" where
  "emit_copies64 dst op offset len =
     (if 68 \<le> len then do {
        (op, dst) \<leftarrow> emit_copy_at_most64 False dst op offset 64;
        emit_copies64 dst op offset (len - 64) }
      else Some (op, dst, len))"
  by pat_completeness auto
termination
  by (relation "measure (\<lambda>(dst, op, offset, len). len)") auto

declare emit_copies64.simps [simp del]

definition emit_copy ::
  "bool \<Rightarrow> byte list \<Rightarrow> nat \<Rightarrow> nat \<Rightarrow> nat \<Rightarrow> (nat \<times> byte list) option" where
  "emit_copy len_less_than_12 dst op offset len =
     (if len_less_than_12 \<noteq> (len < 12) then None
      else if len_less_than_12 then emit_copy_at_most64 True dst op offset len
      else do {
        (op, dst, len) \<leftarrow> emit_copies64 dst op offset len;
        (op, dst, len) \<leftarrow>
          (if 64 < len then do {
             (op, dst) \<leftarrow> emit_copy_at_most64 False dst op offset 60;
             Some (op, dst, len - 60) }
           else Some (op, dst, len));
        emit_copy_at_most64 (len < 12) dst op offset len })"

subsection \<open>What is appended\<close>

text \<open>\<open>appended dst op bs res\<close>: the result holds \<open>bs\<close> behind the first \<open>op\<close> bytes of \<open>dst\<close>.\<close>

definition appended :: "byte list \<Rightarrow> nat \<Rightarrow> byte list \<Rightarrow> nat \<times> byte list \<Rightarrow> bool" where
  "appended dst op bs res \<longleftrightarrow>
     fst res = op + length bs \<and> fst res \<le> length (snd res) \<and> length (snd res) = length dst \<and>
     take (fst res) (snd res) = take op dst @ bs"

lemma appended_trans:
  "appended dst op as (op1, dst1) \<Longrightarrow> appended dst1 op1 bs res \<Longrightarrow> appended dst op (as @ bs) res"
  by (auto simp: appended_def)

lemma appended_Nil: "op \<le> length dst \<Longrightarrow> appended dst op [] (op, dst)"
  by (simp add: appended_def)

text \<open>A write of \<open>t\<close> of which the first \<open>k\<close> bytes are meant.\<close>

lemma write_appended:
  assumes "op + length t \<le> length dst" and "k \<le> length t"
  obtains dst' where "mem_write dst op t = Some dst'" and "appended dst op (take k t) (op + k, dst')"
proof -
  obtain dst' where w: "mem_write dst op t = Some dst'"
    using assms by (simp add: mem_write_def)
  have "take (op + k) dst' = take (op + k) (take (op + length t) dst')"
    using assms(2) by (simp add: min_def)
  also have "\<dots> = take op dst @ take k t"
    unfolding mem_write_take [OF w] using assms by simp
  finally have "appended dst op (take k t) (op + k, dst')"
    using assms mem_write_length [OF w] by (simp add: appended_def)
  with w show ?thesis
    by (rule that)
qed

lemma write_all_appended:
  assumes "op + length t \<le> length dst"
  obtains dst' where "mem_write dst op t = Some dst'" and "appended dst op t (op + length t, dst')"
  using write_appended [OF assms order_refl] by (auto intro: that)

definition le_bytes :: "nat \<Rightarrow> nat \<Rightarrow> byte list" where
  "le_bytes k n = map (\<lambda>i. of_nat (n div 256 ^ i)) [0..<k]"

lemma le_bytes_length [simp]: "length (le_bytes k n) = k"
  by (simp add: le_bytes_def)

lemma le_bytes_take: "j \<le> k \<Longrightarrow> take j (le_bytes k n) = le_bytes j n"
  by (simp add: le_bytes_def take_map)

lemma le_bytes_Suc: "le_bytes (Suc k) n = of_nat n # le_bytes k (n div 256)"
  by (simp add: le_bytes_def upt_conv_Cons map_Suc_upt [symmetric] div_mult2_eq del: upt_Suc)

lemma unat_byte: "unat (of_nat n :: byte) = n mod 256"
  by (simp add: unat_of_nat)

lemma le_nat_le_bytes: "le_nat (le_bytes k n) = n mod 256 ^ k"
proof (induction k arbitrary: n)
  case (Suc k)
  have "le_nat (le_bytes (Suc k) n) = n mod 256 + 256 * (n div 256 mod 256 ^ k)"
    by (simp add: Suc unat_byte le_bytes_Suc)
  then show ?case
    by (simp add: mod_mult2_eq)
qed (simp add: le_bytes_def)

lemma store32_le_bytes:
  assumes "n < 2 ^ 32"
  shows "store32 m p (of_nat n) = mem_write m p (le_bytes 4 n)"
proof -
  have u: "unat (of_nat n :: u32) = n"
    by (rule unat_of_nat_u32 [OF assms])
  have b: "(ucast (drop_bit k (of_nat n :: u32)) :: byte) = of_nat (n div 2 ^ k)" for k
  proof -
    have "(ucast (drop_bit k (of_nat n :: u32)) :: byte) = of_nat (unat (drop_bit k (of_nat n :: u32)))"
      by simp
    also have "unat (drop_bit k (of_nat n :: u32)) = n div 2 ^ k"
      by (simp only: unat_drop_bit_eq u drop_bit_eq_div [where ?'a = nat])
    finally show ?thesis .
  qed
  have "le_bytes 4 n = [of_nat n, of_nat (n div 2 ^ 8), of_nat (n div 2 ^ 16), of_nat (n div 2 ^ 24)]"
    by (simp add: le_bytes_def upt_rec)
  then show ?thesis
    using b [of 0] b [of 8] b [of 16] b [of 24] by (simp add: store32_def)
qed

lemma decode_one:
  "parse_element bs = Some (e, []) \<Longrightarrow> apply_element out e = Some out' \<Longrightarrow>
   snappy_decode bs out = Some out'"
  by (simp add: snappy_decode_step)

subsection \<open>Literals\<close>

lemma parse_literal_tag:
  assumes "n < 60" and "length l = n + 1"
  shows "parse_element (of_nat (n * 4) # l) = Some (Literal l, [])"
proof -
  have "unat (of_nat (n * 4) :: byte) = n * 4"
    using assms(1) by (simp only: unat_byte) simp
  with assms show ?thesis
    by (simp add: take_bytes_def)
qed

lemma parse_literal_long:
  assumes "1 \<le> k" "k \<le> 4" "n < 256 ^ k" "n + 1 < 2 ^ 32" "length l = n + 1"
  shows "parse_element (of_nat ((59 + k) * 4) # le_bytes k n @ l) = Some (Literal l, [])"
proof -
  have "unat (of_nat ((59 + k) * 4) :: byte) = (59 + k) * 4"
    using assms(2) by (simp only: unat_byte) simp
  moreover have "le_nat (le_bytes k n) = n"
    using assms(3) by (simp add: le_nat_le_bytes)
  ultimately show ?thesis
    using assms(1,4,5) by (simp add: take_bytes_def)
qed

text \<open>
  A literal of up to 65536 bytes: its encoding decodes to it and costs, beyond the literal, at
  most one byte and a sixtieth of its length.
\<close>

lemma emit_literal_result:
  assumes len: "0 < len" "len \<le> 65536" and src: "lit + len \<le> length m"
    and room: "op + len + 3 \<le> length dst"
    and slack: "fast \<Longrightarrow> op + 17 \<le> length dst \<and> lit + 16 \<le> length m"
  obtains res bs where "emit_literal fast dst op m lit len = Some res" and "appended dst op bs res"
    and "\<And>out. snappy_decode bs out = Some (out @ take len (drop lit m))"
    and "60 * length bs \<le> 61 * len + 60"
proof -
  let ?n = "len - 1" and ?l = "take len (drop lit m)"
  have l: "length ?l = ?n + 1" "mem_read m lit len = Some ?l"
    using len src by (simp_all add: mem_read_def)
  show ?thesis
  proof (cases "fast \<and> len \<le> 16")
    case True
    obtain d1 where d1: "mem_write dst op [of_nat (?n * 4)] = Some d1"
      "appended dst op [of_nat (?n * 4)] (op + 1, d1)"
      by (rule write_all_appended [of op "[of_nat (?n * 4)]" dst]) (use room in simp_all)
    let ?t = "take 16 (drop lit m)"
    have "16 \<le> length m - lit" "lit + 16 \<le> length m" "len \<le> 16"
      using slack True by linarith+
    then have t: "length ?t = 16" "mem_read m lit 16 = Some ?t" "take len ?t = ?l"
      by (simp_all add: mem_read_def min_absorb1 min_absorb2)
    obtain d2 where d2: "mem_write d1 (op + 1) ?t = Some d2"
      "appended d1 (op + 1) (take len ?t) (op + 1 + len, d2)"
      by (rule write_appended [of "op + 1" ?t d1 len])
        (use t slack True d1(2) in \<open>simp_all add: appended_def\<close>)
    show ?thesis
    proof (rule that [of "(op + 1 + len, d2)" "of_nat (?n * 4) # ?l"])
      show "emit_literal fast dst op m lit len = Some (op + 1 + len, d2)"
        using True len d1(1) d2(1) t(2) by (simp add: emit_literal_def unaligned_copy128_def)
      show "appended dst op (of_nat (?n * 4) # ?l) (op + 1 + len, d2)"
        using appended_trans [OF d1(2) d2(2)] t(3) by simp
      show "snappy_decode (of_nat (?n * 4) # ?l) out = Some (out @ ?l)" for out
        by (rule decode_one [OF parse_literal_tag [OF _ l(1)]]) (use True in auto)
      show "60 * length (of_nat (?n * 4) # ?l) \<le> 61 * len + 60"
        using l(1) len by simp
    qed
  next
    case slow: False
    show ?thesis
    proof (cases "?n < 60")
      case True
      obtain d1 where d1: "mem_write dst op [of_nat (?n * 4)] = Some d1"
        "appended dst op [of_nat (?n * 4)] (op + 1, d1)"
        by (rule write_all_appended [of op "[of_nat (?n * 4)]" dst]) (use room in simp_all)
      obtain d2 where d2: "mem_write d1 (op + 1) ?l = Some d2"
        "appended d1 (op + 1) ?l (op + 1 + length ?l, d2)"
        by (rule write_all_appended [of "op + 1" ?l d1])
          (use l room d1(2) in \<open>simp_all add: appended_def\<close>)
      show ?thesis
      proof (rule that [of "(op + 1 + len, d2)" "of_nat (?n * 4) # ?l"])
        show "emit_literal fast dst op m lit len = Some (op + 1 + len, d2)"
          using slow True len d1(1) d2(1) l(2) by (auto simp: emit_literal_def)
        show "appended dst op (of_nat (?n * 4) # ?l) (op + 1 + len, d2)"
          using appended_trans [OF d1(2) d2(2)] l(1) len by simp
        show "snappy_decode (of_nat (?n * 4) # ?l) out = Some (out @ ?l)" for out
          by (rule decode_one [OF parse_literal_tag [OF True l(1)]]) simp
        show "60 * length (of_nat (?n * 4) # ?l) \<le> 61 * len + 60"
          using l(1) len by simp
      qed
    next
      case long: False
      obtain lg where lg: "log2_floor (of_nat ?n) = Some (int lg)" "2 ^ lg \<le> ?n" "?n < 2 ^ Suc lg"
        by (rule log2_floor_pos [of ?n]) (use long len in simp_all)
      let ?k = "lg div 8 + 1"
      have "(2 :: nat) ^ lg < 2 ^ 16"
        using lg(2) len by simp
      then have "lg < 16"
        by (simp only: power_strict_increasing_iff)
      then have k: "?k \<le> 2" "?k \<le> 1 \<or> 256 \<le> ?n"
      proof -
        show "?k \<le> 2"
          using \<open>lg < 16\<close> by simp
        show "?k \<le> 1 \<or> 256 \<le> ?n"
        proof (cases "lg < 8")
          case False
          then have "(2 :: nat) ^ 8 \<le> 2 ^ lg"
            by (intro power_increasing) simp_all
          with lg(2) show ?thesis
            by simp
        qed simp
      qed
      have "Suc lg \<le> 8 * ?k"
        by simp
      then have "(2 :: nat) ^ Suc lg \<le> 2 ^ (8 * ?k)"
        by (rule power_increasing) simp
      then have nk: "?n < 256 ^ ?k"
        using lg(3) by (simp only: power_mult) simp
      obtain d1 where d1: "mem_write dst op [of_nat ((59 + ?k) * 4)] = Some d1"
        "appended dst op [of_nat ((59 + ?k) * 4)] (op + 1, d1)"
        by (rule write_all_appended [of op "[of_nat ((59 + ?k) * 4)]" dst]) (use room in simp_all)
      obtain d2 where d2: "mem_write d1 (op + 1) (le_bytes 4 ?n) = Some d2"
        "appended d1 (op + 1) (take ?k (le_bytes 4 ?n)) (op + 1 + ?k, d2)"
        by (rule write_appended [of "op + 1" "le_bytes 4 ?n" d1 ?k])
          (use k(1) room long d1(2) in \<open>simp_all add: appended_def\<close>)
      have ld: "length d2 = length dst"
        using d1(2) d2(2) by (simp add: appended_def)
      obtain d3 where d3: "mem_write d2 (op + 1 + ?k) ?l = Some d3"
        "appended d2 (op + 1 + ?k) ?l (op + 1 + ?k + length ?l, d3)"
        by (rule write_all_appended [of "op + 1 + ?k" ?l d2]) (use l ld len room k(1) in simp_all)
      have small: "?n < 2 ^ 32" "?n + 1 < 2 ^ 32"
        using len by simp_all
      have st: "store32 d1 (op + 1) (of_nat ?n) = Some d2"
        using d2(1) by (simp only: store32_le_bytes [OF small(1)])
      show ?thesis
      proof (rule that [of "(op + 1 + ?k + len, d3)" "of_nat ((59 + ?k) * 4) # le_bytes ?k ?n @ ?l"])
        have "(fast \<and> len \<le> 16) = False" "(len = 0) = False" "(?n < 60) = False"
          "(int lg < 0 \<or> 4 < ?k) = False"
          using slow len long k(1) by simp_all
        then show "emit_literal fast dst op m lit len = Some (op + 1 + ?k + len, d3)"
          unfolding emit_literal_def Let_def
          by (simp only: lg(1) nat_int d1(1) st d3(1) l(2) bind.bind_lunit if_False prod.case)
        show "appended dst op (of_nat ((59 + ?k) * 4) # le_bytes ?k ?n @ ?l) (op + 1 + ?k + len, d3)"
          using appended_trans [OF appended_trans [OF d1(2) d2(2)] d3(2)] l(1) len k(1)
          by (simp add: le_bytes_take)
        show "snappy_decode (of_nat ((59 + ?k) * 4) # le_bytes ?k ?n @ ?l) out = Some (out @ ?l)" for out
          by (rule decode_one [OF parse_literal_long [OF _ _ nk small(2) l(1)]]) (use k in simp_all)
        have "length (of_nat ((59 + ?k) * 4) # le_bytes ?k ?n @ ?l) = 1 + ?k + len"
          using l(1) len by simp
        with k long show "60 * length (of_nat ((59 + ?k) * 4) # le_bytes ?k ?n @ ?l) \<le> 61 * len + 60"
          by linarith
      qed
    qed
  qed
qed

subsection \<open>Copies\<close>

lemma offset_high: "offset < 2048 \<Longrightarrow> (offset div 8 AND 0xe0) = 32 * (offset div 256 :: nat)"
proof -
  assume "offset < 2048"
  then have "offset div 8 < 2 ^ 8"
    by simp
  then have t: "take_bit 8 (offset div 8) = offset div 8"
    by (simp add: take_bit_nat_eq_self)
  have m: "(0xe0 :: nat) = push_bit 5 (mask 3)"
    by (simp add: mask_eq_exp_minus_1 push_bit_eq_mult)
  have "(offset div 8 AND 0xe0) = (take_bit 8 (offset div 8) AND push_bit 5 (mask 3))"
    by (simp only: t m)
  also have "\<dots> = push_bit 5 (drop_bit 5 (take_bit 8 (offset div 8)))"
    by (rule bit_eqI) (auto simp: bit_simps)
  also have "\<dots> = 32 * (offset div 8 div 32)"
    unfolding t by (simp add: push_bit_eq_mult drop_bit_eq_div)
  also have "offset div 8 div 32 = offset div 256"
    by (simp flip: div_mult2_eq)
  finally show ?thesis .
qed

lemma and_255: "(n :: nat) AND 0xff = n mod 256"
proof -
  have "n AND mask 8 = n mod 2 ^ 8"
    by (simp only: flip: take_bit_eq_mask take_bit_eq_mod)
  then show ?thesis
    by (simp add: mask_eq_exp_minus_1)
qed

lemma parse_copy1:
  assumes "4 \<le> len" "len < 12" "offset < 2048"
  shows "parse_element [of_nat (1 + (len - 4) * 4 + 32 * (offset div 256)), of_nat (offset mod 256)]
    = Some (Copy offset len, [])"
proof -
  obtain a h r where a: "len = a + 4" "a < 8" and h: "offset = 256 * h + r" "h < 8" "r < 256"
  proof (rule that [of "len - 4" "offset div 256" "offset mod 256"])
    show "offset div 256 < 8"
      using assms(3) by simp
  qed (use assms in simp_all)
  have e: "1 + (len - 4) * 4 + 32 * (offset div 256) = 1 + a * 4 + 32 * h" "offset mod 256 = r"
    using a h by simp_all
  have "unat (of_nat (1 + a * 4 + 32 * h) :: byte) = 1 + a * 4 + 32 * h" "unat (of_nat r :: byte) = r"
    using a h by (simp_all only: unat_byte) simp_all
  moreover have "(1 + a * 4 + 32 * h) mod 4 = 1" "(1 + a * 4 + 32 * h) div 32 = h"
    "(1 + a * 4 + 32 * h) div 4 mod 8 = a"
  proof -
    have y: "(1 + 4 * y) mod 4 = 1" "(1 + 4 * y) div 4 = y" "(1 + 4 * y) div 32 = y div 8" for y :: nat
      by presburger+
    have s: "1 + a * 4 + 32 * h = 1 + 4 * (a + 8 * h)"
      by simp
    show "(1 + a * 4 + 32 * h) mod 4 = 1" "(1 + a * 4 + 32 * h) div 32 = h"
      "(1 + a * 4 + 32 * h) div 4 mod 8 = a"
      unfolding s y using a by simp_all
  qed
  ultimately show ?thesis
    unfolding e parse_element.simps Let_def using a h by (simp add: take_bytes_def)
qed

lemma parse_copy2:
  assumes "0 < len" "len \<le> 64" "offset < 65536"
  shows "parse_element (le_bytes 3 (2 + (len - 1) * 4 + offset * 256)) = Some (Copy offset len, [])"
proof -
  obtain a where a: "len = a + 1" "a < 64"
    using assms(1,2) by (intro that [of "len - 1"]) simp_all
  let ?u = "2 + a * 4 + offset * 256"
  have "?u mod 256 = 2 + a * 4" "?u div 256 = offset"
    unfolding mod_mult_self1 using a div_mult_self1 [of 256 "2 + a * 4" offset] by simp_all
  then have b: "le_bytes 3 ?u = of_nat ?u # le_bytes 2 offset" "unat (of_nat ?u :: byte) = 2 + a * 4"
    using le_bytes_Suc [of 2 ?u] by (simp_all only: unat_byte) simp
  have "(2 + a * 4) mod 4 = 2" "(2 + a * 4) div 4 = a"
    by presburger+
  moreover have "le_nat (le_bytes 2 offset) = offset"
    using assms(3) by (simp add: le_nat_le_bytes)
  moreover have e: "2 + (len - 1) * 4 + offset * 256 = ?u"
    using a by simp
  ultimately show ?thesis
    unfolding e b(1) parse_element.simps Let_def b(2) using a by (simp add: take_bytes_def)
qed

lemma emit_copy_at_most64_result:
  assumes len: "4 \<le> len" "len \<le> 64" and off: "0 < offset" "offset < 65536"
    and room: "op + 4 \<le> length dst"
  obtains res bs where "emit_copy_at_most64 (len < 12) dst op offset len = Some res"
    and "appended dst op bs res" and "length bs \<le> 3"
    and "\<And>out. offset \<le> length out \<Longrightarrow> snappy_decode bs out = Some (lz_copy out offset len)"
proof (cases "len < 12 \<and> offset < 2048")
  case True
  let ?a = "of_nat (1 + (len - 4) * 4 + 32 * (offset div 256)) :: byte" and ?b = "of_nat (offset mod 256) :: byte"
  obtain d1 where d1: "mem_write dst op [?a] = Some d1" "appended dst op [?a] (op + 1, d1)"
    by (rule write_all_appended [of op "[?a]" dst]) (use room in simp_all)
  obtain d2 where d2: "mem_write d1 (op + 1) [?b] = Some d2" "appended d1 (op + 1) [?b] (op + 2, d2)"
    by (rule write_all_appended [of "op + 1" "[?b]" d1]) (use room d1(2) in \<open>simp_all add: appended_def\<close>)
  show ?thesis
  proof (rule that [of "(op + 2, d2)" "[?a, ?b]"])
    have "(\<not> (4 \<le> len \<and> len \<le> 64 \<and> offset < 65536 \<and> (len < 12) = (len < 12))) = False"
      "(len < 12 \<and> offset < 2048) = True"
      using True len off by simp_all
    then show "emit_copy_at_most64 (len < 12) dst op offset len = Some (op + 2, d2)"
      unfolding emit_copy_at_most64_def
      using True by (simp only: offset_high and_255 d1(1) d2(1) if_False if_True bind.bind_lunit)
    show "appended dst op [?a, ?b] (op + 2, d2)"
      using appended_trans [OF d1(2) d2(2)] by simp
    show "snappy_decode [?a, ?b] out = Some (lz_copy out offset len)" if "offset \<le> length out" for out
      by (rule decode_one [OF parse_copy1]) (use True len off that in simp_all)
  qed simp
next
  case False
  let ?u = "2 + (len - 1) * 4 + offset * 256"
  have u: "?u < 2 ^ 32"
    using len off by simp
  obtain d1 where d1: "mem_write dst op (le_bytes 4 ?u) = Some d1"
    "appended dst op (take 3 (le_bytes 4 ?u)) (op + 3, d1)"
    by (rule write_appended [of op "le_bytes 4 ?u" dst 3]) (use room in simp_all)
  show ?thesis
  proof (rule that [of "(op + 3, d1)" "le_bytes 3 ?u"])
    have "(\<not> (4 \<le> len \<and> len \<le> 64 \<and> offset < 65536 \<and> (len < 12) = (len < 12))) = False"
      "(len < 12 \<and> offset < 2048) = False"
      using False len off by simp_all
    then show "emit_copy_at_most64 (len < 12) dst op offset len = Some (op + 3, d1)"
      unfolding emit_copy_at_most64_def
      by (simp only: store32_le_bytes [OF u] d1(1) if_False bind.bind_lunit)
    show "appended dst op (le_bytes 3 ?u) (op + 3, d1)"
      using d1(2) by (simp add: le_bytes_take)
    show "snappy_decode (le_bytes 3 ?u) out = Some (lz_copy out offset len)" if "offset \<le> length out" for out
      by (rule decode_one [OF parse_copy2]) (use len off that in simp_all)
  qed simp
qed

lemma emit_copies64_result:
  assumes "4 \<le> len" "0 < offset" "offset < 65536" "op + len \<le> length dst"
  obtains op' dst' len' bs where "emit_copies64 dst op offset len = Some (op', dst', len')"
    and "appended dst op bs (op', dst')" and "4 \<le> len'" "len' < 68" "len' \<le> len"
    and "length bs + len' \<le> len"
    and "\<And>out. offset \<le> length out \<Longrightarrow> snappy_decode bs out = Some (lz_copy out offset (len - len'))"
    and "12 \<le> len \<Longrightarrow> len' < 12 \<Longrightarrow> 68 \<le> len"
  using assms
proof (induction dst op offset len arbitrary: thesis rule: emit_copies64.induct)
  case (1 dst op offset len)
  show thesis
  proof (cases "68 \<le> len")
    case False
    show thesis
      by (rule "1.prems"(1) [of op dst len "[]"])
        (use "1.prems"(2-) False in \<open>simp_all add: emit_copies64.simps [of dst] appended_Nil\<close>)
  next
    case True
    obtain res bs where e: "emit_copy_at_most64 ((64 :: nat) < 12) dst op offset 64 = Some res"
      "appended dst op bs res" "length bs \<le> 3"
      "\<And>out. offset \<le> length out \<Longrightarrow> snappy_decode bs out = Some (lz_copy out offset 64)"
      by (rule emit_copy_at_most64_result [of 64 offset op dst]) (use "1.prems"(2-) True in simp_all)
    obtain op1 dst1 where res: "res = (op1, dst1)"
      by (cases res)
    have e1: "emit_copy_at_most64 False dst op offset 64 = Some (op1, dst1)"
      using e(1) by (simp add: res)
    have ap: "op1 \<le> op + 3" "length dst1 = length dst"
      using e(2,3) by (simp_all add: res appended_def)
    show thesis
    proof (rule "1.IH" [OF True e1 refl])
      fix op' dst' len' bs'
      assume r: "emit_copies64 dst1 op1 offset (len - 64) = Some (op', dst', len')"
        "appended dst1 op1 bs' (op', dst')" "4 \<le> len'" "len' < 68" "len' \<le> len - 64"
        "length bs' + len' \<le> len - 64"
        "\<And>out. offset \<le> length out \<Longrightarrow>
          snappy_decode bs' out = Some (lz_copy out offset (len - 64 - len'))"
      show thesis
      proof (rule "1.prems"(1) [of op' dst' len' "bs @ bs'"])
        show "emit_copies64 dst op offset len = Some (op', dst', len')"
          using True e1 r(1) by (simp add: emit_copies64.simps [of dst])
        show "appended dst op (bs @ bs') (op', dst')"
          using appended_trans e(2) r(2) unfolding res by blast
        have split: "64 + (len - (64 + len')) = len - len'"
          using r(5) True by simp
        show "snappy_decode (bs @ bs') out = Some (lz_copy out offset (len - len'))"
          if "offset \<le> length out" for out
          using snappy_decode_append [OF e(4) [OF that], of bs'] r(7) [of "lz_copy out offset 64"] that
          by (simp add: lz_copy_add split)
      qed (use r e(3) True in simp_all)
    qed (use "1.prems"(3-) True ap in simp_all)
  qed
qed

text \<open>
  A copy of at least four bytes: its elements decode to it and take up fewer bytes than the copy.
\<close>

lemma emit_copy_result:
  assumes len: "4 \<le> len" and off: "0 < offset" "offset < 65536" and room: "op + len \<le> length dst"
  obtains res bs where "emit_copy (len < 12) dst op offset len = Some res"
    and "appended dst op bs res" and "length bs < len"
    and "\<And>out. offset \<le> length out \<Longrightarrow> snappy_decode bs out = Some (lz_copy out offset len)"
proof (cases "len < 12")
  case True
  obtain res bs where "emit_copy_at_most64 (len < 12) dst op offset len = Some res"
    "appended dst op bs res" "length bs \<le> 3"
    "\<And>out. offset \<le> length out \<Longrightarrow> snappy_decode bs out = Some (lz_copy out offset len)"
    by (rule emit_copy_at_most64_result [OF len _ off]) (use True room len in auto)
  with True len show ?thesis
    by (intro that [of res bs]) (simp_all add: emit_copy_def)
next
  case False
  obtain op1 d1 l1 b1 where 1: "emit_copies64 dst op offset len = Some (op1, d1, l1)"
    "appended dst op b1 (op1, d1)" "4 \<le> l1" "l1 < 68" "l1 \<le> len" "length b1 + l1 \<le> len"
    "\<And>out. offset \<le> length out \<Longrightarrow> snappy_decode b1 out = Some (lz_copy out offset (len - l1))"
    by (rule emit_copies64_result [OF len off room]) blast
  have o1: "op1 = op + length b1" "length d1 = length dst"
    using 1(2) by (simp_all add: appended_def)
  have "\<exists>op2 d2 l2 b2. (if 64 < l1 then do {
        (op, dst) \<leftarrow> emit_copy_at_most64 False d1 op1 offset 60;
        Some (op, dst, l1 - 60) }
      else Some (op1, d1, l1)) = Some (op2, d2, l2) \<and> appended d1 op1 b2 (op2, d2) \<and>
    4 \<le> l2 \<and> l2 \<le> 64 \<and> l2 \<le> l1 \<and> length b2 + l2 \<le> l1 \<and>
    (\<forall>out. offset \<le> length out \<longrightarrow> snappy_decode b2 out = Some (lz_copy out offset (l1 - l2)))"
  proof (cases "64 < l1")
    case True
    obtain res bs where e: "emit_copy_at_most64 ((60 :: nat) < 12) d1 op1 offset 60 = Some res"
      "appended d1 op1 bs res" "length bs \<le> 3"
      "\<And>out. offset \<le> length out \<Longrightarrow> snappy_decode bs out = Some (lz_copy out offset 60)"
      by (rule emit_copy_at_most64_result [of 60 offset op1 d1]) (use off True o1 1 room in simp_all)
    with True 1(4) show ?thesis
      by (cases res) (intro exI [of _ "fst res"] exI [of _ "snd res"] exI [of _ "l1 - 60"] exI [of _ bs], auto)
  next
    case False
    have "op1 \<le> length d1"
      using o1 1 room by simp
    with False 1(3) show ?thesis
      by (intro exI [of _ op1] exI [of _ d1] exI [of _ l1] exI [of _ "[]"]) (simp add: appended_Nil)
  qed
  then obtain op2 d2 l2 b2 where 2: "(if 64 < l1 then do {
        (op, dst) \<leftarrow> emit_copy_at_most64 False d1 op1 offset 60;
        Some (op, dst, l1 - 60) }
      else Some (op1, d1, l1)) = Some (op2, d2, l2)" "appended d1 op1 b2 (op2, d2)"
    "4 \<le> l2" "l2 \<le> 64" "l2 \<le> l1" "length b2 + l2 \<le> l1"
    "\<And>out. offset \<le> length out \<Longrightarrow> snappy_decode b2 out = Some (lz_copy out offset (l1 - l2))"
    by blast
  have o2: "op2 = op1 + length b2" "length d2 = length dst"
    using 2(2) o1 by (simp_all add: appended_def)
  obtain res b3 where 3: "emit_copy_at_most64 (l2 < 12) d2 op2 offset l2 = Some res"
    "appended d2 op2 b3 res" "length b3 \<le> 3"
    "\<And>out. offset \<le> length out \<Longrightarrow> snappy_decode b3 out = Some (lz_copy out offset l2)"
    by (rule emit_copy_at_most64_result [OF 2(3,4) off, of op2 d2]) (use o1 o2 1(6) 2(3,6) room in simp_all)
  show ?thesis
  proof (rule that [of res "(b1 @ b2) @ b3"])
    show "emit_copy (len < 12) dst op offset len = Some res"
      unfolding emit_copy_def using False
      by (simp add: 1(1) 2(1) 3(1) del: if_split)
    show "appended dst op ((b1 @ b2) @ b3) res"
      using appended_trans [OF appended_trans [OF 1(2) 2(2)] 3(2)] .
    show "length ((b1 @ b2) @ b3) < len"
      using 1(6) 2(3,6) 3(3) by simp
    have split: "len - l1 + (l1 - l2) + l2 = len"
      using 1(5) 2(5) by simp
    show "snappy_decode ((b1 @ b2) @ b3) out = Some (lz_copy out offset len)"
      if "offset \<le> length out" for out
    proof -
      have "snappy_decode (b1 @ b2) out = Some (lz_copy out offset (len - l1 + (l1 - l2)))"
        using snappy_decode_append [OF 1(7) [OF that], of b2]
          2(7) [of "lz_copy out offset (len - l1)"] that by (simp add: lz_copy_add)
      from snappy_decode_append [OF this, of b3]
        3(4) [of "lz_copy out offset (len - l1 + (l1 - l2))"] that show ?thesis
        by (simp add: lz_copy_add split)
    qed
  qed
qed

end
