(* ===== verification/Snappy_Match.thy ===== *)
theory Snappy_Match
  imports Snappy_Emit
begin

section \<open>Snappy: the length of a match\<close>

text \<open>
  FindMatchLength of depends/snappy/snappy-internal.h, the version for 64-bit little-endian
  machines. \<open>s1\<close>, \<open>s2\<close> and \<open>s2_limit\<close> are positions in the input. It compares eight bytes at a time
  and finds the first difference inside a block from the lowest bit of the exclusive or.
\<close>

function match_words ::
  "byte list \<Rightarrow> nat \<Rightarrow> nat \<Rightarrow> nat \<Rightarrow> nat \<Rightarrow> (nat + nat \<times> nat) option" where
  "match_words m s1 s2 s2_limit matched =
     (if s2 + 8 \<le> s2_limit then do {
        x \<leftarrow> load64 m s2;
        y \<leftarrow> load64 m (s1 + matched);
        if x = y then match_words m s1 (s2 + 8) s2_limit (matched + 8)
        else if matched + find_lsb64 (x XOR y) div 8 < 8 then None
        else Some (Inl (matched + find_lsb64 (x XOR y) div 8)) }
      else Some (Inr (s2, matched)))"
  by pat_completeness auto
termination
  by (relation "measure (\<lambda>(m, s1, s2, s2_limit, matched). s2_limit - s2)") auto

function match_bytes :: "byte list \<Rightarrow> nat \<Rightarrow> nat \<Rightarrow> nat \<Rightarrow> nat \<Rightarrow> nat option" where
  "match_bytes m s1 s2 s2_limit matched =
     (if s2 < s2_limit then do {
        x \<leftarrow> mem_read m (s1 + matched) 1;
        y \<leftarrow> mem_read m s2 1;
        if x = y then match_bytes m s1 (s2 + 1) s2_limit (matched + 1)
        else Some matched }
      else Some matched)"
  by pat_completeness auto
termination
  by (relation "measure (\<lambda>(m, s1, s2, s2_limit, matched). s2_limit - s2)") auto

declare match_words.simps [simp del] match_bytes.simps [simp del]

definition match_from :: "byte list \<Rightarrow> nat \<Rightarrow> nat \<Rightarrow> nat \<Rightarrow> nat \<Rightarrow> (nat \<times> bool) option" where
  "match_from m s1 s2 s2_limit matched = do {
     res \<leftarrow> match_words m s1 s2 s2_limit matched;
     case res of
       Inl n \<Rightarrow> Some (n, False)
     | Inr (s2, matched) \<Rightarrow> do {
         n \<leftarrow> match_bytes m s1 s2 s2_limit matched;
         Some (n, n < 8) } }"

definition find_match_length :: "byte list \<Rightarrow> nat \<Rightarrow> nat \<Rightarrow> nat \<Rightarrow> (nat \<times> bool) option" where
  "find_match_length m s1 s2 s2_limit =
     (if s2_limit < s2 then None
      else if s2 + 8 \<le> s2_limit then do {
        a1 \<leftarrow> load64 m s1;
        a2 \<leftarrow> load64 m s2;
        if a1 \<noteq> a2 then Some (find_lsb64 (a1 XOR a2) div 8, True)
        else match_from m s1 (s2 + 8) s2_limit 8 }
      else match_from m s1 s2 s2_limit 0)"

text \<open>\<open>n\<close> is the largest number of equal bytes at \<open>s1\<close> and \<open>s2\<close> that ends by the limit.\<close>

definition longest_match :: "byte list \<Rightarrow> nat \<Rightarrow> nat \<Rightarrow> nat \<Rightarrow> nat \<Rightarrow> bool" where
  "longest_match m s1 s2 lim n \<longleftrightarrow>
     s2 + n \<le> lim \<and> (\<forall>k < n. m ! (s1 + k) = m ! (s2 + k)) \<and>
     (s2 + n < lim \<longrightarrow> m ! (s1 + n) \<noteq> m ! (s2 + n))"

lemma block_difference:
  assumes len: "length a = 8" "length b = 8" and ne: "le_word a \<noteq> (le_word b :: u64)"
  obtains k where "find_lsb64 (le_word a XOR le_word b) div 8 = k" and "k < 8"
    and "a ! k \<noteq> b ! k" and "\<And>j. j < k \<Longrightarrow> a ! j = b ! j"
proof -
  let ?x = "le_word a XOR le_word b :: u64"
  have bits: "bit ?x i \<longleftrightarrow> i < 64 \<and> bit (a ! (i div 8)) (i mod 8) \<noteq> bit (b ! (i div 8)) (i mod 8)" for i
    using len by (auto simp: bit_xor_iff le_word_bit)
  have "?x \<noteq> 0"
  proof
    assume "?x = 0"
    then have "le_word a XOR ?x = (le_word a :: u64)"
      by simp
    then show False
      using ne by (simp flip: xor.assoc)
  qed
  then obtain l where l: "lowest_bit ?x l" "l < 64"
    by (rule lowest_bit_exists) simp
  show ?thesis
  proof (rule that [of "l div 8"])
    show "find_lsb64 ?x div 8 = l div 8"
      using find_lsb64_spec [OF l] by simp
    show "l div 8 < 8"
      using l(2) by simp
    show "a ! (l div 8) \<noteq> b ! (l div 8)"
      using l(1) bits [of l] by (auto simp: lowest_bit_def)
    show "a ! j = b ! j" if "j < l div 8" for j
    proof (rule bit_word_eqI)
      fix n assume "n < LENGTH(8)"
      then have n: "(8 * j + n) div 8 = j" "(8 * j + n) mod 8 = n" "8 * j + n < l"
        using that by simp_all
      then have "\<not> bit ?x (8 * j + n)"
        using l(1) by (simp add: lowest_bit_def)
      with bits [of "8 * j + n"] n l(2) show "bit (a ! j) n = bit (b ! j) n"
        by simp
    qed
  qed
qed

text \<open>One block of eight bytes: equal loads are equal bytes, different ones differ where computed.\<close>

lemma block_compare:
  assumes "p + 8 \<le> length m" and "q + 8 \<le> length m"
  obtains x y where "load64 m p = Some x" and "load64 m q = Some y"
    and "x = y \<Longrightarrow> \<forall>k < 8. m ! (p + k) = m ! (q + k)"
    and "x \<noteq> y \<Longrightarrow> find_lsb64 (x XOR y) div 8 < 8 \<and>
      m ! (p + find_lsb64 (x XOR y) div 8) \<noteq> m ! (q + find_lsb64 (x XOR y) div 8) \<and>
      (\<forall>k < find_lsb64 (x XOR y) div 8. m ! (p + k) = m ! (q + k))"
proof -
  let ?a = "take 8 (drop p m)" and ?b = "take 8 (drop q m)"
  have len: "length ?a = 8" "length ?b = 8"
    using assms by simp_all
  have nth: "?a ! k = m ! (p + k)" "?b ! k = m ! (q + k)" if "k < 8" for k
    using that assms by simp_all
  show ?thesis
  proof (rule that)
    show "load64 m p = Some (le_word ?a)" "load64 m q = Some (le_word ?b)"
      using assms by (simp_all add: load64_def mem_read_def)
    show "\<forall>k < 8. m ! (p + k) = m ! (q + k)" if "(le_word ?a :: u64) = le_word ?b"
    proof -
      have "?a = ?b"
        by (rule le_word_inj [OF _ _ that]) (use len in simp_all)
      then show ?thesis
        using nth by metis
    qed
    show "find_lsb64 (le_word ?a XOR le_word ?b) div 8 < 8 \<and>
      m ! (p + find_lsb64 (le_word ?a XOR le_word ?b) div 8)
        \<noteq> m ! (q + find_lsb64 (le_word ?a XOR le_word ?b) div 8) \<and>
      (\<forall>k < find_lsb64 (le_word ?a XOR le_word ?b) div 8. m ! (p + k) = m ! (q + k))"
      if ne: "(le_word ?a :: u64) \<noteq> le_word ?b"
    proof -
      obtain k where k: "find_lsb64 (le_word ?a XOR le_word ?b) div 8 = k" "k < 8"
        "?a ! k \<noteq> ?b ! k" "\<And>j. j < k \<Longrightarrow> ?a ! j = ?b ! j"
        by (rule block_difference [OF len ne]) blast
      from k(3) nth [OF k(2)] have "m ! (p + k) \<noteq> m ! (q + k)"
        by simp
      moreover have "m ! (p + j) = m ! (q + j)" if "j < k" for j
        using k(4) [OF that] nth [of j] that k(2) by simp
      ultimately show ?thesis
        unfolding k(1) using k(2) by blast
    qed
  qed
qed

lemma match_bytes_result:
  assumes "s1 < s2" "s2 + matched \<le> lim" "lim \<le> length m"
    and "\<forall>k < matched. m ! (s1 + k) = m ! (s2 + k)"
  shows "\<exists>n. match_bytes m s1 (s2 + matched) lim matched = Some n \<and> longest_match m s1 s2 lim n \<and>
    matched \<le> n"
  using assms
proof (induction "lim - matched" arbitrary: matched rule: less_induct)
  case less
  show ?case
  proof (cases "s2 + matched < lim")
    case False
    with less.prems show ?thesis
      by (intro exI [of _ matched]) (simp add: match_bytes.simps [of m] longest_match_def)
  next
    case True
    have r: "mem_read m (s1 + matched) 1 = Some [m ! (s1 + matched)]"
      "mem_read m (s2 + matched) 1 = Some [m ! (s2 + matched)]"
      using True less.prems by (simp_all add: mem_read_def take_Suc hd_drop_conv_nth)
    show ?thesis
    proof (cases "m ! (s1 + matched) = m ! (s2 + matched)")
      case eq: True
      have "match_bytes m s1 (s2 + matched) lim matched
          = match_bytes m s1 (s2 + (matched + 1)) lim (matched + 1)"
        using True r eq by (subst match_bytes.simps) simp
      moreover have "\<exists>n. match_bytes m s1 (s2 + (matched + 1)) lim (matched + 1) = Some n \<and>
          longest_match m s1 s2 lim n \<and> matched + 1 \<le> n"
        by (rule less.hyps) (use True less.prems eq in \<open>auto simp: less_Suc_eq\<close>)
      ultimately show ?thesis
        by auto
    next
      case False
      have "match_bytes m s1 (s2 + matched) lim matched = Some matched"
        using True r False by (subst match_bytes.simps) simp
      with True False less.prems show ?thesis
        by (simp add: longest_match_def)
    qed
  qed
qed

lemma match_words_result:
  assumes "s1 < s2" "s2 + matched \<le> lim" "lim \<le> length m" "8 \<le> matched \<or> lim < s2 + 8"
    and "\<forall>k < matched. m ! (s1 + k) = m ! (s2 + k)"
  shows "\<exists>n. match_from m s1 (s2 + matched) lim matched = Some (n, n < 8) \<and>
    longest_match m s1 s2 lim n \<and> matched \<le> n"
  using assms
proof (induction "lim - matched" arbitrary: matched rule: less_induct)
  case less
  show ?case
  proof (cases "s2 + matched + 8 \<le> lim")
    case False
    then have "match_words m s1 (s2 + matched) lim matched = Some (Inr (s2 + matched, matched))"
      by (simp add: match_words.simps [of m])
    with match_bytes_result [OF less.prems(1-3,5)] show ?thesis
      by (auto simp: match_from_def)
  next
    case True
    obtain x y where b: "load64 m (s2 + matched) = Some x" "load64 m (s1 + matched) = Some y"
      "x = y \<Longrightarrow> \<forall>k < 8. m ! (s2 + matched + k) = m ! (s1 + matched + k)"
      "x \<noteq> y \<Longrightarrow> find_lsb64 (x XOR y) div 8 < 8 \<and>
        m ! (s2 + matched + find_lsb64 (x XOR y) div 8)
          \<noteq> m ! (s1 + matched + find_lsb64 (x XOR y) div 8) \<and>
        (\<forall>k < find_lsb64 (x XOR y) div 8. m ! (s2 + matched + k) = m ! (s1 + matched + k))"
      by (rule block_compare [of "s2 + matched" m "s1 + matched"]) (use True less.prems in auto)
    show ?thesis
    proof (cases "x = y")
      case eq: True
      have "match_words m s1 (s2 + matched) lim matched
          = match_words m s1 (s2 + (matched + 8)) lim (matched + 8)"
        using True b(1,2) eq by (subst match_words.simps) (simp add: add.assoc)
      then have step: "match_from m s1 (s2 + matched) lim matched
          = match_from m s1 (s2 + (matched + 8)) lim (matched + 8)"
        by (simp add: match_from_def)
      have "m ! (s1 + k) = m ! (s2 + k)" if "k < matched + 8" for k
      proof (cases "k < matched")
        case True
        with less.prems(5) show ?thesis
          by blast
      next
        case False
        have "m ! (s2 + matched + (k - matched)) = m ! (s1 + matched + (k - matched))"
          using b(3) [OF eq] that False by (metis add.commute less_diff_conv2 not_le)
        with False show ?thesis
          by simp
      qed
      then have "\<exists>n. match_from m s1 (s2 + (matched + 8)) lim (matched + 8) = Some (n, n < 8) \<and>
          longest_match m s1 s2 lim n \<and> matched + 8 \<le> n"
        by (intro less.hyps) (use True less.prems in auto)
      with step show ?thesis
        by auto
    next
      case False
      obtain f where f: "f = find_lsb64 (x XOR y) div 8"
        by blast
      from b(4) [OF False] have d: "f < 8" "m ! (s2 + matched + f) \<noteq> m ! (s1 + matched + f)"
        "\<And>k. k < f \<Longrightarrow> m ! (s2 + matched + k) = m ! (s1 + matched + k)"
        unfolding f by blast+
      have "8 \<le> matched"
        using less.prems(4) True by simp
      then have "match_words m s1 (s2 + matched) lim matched = Some (Inl (matched + f))"
        using True b(1,2) False by (subst match_words.simps) (simp add: f)
      then have "match_from m s1 (s2 + matched) lim matched = Some (matched + f, matched + f < 8)"
        using \<open>8 \<le> matched\<close> by (simp add: match_from_def)
      moreover have "m ! (s1 + k) = m ! (s2 + k)" if "k < matched + f" for k
      proof (cases "k < matched")
        case True
        with less.prems(5) show ?thesis
          by blast
      next
        case False
        with that d(3) [of "k - matched"] show ?thesis
          by simp
      qed
      moreover have "m ! (s1 + (matched + f)) \<noteq> m ! (s2 + (matched + f))"
        using d(2) by (simp add: add.assoc)
      ultimately show ?thesis
        using True d(1) by (intro exI [of _ "matched + f"]) (simp add: longest_match_def)
    qed
  qed
qed

lemma find_match_length_result:
  assumes "s1 < s2" "s2 \<le> lim" "lim \<le> length m"
  shows "\<exists>n. find_match_length m s1 s2 lim = Some (n, n < 8) \<and> longest_match m s1 s2 lim n"
proof (cases "s2 + 8 \<le> lim")
  case False
  with match_words_result [of s1 s2 0 lim m] assms show ?thesis
    by (auto simp: find_match_length_def)
next
  case True
  obtain x y where b: "load64 m s1 = Some x" "load64 m s2 = Some y"
    "x = y \<Longrightarrow> \<forall>k < 8. m ! (s1 + k) = m ! (s2 + k)"
    "x \<noteq> y \<Longrightarrow> find_lsb64 (x XOR y) div 8 < 8 \<and>
      m ! (s1 + find_lsb64 (x XOR y) div 8) \<noteq> m ! (s2 + find_lsb64 (x XOR y) div 8) \<and>
      (\<forall>k < find_lsb64 (x XOR y) div 8. m ! (s1 + k) = m ! (s2 + k))"
    by (rule block_compare [of s1 m s2]) (use True assms in auto)
  show ?thesis
  proof (cases "x = y")
    case eq: True
    then have "find_match_length m s1 s2 lim = match_from m s1 (s2 + 8) lim 8"
      using True b(1,2) by (simp add: find_match_length_def)
    with match_words_result [of s1 s2 8 lim m] b(3) [OF eq] True assms show ?thesis
      by auto
  next
    case False
    have "find_match_length m s1 s2 lim
        = Some (find_lsb64 (x XOR y) div 8, find_lsb64 (x XOR y) div 8 < 8)"
      using True b(1,2) b(4) [OF False] False by (simp add: find_match_length_def)
    moreover have "longest_match m s1 s2 lim (find_lsb64 (x XOR y) div 8)"
      unfolding longest_match_def using b(4) [OF False] True by auto
    ultimately show ?thesis
      by blast
  qed
qed

text \<open>
  C40: FindMatchLength returns the largest number of bytes for which the input at \<open>s1\<close> and at
  \<open>s2\<close> agrees before the limit, and whether it is below eight, whichever of its three loops
  finds the difference, and reads nothing at or behind the limit: the input may end there.
\<close>

theorem find_match_length_largest:
  assumes "s1 < s2" and "s2 \<le> lim" and "lim = length m"
  shows "\<exists>n. find_match_length m s1 s2 lim = Some (n, n < 8) \<and> s2 + n \<le> lim \<and>
    take n (drop s1 m) = take n (drop s2 m) \<and> (s2 + n < lim \<longrightarrow> m ! (s1 + n) \<noteq> m ! (s2 + n))"
proof -
  obtain n where n: "find_match_length m s1 s2 lim = Some (n, n < 8)" "longest_match m s1 s2 lim n"
    using find_match_length_result [OF assms(1,2)] assms(3) by blast
  have "take n (drop s1 m) = take n (drop s2 m)"
    using n(2) assms by (intro nth_equalityI) (auto simp: longest_match_def)
  with n show ?thesis
    by (auto simp: longest_match_def)
qed

theorem find_match_length_largest_witness:
  "\<exists>n. find_match_length (replicate 30 7 @ [1]) 1 3 31 = Some (n, n < 8) \<and> 3 + n \<le> 31 \<and>
    take n (drop 1 (replicate 30 (7 :: byte) @ [1])) = take n (drop 3 (replicate 30 7 @ [1])) \<and>
    (3 + n < 31 \<longrightarrow> (replicate 30 7 @ [1]) ! (1 + n) \<noteq> (replicate 30 (7 :: byte) @ [1]) ! (3 + n))"
  by (rule find_match_length_largest) simp_all

end
