(* ===== verification/Snappy_Fragment.thy ===== *)
theory Snappy_Fragment
  imports Snappy_Match
begin

section \<open>Snappy: compressing one fragment\<close>

text \<open>
  CompressFragment of depends/snappy/snappy.cc with its three loops: the scan for a four-byte
  match, the run of copies that follow a match, and the outer loop around both. Pointers into
  the input are positions from \<open>base_ip\<close>; the table holds positions of 16 bits. A failed
  assertion, an access outside the input, the table or the output and a loop that does not
  end are \<open>None\<close>.
\<close>

definition table_get :: "u16 list \<Rightarrow> u32 \<Rightarrow> nat option" where
  "table_get table h = (if unat h < length table then Some (unat (table ! unat h)) else None)"

definition table_set :: "u16 list \<Rightarrow> u32 \<Rightarrow> nat \<Rightarrow> u16 list option" where
  "table_set table h p =
     (if unat h < length table then Some (table[unat h := of_nat p]) else None)"

definition get_uint32_at_offset :: "u64 \<Rightarrow> nat \<Rightarrow> u32" where
  "get_uint32_at_offset v offset = ucast (drop_bit (8 * offset) v)"

text \<open>Step 1: \<open>Inl\<close> is the goto to emit_remainder, \<open>Inr\<close> a match of \<open>ip\<close> with \<open>candidate\<close>.\<close>

partial_function (option) scan_loop ::
  "byte list \<Rightarrow> nat \<Rightarrow> nat \<Rightarrow> u16 list \<Rightarrow> nat \<Rightarrow> nat \<Rightarrow> u32 \<Rightarrow> (unit + nat \<times> nat \<times> u16 list) option" where [code]:
  "scan_loop m shift ip_limit table skip ip hash = do {
     h \<leftarrow> hash_at m ip shift;
     if hash \<noteq> h then None
     else
       let bytes_between_hash_lookups = skip div 32;
         skip = skip + bytes_between_hash_lookups;
         next_ip = ip + bytes_between_hash_lookups in
       if ip_limit < next_ip then Some (Inl ())
       else do {
         next_hash \<leftarrow> hash_at m next_ip shift;
         candidate \<leftarrow> table_get table hash;
         if ip \<le> candidate then None
         else do {
           table \<leftarrow> table_set table hash ip;
           a \<leftarrow> load32 m ip;
           b \<leftarrow> load32 m candidate;
           if a \<noteq> b then scan_loop m shift ip_limit table skip next_ip next_hash
           else Some (Inr (ip, candidate, table)) } } }"

text \<open>
  Step 3: \<open>Inl\<close> is the goto to emit_remainder with \<open>next_emit\<close>, \<open>Inr\<close> the normal exit with the
  eight input bytes from \<open>ip - 1\<close>.
\<close>

partial_function (option) copy_loop ::
  "byte list \<Rightarrow> nat \<Rightarrow> nat \<Rightarrow> nat \<Rightarrow> u16 list \<Rightarrow> byte list \<Rightarrow> nat \<Rightarrow> nat \<Rightarrow> nat \<Rightarrow>
   (byte list \<times> nat \<times> nat + u16 list \<times> byte list \<times> nat \<times> nat \<times> u64) option" where [code]:
  "copy_loop m shift ip_end ip_limit table dst op ip candidate = do {
     let base = ip;
     (n, less8) \<leftarrow> find_match_length m (candidate + 4) (ip + 4) ip_end;
     let matched = 4 + n;
     let ip = ip + matched;
     let offset = base - candidate;
     x \<leftarrow> mem_read m base matched;
     y \<leftarrow> mem_read m candidate matched;
     if x \<noteq> y then None
     else do {
       (op, dst) \<leftarrow> emit_copy less8 dst op offset matched;
       if ip_limit \<le> ip then Some (Inl (dst, op, ip))
       else do {
         input_bytes \<leftarrow> load64 m (ip - 1);
         let prev_hash = hash_bytes (get_uint32_at_offset input_bytes 0) shift;
         table \<leftarrow> table_set table prev_hash (ip - 1);
         let cur_hash = hash_bytes (get_uint32_at_offset input_bytes 1) shift;
         candidate \<leftarrow> table_get table cur_hash;
         candidate_bytes \<leftarrow> load32 m candidate;
         table \<leftarrow> table_set table cur_hash ip;
         if get_uint32_at_offset input_bytes 1 = candidate_bytes
         then copy_loop m shift ip_end ip_limit table dst op ip candidate
         else Some (Inr (table, dst, op, ip, input_bytes)) } } }"

text \<open>The outer loop; its result is what emit_remainder starts from.\<close>

partial_function (option) fragment_loop ::
  "byte list \<Rightarrow> nat \<Rightarrow> nat \<Rightarrow> nat \<Rightarrow> u16 list \<Rightarrow> byte list \<Rightarrow> nat \<Rightarrow> nat \<Rightarrow> nat \<Rightarrow> u32 \<Rightarrow>
   (byte list \<times> nat \<times> nat) option" where [code]:
  "fragment_loop m shift ip_end ip_limit table dst op next_emit ip next_hash =
     (if ip \<le> next_emit then None
      else do {
        res \<leftarrow> scan_loop m shift ip_limit table 32 ip next_hash;
        case res of
          Inl u \<Rightarrow> Some (dst, op, next_emit)
        | Inr (ip, candidate, table) \<Rightarrow>
            if ip_end < next_emit + 16 then None
            else do {
              (op, dst) \<leftarrow> emit_literal True dst op m next_emit (ip - next_emit);
              res \<leftarrow> copy_loop m shift ip_end ip_limit table dst op ip candidate;
              case res of
                Inl x \<Rightarrow> Some x
              | Inr (table, dst, op, ip, input_bytes) \<Rightarrow>
                  fragment_loop m shift ip_end ip_limit table dst op ip (ip + 1)
                    (hash_bytes (get_uint32_at_offset input_bytes 2) shift) } })"

definition compress_fragment ::
  "byte list \<Rightarrow> byte list \<Rightarrow> nat \<Rightarrow> u16 list \<Rightarrow> nat \<Rightarrow> (nat \<times> byte list) option" where
  "compress_fragment m dst op table table_size =
     (let input_size = length m in
      if 65536 < input_size \<or> table_size AND (table_size - 1) \<noteq> 0 then None
      else do {
        l \<leftarrow> log2_floor (of_nat table_size);
        let shift = nat (32 - l);
        if unat (drop_bit shift (0xffffffff :: u32)) \<noteq> table_size - 1 then None
        else do {
          (dst, op, next_emit) \<leftarrow>
            (if 15 \<le> input_size then do {
               h \<leftarrow> hash_at m 1 shift;
               fragment_loop m shift input_size (input_size - 15) table dst op 0 1 h }
             else Some (dst, op, 0));
          if next_emit < input_size
          then emit_literal False dst op m next_emit (input_size - next_emit)
          else Some (op, dst) } })"

subsection \<open>Hashes and the table\<close>

lemma get_uint32_load:
  assumes "load64 m p = Some v" and "k \<le> 4"
  shows "load32 m (p + k) = Some (get_uint32_at_offset v k)"
proof -
  have len: "p + 8 \<le> length m" and v: "v = le_word (take 8 (drop p m))"
    using assms(1) by (auto simp: load64_def mem_read_def split: if_splits)
  have "get_uint32_at_offset v k = le_word (take 4 (drop (p + k) m))"
  proof (rule bit_word_eqI)
    fix i assume "i < LENGTH(32)"
    then have i: "i < 32"
      by simp
    have "(8 * k + i) div 8 = k + i div 8" "(8 * k + i) mod 8 = i mod 8" "i div 8 < 4"
      using i by simp_all
    with i assms(2) len show "bit (get_uint32_at_offset v k) i
        = bit (le_word (take 4 (drop (p + k) m)) :: u32) i"
      unfolding get_uint32_at_offset_def v
      by (simp add: bit_simps le_word_bit add.assoc)
  qed
  with len assms(2) show ?thesis
    by (simp add: load32_def mem_read_def)
qed

lemma hash_bytes_less:
  assumes "k \<le> 32"
  shows "unat (hash_bytes v (32 - k)) < 2 ^ k"
proof -
  have "unat (hash_bytes v (32 - k)) = unat (v * 0x1e35a7bd) div 2 ^ (32 - k)"
    by (simp add: hash_bytes_def unat_drop_bit_eq drop_bit_eq_div [where ?'a = nat])
  moreover have "unat (v * 0x1e35a7bd) < 2 ^ k * 2 ^ (32 - k)"
    using unsigned_less [of "v * 0x1e35a7bd", where 'a = nat] assms by (simp flip: power_add)
  ultimately show ?thesis
    by (simp add: less_mult_imp_div_less)
qed

text \<open>Every position in the table is below \<open>b\<close>.\<close>

definition table_below :: "nat \<Rightarrow> u16 list \<Rightarrow> nat \<Rightarrow> bool" where
  "table_below k table b \<longleftrightarrow> length table = 2 ^ k \<and> (\<forall>e \<in> set table. unat e < b)"

lemma table_below_mono: "table_below k table b \<Longrightarrow> b \<le> c \<Longrightarrow> table_below k table c"
  by (auto simp: table_below_def)

lemma table_get_result:
  assumes "table_below k table b" and "k \<le> 32"
  obtains c where "table_get table (hash_bytes v (32 - k)) = Some c" and "c < b"
proof -
  have h: "unat (hash_bytes v (32 - k)) < length table"
    using hash_bytes_less [OF assms(2)] assms(1) by (simp add: table_below_def)
  with assms(1) have "unat (table ! unat (hash_bytes v (32 - k))) < b"
    by (simp add: table_below_def)
  with h show ?thesis
    by (intro that) (simp_all add: table_get_def)
qed

lemma table_set_result:
  assumes "table_below k table b" and "k \<le> 32" and "p < b" "p < 65536"
  obtains table' where "table_set table (hash_bytes v (32 - k)) p = Some table'"
    and "table_below k table' b"
proof -
  have h: "unat (hash_bytes v (32 - k)) < length table"
    using hash_bytes_less [OF assms(2)] assms(1) by (simp add: table_below_def)
  have "unat (of_nat p :: u16) = p"
    using assms(4) by (simp add: unat_of_nat)
  then have "table_below k (table[unat (hash_bytes v (32 - k)) := of_nat p]) b"
    using assms(1,3) set_update_subset_insert
    by (fastforce simp: table_below_def dest!: set_update_subset_insert [THEN subsetD])
  with h show ?thesis
    by (intro that) (simp_all add: table_set_def)
qed

lemma load32_Some: "p + 4 \<le> length m \<Longrightarrow> \<exists>v. load32 m p = Some v"
  by (simp add: load32_def mem_read_def)

lemma load64_Some: "p + 8 \<le> length m \<Longrightarrow> \<exists>v. load64 m p = Some v"
  by (simp add: load64_def mem_read_def)

lemma load32_eq:
  assumes "load32 m p = Some v" "load32 m q = Some v" and "k < 4"
  shows "m ! (p + k) = m ! (q + k)"
proof -
  have len: "p + 4 \<le> length m" "q + 4 \<le> length m"
    and "(le_word (take 4 (drop p m)) :: u32) = le_word (take 4 (drop q m))"
    using assms(1,2) by (auto simp: load32_def mem_read_def split: if_splits)
  then have "take 4 (drop p m) = take 4 (drop q m)"
    by (intro le_word_inj) simp_all
  then have "take 4 (drop p m) ! k = take 4 (drop q m) ! k"
    by simp
  with assms(3) len show ?thesis
    by simp
qed

subsection \<open>What has been emitted\<close>

text \<open>
  Behind \<open>pre\<close> the output holds an encoding of the first \<open>ne\<close> bytes of the input that exceeds
  them by at most a sixtieth and \<open>s\<close> sixtieths of a byte, and the buffer of \<open>L\<close> bytes has room
  for the rest.
\<close>

definition emitted ::
  "byte list \<Rightarrow> byte list \<Rightarrow> nat \<Rightarrow> byte list \<Rightarrow> nat \<Rightarrow> nat \<Rightarrow> nat \<Rightarrow> bool" where
  "emitted pre m L dst op ne s \<longleftrightarrow>
     length dst = L \<and> length pre + length m + length m div 60 + 20 \<le> L \<and> ne \<le> length m \<and>
     (\<exists>bs. op = length pre + length bs \<and> take op dst = pre @ bs \<and>
        snappy_decode bs [] = Some (take ne m) \<and> 60 * length bs \<le> 61 * ne + s)"

lemma emitted_append:
  assumes "emitted pre m L dst op ne s" and "appended dst op bs (op', dst')"
    and "snappy_decode bs (take ne m) = Some (take ne' m)" and "ne' \<le> length m"
    and "60 * length bs + 61 * ne + s \<le> 61 * ne' + s'"
  shows "emitted pre m L dst' op' ne' s'"
proof -
  obtain b0 where b0: "op = length pre + length b0" "take op dst = pre @ b0"
    "snappy_decode b0 [] = Some (take ne m)" "60 * length b0 \<le> 61 * ne + s"
    using assms(1) by (auto simp: emitted_def)
  have "snappy_decode (b0 @ bs) [] = Some (take ne' m)"
    using snappy_decode_append [OF b0(3)] assms(3) by simp
  with b0 assms(1,2,4,5) show ?thesis
    unfolding emitted_def by (auto simp: appended_def intro!: exI [of _ "b0 @ bs"])
qed

lemma emitted_room:
  assumes "emitted pre m L dst op ne s" and "s \<le> 60"
  shows "op + (length m - ne) + 18 \<le> length dst" and "op + 17 \<le> length dst"
proof -
  obtain b where b: "op = length pre + b" "60 * b \<le> 61 * ne + s"
    and L: "length dst = L" "length pre + length m + length m div 60 + 20 \<le> L" "ne \<le> length m"
    using assms(1) by (auto simp: emitted_def)
  have "length m < 60 * (length m div 60) + 60"
    using dividend_less_div_times [of 60 "length m"] by simp
  with b(2) L(3) assms(2) have "b < ne + length m div 60 + 2"
    by linarith
  with b(1) L show "op + (length m - ne) + 18 \<le> length dst" "op + 17 \<le> length dst"
    by linarith+
qed

lemma lz_copy_match:
  assumes "cand < ip" and "ip + n \<le> length m" and "\<And>k. k < n \<Longrightarrow> m ! (cand + k) = m ! (ip + k)"
  shows "lz_copy (take ip m) (ip - cand) n = take (ip + n) m"
  using assms(2,3)
proof (induction n)
  case (Suc n)
  have "lz_copy (take ip m) (ip - cand) n = take (ip + n) m"
    using Suc by simp
  moreover have "m ! (cand + n) = m ! (ip + n)"
    using Suc.prems(2) by simp
  ultimately show ?case
    using Suc.prems(1) assms(1) by (simp add: Let_def take_Suc_conv_app_nth add.commute)
qed simp

subsection \<open>The loops\<close>

lemma scan_loop_result:
  assumes "table_below k table ip" and "k \<le> 32" and "hash_at m ip (32 - k) = Some hash"
    and "ip + 4 \<le> length m" and "ip_limit + 15 \<le> length m" and "length m \<le> 65536" and "32 \<le> skip"
  shows "\<exists>res. scan_loop m (32 - k) ip_limit table skip ip hash = Some res \<and>
    (case res of
       Inl u \<Rightarrow> True
     | Inr (ip', cand, table') \<Rightarrow> ip \<le> ip' \<and> ip' < ip_limit \<and> cand < ip' \<and>
         table_below k table' (ip' + 1) \<and> (\<forall>j < 4. m ! (cand + j) = m ! (ip' + j)))"
  using assms
proof (induction "ip_limit + 1 - ip" arbitrary: table skip ip hash rule: less_induct)
  case less
  let ?b = "skip div 32"
  let ?next = "ip + ?b"
  have b: "1 \<le> ?b"
    using less.prems(7) by simp
  show ?case
  proof (cases "ip_limit < ?next")
    case True
    then have "scan_loop m (32 - k) ip_limit table skip ip hash = Some (Inl ())"
      using less.prems(3) by (subst scan_loop.simps) (simp add: Let_def)
    then show ?thesis
      by (auto intro: exI [of _ "Inl ()"])
  next
    case False
    obtain v where v: "load32 m ip = Some v" "hash = hash_bytes v (32 - k)"
      using less.prems(3) by (auto simp: hash_at_def)
    obtain nh where nh: "hash_at m ?next (32 - k) = Some nh"
      using load32_Some [of ?next m] False less.prems(5) by (auto simp: hash_at_def)
    obtain cand where c: "table_get table hash = Some cand" "cand < ip"
      using table_get_result [OF less.prems(1,2), of v] unfolding v(2) by blast
    have "ip < 65536"
      using False b less.prems(5,6) by linarith
    then obtain table' where t: "table_set table hash ip = Some table'" "table_below k table' (ip + 1)"
      using table_set_result [OF table_below_mono [OF less.prems(1), of "ip + 1"] less.prems(2), of ip v]
      unfolding v(2) by auto
    obtain w where w: "load32 m cand = Some w"
      using load32_Some [of cand m] c(2) less.prems(4) by auto
    have step: "scan_loop m (32 - k) ip_limit table skip ip hash =
        (if v \<noteq> w then scan_loop m (32 - k) ip_limit table' (skip + ?b) ?next nh
         else Some (Inr (ip, cand, table')))"
      using less.prems(3) False c t(1) v(1) w nh by (subst scan_loop.simps) (simp add: Let_def)
    show ?thesis
    proof (cases "v = w")
      case True
      with step c(2) t(2) load32_eq [OF w, of ip] v(1) False b show ?thesis
        by auto
    next
      case ne: False
      have "\<exists>res. scan_loop m (32 - k) ip_limit table' (skip + ?b) ?next nh = Some res \<and>
        (case res of
           Inl u \<Rightarrow> True
         | Inr (ip', cand, table') \<Rightarrow> ?next \<le> ip' \<and> ip' < ip_limit \<and> cand < ip' \<and>
             table_below k table' (ip' + 1) \<and> (\<forall>j < 4. m ! (cand + j) = m ! (ip' + j)))"
      proof (rule less.hyps)
        show "table_below k table' ?next"
          by (rule table_below_mono [OF t(2)]) (use b in simp)
      qed (use less.prems nh False b in auto)
      then show ?thesis
        using step ne by (fastforce split: sum.splits)
    qed
  qed
qed

lemma copy_loop_result:
  assumes "emitted pre m L dst op ip 60" and "cand < ip" and "ip < ip_limit"
    and "\<forall>j < 4. m ! (cand + j) = m ! (ip + j)" and "table_below k table (ip + 1)" and "k \<le> 32"
    and "ip_limit + 15 \<le> length m" and "length m \<le> 65536"
  shows "\<exists>res. copy_loop m (32 - k) (length m) ip_limit table dst op ip cand = Some res \<and>
    (case res of
       Inl (dst', op', ne) \<Rightarrow> emitted pre m L dst' op' ne 0
     | Inr (table', dst', op', ip', v) \<Rightarrow> emitted pre m L dst' op' ip' 0 \<and> ip < ip' \<and>
         ip' < ip_limit \<and> table_below k table' (ip' + 1) \<and> load64 m (ip' - 1) = Some v)"
  using assms
proof (induction "ip_limit - ip" arbitrary: table dst op ip cand rule: less_induct)
  case less
  have "cand + 4 < ip + 4" "ip + 4 \<le> length m"
    using less.prems(2,3,7) by simp_all
  from find_match_length_result [OF this order_refl] obtain n where
    n: "find_match_length m (cand + 4) (ip + 4) (length m) = Some (n, n < 8)"
    "longest_match m (cand + 4) (ip + 4) (length m) n"
    by blast
  obtain t where t: "t = 4 + n"
    by blast
  have t4: "4 \<le> t" "ip + t \<le> length m"
    using n(2) by (simp_all add: t longest_match_def)
  have eq: "m ! (cand + j) = m ! (ip + j)" if "j < t" for j
  proof (cases "j < 4")
    case False
    then have "m ! (cand + 4 + (j - 4)) = m ! (ip + 4 + (j - 4))"
      using n(2) that unfolding longest_match_def t by (metis less_diff_conv2 add.commute not_le)
    with False show ?thesis
      by (simp add: add.assoc)
  qed (use less.prems(4) in blast)
  have off: "0 < ip - cand" "ip - cand < 65536"
    using less.prems(2,3,7,8) by simp_all
  have "op + t \<le> length dst"
    using emitted_room(1) [OF less.prems(1)] t4(2) by simp
  from emit_copy_result [OF t4(1) off this] obtain op1 dst1 bs where
    e: "emit_copy (t < 12) dst op (ip - cand) t = Some (op1, dst1)"
    "appended dst op bs (op1, dst1)" "length bs < t"
    "\<And>out. ip - cand \<le> length out \<Longrightarrow> snappy_decode bs out = Some (lz_copy out (ip - cand) t)"
    by (metis surj_pair)
  have "snappy_decode bs (take ip m) = Some (take (ip + t) m)"
    using e(4) [of "take ip m"] lz_copy_match [OF less.prems(2) t4(2) eq] t4(2) by simp
  then have em: "emitted pre m L dst1 op1 (ip + t) 0"
    by (rule emitted_append [OF less.prems(1) e(2)]) (use t4 e(3) in auto)
  have "take t (drop ip m) = take t (drop cand m)"
    by (rule nth_equalityI) (use t4(2) less.prems(2) eq in auto)
  then have cmp: "mem_read m ip t = Some (take t (drop ip m))"
    "mem_read m cand t = Some (take t (drop ip m))"
    using t4(2) less.prems(2) by (simp_all add: mem_read_def)
  have n8: "(n < 8) = (t < 12)"
    by (auto simp: t)
  show ?case
  proof (cases "ip_limit \<le> ip + t")
    case True
    have "copy_loop m (32 - k) (length m) ip_limit table dst op ip cand
        = Some (Inl (dst1, op1, ip + t))"
      by (subst copy_loop.simps)
        (simp only: n(1) Let_def bind.bind_lunit prod.case t [symmetric] cmp n8 e(1) True if_True
          simp_thms if_False)
    with em show ?thesis
      by (intro exI [of _ "Inl (dst1, op1, ip + t)"]) simp
  next
    case False
    let ?ip = "ip + t"
    obtain v where v: "load64 m (?ip - 1) = Some v"
    proof -
      have "?ip - 1 + 8 \<le> length m"
        using False less.prems(7) by linarith
      from load64_Some [OF this] that show ?thesis
        by blast
    qed
    have tb: "table_below k table ?ip"
      by (rule table_below_mono [OF less.prems(5)]) (use t4 in simp)
    obtain t1 where t1: "table_set table (hash_bytes (get_uint32_at_offset v 0) (32 - k)) (?ip - 1) = Some t1"
      "table_below k t1 ?ip"
      by (rule table_set_result [OF tb less.prems(6), of "?ip - 1"]) (use t4 less.prems(8) in auto)
    obtain c where c: "table_get t1 (hash_bytes (get_uint32_at_offset v 1) (32 - k)) = Some c" "c < ?ip"
      by (rule table_get_result [OF t1(2) less.prems(6)]) blast
    obtain w where w: "load32 m c = Some w"
      using load32_Some [of c m] c(2) False less.prems(7) by auto
    have "table_below k t1 (?ip + 1)"
      by (rule table_below_mono [OF t1(2)]) simp
    then obtain t2 where t2: "table_set t1 (hash_bytes (get_uint32_at_offset v 1) (32 - k)) ?ip = Some t2"
      "table_below k t2 (?ip + 1)"
      by (rule table_set_result [OF _ less.prems(6), of _ _ ?ip]) (use False less.prems(7,8) in auto)
    have step: "copy_loop m (32 - k) (length m) ip_limit table dst op ip cand =
        (if get_uint32_at_offset v 1 = w
         then copy_loop m (32 - k) (length m) ip_limit t2 dst1 op1 ?ip c
         else Some (Inr (t2, dst1, op1, ?ip, v)))"
      by (subst copy_loop.simps)
        (simp only: n(1) Let_def bind.bind_lunit prod.case t [symmetric] cmp n8 e(1) False if_True
          simp_thms if_False v t1(1) c(1) w t2(1))
    show ?thesis
    proof (cases "get_uint32_at_offset v 1 = w")
      case False
      with step em t2(2) v t4 \<open>\<not> ip_limit \<le> ip + t\<close> show ?thesis
        by (intro exI [of _ "Inr (t2, dst1, op1, ?ip, v)"]) auto
    next
      case True
      have "load32 m ?ip = Some w"
        using get_uint32_load [OF v, of 1] t4 True by simp
      then have "\<forall>j < 4. m ! (c + j) = m ! (?ip + j)"
        using load32_eq [OF w] by blast
      moreover have "emitted pre m L dst1 op1 ?ip 60"
        using em by (auto simp: emitted_def)
      ultimately have "\<exists>res. copy_loop m (32 - k) (length m) ip_limit t2 dst1 op1 ?ip c = Some res \<and>
        (case res of
           Inl (dst', op', ne) \<Rightarrow> emitted pre m L dst' op' ne 0
         | Inr (table', dst', op', ip', v) \<Rightarrow> emitted pre m L dst' op' ip' 0 \<and> ?ip < ip' \<and>
             ip' < ip_limit \<and> table_below k table' (ip' + 1) \<and> load64 m (ip' - 1) = Some v)"
        by (intro less.hyps) (use False t4 c(2) t2(2) less.prems in auto)
      then show ?thesis
        using step True by (fastforce split: sum.splits)
    qed
  qed
qed

lemma fragment_loop_result:
  assumes "emitted pre m L dst op ne 0" and "ne < ip" and "ip + 4 \<le> length m"
    and "hash_at m ip (32 - k) = Some hash" and "table_below k table ip" and "k \<le> 32"
    and "ip_limit + 15 = length m" and "length m \<le> 65536"
  shows "\<exists>dst' op' ne'.
    fragment_loop m (32 - k) (length m) ip_limit table dst op ne ip hash = Some (dst', op', ne') \<and>
    emitted pre m L dst' op' ne' 0"
  using assms
proof (induction "length m - ip" arbitrary: table dst op ne ip hash rule: less_induct)
  case less
  have "ip_limit + 15 \<le> length m"
    using less.prems(7) by simp
  from scan_loop_result [OF less.prems(5,6,4,3) this less.prems(8), of 32] obtain res where
    s: "scan_loop m (32 - k) ip_limit table 32 ip hash = Some res"
    "case res of
       Inl u \<Rightarrow> True
     | Inr (ip', cand, table') \<Rightarrow> ip \<le> ip' \<and> ip' < ip_limit \<and> cand < ip' \<and>
         table_below k table' (ip' + 1) \<and> (\<forall>j < 4. m ! (cand + j) = m ! (ip' + j))"
    by auto
  have "\<not> ip \<le> ne"
    using less.prems(2) by simp
  note unfold = fragment_loop.simps [of m "32 - k" "length m" ip_limit table dst op ne ip hash]
  show ?case
  proof (cases res)
    case (Inl u)
    have "fragment_loop m (32 - k) (length m) ip_limit table dst op ne ip hash = Some (dst, op, ne)"
      unfolding unfold using \<open>\<not> ip \<le> ne\<close> s(1) by (simp add: Inl)
    with less.prems(1) show ?thesis
      by blast
  next
    case (Inr x)
    obtain ip1 cand t1 where x: "x = (ip1, cand, t1)"
      by (cases x)
    from s(2) have i: "ip \<le> ip1" "ip1 < ip_limit" "cand < ip1" "table_below k t1 (ip1 + 1)"
      "\<forall>j < 4. m ! (cand + j) = m ! (ip1 + j)"
      unfolding Inr x by auto
    let ?n = "ip1 - ne"
    have n: "0 < ?n" "?n \<le> 65536" "ne + ?n \<le> length m" "ne + ?n = ip1" "ne + 16 \<le> length m"
      using i(1,2) less.prems(2,7,8) by simp_all
    have room: "op + ?n + 3 \<le> length dst" "op + 17 \<le> length dst"
      using emitted_room [OF less.prems(1)] n(3) by simp_all
    obtain dst1 op1 bs where l: "emit_literal True dst op m ne ?n = Some (op1, dst1)"
      "appended dst op bs (op1, dst1)"
      "\<And>out. snappy_decode bs out = Some (out @ take ?n (drop ne m))"
      "60 * length bs \<le> 61 * ?n + 60"
      using emit_literal_result [OF n(1-3) room(1), of True] room(2) n(5) by (metis surj_pair)
    have "snappy_decode bs (take ne m) = Some (take ip1 m)"
      using l(3) [of "take ne m"] take_add [of ne ?n m] n(4) by simp
    then have em: "emitted pre m L dst1 op1 ip1 60"
      by (rule emitted_append [OF less.prems(1) l(2)]) (use l(4) n in auto)
    from copy_loop_result [OF em i(3,2,5,4) less.prems(6) \<open>ip_limit + 15 \<le> length m\<close> less.prems(8)]
    obtain res2 where c: "copy_loop m (32 - k) (length m) ip_limit t1 dst1 op1 ip1 cand = Some res2"
      "case res2 of
         Inl (dst', op', ne) \<Rightarrow> emitted pre m L dst' op' ne 0
       | Inr (table', dst', op', ip', v) \<Rightarrow> emitted pre m L dst' op' ip' 0 \<and> ip1 < ip' \<and>
           ip' < ip_limit \<and> table_below k table' (ip' + 1) \<and> load64 m (ip' - 1) = Some v"
      by blast
    have step: "fragment_loop m (32 - k) (length m) ip_limit table dst op ne ip hash =
        (case res2 of
           Inl x \<Rightarrow> Some x
         | Inr (table, dst, op, ip, v) \<Rightarrow>
             fragment_loop m (32 - k) (length m) ip_limit table dst op ip (ip + 1)
               (hash_bytes (get_uint32_at_offset v 2) (32 - k)))"
      unfolding unfold using \<open>\<not> ip \<le> ne\<close> s(1) n(5) l(1) c(1)
      by (simp add: Inr x split: sum.split)
    show ?thesis
    proof (cases res2)
      case (Inl y)
      with c(2) step show ?thesis
        by (cases y) auto
    next
      case (Inr y)
      obtain t2 dst2 op2 ip2 v where y: "y = (t2, dst2, op2, ip2, v)"
        by (cases y)
      from c(2) have r: "emitted pre m L dst2 op2 ip2 0" "ip1 < ip2" "ip2 < ip_limit"
        "table_below k t2 (ip2 + 1)" "load64 m (ip2 - 1) = Some v"
        unfolding Inr y by auto
      have "load32 m (ip2 + 1) = Some (get_uint32_at_offset v 2)"
        using get_uint32_load [OF r(5), of 2] r(2) by simp
      then have h: "hash_at m (ip2 + 1) (32 - k)
          = Some (hash_bytes (get_uint32_at_offset v 2) (32 - k))"
        by (simp add: hash_at_def)
      have "length m - (ip2 + 1) < length m - ip"
        using i(1) r(2,3) less.prems(7) by linarith
      from less.hyps [OF this r(1) _ _ h r(4) less.prems(6,7,8)] r(3) less.prems(7) step
      show ?thesis
        by (simp add: Inr y)
    qed
  qed
qed

subsection \<open>The fragment\<close>

definition table_bits :: "nat \<Rightarrow> bool" where
  "table_bits k \<longleftrightarrow> 8 \<le> k \<and> k \<le> 14"

lemma table_size_checks:
  assumes "table_bits k"
  shows "(2 ^ k AND (2 ^ k - 1) :: nat) = 0" and "log2_floor (of_nat (2 ^ k)) = Some (int k)"
    and "unat (drop_bit (32 - k) (0xffffffff :: u32)) = 2 ^ k - 1"
proof -
  have "2 ^ k AND mask k = (0 :: nat)"
    by (rule bit_eqI) (auto simp: bit_simps)
  then show "(2 ^ k AND (2 ^ k - 1) :: nat) = 0"
    by (simp add: mask_eq_exp_minus_1)
  have k: "k < 32"
    using assms by (simp add: table_bits_def)
  then have small: "(2 :: nat) ^ k < 2 ^ 32"
    by (rule power_strict_increasing) simp
  have pos: "(0 :: nat) < 2 ^ k"
    by simp
  obtain l where l: "log2_floor (of_nat (2 ^ k)) = Some (int l)" "2 ^ l \<le> (2 :: nat) ^ k"
    "(2 :: nat) ^ k < 2 ^ Suc l"
    by (rule log2_floor_pos [OF pos small])
  from l(2,3) have "l = k"
    by (simp add: power_increasing_iff power_strict_increasing_iff del: power_Suc)
  with l(1) show "log2_floor (of_nat (2 ^ k)) = Some (int k)"
    by simp
  have "k \<in> {8, 9, 10, 11, 12, 13, 14}"
    using assms by (auto simp: table_bits_def)
  then show "unat (drop_bit (32 - k) (0xffffffff :: u32)) = 2 ^ k - 1"
    by (auto simp: unat_drop_bit_eq drop_bit_eq_div [where ?'a = nat])
qed

lemma compress_fragment_result:
  assumes "length m \<le> 65536" and "table_bits k" and "table = replicate (2 ^ k) 0"
    and "op \<le> length dst" and "op + length m + length m div 60 + 20 \<le> length dst"
  shows "\<exists>op' dst'. compress_fragment m dst op table (2 ^ k) = Some (op', dst') \<and>
    emitted (take op dst) m (length dst) dst' op' (length m) 60"
proof -
  let ?em = "\<lambda>d o' n s. emitted (take op dst) m (length dst) d o' n s"
  have start: "?em dst op 0 0"
    using assms(4,5) by (auto simp: emitted_def intro!: exI [of _ "[]"])
  note checks = table_size_checks [OF assms(2)]
  have shift: "nat (32 - int k) = 32 - k" "k \<le> 32"
    using assms(2) by (auto simp: table_bits_def)
  obtain d1 o1 n1 where 1: "(if 15 \<le> length m then do {
        h \<leftarrow> hash_at m 1 (32 - k);
        fragment_loop m (32 - k) (length m) (length m - 15) table dst op 0 1 h }
      else Some (dst, op, 0)) = Some (d1, o1, n1)" "?em d1 o1 n1 0"
  proof (cases "15 \<le> length m")
    case True
    obtain h where h: "hash_at m 1 (32 - k) = Some h"
      using load32_Some [of 1 m] True by (auto simp: hash_at_def)
    have "table_below k table 1"
      using assms(3) by (simp add: table_below_def)
    from fragment_loop_result [OF start _ _ h this shift(2), of "length m - 15"] True assms(1)
    obtain dst' op' ne' where
      "fragment_loop m (32 - k) (length m) (length m - 15) table dst op 0 1 h = Some (dst', op', ne')"
      "?em dst' op' ne' 0"
      by auto
    with True h show ?thesis
      by (intro that [of dst' op' ne']) simp_all
  next
    case False
    with start show ?thesis
      by (intro that [of dst op 0]) simp_all
  qed
  have cf: "compress_fragment m dst op table (2 ^ k) =
      (if n1 < length m then emit_literal False d1 o1 m n1 (length m - n1) else Some (o1, d1))"
    unfolding compress_fragment_def Let_def checks shift(1) bind.bind_lunit
    using assms(1) 1(1) by simp
  show ?thesis
  proof (cases "n1 < length m")
    case False
    have "n1 = length m"
      using 1(2) False by (simp add: emitted_def)
    with 1(2) cf show ?thesis
      by (auto simp: emitted_def)
  next
    case True
    let ?n = "length m - n1"
    have n: "0 < ?n" "?n \<le> 65536" "n1 + ?n \<le> length m"
      using True assms(1) by simp_all
    have room: "o1 + ?n + 3 \<le> length d1"
      using emitted_room(1) [OF 1(2)] by simp
    obtain dst1 op1 bs where l: "emit_literal False d1 o1 m n1 ?n = Some (op1, dst1)"
      "appended d1 o1 bs (op1, dst1)"
      "\<And>out. snappy_decode bs out = Some (out @ take ?n (drop n1 m))"
      "60 * length bs \<le> 61 * ?n + 60"
      using emit_literal_result [OF n room, of False] by (metis surj_pair)
    have "snappy_decode bs (take n1 m) = Some (take (length m) m)"
      using l(3) [of "take n1 m"] take_add [of n1 ?n m] True by simp
    then have "?em dst1 op1 (length m) 60"
      by (rule emitted_append [OF 1(2) l(2)]) (use l(4) True in auto)
    with cf True l(1) show ?thesis
      by auto
  qed
qed

end
