(* ===== verification/Snappy_Decompress.thy ===== *)
theory Snappy_Decompress
  imports Snappy_Format
begin

section \<open>Snappy: the decompressor\<close>

text \<open>
  SnappyDecompressor and the function templates around it, of depends/snappy/snappy.cc and
  snappy-internal.h. The two interfaces it is written against are records of operations, as
  the code's virtual class \<open>Source\<close> and template parameter \<open>Writer\<close> are, and a locale states
  what each promises. The window the decompressor reads from is either the region the source
  last returned or the five bytes of \<open>scratch_\<close>; \<open>win\<close> holds the bytes of that region, all
  pointers into it are indices. A result \<open>None\<close> is an access outside a buffer, a failed
  assertion or a loop that does not end.
\<close>

subsection \<open>The interfaces\<close>

record 's source_ops =
  src_available :: "'s \<Rightarrow> nat"
  src_peek :: "'s \<Rightarrow> byte list"
  src_skip :: "'s \<Rightarrow> nat \<Rightarrow> 's"

text \<open>
  The operations of a writer that read the window are given it with the index they read at;
  \<open>None\<close> is an access outside of it or of the writer's own buffer, the boolean the value the
  code returns.
\<close>

record 'w writer_ops =
  w_set_expected :: "'w \<Rightarrow> nat \<Rightarrow> 'w option"
  w_check_length :: "'w \<Rightarrow> bool"
  w_append :: "'w \<Rightarrow> byte list \<Rightarrow> nat \<Rightarrow> nat \<Rightarrow> ('w \<times> bool) option"
  w_try_fast_append :: "'w \<Rightarrow> byte list \<Rightarrow> nat \<Rightarrow> nat \<Rightarrow> nat \<Rightarrow> ('w \<times> bool) option"
  w_append_from_self :: "'w \<Rightarrow> nat \<Rightarrow> nat \<Rightarrow> ('w \<times> bool) option"
  w_flush :: "'w \<Rightarrow> 'w option"

subsection \<open>Tags\<close>

definition char_table :: "nat list" where
  "char_table = [
     0x0001, 0x0804, 0x1001, 0x2001, 0x0002, 0x0805, 0x1002, 0x2002, 0x0003, 0x0806, 0x1003, 0x2003,
     0x0004, 0x0807, 0x1004, 0x2004, 0x0005, 0x0808, 0x1005, 0x2005, 0x0006, 0x0809, 0x1006, 0x2006,
     0x0007, 0x080a, 0x1007, 0x2007, 0x0008, 0x080b, 0x1008, 0x2008, 0x0009, 0x0904, 0x1009, 0x2009,
     0x000a, 0x0905, 0x100a, 0x200a, 0x000b, 0x0906, 0x100b, 0x200b, 0x000c, 0x0907, 0x100c, 0x200c,
     0x000d, 0x0908, 0x100d, 0x200d, 0x000e, 0x0909, 0x100e, 0x200e, 0x000f, 0x090a, 0x100f, 0x200f,
     0x0010, 0x090b, 0x1010, 0x2010, 0x0011, 0x0a04, 0x1011, 0x2011, 0x0012, 0x0a05, 0x1012, 0x2012,
     0x0013, 0x0a06, 0x1013, 0x2013, 0x0014, 0x0a07, 0x1014, 0x2014, 0x0015, 0x0a08, 0x1015, 0x2015,
     0x0016, 0x0a09, 0x1016, 0x2016, 0x0017, 0x0a0a, 0x1017, 0x2017, 0x0018, 0x0a0b, 0x1018, 0x2018,
     0x0019, 0x0b04, 0x1019, 0x2019, 0x001a, 0x0b05, 0x101a, 0x201a, 0x001b, 0x0b06, 0x101b, 0x201b,
     0x001c, 0x0b07, 0x101c, 0x201c, 0x001d, 0x0b08, 0x101d, 0x201d, 0x001e, 0x0b09, 0x101e, 0x201e,
     0x001f, 0x0b0a, 0x101f, 0x201f, 0x0020, 0x0b0b, 0x1020, 0x2020, 0x0021, 0x0c04, 0x1021, 0x2021,
     0x0022, 0x0c05, 0x1022, 0x2022, 0x0023, 0x0c06, 0x1023, 0x2023, 0x0024, 0x0c07, 0x1024, 0x2024,
     0x0025, 0x0c08, 0x1025, 0x2025, 0x0026, 0x0c09, 0x1026, 0x2026, 0x0027, 0x0c0a, 0x1027, 0x2027,
     0x0028, 0x0c0b, 0x1028, 0x2028, 0x0029, 0x0d04, 0x1029, 0x2029, 0x002a, 0x0d05, 0x102a, 0x202a,
     0x002b, 0x0d06, 0x102b, 0x202b, 0x002c, 0x0d07, 0x102c, 0x202c, 0x002d, 0x0d08, 0x102d, 0x202d,
     0x002e, 0x0d09, 0x102e, 0x202e, 0x002f, 0x0d0a, 0x102f, 0x202f, 0x0030, 0x0d0b, 0x1030, 0x2030,
     0x0031, 0x0e04, 0x1031, 0x2031, 0x0032, 0x0e05, 0x1032, 0x2032, 0x0033, 0x0e06, 0x1033, 0x2033,
     0x0034, 0x0e07, 0x1034, 0x2034, 0x0035, 0x0e08, 0x1035, 0x2035, 0x0036, 0x0e09, 0x1036, 0x2036,
     0x0037, 0x0e0a, 0x1037, 0x2037, 0x0038, 0x0e0b, 0x1038, 0x2038, 0x0039, 0x0f04, 0x1039, 0x2039,
     0x003a, 0x0f05, 0x103a, 0x203a, 0x003b, 0x0f06, 0x103b, 0x203b, 0x003c, 0x0f07, 0x103c, 0x203c,
     0x0801, 0x0f08, 0x103d, 0x203d, 0x1001, 0x0f09, 0x103e, 0x203e, 0x1801, 0x0f0a, 0x103f, 0x203f,
     0x2001, 0x0f0b, 0x1040, 0x2040]"

definition extract_low_bytes :: "u32 \<Rightarrow> nat \<Rightarrow> u32" where
  "extract_low_bytes v n =
     (let mask = 0xffffffff :: u64 in ucast (ucast v AND NOT (push_bit (8 * n) mask)))"

definition left_shift_overflows :: "byte \<Rightarrow> nat \<Rightarrow> bool" where
  "left_shift_overflows value shift =
     (value AND (replicate 25 0 @ [0x80, 0xc0, 0xe0, 0xf0, 0xf8, 0xfc, 0xfe]) ! shift \<noteq> 0)"

subsection \<open>The decompressor\<close>

record 's decompressor =
  reader :: 's
  win :: "byte list"
  ip :: nat
  ip_limit :: nat
  peeked :: nat
  eof :: bool
  scratch :: "byte list"

definition decompressor_init :: "'s \<Rightarrow> byte list \<Rightarrow> 's decompressor" where
  "decompressor_init r scr =
     \<lparr>reader = r, win = [], ip = 0, ip_limit = 0, peeked = 0, eof = False, scratch = scr\<rparr>"

definition decompressor_exit :: "'s source_ops \<Rightarrow> 's decompressor \<Rightarrow> 's" where
  "decompressor_exit S d = src_skip S (reader d) (peeked d)"

function read_length :: "'s source_ops \<Rightarrow> 's \<Rightarrow> nat \<Rightarrow> u32 \<Rightarrow> 's \<times> u32 option" where
  "read_length S r shift result =
     (if 32 \<le> shift then (r, None)
      else case src_peek S r of
        [] \<Rightarrow> (r, None)
      | c # _ \<Rightarrow>
          (let r = src_skip S r 1; val = c AND 0x7f in
           if left_shift_overflows val shift then (r, None)
           else let result = result OR push_bit shift (ucast val) in
             if c < 128 then (r, Some result)
             else read_length S r (shift + 7) result))"
  by pat_completeness auto
termination
  by (relation "measure (\<lambda>(S, r, shift, result). 32 - shift)") auto

declare read_length.simps [simp del]

definition read_uncompressed_length ::
  "'s source_ops \<Rightarrow> 's decompressor \<Rightarrow> 's decompressor \<times> u32 option" where
  "read_uncompressed_length S d =
     (let (r, n) = read_length S (reader d) 0 0 in (d\<lparr>reader := r\<rparr>, n))"

text \<open>RefillTag: the loop that gathers a tag from several regions, and the whole function.\<close>

partial_function (option) stitch ::
  "'s source_ops \<Rightarrow> 's \<Rightarrow> byte list \<Rightarrow> nat \<Rightarrow> nat \<Rightarrow> ('s \<times> byte list \<times> bool) option" where [code]:
  "stitch S r scr nbuf needed =
     (if nbuf < needed then
        let src = src_peek S r; len = length src in
        if len = 0 then Some (r, scr, False)
        else
          let to_add = min (needed - nbuf) (len mod 2 ^ 32) in do {
          t \<leftarrow> mem_read src 0 to_add;
          scr \<leftarrow> mem_write scr nbuf t;
          stitch S (src_skip S r to_add) scr (nbuf + to_add) needed }
      else Some (r, scr, True))"

definition refill_fetch ::
  "'s source_ops \<Rightarrow> 's decompressor \<Rightarrow> 's decompressor \<times> nat \<times> bool" where
  "refill_fetch S d =
     (if ip d = ip_limit d then
        let r = src_skip S (reader d) (peeked d); w = src_peek S r; n = length w;
          d = d\<lparr>reader := r, peeked := n mod 2 ^ 32, eof := (n = 0)\<rparr> in
        if n = 0 then (d, 0, False)
        else (d\<lparr>win := w, ip_limit := n\<rparr>, 0, True)
      else (d, ip d, True))"

definition refill_tag ::
  "'s source_ops \<Rightarrow> 's decompressor \<Rightarrow> ('s decompressor \<times> bool) option" where
  "refill_tag S d =
     (let (d, p, more) = refill_fetch S d in
      if \<not> more then Some (d, False)
      else if ip_limit d \<le> p then None
      else do {
        c \<leftarrow> mem_read (win d) p 1;
        let needed = char_table ! unat (hd c) div 2 ^ 11 + 1;
        let nbuf = (ip_limit d - p) mod 2 ^ 32;
        if 5 < needed then None
        else if nbuf < needed then do {
          t \<leftarrow> mem_read (win d) p nbuf;
          scr \<leftarrow> mem_write (scratch d) 0 t;
          (r, scr, ok) \<leftarrow> stitch S (src_skip S (reader d) (peeked d)) scr nbuf needed;
          let d = d\<lparr>reader := r, peeked := 0, scratch := scr\<rparr>;
          if ok then Some (d\<lparr>win := scr, ip := 0, ip_limit := needed\<rparr>, True)
          else Some (d, False) }
        else if nbuf < 5 then do {
          t \<leftarrow> mem_read (win d) p nbuf;
          scr \<leftarrow> mem_write (scratch d) 0 t;
          Some (d\<lparr>reader := src_skip S (reader d) (peeked d), peeked := 0, scratch := scr,
            win := scr, ip := 0, ip_limit := nbuf\<rparr>, True) }
        else Some (d\<lparr>ip := p\<rparr>, True) })"

text \<open>MAYBE_REFILL with the local \<open>ip\<close> as its argument and, when it does not return, result.\<close>

definition maybe_refill ::
  "'s source_ops \<Rightarrow> 's decompressor \<Rightarrow> nat \<Rightarrow> ('s decompressor \<times> nat \<times> bool) option" where
  "maybe_refill S d p =
     (if ip_limit d - p < 5 then do {
        (d, ok) \<leftarrow> refill_tag S (d\<lparr>ip := p\<rparr>);
        Some (d, ip d, ok) }
      else Some (d, p, True))"

text \<open>The loop of a literal that spans regions; \<open>Inr\<close> is the return from the function.\<close>

partial_function (option) literal_loop ::
  "'s source_ops \<Rightarrow> 'w writer_ops \<Rightarrow> 's decompressor \<Rightarrow> nat \<Rightarrow> 'w \<Rightarrow> nat \<Rightarrow> nat \<Rightarrow>
   ('s decompressor \<times> nat \<times> 'w \<times> nat + 's decompressor \<times> 'w) option" where [code]:
  "literal_loop S W d p w literal_length avail =
     (if avail < literal_length then do {
        (w, ok) \<leftarrow> w_append W w (win d) p avail;
        if \<not> ok then Some (Inr (d, w))
        else
          let r = src_skip S (reader d) (peeked d); b = src_peek S r; n = length b;
            d = d\<lparr>reader := r, peeked := n mod 2 ^ 32\<rparr> in
          if n = 0 then Some (Inr (d, w))
          else literal_loop S W (d\<lparr>win := b, ip_limit := n\<rparr>) 0 w (literal_length - avail) n }
      else Some (Inl (d, p, w, literal_length)))"

definition literal_tag ::
  "'s source_ops \<Rightarrow> 'w writer_ops \<Rightarrow> 's decompressor \<Rightarrow> nat \<Rightarrow> 'w \<Rightarrow> nat \<Rightarrow>
   ('s decompressor \<times> nat \<times> 'w + 's decompressor \<times> 'w) option" where
  "literal_tag S W d p w c =
     (let literal_length = c div 4 + 1 in do {
      (w, fast) \<leftarrow> w_try_fast_append W w (win d) p (ip_limit d - p) literal_length;
      if fast then
        if literal_length < 61 then Some (Inl (d, p + literal_length, w)) else None
      else do {
        (p, literal_length) \<leftarrow>
          (if 61 \<le> literal_length then do {
             v \<leftarrow> load32 (win d) p;
             Some (p + (literal_length - 60),
               unat (extract_low_bytes v (literal_length - 60) + 1)) }
           else Some (p, literal_length));
        res \<leftarrow> literal_loop S W d p w literal_length (ip_limit d - p);
        case res of
          Inr dw \<Rightarrow> Some (Inr dw)
        | Inl (d, p, w, literal_length) \<Rightarrow> do {
            (w, ok) \<leftarrow> w_append W w (win d) p literal_length;
            if \<not> ok then Some (Inr (d, w))
            else do {
              (d, p, more) \<leftarrow> maybe_refill S d (p + literal_length);
              Some (if more then Inl (d, p, w) else Inr (d, w)) } } } })"

definition copy_tag ::
  "'s source_ops \<Rightarrow> 'w writer_ops \<Rightarrow> 's decompressor \<Rightarrow> nat \<Rightarrow> 'w \<Rightarrow> nat \<Rightarrow>
   ('s decompressor \<times> nat \<times> 'w + 's decompressor \<times> 'w) option" where
  "copy_tag S W d p w c =
     (let entry = char_table ! c in do {
      v \<leftarrow> load32 (win d) p;
      let trailer = unat (extract_low_bytes v (entry div 2 ^ 11));
      let length = entry AND 0xff;
      let p = p + entry div 2 ^ 11;
      let copy_offset = entry AND 0x700;
      (w, ok) \<leftarrow> w_append_from_self W w (copy_offset + trailer) length;
      if \<not> ok then Some (Inr (d, w))
      else do {
        (d, p, more) \<leftarrow> maybe_refill S d p;
        Some (if more then Inl (d, p, w) else Inr (d, w)) } })"

partial_function (option) tag_loop ::
  "'s source_ops \<Rightarrow> 'w writer_ops \<Rightarrow> 's decompressor \<Rightarrow> nat \<Rightarrow> 'w \<Rightarrow>
   ('s decompressor \<times> 'w) option" where [code]:
  "tag_loop S W d p w = do {
     c \<leftarrow> mem_read (win d) p 1;
     let c = unat (hd c);
     res \<leftarrow> (if c AND 3 = 0 then literal_tag S W d (p + 1) w c
            else copy_tag S W d (p + 1) w c);
     case res of
       Inr dw \<Rightarrow> Some dw
     | Inl (d, p, w) \<Rightarrow> tag_loop S W d p w }"

definition decompress_all_tags ::
  "'s source_ops \<Rightarrow> 'w writer_ops \<Rightarrow> 's decompressor \<Rightarrow> 'w \<Rightarrow> ('s decompressor \<times> 'w) option" where
  "decompress_all_tags S W d w = do {
     (d, p, more) \<leftarrow> maybe_refill S d (ip d);
     if more then tag_loop S W d p w else Some (d, w) }"

definition internal_uncompress_all_tags ::
  "'s source_ops \<Rightarrow> 'w writer_ops \<Rightarrow> 's decompressor \<Rightarrow> 'w \<Rightarrow> u32 \<Rightarrow>
   ('s decompressor \<times> 'w \<times> bool) option" where
  "internal_uncompress_all_tags S W d w uncompressed_len = do {
     w \<leftarrow> w_set_expected W w (unat uncompressed_len);
     (d, w) \<leftarrow> decompress_all_tags S W d w;
     w \<leftarrow> w_flush W w;
     Some (d, w, eof d \<and> w_check_length W w) }"

definition internal_uncompress ::
  "'s source_ops \<Rightarrow> 'w writer_ops \<Rightarrow> byte list \<Rightarrow> 's \<Rightarrow> 'w \<Rightarrow> ('s \<times> 'w \<times> bool) option" where
  "internal_uncompress S W scr r w =
     (case read_uncompressed_length S (decompressor_init r scr) of
        (d, None) \<Rightarrow> Some (decompressor_exit S d, w, False)
      | (d, Some n) \<Rightarrow> do {
          (d, w, ok) \<leftarrow> internal_uncompress_all_tags S W d w n;
          Some (decompressor_exit S d, w, ok) })"

subsection \<open>The tag table and the masks\<close>

text \<open>
  What a tag byte says of the element it opens: the number of operand bytes, the length of a
  copy and the high bits of its distance. The 256 entries of char_table agree with it.
\<close>

definition tag_extra :: "nat \<Rightarrow> nat" where
  "tag_extra c =
     (if c mod 4 = 0 then (if c div 4 < 60 then 0 else c div 4 - 59)
      else if c mod 4 = 1 then 1 else if c mod 4 = 2 then 2 else 4)"

definition tag_length :: "nat \<Rightarrow> nat" where
  "tag_length c = (if c mod 4 = 1 then 4 + c div 4 mod 8 else c div 4 + 1)"

definition tag_high :: "nat \<Rightarrow> nat" where
  "tag_high c = (if c mod 4 = 1 then 256 * (c div 32) else 0)"


definition entry_ok :: "nat \<Rightarrow> nat \<Rightarrow> bool" where
  "entry_ok c e \<longleftrightarrow> e div 2 ^ 11 = tag_extra c \<and>
     (c mod 4 = 0 \<or> e AND 0xff = tag_length c \<and> e AND 0x700 = tag_high c)"

primrec entries_ok :: "nat \<Rightarrow> nat list \<Rightarrow> bool" where
  "entries_ok c [] = True"
| "entries_ok c (e # es) = (entry_ok c e \<and> entries_ok (c + 1) es)"

lemma entries_ok_nth: "entries_ok c es \<Longrightarrow> i < length es \<Longrightarrow> entry_ok (c + i) (es ! i)"
proof (induction es arbitrary: c i)
  case (Cons e es)
  then show ?case
    by (cases i) (auto dest: Cons.IH [of "Suc c"])
qed simp

lemma char_table_ok: "entries_ok 0 char_table"
  unfolding char_table_def
  by (simp add: entry_ok_def tag_extra_def tag_length_def tag_high_def)

lemma char_table_length: "length char_table = 256"
  by (simp add: char_table_def)

lemma char_table_entry:
  fixes c :: byte
  shows "char_table ! unat c div 2 ^ 11 = tag_extra (unat c)"
    and "unat c mod 4 \<noteq> 0 \<Longrightarrow> char_table ! unat c AND 0xff = tag_length (unat c)"
    and "unat c mod 4 \<noteq> 0 \<Longrightarrow> char_table ! unat c AND 0x700 = tag_high (unat c)"
proof -
  have "unat c < 256"
    using unsigned_less [of c, where 'a = nat] by simp
  then have "entry_ok (unat c) (char_table ! unat c)"
    using entries_ok_nth [OF char_table_ok, of "unat c"] by (simp add: char_table_length)
  then show "char_table ! unat c div 2 ^ 11 = tag_extra (unat c)"
    and "unat c mod 4 \<noteq> 0 \<Longrightarrow> char_table ! unat c AND 0xff = tag_length (unat c)"
    and "unat c mod 4 \<noteq> 0 \<Longrightarrow> char_table ! unat c AND 0x700 = tag_high (unat c)"
    by (auto simp: entry_ok_def)
qed

lemma tag_extra_le: "tag_extra (unat (c :: byte)) \<le> 4"
proof -
  have "unat c < 256"
    using unsigned_less [of c, where 'a = nat] by simp
  then show ?thesis
    by (auto simp: tag_extra_def)
qed

lemma extract_low_bytes_mask:
  assumes "n \<le> 4"
  shows "extract_low_bytes v n = take_bit (8 * n) v"
proof -
  have m: "(0xffffffff :: u64) = mask 32"
    by (simp add: mask_eq_exp_minus_1)
  show ?thesis
    using assms unfolding extract_low_bytes_def Let_def m
    by (intro bit_word_eqI) (auto simp: bit_simps)
qed

text \<open>The operand of a tag, read with one unaligned load and masked.\<close>

lemma operand_value:
  assumes "p + 4 \<le> length m" and "n \<le> 4"
  obtains v where "load32 m p = Some v"
    and "unat (extract_low_bytes v n) = le_nat (take n (drop p m))"
    and "unat (extract_low_bytes v n + 1) = (le_nat (take n (drop p m)) + 1) mod 2 ^ 32"
proof (rule that)
  let ?b = "take 4 (drop p m)"
  show "load32 m p = Some (le_word ?b)"
    using assms(1) by (simp add: load32_def mem_read_def)
  have "extract_low_bytes (le_word ?b) n = le_word (take n ?b)"
    using assms le_word_take [of n ?b] by (simp add: extract_low_bytes_mask)
  moreover have "take n ?b = take n (drop p m)"
    using assms(2) by (simp add: min_def)
  ultimately have e: "extract_low_bytes (le_word ?b) n = le_word (take n (drop p m))"
    by simp
  then show "unat (extract_low_bytes (le_word ?b) n) = le_nat (take n (drop p m))"
    using assms(2) by (simp add: unat_le_word)
  have "(le_word (take n (drop p m)) + 1 :: u32) = of_nat (le_nat (take n (drop p m)) + 1)"
    by (simp add: le_word_of_nat)
  then show "unat (extract_low_bytes (le_word ?b) n + 1)
      = (le_nat (take n (drop p m)) + 1) mod 2 ^ 32"
    unfolding e by (simp only: unat_of_nat) simp
qed

end
