(* ===== verification/Snappy_Decode_Spec.thy ===== *)
theory Snappy_Decode_Spec
  imports Snappy_Decompress
begin

section \<open>Snappy: the decompressor computes the reference decoder\<close>

text \<open>
  The contracts of the two interfaces (of a source it asks that a region does not go beyond what is
  available, as that of ByteArraySource: the decompressor reads whole regions), and under them the correctness of the decompressor of
  Snappy_Decompress: for every source and every writer that keep their contracts, and for
  every compressed input however malformed, it ends, stays inside the buffers it reads and
  writes, and accepts exactly what the reference decoder of Snappy_Format decodes.
\<close>

subsection \<open>The contracts\<close>

locale snappy_source =
  fixes S :: "'s source_ops" and content :: "'s \<Rightarrow> byte list"
  assumes peek_region: "\<exists>rest. content s = src_peek S s @ rest"
    and peek_nonempty: "src_peek S s = [] \<Longrightarrow> content s = []"
    and skip_content: "n \<le> length (content s) \<Longrightarrow> content (src_skip S s n) = drop n (content s)"
    and available_content: "src_available S s = length (content s)"

locale snappy_writer =
  fixes W :: "'w writer_ops" and fresh :: "'w \<Rightarrow> nat \<Rightarrow> bool"
    and rep :: "'w \<Rightarrow> nat \<Rightarrow> byte list \<Rightarrow> bool" and safe :: "'w \<Rightarrow> bool"
    and final :: "'w \<Rightarrow> nat \<Rightarrow> byte list \<Rightarrow> bool" and ended :: "'w \<Rightarrow> bool"
  assumes expect: "fresh w L \<Longrightarrow> \<exists>w'. w_set_expected W w L = Some w' \<and> rep w' L []"
    and produced: "rep w L out \<Longrightarrow> length out \<le> L"
    and rep_safe: "rep w L out \<Longrightarrow> safe w"
    and flush: "safe w \<Longrightarrow> \<exists>w'. w_flush W w = Some w' \<and> ended w' \<and>
      (\<forall>L out. rep w L out \<longrightarrow> final w' L out \<and> (w_check_length W w' \<longleftrightarrow> length out = L))"
    and append: "rep w L out \<Longrightarrow> p + n \<le> length m \<Longrightarrow>
      \<exists>w' ok. w_append W w m p n = Some (w', ok) \<and> (ok \<longleftrightarrow> length out + n \<le> L) \<and>
        (if ok then rep w' L (out @ take n (drop p m)) else safe w')"
    and try_fast: "rep w L out \<Longrightarrow> p + avail \<le> length m \<Longrightarrow>
      \<exists>w' ok. w_try_fast_append W w m p avail n = Some (w', ok) \<and>
        (ok \<longrightarrow> n \<le> 16 \<and> n + 5 \<le> avail \<and> length out + n \<le> L \<and>
          rep w' L (out @ take n (drop p m))) \<and>
        (\<not> ok \<longrightarrow> w' = w)"
    and append_self: "rep w L out \<Longrightarrow> 0 < n \<Longrightarrow> n \<le> 64 \<Longrightarrow> d < 2 ^ 33 \<Longrightarrow>
      \<exists>w' ok. w_append_from_self W w d n = Some (w', ok) \<and>
        (ok \<longleftrightarrow> 0 < d \<and> d \<le> length out \<and> length out + n \<le> L) \<and>
        (if ok then rep w' L (lz_copy out d n) else safe w')"

subsection \<open>What is still to be decompressed\<close>

definition unread :: "('s \<Rightarrow> byte list) \<Rightarrow> 's decompressor \<Rightarrow> nat \<Rightarrow> byte list" where
  "unread content d p =
     take (ip_limit d - p) (drop p (win d)) @ drop (peeked d) (content (reader d))"

definition window_ok :: "('s \<Rightarrow> byte list) \<Rightarrow> 's decompressor \<Rightarrow> nat \<Rightarrow> bool" where
  "window_ok content d p \<longleftrightarrow>
     p \<le> ip_limit d \<and> ip_limit d \<le> length (win d) \<and> length (win d) < 2 ^ 32 \<and>
     length (scratch d) = 5 \<and> length (content (reader d)) < 2 ^ 32 \<and>
     peeked d \<le> length (content (reader d)) \<and> \<not> eof d"

text \<open>After a refill the tag at \<open>p\<close> has its operands in the window and five bytes are readable.\<close>

definition tag_ready :: "('s \<Rightarrow> byte list) \<Rightarrow> 's decompressor \<Rightarrow> nat \<Rightarrow> bool" where
  "tag_ready content d p \<longleftrightarrow>
     window_ok content d p \<and> p < ip_limit d \<and> p + 5 \<le> length (win d) \<and>
     p + 1 + tag_extra (unat (win d ! p)) \<le> ip_limit d"

lemma unread_advance:
  assumes "p + n \<le> ip_limit d" and "ip_limit d \<le> length (win d)"
  shows "unread content d (p + n) = drop n (unread content d p)"
proof -
  have "n \<le> length (take (ip_limit d - p) (drop p (win d)))"
    using assms by simp
  then have "drop n (unread content d p)
      = drop n (take (ip_limit d - p) (drop p (win d))) @ drop (peeked d) (content (reader d))"
    by (simp add: unread_def)
  then show ?thesis
    by (simp add: unread_def drop_take add.commute)
qed

lemma unread_take:
  assumes "p + n \<le> ip_limit d" and "ip_limit d \<le> length (win d)"
  shows "take n (unread content d p) = take n (drop p (win d))"
proof -
  have "n \<le> length (take (ip_limit d - p) (drop p (win d)))" and "min n (ip_limit d - p) = n"
    using assms by simp_all
  then show ?thesis
    by (simp add: unread_def)
qed

lemma unread_Cons:
  assumes "p < ip_limit d" and "ip_limit d \<le> length (win d)"
  shows "unread content d p = win d ! p # unread content d (p + 1)"
proof -
  have "ip_limit d - p = Suc (ip_limit d - (p + 1))"
    using assms(1) by simp
  moreover have "drop p (win d) = win d ! p # drop (p + 1) (win d)"
    using assms by (simp add: Cons_nth_drop_Suc)
  ultimately show ?thesis
    unfolding unread_def by (simp only: take_Suc_Cons append_Cons)
qed

text \<open>The three kinds of tag, each with the number of its operand bytes.\<close>

lemma parse_short_literal:
  "unat c mod 4 = 0 \<Longrightarrow> unat c div 4 < 60 \<Longrightarrow>
   parse_element (c # bs) = do { (l, bs) \<leftarrow> take_bytes (unat c div 4 + 1) bs; Some (Literal l, bs) }"
  by (simp only: parse_element.simps Let_def if_True simp_thms)

lemma parse_long_literal:
  assumes "unat c mod 4 = 0" and "\<not> unat c div 4 < 60"
  shows "parse_element (c # bs) = do {
     (e, bs) \<leftarrow> take_bytes (tag_extra (unat c)) bs;
     (l, bs) \<leftarrow> take_bytes ((le_nat e + 1) mod 2 ^ 32) bs;
     Some (Literal l, bs) }"
  using assms by (simp only: parse_element.simps Let_def if_True if_False tag_extra_def simp_thms)

lemma parse_copy:
  assumes "unat c mod 4 \<noteq> 0"
  shows "parse_element (c # bs) = do {
     (e, bs) \<leftarrow> take_bytes (tag_extra (unat c)) bs;
     Some (Copy (tag_high (unat c) + le_nat e) (tag_length (unat c)), bs) }"
proof (cases "unat c mod 4 = 1")
  case True
  then show ?thesis
    using assms by (simp only: parse_element.simps Let_def if_True if_False tag_extra_def
        tag_high_def tag_length_def simp_thms)
next
  case False
  then show ?thesis
    using assms by (simp only: parse_element.simps Let_def if_True if_False tag_extra_def
        tag_high_def tag_length_def simp_thms add_0)
qed

lemma parse_element_short:
  assumes "length bs < tag_extra (unat c)"
  shows "parse_element (c # bs) = None"
proof (cases "unat c mod 4 = 0")
  case True
  with assms have long: "\<not> unat c div 4 < 60"
    by (simp only: tag_extra_def if_True) (simp split: if_splits)
  from assms show ?thesis
    unfolding parse_long_literal [OF True long] by (simp add: take_bytes_def)
next
  case False
  from assms show ?thesis
    unfolding parse_copy [OF False] by (simp add: take_bytes_def)
qed

context snappy_source
begin

lemma peek_length: "length (src_peek S s) \<le> length (content s)"
  using peek_region [of s] by auto

lemma peek_take: "n \<le> length (src_peek S s) \<Longrightarrow> take n (src_peek S s) = take n (content s)"
  using peek_region [of s] by auto

lemma stitch_result:
  assumes "length scr = 5" "nbuf \<le> needed" "needed \<le> 5" "length (content r) < 2 ^ 32"
  shows "\<exists>r' scr' ok. stitch S r scr nbuf needed = Some (r', scr', ok) \<and> length scr' = 5 \<and>
    (ok \<longleftrightarrow> needed - nbuf \<le> length (content r)) \<and>
    (ok \<longrightarrow> content r' = drop (needed - nbuf) (content r) \<and>
      take needed scr' = take nbuf scr @ take (needed - nbuf) (content r))"
  using assms
proof (induction "needed - nbuf" arbitrary: r scr nbuf rule: less_induct)
  case less
  show ?case
  proof (cases "nbuf < needed")
    case False
    with less.prems show ?thesis
      by (intro exI [of _ r] exI [of _ scr] exI [of _ True]) (simp add: stitch.simps)
  next
    case True
    let ?src = "src_peek S r"
    show ?thesis
    proof (cases "?src = []")
      case True
      with \<open>nbuf < needed\<close> less.prems peek_nonempty [OF True] show ?thesis
        by (intro exI [of _ r] exI [of _ scr] exI [of _ False]) (simp add: stitch.simps [of S r])
    next
      case False
      obtain n where n_min: "n = min (needed - nbuf) (length ?src)"
        by blast
      have small: "length ?src < 2 ^ 32"
        using peek_length [of r] less.prems(4) by simp
      have n: "0 < n" "n \<le> needed - nbuf" "n \<le> length (content r)" "n \<le> length ?src" "nbuf + n \<le> 5"
        using n_min False True peek_length [of r] less.prems by auto
      have t: "mem_read ?src 0 n = Some (take n (content r))"
        using peek_take [OF n(4)] n(4) by (simp add: mem_read_def)
      have "nbuf + length (take n (content r)) \<le> length scr"
        using n less.prems by simp
      then obtain scr1 where scr1: "mem_write scr nbuf (take n (content r)) = Some scr1"
        by (simp add: mem_write_def)
      have l1: "length scr1 = 5" and t1: "take (nbuf + n) scr1 = take nbuf scr @ take n (content r)"
        using mem_write_length [OF scr1] mem_write_take [OF scr1] less.prems n by (simp_all add: min_absorb2)
      have c1: "content (src_skip S r n) = drop n (content r)"
        using n(3) by (rule skip_content)
      have step: "stitch S r scr nbuf needed = stitch S (src_skip S r n) scr1 (nbuf + n) needed"
        using \<open>nbuf < needed\<close> False small t scr1 by (subst stitch.simps) (simp add: Let_def flip: n_min)
      have "needed - (nbuf + n) < needed - nbuf"
        using n True by auto
      moreover have "nbuf + n \<le> needed" and "length (content (src_skip S r n)) < 2 ^ 32"
        using n c1 less.prems by simp_all
      ultimately obtain r' scr' ok where
        IH: "stitch S (src_skip S r n) scr1 (nbuf + n) needed = Some (r', scr', ok)"
        "length scr' = 5" "ok \<longleftrightarrow> needed - (nbuf + n) \<le> length (drop n (content r))"
        "ok \<longrightarrow> content r' = drop (needed - (nbuf + n)) (drop n (content r)) \<and>
           take needed scr' = take (nbuf + n) scr1 @ take (needed - (nbuf + n)) (drop n (content r))"
        using less.hyps [of "nbuf + n" scr1 "src_skip S r n"] l1 less.prems(3) unfolding c1
        by blast
      have "take n (content r) @ take (needed - (nbuf + n)) (drop n (content r))
          = take (needed - nbuf) (content r)"
      proof -
        have "n + (needed - (nbuf + n)) = needed - nbuf"
          using n(2) \<open>nbuf < needed\<close> by simp
        then show ?thesis
          using take_add [of n "needed - (nbuf + n)" "content r"] by simp
      qed
      with IH t1 n step show ?thesis
        by (auto simp: add.commute)
    qed
  qed
qed

lemma refill_fetch_result:
  assumes w: "window_ok content d (ip d)" and res: "refill_fetch S d = (d', p, go)"
  shows "if go
    then window_ok content d' p \<and> p < ip_limit d' \<and> unread content d' p = unread content d (ip d)
    else eof d' \<and> unread content d (ip d) = []"
proof (cases "ip d = ip_limit d")
  case False
  with w res show ?thesis
    by (auto simp: refill_fetch_def window_ok_def)
next
  case True
  let ?r = "src_skip S (reader d) (peeked d)"
  have c: "content ?r = drop (peeked d) (content (reader d))"
    using w by (intro skip_content) (simp add: window_ok_def)
  have u: "unread content d (ip d) = content ?r"
    using True c by (simp add: unread_def)
  show ?thesis
  proof (cases "src_peek S ?r = []")
    case empty: True
    with True res u peek_nonempty [OF empty] show ?thesis
      by (auto simp: refill_fetch_def Let_def)
  next
    case False
    have l: "length (src_peek S ?r) \<le> length (content ?r)" "length (content ?r) < 2 ^ 32"
      using peek_length [of ?r] w c by (auto simp: window_ok_def)
    obtain rest where "content ?r = src_peek S ?r @ rest"
      using peek_region by blast
    with True False res u l w show ?thesis
      by (auto simp: refill_fetch_def Let_def window_ok_def unread_def)
  qed
qed

text \<open>A window laid out anew in \<open>scratch_\<close>: its first \<open>n\<close> bytes and the source make up the input.\<close>

lemma scratch_window:
  assumes "length scr = 5" "0 < n" "n \<le> 5" "length (content r) < 2 ^ 32"
    and "take n scr @ content r = c # u" "1 + tag_extra (unat c) \<le> n" "\<not> eof d"
  shows "tag_ready content (d\<lparr>reader := r, peeked := 0, scratch := scr, win := scr, ip := 0,
      ip_limit := n\<rparr>) 0"
    and "unread content (d\<lparr>reader := r, peeked := 0, scratch := scr, win := scr, ip := 0,
      ip_limit := n\<rparr>) 0 = c # u"
proof -
  have "scr ! 0 = c"
    using assms(1,2,5) by (cases scr; cases n) auto
  with assms show "tag_ready content (d\<lparr>reader := r, peeked := 0, scratch := scr, win := scr,
      ip := 0, ip_limit := n\<rparr>) 0"
    by (simp add: tag_ready_def window_ok_def)
  show "unread content (d\<lparr>reader := r, peeked := 0, scratch := scr, win := scr, ip := 0,
      ip_limit := n\<rparr>) 0 = c # u"
    using assms(5) by (simp add: unread_def)
qed

lemma refill_tag_result:
  assumes w: "window_ok content d (ip d)"
  shows "\<exists>d' ok. refill_tag S d = Some (d', ok) \<and>
    (if ok then tag_ready content d' (ip d') \<and> unread content d' (ip d') = unread content d (ip d)
     else if eof d' then unread content d (ip d) = []
     else unread content d (ip d) \<noteq> [] \<and> parse_element (unread content d (ip d)) = None)"
proof -
  obtain d1 p go where f: "refill_fetch S d = (d1, p, go)"
    by (cases "refill_fetch S d") auto
  note fr = refill_fetch_result [OF w f]
  show ?thesis
  proof (cases go)
    case False
    with f fr show ?thesis
      by (intro exI [of _ d1] exI [of _ False]) (simp add: refill_tag_def)
  next
    case True
    with fr have w1: "window_ok content d1 p" and p: "p < ip_limit d1"
      and U: "unread content d1 p = unread content d (ip d)"
      by simp_all
    from w1 have lim: "ip_limit d1 \<le> length (win d1)" "length (win d1) < 2 ^ 32"
      "length (scratch d1) = 5" "\<not> eof d1"
      by (simp_all add: window_ok_def)
    let ?c = "win d1 ! p" and ?n = "ip_limit d1 - p"
    let ?needed = "tag_extra (unat ?c) + 1" and ?u = "unread content d1 (p + 1)"
    let ?r = "src_skip S (reader d1) (peeked d1)" and ?t = "take ?n (drop p (win d1))"
    have Uc: "unread content d1 p = ?c # ?u"
      using p lim by (intro unread_Cons)
    have C: "content ?r = drop (peeked d1) (content (reader d1))"
      using w1 by (intro skip_content) (simp add: window_ok_def)
    have Ut: "?t @ content ?r = ?c # ?u"
      using Uc by (simp add: unread_def C)
    have lt: "length ?t = ?n" "length (content ?r) < 2 ^ 32"
      using lim p w1 by (auto simp: C window_ok_def)
    have len: "length ?u + 1 = ?n + length (content ?r)"
      using arg_cong [OF Ut, of length] lt(1) by simp
    have c: "mem_read (win d1) p 1 = Some [?c]"
      using p lim by (simp add: mem_read_def take_Suc_conv_app_nth hd_drop_conv_nth take_Suc)
    have n: "0 < ?n" "?n mod 2 ^ 32 = ?n" "?needed \<le> 5"
      using p lim tag_extra_le [of ?c] by simp_all
    have t: "?n \<le> 5 \<Longrightarrow> mem_read (win d1) p ?n = Some ?t"
      "?n \<le> 5 \<Longrightarrow> mem_write (scratch d1) 0 ?t = Some (?t @ drop ?n (scratch d1))"
      using lim p lt by (simp_all add: mem_read_def mem_write_def)
    let ?scr = "?t @ drop ?n (scratch d1)"
    have scr: "length ?scr = 5 \<and> take ?n ?scr = ?t" if "?n \<le> 5"
      using that lt lim by simp
    have rt: "refill_tag S d =
      (if ?n < ?needed then do {
          t \<leftarrow> mem_read (win d1) p ?n;
          scr \<leftarrow> mem_write (scratch d1) 0 t;
          (r, scr, ok) \<leftarrow> stitch S ?r scr ?n ?needed;
          let d = d1\<lparr>reader := r, peeked := 0, scratch := scr\<rparr>;
          if ok then Some (d\<lparr>win := scr, ip := 0, ip_limit := ?needed\<rparr>, True)
          else Some (d, False) }
        else if ?n < 5 then do {
          t \<leftarrow> mem_read (win d1) p ?n;
          scr \<leftarrow> mem_write (scratch d1) 0 t;
          Some (d1\<lparr>reader := ?r, peeked := 0, scratch := scr,
            win := scr, ip := 0, ip_limit := ?n\<rparr>, True) }
        else Some (d1\<lparr>ip := p\<rparr>, True))"
      using p n(3) True
      unfolding refill_tag_def f Let_def prod.case c bind.bind_lunit list.sel
        char_table_entry(1) n(2) by simp
    consider "?n < ?needed" | "\<not> ?n < ?needed" "?n < 5" | "\<not> ?n < ?needed" "\<not> ?n < 5"
      by blast
    then show ?thesis
    proof cases
      case 1
      then have n5: "?n \<le> 5"
        using n by simp
      obtain r' scr' ok where st: "stitch S ?r ?scr ?n ?needed = Some (r', scr', ok)"
        "length scr' = 5" "ok \<longleftrightarrow> ?needed - ?n \<le> length (content ?r)"
        "ok \<longrightarrow> content r' = drop (?needed - ?n) (content ?r) \<and>
           take ?needed scr' = take ?n ?scr @ take (?needed - ?n) (content ?r)"
        using stitch_result [of ?scr ?n ?needed ?r] scr n 1 lt by fastforce
      show ?thesis
      proof (cases ok)
        case True
        with st have r': "content r' = drop (?needed - ?n) (content ?r)"
          and "take ?needed scr' = take ?n ?scr @ take (?needed - ?n) (content ?r)"
          by blast+
        then have "take ?needed scr' @ content r' = ?t @ content ?r"
          using scr [OF n5] by (simp only: append.assoc append_take_drop_id)
        moreover have "length (content r') < 2 ^ 32"
          using r' lt(2) by simp
        ultimately have r': "take ?needed scr' @ content r' = ?c # ?u" "length (content r') < 2 ^ 32"
          by (simp_all only: Ut)
        note sw = scratch_window [OF st(2) _ n(3) r'(2,1), of d1]
        have "refill_tag S d = Some (d1\<lparr>reader := r', peeked := 0, scratch := scr',
            win := scr', ip := 0, ip_limit := ?needed\<rparr>, True)"
          using 1 st(1) True by (simp add: rt t [OF n5])
        with sw lim Uc U show ?thesis
          by - (rule exI, rule exI, rule conjI, assumption, simp)
      next
        case False
        with st(3) len have "length ?u < tag_extra (unat ?c)"
          by simp
        then have "parse_element (unread content d (ip d)) = None"
          unfolding U [symmetric] Uc by (rule parse_element_short)
        moreover have "refill_tag S d = Some (d1\<lparr>reader := r', peeked := 0, scratch := scr'\<rparr>, False)"
          using 1 st(1) False by (simp add: rt t [OF n5])
        ultimately show ?thesis
          using lim(4) Uc U by - (rule exI, rule exI, rule conjI, assumption, simp)
      qed
    next
      case 2
      then have n5: "?n \<le> 5"
        by simp
      then have s: "take ?n ?scr @ content ?r = ?c # ?u"
        using scr Ut by metis
      note sw = scratch_window [OF _ n(1) n5 lt(2) s, of d1]
      have "refill_tag S d = Some (d1\<lparr>reader := ?r, peeked := 0, scratch := ?scr, win := ?scr,
          ip := 0, ip_limit := ?n\<rparr>, True)"
        using 2 t by (simp add: rt)
      moreover have "length ?scr = 5"
        using scr n5 by blast
      ultimately show ?thesis
        using sw 2 lim Uc U by - (rule exI, rule exI, rule conjI, assumption, simp)
    next
      case 3
      have "tag_ready content (d1\<lparr>ip := p\<rparr>) p" "unread content (d1\<lparr>ip := p\<rparr>) p = unread content d1 p"
        using 3 w1 p lim by (auto simp: tag_ready_def window_ok_def unread_def)
      moreover have "refill_tag S d = Some (d1\<lparr>ip := p\<rparr>, True)"
        using 3 by (simp add: rt)
      ultimately show ?thesis
        using U by - (rule exI, rule exI, rule conjI, assumption, simp)
    qed
  qed
qed

lemma maybe_refill_result:
  assumes w: "window_ok content d p"
  shows "\<exists>d' p' ok. maybe_refill S d p = Some (d', p', ok) \<and>
    (if ok then tag_ready content d' p' \<and> unread content d' p' = unread content d p
     else if eof d' then unread content d p = []
     else unread content d p \<noteq> [] \<and> parse_element (unread content d p) = None)"
proof (cases "ip_limit d - p < 5")
  case False
  moreover from this w tag_extra_le [of "win d ! p"] have "tag_ready content d p"
    by (auto simp: tag_ready_def window_ok_def)
  ultimately show ?thesis
    by (intro exI [of _ d] exI [of _ p] exI [of _ True]) (simp add: maybe_refill_def)
next
  case True
  have "window_ok content (d\<lparr>ip := p\<rparr>) (ip (d\<lparr>ip := p\<rparr>))"
    using w by (simp add: window_ok_def)
  moreover have u: "unread content (d\<lparr>ip := p\<rparr>) (ip (d\<lparr>ip := p\<rparr>)) = unread content d p"
    by (simp add: unread_def)
  ultimately obtain d' ok where
    r: "refill_tag S (d\<lparr>ip := p\<rparr>) = Some (d', ok)"
    "if ok then tag_ready content d' (ip d') \<and> unread content d' (ip d') = unread content d p
     else if eof d' then unread content d p = []
     else unread content d p \<noteq> [] \<and> parse_element (unread content d p) = None"
    using refill_tag_result [of "d\<lparr>ip := p\<rparr>"] unfolding u by blast
  have "maybe_refill S d p = Some (d', ip d', ok)"
    using True r(1) by (simp add: maybe_refill_def)
  with r(2) show ?thesis
    by blast
qed

end

subsection \<open>One tag\<close>

text \<open>
  How the function returns when the input \<open>U\<close> is left and \<open>out\<close> has been produced: at the end of
  the input with what the reference decoder makes of it, or before because it makes nothing
  of it or more than the announced length.
\<close>

definition decode_result ::
  "('w \<Rightarrow> bool) \<Rightarrow> ('w \<Rightarrow> nat \<Rightarrow> byte list \<Rightarrow> bool) \<Rightarrow> nat \<Rightarrow> byte list \<Rightarrow> byte list \<Rightarrow> bool \<Rightarrow> 'w \<Rightarrow> bool" where
  "decode_result safe rep L U out at_eof w \<longleftrightarrow>
     (if at_eof then \<exists>out'. snappy_decode U out = Some out' \<and> rep w L out'
      else safe w \<and> (\<forall>out'. snappy_decode U out = Some out' \<longrightarrow> L < length out'))"

definition tag_result ::
  "('s \<Rightarrow> byte list) \<Rightarrow> ('w \<Rightarrow> bool) \<Rightarrow> ('w \<Rightarrow> nat \<Rightarrow> byte list \<Rightarrow> bool) \<Rightarrow> nat \<Rightarrow> byte list \<Rightarrow> byte list \<Rightarrow>
   ('s decompressor \<times> nat \<times> 'w + 's decompressor \<times> 'w) \<Rightarrow> bool" where
  "tag_result content safe rep L U out res \<longleftrightarrow>
     (case res of
        Inl (d, p, w) \<Rightarrow> \<exists>e out'. parse_element U = Some (e, unread content d p) \<and>
          apply_element out e = Some out' \<and> rep w L out' \<and> tag_ready content d p
      | Inr (d, w) \<Rightarrow> decode_result safe rep L U out (eof d) w)"

lemma decode_result_step:
  assumes "parse_element U = Some (e, r)" and "apply_element out e = Some out'"
  shows "decode_result safe rep L U out b w = decode_result safe rep L r out' b w"
  using assms by (simp add: decode_result_def snappy_decode_step)

lemma decode_result_over:
  "safe w \<Longrightarrow> L < length out \<Longrightarrow> decode_result safe rep L U out False w"
  using snappy_decode_grows [of U out] by (auto simp: decode_result_def)

lemma decode_result_stuck:
  "safe w \<Longrightarrow> U \<noteq> [] \<Longrightarrow> parse_element U = None \<Longrightarrow> decode_result safe rep L U out False w"
  by (simp add: decode_result_def snappy_decode_stuck)

lemma decode_result_refused:
  "safe w \<Longrightarrow> parse_element U = Some (e, r) \<Longrightarrow> apply_element out e = None \<Longrightarrow>
   decode_result safe rep L U out False w"
  by (simp add: decode_result_def snappy_decode_step)

locale snappy_decoding =
  snappy_source S content + snappy_writer W fresh rep safe final ended
  for S :: "'s source_ops" and content :: "'s \<Rightarrow> byte list"
    and W :: "'w writer_ops" and fresh :: "'w \<Rightarrow> nat \<Rightarrow> bool"
    and rep :: "'w \<Rightarrow> nat \<Rightarrow> byte list \<Rightarrow> bool" and safe :: "'w \<Rightarrow> bool"
    and final :: "'w \<Rightarrow> nat \<Rightarrow> byte list \<Rightarrow> bool" and ended :: "'w \<Rightarrow> bool"
begin

text \<open>After the element at the front of \<open>U\<close>: on to the next tag, or the end.\<close>

lemma next_tag_result:
  assumes "window_ok content d p" and "rep w L out'"
    and "parse_element U = Some (e, unread content d p)" and "apply_element out e = Some out'"
  shows "\<exists>d' p' ok. maybe_refill S d p = Some (d', p', ok) \<and>
    tag_result content safe rep L U out (if ok then Inl (d', p', w) else Inr (d', w))"
proof -
  from maybe_refill_result [OF assms(1)] obtain d' p' ok where
    m: "maybe_refill S d p = Some (d', p', ok)"
    "if ok then tag_ready content d' p' \<and> unread content d' p' = unread content d p
     else if eof d' then unread content d p = []
     else unread content d p \<noteq> [] \<and> parse_element (unread content d p) = None"
    by blast
  have "tag_result content safe rep L U out (if ok then Inl (d', p', w) else Inr (d', w))"
  proof (cases ok)
    case True
    with m(2) assms(2-4) show ?thesis
      by (auto simp: tag_result_def)
  next
    case False
    have "decode_result safe rep L (unread content d p) out' (eof d') w"
    proof (cases "eof d'")
      case True
      with m(2) False assms(2) show ?thesis
        by (simp add: decode_result_def)
    next
      case nonempty: False
      with m(2) False rep_safe [OF assms(2)] show ?thesis
        by (simp add: decode_result_stuck)
    qed
    with False show ?thesis
      by (simp add: tag_result_def decode_result_step [OF assms(3,4)])
  qed
  with m(1) show ?thesis
    by blast
qed

text \<open>The literal: first the regions it takes up whole, then what is left of it.\<close>

lemma literal_loop_result:
  assumes "window_ok content d p" and "rep w L out"
  shows "\<exists>res. literal_loop S W d p w lit (ip_limit d - p) = Some res \<and>
    (case res of
       Inl (d', p', w', lit') \<Rightarrow> \<exists>k. lit = k + lit' \<and> lit' \<le> ip_limit d' - p' \<and>
         k \<le> length (unread content d p) \<and> window_ok content d' p' \<and>
         rep w' L (out @ take k (unread content d p)) \<and>
         unread content d' p' = drop k (unread content d p)
     | Inr (d', w') \<Rightarrow> safe w' \<and> \<not> eof d' \<and> (length (unread content d p) < lit \<or> L < length out + lit))"
  using assms
proof (induction "length (content (reader d)) - peeked d" arbitrary: d p w lit out rule: less_induct)
  case less
  note w = \<open>window_ok content d p\<close>
  let ?n = "ip_limit d - p" and ?r = "src_skip S (reader d) (peeked d)" and ?U = "unread content d p"
  let ?b = "src_peek S ?r" and ?A = "take (ip_limit d - p) (drop p (win d))"
  have lim: "p + ?n \<le> length (win d)" "\<not> eof d"
    using w by (auto simp: window_ok_def)
  have C: "content ?r = drop (peeked d) (content (reader d))"
    using w by (intro skip_content) (simp add: window_ok_def)
  have U: "?U = ?A @ content ?r" and A: "length ?A = ?n"
    using lim by (simp_all add: unread_def C)
  show ?case
  proof (cases "?n < lit")
    case False
    have "literal_loop S W d p w lit ?n = Some (Inl (d, p, w, lit))"
      using False by (simp add: literal_loop.simps)
    with less.prems False show ?thesis
      by - (rule exI, rule conjI, assumption, simp add: not_less exI [of _ 0])
  next
    case True
    from append [OF less.prems(2) lim(1)] obtain w1 ok where
      a: "w_append W w (win d) p ?n = Some (w1, ok)" "ok \<longleftrightarrow> length out + ?n \<le> L"
      "if ok then rep w1 L (out @ ?A) else safe w1"
      by blast
    have a3: "rep w1 L (out @ ?A)" if ok
      using a(3) that by simp
    show ?thesis
    proof (cases ok)
      case False
      have "literal_loop S W d p w lit ?n = Some (Inr (d, w1))"
        using True a(1) False by (subst literal_loop.simps) simp
      moreover have "L < length out + lit" "safe w1"
        using a(2,3) False True by simp_all
      ultimately show ?thesis
        using lim(2) by - (rule exI, rule conjI, assumption, simp)
    next
      case ok: True
      let ?d = "d\<lparr>reader := ?r, peeked := length ?b mod 2 ^ 32\<rparr>"
      show ?thesis
      proof (cases "?b = []")
        case empty: True
        have "literal_loop S W d p w lit ?n = Some (Inr (?d, w1))"
          using True a(1) ok empty by (subst literal_loop.simps) (simp add: Let_def)
        moreover have "length ?U < lit" "safe w1"
          using U A True peek_nonempty [OF empty] rep_safe [OF a3 [OF ok]] by simp_all
        ultimately show ?thesis
          using lim(2) by - (rule exI, rule conjI, assumption, simp)
      next
        case False
        let ?d2 = "?d\<lparr>win := ?b, ip_limit := length ?b\<rparr>"
        have step: "literal_loop S W d p w lit ?n = literal_loop S W ?d2 0 w1 (lit - ?n) (length ?b)"
          using True a(1) ok False by (subst literal_loop.simps) (simp add: Let_def)
        have b: "0 < length ?b" "length ?b \<le> length (content ?r)" "length (content ?r) < 2 ^ 32"
          using False peek_length [of ?r] w by (auto simp: C window_ok_def)
        have w2: "window_ok content ?d2 0"
          using b w by (simp add: window_ok_def)
        obtain rest where "content ?r = ?b @ rest"
          using peek_region by blast
        then have u2: "unread content ?d2 0 = content ?r"
          using b by (simp add: unread_def)
        have "length (content (reader ?d2)) - peeked ?d2 = length (content ?r) - length ?b"
          using b by simp
        moreover have "length (content ?r) = length (content (reader d)) - peeked d"
          by (simp add: C)
        ultimately have "length (content (reader ?d2)) - peeked ?d2
            < length (content (reader d)) - peeked d"
          using b by linarith
        from less.hyps [OF this w2 a3 [OF ok], of "lit - ?n"] obtain res where
          IH: "literal_loop S W ?d2 0 w1 (lit - ?n) (ip_limit ?d2 - 0) = Some res"
          "case res of
             Inl (d', p', w', lit') \<Rightarrow> \<exists>k. lit - ?n = k + lit' \<and> lit' \<le> ip_limit d' - p' \<and>
               k \<le> length (content ?r) \<and> window_ok content d' p' \<and>
               rep w' L ((out @ ?A) @ take k (content ?r)) \<and>
               unread content d' p' = drop k (content ?r)
           | Inr (d', w') \<Rightarrow> safe w' \<and> \<not> eof d' \<and>
               (length (content ?r) < lit - ?n \<or> L < length (out @ ?A) + (lit - ?n))"
          unfolding u2 by blast
        have "case res of
             Inl (d', p', w', lit') \<Rightarrow> \<exists>k. lit = k + lit' \<and> lit' \<le> ip_limit d' - p' \<and>
               k \<le> length ?U \<and> window_ok content d' p' \<and>
               rep w' L (out @ take k ?U) \<and> unread content d' p' = drop k ?U
           | Inr (d', w') \<Rightarrow> safe w' \<and> \<not> eof d' \<and> (length ?U < lit \<or> L < length out + lit)"
        proof (cases res)
          case (Inr dw)
          with IH(2) U A True show ?thesis
            by (cases dw) auto
        next
          case (Inl x)
          obtain d' p' w' lit' where x: "x = (d', p', w', lit')"
            by (cases x)
          from IH(2) obtain k where k: "lit - ?n = k + lit'" "lit' \<le> ip_limit d' - p'"
            "k \<le> length (content ?r)" "window_ok content d' p'"
            "rep w' L ((out @ ?A) @ take k (content ?r))" "unread content d' p' = drop k (content ?r)"
            unfolding Inl x by auto
          have "take (?n + k) ?U = ?A @ take k (content ?r)" "drop (?n + k) ?U = drop k (content ?r)"
            unfolding U using A by (simp_all only: take_append drop_append) simp_all
          moreover have "?n + k \<le> length ?U"
            unfolding U using A k(3) by simp
          ultimately show ?thesis
            using k True unfolding Inl x sum.case prod.case
            by (intro exI [of _ "?n + k"]) simp
        qed
        with IH(1) step show ?thesis
          by simp
      qed
    qed
  qed
qed

text \<open>The second half of the literal branch, from where its length is known.\<close>

lemma literal_rest_result:
  assumes w: "window_ok content d p" and r: "rep w L out"
    and parse: "parse_element U =
      do { (l, bs) \<leftarrow> take_bytes lit (unread content d p); Some (Literal l, bs) }"
    and ne: "U \<noteq> []"
  shows "\<exists>res. do {
      res \<leftarrow> literal_loop S W d p w lit (ip_limit d - p);
      case res of
        Inr dw \<Rightarrow> Some (Inr dw)
      | Inl (d, p, w, lit) \<Rightarrow> do {
          (w, ok) \<leftarrow> w_append W w (win d) p lit;
          if \<not> ok then Some (Inr (d, w))
          else do {
            (d, p, more) \<leftarrow> maybe_refill S d (p + lit);
            Some (if more then Inl (d, p, w) else Inr (d, w)) } } } = Some res \<and>
    tag_result content safe rep L U out res"
proof -
  let ?V = "unread content d p"
  have "\<not> eof d"
    using w by (simp add: window_ok_def)
  from literal_loop_result [OF w r, of lit] obtain res where
    l: "literal_loop S W d p w lit (ip_limit d - p) = Some res"
    "case res of
       Inl (d', p', w', lit') \<Rightarrow> \<exists>k. lit = k + lit' \<and> lit' \<le> ip_limit d' - p' \<and>
         k \<le> length ?V \<and> window_ok content d' p' \<and>
         rep w' L (out @ take k ?V) \<and> unread content d' p' = drop k ?V
     | Inr (d', w') \<Rightarrow> safe w' \<and> \<not> eof d' \<and> (length ?V < lit \<or> L < length out + lit)"
    by blast
  show ?thesis
  proof (cases res)
    case (Inr dw)
    obtain d' w' where dw: "dw = (d', w')"
      by (cases dw)
    from l(2) have n: "\<not> eof d'" "length ?V < lit \<or> L < length out + lit" and s: "safe w'"
      unfolding Inr dw by simp_all
    have "decode_result safe rep L U out False w'"
    proof (cases "lit \<le> length ?V")
      case True
      then have "parse_element U = Some (Literal (take lit ?V), drop lit ?V)"
        by (simp add: parse take_bytes_def)
      moreover have "L < length (out @ take lit ?V)"
        using n(2) True by simp
      ultimately show ?thesis
        by (subst decode_result_step)
          (assumption, rule apply_element.simps, rule decode_result_over [where safe = safe, OF s])
    next
      case False
      then have "parse_element U = None"
        by (simp add: parse take_bytes_def)
      with s ne show ?thesis
        by (rule decode_result_stuck)
    qed
    with l(1) n(1) show ?thesis
      by (simp add: Inr dw tag_result_def)
  next
    case (Inl x)
    obtain d' p' w' lit' where x: "x = (d', p', w', lit')"
      by (cases x)
    from l(2) obtain k where k: "lit = k + lit'" "lit' \<le> ip_limit d' - p'" "k \<le> length ?V"
      "window_ok content d' p'" "rep w' L (out @ take k ?V)" "unread content d' p' = drop k ?V"
      unfolding Inl x by auto
    have lim: "p' + lit' \<le> ip_limit d'" "ip_limit d' \<le> length (win d')" "\<not> eof d'"
      using k(2,4) by (auto simp: window_ok_def)
    have piece: "take k ?V @ take lit' (drop p' (win d')) = take lit ?V"
      using unread_take [OF lim(1,2), of content] k(1,6) by (simp add: take_add)
    have fits: "lit \<le> length ?V"
    proof -
      have "lit' \<le> length (unread content d' p')"
        using lim by (simp add: unread_def)
      with k(1,3,6) show ?thesis
        by simp
    qed
    then have p: "parse_element U = Some (Literal (take lit ?V), drop lit ?V)"
      by (simp add: parse take_bytes_def)
    have after: "unread content d' (p' + lit') = drop lit ?V"
      using unread_advance [OF lim(1,2), of content] k(1,6) by (simp add: add.commute)
    have "p' + lit' \<le> length (win d')"
      using lim by simp
    from append [OF k(5) this] obtain w2 ok where
      a: "w_append W w' (win d') p' lit' = Some (w2, ok)"
      "ok \<longleftrightarrow> length (out @ take k ?V) + lit' \<le> L"
      "if ok then rep w2 L ((out @ take k ?V) @ take lit' (drop p' (win d'))) else safe w2"
      by blast
    have len: "length (out @ take k ?V) + lit' = length out + lit"
      using k(1,3) by simp
    show ?thesis
    proof (cases ok)
      case False
      with a(2,3) len fits have "L < length (out @ take lit ?V)" and s: "safe w2"
        by simp_all
      then have "decode_result safe rep L U out False w2"
        by (subst decode_result_step [OF p]) (rule apply_element.simps, rule decode_result_over [where safe = safe, OF s])
      with l(1) a(1) False lim(3) show ?thesis
        by (simp add: Inl x tag_result_def)
    next
      case True
      have "window_ok content d' (p' + lit')"
        using k(4) lim by (simp add: window_ok_def)
      moreover have "rep w2 L (out @ take lit ?V)"
        using a(3) True piece by simp
      moreover have "parse_element U = Some (Literal (take lit ?V), unread content d' (p' + lit'))"
        by (simp add: p after)
      ultimately obtain d2 p2 ok2 where
        m: "maybe_refill S d' (p' + lit') = Some (d2, p2, ok2)"
        "tag_result content safe rep L U out (if ok2 then Inl (d2, p2, w2) else Inr (d2, w2))"
        using next_tag_result [of d' "p' + lit'" w2 L "out @ take lit ?V" U "Literal (take lit ?V)" out]
        by auto
      have "do {
          res \<leftarrow> literal_loop S W d p w lit (ip_limit d - p);
          case res of
            Inr dw \<Rightarrow> Some (Inr dw)
          | Inl (d, p, w, lit) \<Rightarrow> do {
              (w, ok) \<leftarrow> w_append W w (win d) p lit;
              if \<not> ok then Some (Inr (d, w))
              else do {
                (d, p, more) \<leftarrow> maybe_refill S d (p + lit);
                Some (if more then Inl (d, p, w) else Inr (d, w)) } } }
          = Some (if ok2 then Inl (d2, p2, w2) else Inr (d2, w2))"
        using l(1) a(1) True m(1) by (simp add: Inl x)
      with m(2) show ?thesis
        by blast
    qed
  qed
qed

lemma and_mask_nat: "(c :: nat) AND 3 = c mod 4"
proof -
  have "c AND mask 2 = c mod 2 ^ 2"
    by (simp only: flip: take_bit_eq_mask take_bit_eq_mod)
  then show ?thesis
    by (simp add: mask_eq_exp_minus_1)
qed

lemma literal_tag_result:
  assumes t: "tag_ready content d p" and r: "rep w L out" and c: "unat (win d ! p) mod 4 = 0"
  shows "\<exists>res. literal_tag S W d (p + 1) w (unat (win d ! p)) = Some res \<and>
    tag_result content safe rep L (unread content d p) out res"
proof -
  let ?c = "win d ! p" and ?p = "p + 1" and ?U = "unread content d p"
  let ?n = "unat ?c div 4 + 1"
  have w: "window_ok content d p" and lim: "p < ip_limit d" "ip_limit d \<le> length (win d)"
    "p + 5 \<le> length (win d)" "?p + tag_extra (unat ?c) \<le> ip_limit d"
    using t by (auto simp: tag_ready_def window_ok_def)
  have w1: "window_ok content d (p + k)" if "p + k \<le> ip_limit d" for k
    using w that by (simp add: window_ok_def)
  have U: "?U = ?c # unread content d ?p"
    using lim by (intro unread_Cons)
  have "?p + (ip_limit d - ?p) \<le> length (win d)"
    using lim by simp
  from try_fast [OF r this, of ?n] obtain w1' fast where
    f: "w_try_fast_append W w (win d) ?p (ip_limit d - ?p) ?n = Some (w1', fast)"
    "fast \<longrightarrow> ?n \<le> 16 \<and> ?n + 5 \<le> ip_limit d - ?p \<and> length out + ?n \<le> L \<and>
       rep w1' L (out @ take ?n (drop ?p (win d)))"
    "\<not> fast \<longrightarrow> w1' = w"
    by blast
  show ?thesis
  proof (cases fast)
    case True
    with f(2) have n: "?n \<le> 16" "?n + 5 \<le> ip_limit d - ?p"
      "rep w1' L (out @ take ?n (drop ?p (win d)))"
      by blast+
    then have n2: "?p + ?n + 5 \<le> ip_limit d"
      by linarith
    have n': "?p + ?n \<le> ip_limit d"
      using n2 by simp
    have "length (unread content d ?p) \<ge> ?n"
      using n' lim by (simp add: unread_def)
    then have "parse_element ?U
        = Some (Literal (take ?n (drop ?p (win d))), unread content d (?p + ?n))"
      unfolding U using c n(1)
      by (subst parse_short_literal)
        (simp_all add: take_bytes_def unread_take [OF n' lim(2)] unread_advance [OF n' lim(2)]
          del: One_nat_def add_Suc_right)
    moreover have "tag_ready content d (?p + ?n)"
      using w1 [of "1 + ?n"] n2 lim tag_extra_le [of "win d ! (?p + ?n)"]
      by (simp add: tag_ready_def)
    moreover have "literal_tag S W d ?p w (unat ?c) = Some (Inl (d, ?p + ?n, w1'))"
      using f(1) True n(1) by (simp add: literal_tag_def)
    ultimately show ?thesis
      using n(3) by (auto simp: tag_result_def)
  next
    case False
    then have fast: "w_try_fast_append W w (win d) ?p (ip_limit d - ?p) ?n = Some (w, False)"
      using f by simp
    show ?thesis
    proof (cases "unat ?c div 4 < 60")
      case True
      have "parse_element ?U
          = do { (l, bs) \<leftarrow> take_bytes ?n (unread content d ?p); Some (Literal l, bs) }"
        unfolding U by (rule parse_short_literal [OF c True])
      from literal_rest_result [OF w1 r this] lim True fast U show ?thesis
        by (simp add: literal_tag_def)
    next
      case long: False
      let ?e = "tag_extra (unat ?c)"
      have e: "?n - 60 = ?e" "?e \<le> 4"
        using c long tag_extra_le [of ?c] by (simp_all add: tag_extra_def)
      obtain v where v: "load32 (win d) ?p = Some v"
        "unat (extract_low_bytes v ?e + 1) = (le_nat (take ?e (drop ?p (win d))) + 1) mod 2 ^ 32"
        using operand_value [of ?p "win d" ?e] lim(3) e(2) by auto
      let ?lit = "(le_nat (take ?e (drop ?p (win d))) + 1) mod 2 ^ 32"
      have "?e \<le> length (unread content d ?p)"
        using lim by (simp add: unread_def)
      then have "parse_element ?U
          = do { (l, bs) \<leftarrow> take_bytes ?lit (unread content d (?p + ?e)); Some (Literal l, bs) }"
        unfolding U parse_long_literal [OF c long]
        by (simp add: take_bytes_def [of ?e] unread_take [OF lim(4,2)] unread_advance [OF lim(4,2)]
            del: One_nat_def add_Suc_right)
      note res = literal_rest_result [OF _ r this]
      have "window_ok content d (?p + ?e)"
        using w1 [of "1 + ?e"] lim by simp
      from res [OF this] U have res: "\<exists>res. do {
          res \<leftarrow> literal_loop S W d (?p + ?e) w ?lit (ip_limit d - (?p + ?e));
          case res of
            Inr dw \<Rightarrow> Some (Inr dw)
          | Inl (d, p, w, lit) \<Rightarrow> do {
              (w, ok) \<leftarrow> w_append W w (win d) p lit;
              if \<not> ok then Some (Inr (d, w))
              else do {
                (d, p, more) \<leftarrow> maybe_refill S d (p + lit);
                Some (if more then Inl (d, p, w) else Inr (d, w)) } } } = Some res \<and>
          tag_result content safe rep L ?U out res"
        by simp
      have "61 \<le> ?n"
        using long by simp
      then show ?thesis
        using res unfolding literal_tag_def Let_def fast bind.bind_lunit prod.case if_False
          if_P [OF \<open>61 \<le> ?n\<close>] v e(1) by simp
    qed
  qed
qed

lemma copy_tag_result:
  assumes t: "tag_ready content d p" and r: "rep w L out" and c: "unat (win d ! p) mod 4 \<noteq> 0"
  shows "\<exists>res. copy_tag S W d (p + 1) w (unat (win d ! p)) = Some res \<and>
    tag_result content safe rep L (unread content d p) out res"
proof -
  let ?c = "win d ! p" and ?p = "p + 1" and ?U = "unread content d p"
  let ?e = "tag_extra (unat ?c)"
  let ?trailer = "le_nat (take ?e (drop ?p (win d)))"
  let ?d = "tag_high (unat ?c) + ?trailer" and ?n = "tag_length (unat ?c)"
  have w: "window_ok content d p" and lim: "p < ip_limit d" "ip_limit d \<le> length (win d)"
    "p + 5 \<le> length (win d)" "?p + ?e \<le> ip_limit d" "\<not> eof d"
    using t by (auto simp: tag_ready_def window_ok_def)
  have e: "?e \<le> 4"
    by (rule tag_extra_le)
  obtain v where v: "load32 (win d) ?p = Some v" "unat (extract_low_bytes v ?e) = ?trailer"
    using operand_value [of ?p "win d" ?e] lim(3) e by auto
  have U: "?U = ?c # unread content d ?p"
    using lim by (intro unread_Cons)
  have "?e \<le> length (unread content d ?p)"
    using lim by (simp add: unread_def)
  then have parse: "parse_element ?U = Some (Copy ?d ?n, unread content d (?p + ?e))"
    unfolding U parse_copy [OF c]
    by (simp add: take_bytes_def unread_take [OF lim(4,2)] unread_advance [OF lim(4,2)]
        del: One_nat_def add_Suc_right)
  have c256: "unat ?c < 256"
    using unsigned_less [of ?c, where 'a = nat] by simp
  have n: "0 < ?n" "?n \<le> 64"
    using c256 by (auto simp: tag_length_def)
  have "?trailer < 2 ^ 32"
    using v(2) unsigned_less [of "extract_low_bytes v ?e", where 'a = nat] by simp
  moreover have "tag_high (unat ?c) < 2 ^ 32"
    using c256 by (auto simp: tag_high_def)
  ultimately have "?d < 2 ^ 33"
    by simp
  from append_self [OF r n this] obtain w1 ok where
    a: "w_append_from_self W w ?d ?n = Some (w1, ok)"
    "ok \<longleftrightarrow> 0 < ?d \<and> ?d \<le> length out \<and> length out + ?n \<le> L"
    "if ok then rep w1 L (lz_copy out ?d ?n) else safe w1"
    by (elim exE conjE) (rule that)
  have ct: "copy_tag S W d ?p w (unat ?c) =
    (if \<not> ok then Some (Inr (d, w1))
     else do {
       (d, p, more) \<leftarrow> maybe_refill S d (?p + ?e);
       Some (if more then Inl (d, p, w1) else Inr (d, w1)) })"
    unfolding copy_tag_def Let_def char_table_entry(1) char_table_entry(2,3) [OF c] v
      bind.bind_lunit a(1) prod.case by (rule refl)
  show ?thesis
  proof (cases ok)
    case False
    then have s: "safe w1"
      using a(3) by simp
    have "decode_result safe rep L ?U out False w1"
    proof (cases "0 < ?d \<and> ?d \<le> length out")
      case True
      then have "apply_element out (Copy ?d ?n) = Some (lz_copy out ?d ?n)"
        by simp
      moreover have "L < length (lz_copy out ?d ?n)"
        using a(2) False True unfolding lz_copy_length by linarith
      ultimately show ?thesis
        by (subst decode_result_step [OF parse]) (assumption, rule decode_result_over [where safe = safe, OF s])
    next
      case False
      then have "apply_element out (Copy ?d ?n) = None"
        by auto
      with s parse show ?thesis
        by (rule decode_result_refused)
    qed
    moreover have "copy_tag S W d ?p w (unat ?c) = Some (Inr (d, w1))"
      using ct False by simp
    ultimately show ?thesis
      using lim(5) by - (rule exI, rule conjI, assumption, simp add: tag_result_def)
  next
    case True
    then have "apply_element out (Copy ?d ?n) = Some (lz_copy out ?d ?n)"
      and w1: "rep w1 L (lz_copy out ?d ?n)"
      using a(2,3) by simp_all
    moreover have "window_ok content d (?p + ?e)"
      using w lim by (simp add: window_ok_def)
    ultimately obtain d2 p2 ok2 where
      "maybe_refill S d (?p + ?e) = Some (d2, p2, ok2)"
      "tag_result content safe rep L ?U out (if ok2 then Inl (d2, p2, w1) else Inr (d2, w1))"
      using next_tag_result [OF _ w1 parse] by blast
    moreover from this(1) True
    have "copy_tag S W d ?p w (unat ?c) = Some (if ok2 then Inl (d2, p2, w1) else Inr (d2, w1))"
      using ct by simp
    ultimately show ?thesis
      by blast
  qed
qed

subsection \<open>The whole input\<close>

lemma tag_loop_result:
  assumes "tag_ready content d p" and "rep w L out"
  shows "\<exists>d' w'. tag_loop S W d p w = Some (d', w') \<and>
    decode_result safe rep L (unread content d p) out (eof d') w'"
  using assms
proof (induction "length (unread content d p)" arbitrary: d p w out rule: less_induct)
  case less
  let ?c = "win d ! p"
  have "p < length (win d)"
    using less.prems(1) by (auto simp: tag_ready_def window_ok_def)
  then have c: "mem_read (win d) p 1 = Some [?c]"
    by (simp add: mem_read_def take_Suc hd_drop_conv_nth)
  obtain res where res:
    "(if unat ?c AND 3 = 0 then literal_tag S W d (p + 1) w (unat ?c)
      else copy_tag S W d (p + 1) w (unat ?c)) = Some res"
    "tag_result content safe rep L (unread content d p) out res"
    using literal_tag_result [OF less.prems] copy_tag_result [OF less.prems]
    unfolding and_mask_nat by (cases "unat ?c mod 4 = 0") auto
  have step: "tag_loop S W d p w =
    (case res of Inr dw \<Rightarrow> Some dw | Inl (d, p, w) \<Rightarrow> tag_loop S W d p w)"
    by (subst tag_loop.simps) (simp only: c bind.bind_lunit Let_def list.sel res(1))
  show ?case
  proof (cases res)
    case (Inr dw)
    with res(2) step show ?thesis
      by (cases dw) (simp add: tag_result_def)
  next
    case (Inl x)
    obtain d' p' w' where x: "x = (d', p', w')"
      by (cases x)
    from res(2) obtain e out' where t: "parse_element (unread content d p) = Some (e, unread content d' p')"
      "apply_element out e = Some out'" "rep w' L out'" "tag_ready content d' p'"
      unfolding Inl x by (auto simp: tag_result_def)
    from less.hyps [OF parse_element_shorter [OF t(1)] t(4,3)] step show ?thesis
      by (simp add: Inl x decode_result_step [OF t(1,2)])
  qed
qed

lemma decompress_all_tags_result:
  assumes w: "window_ok content d (ip d)" and r: "rep w L []"
  shows "\<exists>d' w'. decompress_all_tags S W d w = Some (d', w') \<and>
    decode_result safe rep L (unread content d (ip d)) [] (eof d') w'"
proof -
  from maybe_refill_result [OF w] obtain d1 p ok where
    m: "maybe_refill S d (ip d) = Some (d1, p, ok)"
    "if ok then tag_ready content d1 p \<and> unread content d1 p = unread content d (ip d)
     else if eof d1 then unread content d (ip d) = []
     else unread content d (ip d) \<noteq> [] \<and> parse_element (unread content d (ip d)) = None"
    by blast
  show ?thesis
  proof (cases ok)
    case True
    with m(2) tag_loop_result [OF _ r, of d1 p] m(1) show ?thesis
      by (simp add: decompress_all_tags_def)
  next
    case False
    have "decode_result safe rep L (unread content d (ip d)) [] (eof d1) w"
    proof (cases "eof d1")
      case True
      with m(2) False r show ?thesis
        by (simp add: decode_result_def)
    next
      case nonempty: False
      with m(2) False rep_safe [OF r] show ?thesis
        by (simp add: decode_result_stuck)
    qed
    with m(1) False show ?thesis
      by (simp add: decompress_all_tags_def)
  qed
qed

end

end
