(* ===== verification/Snappy_Decode_All.thy ===== *)
theory Snappy_Decode_All
  imports Snappy_Decode_Spec
begin

section \<open>Snappy: the announced length and the whole input\<close>

text \<open>
  ReadUncompressedLength is shown to be Varint::Parse32WithLimit run over a source, and
  InternalUncompress, for every source and writer that keep their contracts, to return true
  exactly on the inputs the reference decoder accepts, with the writer holding what it decodes.
\<close>

subsection \<open>The announced length\<close>

text \<open>ReadUncompressedLength is Varint::Parse32WithLimit over a source.\<close>

lemma ucast_byte_less: "(ucast (c :: byte) :: u32) < 2 ^ n \<longleftrightarrow> c < 2 ^ n" if "n < 8"
proof -
  have "unat (ucast c :: u32) = unat c"
    using unsigned_less [of c, where 'a = nat] by (simp add: unsigned_ucast_eq take_bit_nat_eq_self)
  with that show ?thesis
    by (simp add: word_less_exp_iff del: unsigned_ucast_eq)
qed

lemma varint_val: "(ucast (c :: byte) :: u32) AND 127 = ucast (c AND 0x7f)"
proof -
  have m: "(127 :: u32) = mask 7" "(0x7f :: byte) = mask 7"
    by (simp_all add: mask_eq_exp_minus_1)
  show ?thesis
    unfolding m by (rule bit_word_eqI) (auto simp: bit_simps)
qed

lemma overflow_early: "s \<in> {0, 7, 14, 21} \<Longrightarrow> \<not> left_shift_overflows v s"
  by (auto simp: left_shift_overflows_def nth_append)

lemma overflow_last:
  assumes "c < 2 ^ 7"
  shows "left_shift_overflows (c AND 0x7f) 28 \<longleftrightarrow> \<not> c < 2 ^ 4"
proof -
  have m: "(0x7f :: byte) = mask 7" "(0xf0 :: byte) = push_bit 4 (mask 4)"
    by (simp_all add: mask_eq_exp_minus_1 push_bit_eq_mult)
  have at28: "(replicate 25 0 @ [0x80, 0xc0, 0xe0, 0xf0, 0xf8, 0xfc, 0xfe]) ! 28 = (0xf0 :: byte)"
    by (simp add: nth_append)
  have "left_shift_overflows (c AND 0x7f) 28 \<longleftrightarrow> c AND mask 7 AND push_bit 4 (mask 4) \<noteq> 0"
    unfolding left_shift_overflows_def m [symmetric] by (simp only: at28 and.assoc)
  also have "c AND mask 7 AND push_bit 4 (mask 4) = 0 \<longleftrightarrow> c < 2 ^ 4"
  proof
    assume z: "c AND mask 7 AND push_bit 4 (mask 4) = 0"
    have "take_bit 4 c = c"
    proof (rule bit_word_eqI)
      fix n
      show "bit (take_bit 4 c) n = bit c n"
        using arg_cong [OF z, of "\<lambda>w. bit w n"] bits_below [OF assms, of n]
        by (auto simp: bit_simps)
    qed
    moreover have "unat (take_bit 4 c) < 2 ^ 4"
      unfolding unsigned_take_bit_eq by (rule take_bit_nat_less_exp)
    ultimately have "unat c < 2 ^ 4"
      by simp
    then show "c < 2 ^ 4"
      using word_less_exp_iff [of 4 c] by simp
  next
    assume "c < 2 ^ 4"
    from bits_below [OF this] show "c AND mask 7 AND push_bit 4 (mask 4) = 0"
      by (intro bit_word_eqI) (force simp: bit_simps)
  qed
  finally show ?thesis
    by blast
qed

context snappy_source
begin

lemma read_length_step:
  assumes "shift < 32"
  shows "content r = [] \<Longrightarrow> read_length S r shift res = (r, None)"
    and "content r = c # cs \<Longrightarrow> read_length S r shift res =
      (if left_shift_overflows (c AND 0x7f) shift then (src_skip S r 1, None)
       else let res = res OR push_bit shift (ucast (c AND 0x7f)) in
         if c < 128 then (src_skip S r 1, Some res)
         else read_length S (src_skip S r 1) (shift + 7) res)"
    and "content r = c # cs \<Longrightarrow> content (src_skip S r 1) = cs"
proof -
  obtain rest where p: "content r = src_peek S r @ rest"
    using peek_region by blast
  show "read_length S r shift res = (r, None)" if "content r = []"
    using that p assms by (simp add: read_length.simps [of S r])
  show "read_length S r shift res =
      (if left_shift_overflows (c AND 0x7f) shift then (src_skip S r 1, None)
       else let res = res OR push_bit shift (ucast (c AND 0x7f)) in
         if c < 128 then (src_skip S r 1, Some res)
         else read_length S (src_skip S r 1) (shift + 7) res)" if "content r = c # cs"
  proof -
    have "src_peek S r \<noteq> []"
      using that peek_nonempty by force
    with that p obtain b where "src_peek S r = c # b"
      by (cases "src_peek S r") auto
    then show ?thesis
      using assms by (simp add: read_length.simps [of S r] Let_def)
  qed
  show "content (src_skip S r 1) = cs" if "content r = c # cs"
    using skip_content [of 1 r] that by simp
qed

lemma read_length_from:
  assumes "content r = bs"
    and rest: "\<And>r' cs v. content r' = cs \<Longrightarrow> P (read_length S r' shift' v) (f (v, cs))"
    and shift: "shift \<in> {0, 7, 14, 21}" "shift' = shift + 7"
    and stop: "\<And>r'. P (r', None) None"
    and finish: "\<And>r' v cs. content r' = cs \<Longrightarrow> P (r', Some v) (Some (v, cs))"
  shows "P (read_length S r shift res)
    (do { (b, p) \<leftarrow> varint_byte bs;
          let v = res OR push_bit shift (b AND 127);
          if b < 128 then Some (v, p) else f (v, p) })"
proof (cases bs)
  case Nil
  with assms(1) shift(1) show ?thesis
    using read_length_step(1) [of shift r res] stop [of r] by auto
next
  case (Cons c cs)
  have s: "shift < 32"
    using shift(1) by auto
  have small: "(ucast c :: u32) < 128 \<longleftrightarrow> c < 128"
    using ucast_byte_less [of 7 c] by simp
  note step = read_length_step(2,3) [OF s, of r c cs]
  show ?thesis
    using rest [of "src_skip S r 1" cs] finish [of "src_skip S r 1" cs]
    by (simp add: Cons step assms(1) overflow_early [OF shift(1)] shift(2) Let_def small varint_val
        del: push_bit_and One_nat_def)
qed

lemma read_length_parse:
  "case varint_parse32 (content r) of
     None \<Rightarrow> snd (read_length S r 0 0) = None
   | Some (v, bs) \<Rightarrow> snd (read_length S r 0 0) = Some v \<and> content (fst (read_length S r 0 0)) = bs"
proof -
  let ?P = "\<lambda>x y. case y of None \<Rightarrow> snd x = None
    | Some (v, bs) \<Rightarrow> snd x = Some v \<and> content (fst x) = bs"
  let ?f4 = "\<lambda>(v, p). do { (b, p) \<leftarrow> varint_byte p; let v = v OR push_bit 28 (b AND 127);
    if b < 16 then Some (v, p) else None }"
  let ?f3 = "\<lambda>(v, p). do { (b, p) \<leftarrow> varint_byte p; let v = v OR push_bit 21 (b AND 127);
    if b < 128 then Some (v, p) else ?f4 (v, p) }"
  let ?f2 = "\<lambda>(v, p). do { (b, p) \<leftarrow> varint_byte p; let v = v OR push_bit 14 (b AND 127);
    if b < 128 then Some (v, p) else ?f3 (v, p) }"
  let ?f1 = "\<lambda>(v, p). do { (b, p) \<leftarrow> varint_byte p; let v = v OR push_bit 7 (b AND 127);
    if b < 128 then Some (v, p) else ?f2 (v, p) }"
  have 4: "?P (read_length S r' 28 v) (?f4 (v, bs))" if "content r' = bs" for r' v bs
  proof (cases bs)
    case Nil
    with that show ?thesis
      by (simp add: read_length_step)
  next
    case (Cons c cs)
    have c4: "((ucast c :: u32) < 16) = (c < 16)"
      using ucast_byte_less [of 4 c] by simp
    have mono: "c < 2 ^ 4 \<Longrightarrow> c < 2 ^ 7"
      by (rule order.strict_trans2) auto
    have end35: "read_length S q 35 u = (q, None)" for q u
      by (simp add: read_length.simps)
    note step = read_length_step(2,3) [of 28 r' c cs]
    show ?thesis
    proof (cases "c < 2 ^ 7")
      case True
      then show ?thesis
        using that Cons step overflow_last [OF True] c4
        by (simp add: Let_def varint_val del: push_bit_and One_nat_def)
    next
      case False
      then have "\<not> (ucast c :: u32) < 16"
        using mono c4 by auto
      moreover have "snd (read_length S r' 28 v) = None"
        using step(1) that Cons False by (simp add: Let_def end35)
      ultimately show ?thesis
        by (simp add: Cons Let_def)
    qed
  qed
  have 3: "?P (read_length S r' 21 v) (?f3 (v, bs))" if "content r' = bs" for r' v bs
    unfolding prod.case
    by (rule read_length_from [where P = ?P and f = ?f4, OF that 4, unfolded prod.case]) simp_all
  have 2: "?P (read_length S r' 14 v) (?f2 (v, bs))" if "content r' = bs" for r' v bs
    unfolding prod.case
    by (rule read_length_from [where P = ?P and f = ?f3, OF that 3, unfolded prod.case]) simp_all
  have 1: "?P (read_length S r' 7 v) (?f1 (v, bs))" if "content r' = bs" for r' v bs
    unfolding prod.case
    by (rule read_length_from [where P = ?P and f = ?f2, OF that 2, unfolded prod.case]) simp_all
  have "?P (read_length S r 0 0) (do { (b, p) \<leftarrow> varint_byte (content r);
      let v = 0 OR push_bit 0 (b AND 127); if b < 128 then Some (v, p) else ?f1 (v, p) })"
    by (rule read_length_from [where P = ?P and f = ?f1, OF refl 1]) simp_all
  moreover have "varint_parse32 (content r) = do { (b, p) \<leftarrow> varint_byte (content r);
      let v = 0 OR push_bit 0 (b AND 127); if b < 128 then Some (v, p) else ?f1 (v, p) }"
    unfolding varint_parse32_def prod.case by simp
  ultimately show ?thesis
    by (simp only:)
qed

text \<open>The decompressor behind the header.\<close>

lemma header_result:
  assumes "length scr = 5" and "length (content r) < 2 ^ 32"
  obtains d x where "read_uncompressed_length S (decompressor_init r scr) = (d, x)"
    and "x = map_option fst (varint_parse32 (content r))"
    and "\<And>n. x = Some n \<Longrightarrow> window_ok content d (ip d) \<and>
      varint_parse32 (content r) = Some (n, unread content d (ip d))"
proof -
  obtain r1 x where l: "read_length S r 0 0 = (r1, x)"
    by (cases "read_length S r 0 0")
  let ?d = "decompressor_init r1 scr"
  have d: "read_uncompressed_length S (decompressor_init r scr) = (?d, x)"
    using l by (simp add: read_uncompressed_length_def decompressor_init_def)
  show ?thesis
  proof (cases "varint_parse32 (content r)")
    case None
    then have "x = None"
      using read_length_parse [of r] l by simp
    with None d show ?thesis
      by (intro that [of ?d x]) simp_all
  next
    case (Some nb)
    obtain n bs where nb: "nb = (n, bs)"
      by (cases nb)
    have x: "x = Some n" "content r1 = bs"
      using read_length_parse [of r] l by (simp_all add: Some nb)
    have "length bs \<le> length (content r)"
      using Some unfolding nb varint_parse32_def
      by (auto simp: Let_def elim!: varint_byte.elims split: if_splits Option.bind_splits)
    then have "window_ok content ?d (ip ?d)" and "unread content ?d (ip ?d) = bs"
      using assms x(2) by (simp_all add: window_ok_def unread_def decompressor_init_def)
    with d x Some nb show ?thesis
      by (intro that [of ?d x]) simp_all
  qed
qed

end

context snappy_decoding
begin

lemma uncompress_all_tags_result:
  assumes "window_ok content d (ip d)" and "fresh w (unat n)"
  shows "\<exists>d' w' ok. internal_uncompress_all_tags S W d w n = Some (d', w', ok) \<and> ended w' \<and>
    (ok \<longrightarrow> (\<exists>out. snappy_decode (unread content d (ip d)) [] = Some out \<and>
       length out = unat n \<and> final w' (unat n) out)) \<and>
    (\<not> ok \<longrightarrow> (\<forall>out. snappy_decode (unread content d (ip d)) [] = Some out \<longrightarrow>
       length out \<noteq> unat n))"
proof -
  obtain w1 where w1: "w_set_expected W w (unat n) = Some w1" "rep w1 (unat n) []"
    using expect [OF assms(2)] by blast
  obtain d' w' where r: "decompress_all_tags S W d w1 = Some (d', w')"
    "decode_result safe rep (unat n) (unread content d (ip d)) [] (eof d') w'"
    using decompress_all_tags_result [OF assms(1) w1(2)] by blast
  have "safe w'"
    using r(2) by (auto simp: decode_result_def rep_safe split: if_splits)
  then obtain w2 where w2: "w_flush W w' = Some w2" "ended w2"
    "\<And>L out. rep w' L out \<Longrightarrow> final w2 L out \<and> (w_check_length W w2 \<longleftrightarrow> length out = L)"
    using flush by blast
  have "internal_uncompress_all_tags S W d w n = Some (d', w2, eof d' \<and> w_check_length W w2)"
    using r(1) w1(1) w2(1) by (simp add: internal_uncompress_all_tags_def)
  moreover have "(if eof d' \<and> w_check_length W w2
    then \<exists>out. snappy_decode (unread content d (ip d)) [] = Some out \<and>
       length out = unat n \<and> final w2 (unat n) out
    else \<forall>out. snappy_decode (unread content d (ip d)) [] = Some out \<longrightarrow> length out \<noteq> unat n)"
  proof (cases "eof d'")
    case True
    with r(2) obtain out where "snappy_decode (unread content d (ip d)) [] = Some out"
      "rep w' (unat n) out"
      by (auto simp: decode_result_def)
    with True w2(3) show ?thesis
      by auto
  next
    case False
    with r(2) show ?thesis
      by (auto simp: decode_result_def)
  qed
  ultimately show ?thesis
    using w2(2) by (metis (mono_tags, lifting))
qed

lemma all_tags_format:
  assumes "window_ok content d (ip d)" and "varint_parse32 z = Some (n, unread content d (ip d))"
    and "fresh w (unat n)"
  shows "\<exists>d' w' ok. internal_uncompress_all_tags S W d w n = Some (d', w', ok) \<and> ended w' \<and>
    (ok \<longleftrightarrow> snappy_format z \<noteq> None) \<and>
    (\<forall>out. snappy_format z = Some out \<longrightarrow> final w' (length out) out)"
proof -
  from uncompress_all_tags_result [OF assms(1,3)] obtain d' w' ok where
    r: "internal_uncompress_all_tags S W d w n = Some (d', w', ok)" "ended w'"
    "ok \<longrightarrow> (\<exists>out. snappy_decode (unread content d (ip d)) [] = Some out \<and> length out = unat n \<and>
      final w' (unat n) out)"
    "\<not> ok \<longrightarrow> (\<forall>out. snappy_decode (unread content d (ip d)) [] = Some out \<longrightarrow> length out \<noteq> unat n)"
    by blast
  have "snappy_format z = (case snappy_decode (unread content d (ip d)) [] of None \<Rightarrow> None
     | Some out \<Rightarrow> if length out = unat n then Some out else None)"
    by (simp add: snappy_format_def assms(2) split: option.split)
  with r show ?thesis
    by (cases ok) (auto split: option.splits if_splits)
qed

lemma internal_uncompress_result:
  assumes "length scr = 5" and "length (content r) < 2 ^ 32"
    and fresh: "\<And>n bs. varint_parse32 (content r) = Some (n, bs) \<Longrightarrow> fresh w (unat n)"
  shows "\<exists>r' w' ok. internal_uncompress S W scr r w = Some (r', w', ok) \<and>
    (varint_parse32 (content r) \<noteq> None \<longrightarrow> ended w') \<and>
    (varint_parse32 (content r) = None \<longrightarrow> w' = w) \<and>
    (ok \<longleftrightarrow> snappy_format (content r) \<noteq> None) \<and>
    (\<forall>out. snappy_format (content r) = Some out \<longrightarrow> final w' (length out) out)"
proof (cases "varint_parse32 (content r)")
  case None
  obtain d where
    "read_uncompressed_length S (decompressor_init r scr) = (d, None)"
    by (rule header_result [OF assms(1,2)]) (use None in auto)
  then have "internal_uncompress S W scr r w = Some (decompressor_exit S d, w, False)"
    by (simp add: internal_uncompress_def)
  with None show ?thesis
    by - (rule exI, rule exI, rule exI, rule conjI, assumption, simp add: snappy_format_def)
next
  case (Some nb)
  obtain n bs where nb: "varint_parse32 (content r) = Some (n, bs)"
    using Some by (cases nb) simp
  obtain d where d: "read_uncompressed_length S (decompressor_init r scr) = (d, Some n)"
    "window_ok content d (ip d)" "varint_parse32 (content r) = Some (n, unread content d (ip d))"
    by (rule header_result [OF assms(1,2)]) (use nb in auto)
  from all_tags_format [OF d(2,3) fresh [OF nb]] obtain d' w' ok where
    "internal_uncompress_all_tags S W d w n = Some (d', w', ok)" "ended w'"
    "ok \<longleftrightarrow> snappy_format (content r) \<noteq> None"
    "\<forall>out. snappy_format (content r) = Some out \<longrightarrow> final w' (length out) out"
    by blast
  with d(1) nb show ?thesis
    by (simp add: internal_uncompress_def)
qed

corollary internal_uncompress_format:
  assumes "length scr = 5" and "length (content r) < 2 ^ 32"
    and "\<And>n bs. varint_parse32 (content r) = Some (n, bs) \<Longrightarrow> fresh w (unat n)"
  shows "\<exists>r' w' ok. internal_uncompress S W scr r w = Some (r', w', ok) \<and>
    (ok \<longleftrightarrow> snappy_format (content r) \<noteq> None) \<and>
    (\<forall>out. snappy_format (content r) = Some out \<longrightarrow> final w' (length out) out)"
proof -
  have "\<exists>r' w' ok. internal_uncompress S W scr r w = Some (r', w', ok) \<and>
    (varint_parse32 (content r) \<noteq> None \<longrightarrow> ended w') \<and>
    (varint_parse32 (content r) = None \<longrightarrow> w' = w) \<and>
    (ok \<longleftrightarrow> snappy_format (content r) \<noteq> None) \<and>
    (\<forall>out. snappy_format (content r) = Some out \<longrightarrow> final w' (length out) out)"
    by (rule internal_uncompress_result [OF assms(1,2)]) (rule assms(3))
  then show ?thesis
    by blast
qed

end

end
