(* ===== verification/Snappy_Writers.thy ===== *)
theory Snappy_Writers
  imports Snappy_Decode_All
begin

section \<open>Snappy: array source, array writer, validator and the calls that use them\<close>

text \<open>
  ByteArraySource of depends/snappy/snappy-sinksource.cc, SnappyArrayWriter and
  SnappyDecompressionValidator of snappy.cc keep the contracts of the decompressor, so
  RawUncompress, Uncompress and IsValidCompressedBuffer inherit its correctness. A source is the
  region \<open>[ptr_, ptr_ + left_)\<close> it still has; the array writer's \<open>base_\<close> is index 0 of its buffer.
  A \<open>size_t\<close> is a natural number except in \<open>offset - 1u\<close>, where the code relies on the wrap.
\<close>

subsection \<open>ByteArraySource\<close>

definition byte_array_source :: "byte list source_ops" where
  "byte_array_source = \<lparr>src_available = length, src_peek = (\<lambda>s. s), src_skip = (\<lambda>s n. drop n s)\<rparr>"

interpretation array_source: snappy_source byte_array_source "\<lambda>s. s"
  by unfold_locales (simp_all add: byte_array_source_def)

subsection \<open>SnappyArrayWriter\<close>

record array_writer =
  aw_buf :: "byte list"
  aw_op :: nat
  aw_op_limit :: nat

definition array_writer_new :: "byte list \<Rightarrow> array_writer" where
  "array_writer_new dst = \<lparr>aw_buf = dst, aw_op = 0, aw_op_limit = 0\<rparr>"

definition array_set_expected :: "array_writer \<Rightarrow> nat \<Rightarrow> array_writer" where
  "array_set_expected w len = w\<lparr>aw_op_limit := aw_op w + len\<rparr>"

definition array_check_length :: "array_writer \<Rightarrow> bool" where
  "array_check_length w = (aw_op w = aw_op_limit w)"

definition array_append :: "array_writer \<Rightarrow> byte list \<Rightarrow> nat \<Rightarrow> nat \<Rightarrow> (array_writer \<times> bool) option" where
  "array_append w m p len =
     (if aw_op_limit w - aw_op w < len then Some (w, False)
      else do {
        t \<leftarrow> mem_read m p len;
        b \<leftarrow> mem_write (aw_buf w) (aw_op w) t;
        Some (w\<lparr>aw_buf := b, aw_op := aw_op w + len\<rparr>, True) })"

definition array_try_fast_append ::
  "array_writer \<Rightarrow> byte list \<Rightarrow> nat \<Rightarrow> nat \<Rightarrow> nat \<Rightarrow> (array_writer \<times> bool) option" where
  "array_try_fast_append w m p available len =
     (if len \<le> 16 \<and> 16 + 5 \<le> available \<and> 16 \<le> aw_op_limit w - aw_op w then do {
        b \<leftarrow> unaligned_copy128 m p (aw_buf w) (aw_op w);
        Some (w\<lparr>aw_buf := b, aw_op := aw_op w + len\<rparr>, True) }
      else Some (w, False))"

definition minus_1u :: "nat \<Rightarrow> nat" where
  "minus_1u offset = (offset + (2 ^ 64 - 1)) mod 2 ^ 64"

definition array_produced :: "array_writer \<Rightarrow> nat" where
  "array_produced w = aw_op w"

definition array_append_from_self :: "array_writer \<Rightarrow> nat \<Rightarrow> nat \<Rightarrow> (array_writer \<times> bool) option" where
  "array_append_from_self w offset len =
     (let op_end = aw_op w + len in
      if array_produced w \<le> minus_1u offset \<or> aw_op_limit w < op_end then Some (w, False)
      else do {
        (op, b) \<leftarrow> incremental_copy (aw_buf w) (aw_op w - offset) (aw_op w) op_end (aw_op_limit w);
        Some (w\<lparr>aw_buf := b, aw_op := op\<rparr>, True) })"

definition array_writer_ops :: "array_writer writer_ops" where
  "array_writer_ops = \<lparr>w_set_expected = (\<lambda>w len. Some (array_set_expected w len)), w_check_length = array_check_length,
     w_append = array_append, w_try_fast_append = array_try_fast_append,
     w_append_from_self = array_append_from_self, w_flush = Some\<rparr>"

text \<open>
  \<open>dst\<close> is the buffer at the start and \<open>M\<close> the length that will be announced; what follows it in
  the buffer no operation touches.
\<close>

definition array_fresh :: "byte list \<Rightarrow> nat \<Rightarrow> array_writer \<Rightarrow> nat \<Rightarrow> bool" where
  "array_fresh dst M w L \<longleftrightarrow> L = M \<and> L < 2 ^ 32 \<and> L \<le> length dst \<and> w = array_writer_new dst"

definition array_rep :: "byte list \<Rightarrow> nat \<Rightarrow> array_writer \<Rightarrow> nat \<Rightarrow> byte list \<Rightarrow> bool" where
  "array_rep dst M w L out \<longleftrightarrow>
     L = M \<and> L < 2 ^ 32 \<and> aw_op_limit w = L \<and> L \<le> length (aw_buf w) \<and> length out = aw_op w \<and>
     aw_op w \<le> L \<and> take (aw_op w) (aw_buf w) = out \<and> length (aw_buf w) = length dst \<and>
     drop L (aw_buf w) = drop L dst"

definition array_safe :: "byte list \<Rightarrow> nat \<Rightarrow> array_writer \<Rightarrow> bool" where
  "array_safe dst M w \<longleftrightarrow> length (aw_buf w) = length dst \<and> aw_op w \<le> M"

lemma minus_1u_le:
  assumes "n < 2 ^ 64" and "d < 2 ^ 64"
  shows "n \<le> minus_1u d \<longleftrightarrow> d = 0 \<or> n < d"
proof (cases d)
  case 0
  with assms(1) show ?thesis
    by (simp add: minus_1u_def)
next
  case (Suc k)
  then have "minus_1u d = (k + 2 ^ 64) mod 2 ^ 64"
    by (simp add: minus_1u_def)
  also have "\<dots> = k"
    using Suc assms(2) by (simp only: mod_add_self2) simp
  finally show ?thesis
    using Suc by auto
qed

lemma array_write_rep:
  assumes "array_rep dst M w L out" and "aw_op w + k \<le> L" and "length t = k" "n \<le> k"
    and "mem_write (aw_buf w) (aw_op w) t = Some b"
  shows "array_rep dst M (w\<lparr>aw_buf := b, aw_op := aw_op w + n\<rparr>) L (out @ take n t)"
proof -
  have "take (aw_op w + n) b = take (aw_op w + n) (take (aw_op w + length t) b)"
    using assms(3,4) by (simp add: min_def)
  also have "\<dots> = out @ take n t"
    using assms(1,3,4) mem_write_take [OF assms(5)] by (simp add: array_rep_def)
  finally show ?thesis
    using assms mem_write_length [OF assms(5)] mem_write_drop [OF assms(5), of L]
    by (auto simp: array_rep_def)
qed

lemma array_rep_full:
  assumes "array_rep dst M w (length out) out"
  shows "aw_buf w = out @ drop (length out) dst"
proof -
  have "take (length out) (aw_buf w) = out" "drop (length out) (aw_buf w) = drop (length out) dst"
    using assms unfolding array_rep_def by metis+
  then show ?thesis
    using append_take_drop_id [of "length out" "aw_buf w"] by metis
qed

interpretation array_writer: snappy_writer array_writer_ops "array_fresh dst M" "array_rep dst M"
  "array_safe dst M" "array_rep dst M" "array_safe dst M" for dst M
proof (unfold_locales, goal_cases)
  case (1 w L)
  then show ?case
    by (simp add: array_writer_ops_def array_set_expected_def array_fresh_def array_writer_new_def
        array_rep_def)
next
  case (2 w L out)
  then show ?case
    by (simp add: array_rep_def)
next
  case (3 w L out)
  then show ?case
    by (simp add: array_rep_def array_safe_def)
next
  case (4 w)
  then show ?case
    by (auto simp: array_writer_ops_def array_check_length_def array_rep_def)
next
  case (5 w L out p n m)
  note r = \<open>array_rep dst M w L out\<close>
  show ?case
  proof (cases "aw_op_limit w - aw_op w < n")
    case True
    with r show ?thesis
      by (auto simp: array_writer_ops_def array_append_def array_rep_def array_safe_def)
  next
    case False
    then have fits: "aw_op w + n \<le> L"
      using r by (auto simp: array_rep_def)
    let ?t = "take n (drop p m)"
    have t: "mem_read m p n = Some ?t" "length ?t = n"
      using 5(2) by (simp_all add: mem_read_def)
    moreover obtain b where b: "mem_write (aw_buf w) (aw_op w) ?t = Some b"
      using fits r t(2) by (simp add: mem_write_def array_rep_def)
    ultimately have "array_append w m p n = Some (w\<lparr>aw_buf := b, aw_op := aw_op w + n\<rparr>, True)"
      using False by (simp add: array_append_def)
    moreover have "length out + n \<le> L"
      using fits r by (simp add: array_rep_def)
    ultimately show ?thesis
      using array_write_rep [OF r fits t(2) _ b, of n] by (simp add: array_writer_ops_def)
  qed
next
  case (6 w L out p avail m n)
  note r = \<open>array_rep dst M w L out\<close>
  show ?case
  proof (cases "n \<le> 16 \<and> 16 + 5 \<le> avail \<and> 16 \<le> aw_op_limit w - aw_op w")
    case False
    then show ?thesis
      by (auto simp: array_writer_ops_def array_try_fast_append_def)
  next
    case True
    then have fits: "aw_op w + 16 \<le> L"
      using r by (auto simp: array_rep_def)
    let ?t = "take 16 (drop p m)"
    have "p + 16 \<le> length m"
      using 6(2) True by linarith
    then have t: "mem_read m p 16 = Some ?t" "length ?t = 16"
      by (simp_all add: mem_read_def)
    moreover obtain b where b: "mem_write (aw_buf w) (aw_op w) ?t = Some b"
      using fits r t(2) by (simp add: mem_write_def array_rep_def)
    ultimately have "array_try_fast_append w m p avail n
        = Some (w\<lparr>aw_buf := b, aw_op := aw_op w + n\<rparr>, True)"
      using True by (simp add: array_try_fast_append_def unaligned_copy128_def)
    moreover have "length out + n \<le> L" "take n ?t = take n (drop p m)"
      using fits r True by (simp_all add: array_rep_def min_def)
    ultimately show ?thesis
      using array_write_rep [OF r fits t(2) _ b, of n] True
      by (intro exI [of _ "w\<lparr>aw_buf := b, aw_op := aw_op w + n\<rparr>"] exI [of _ True])
        (auto simp: array_writer_ops_def)
  qed
next
  case (7 w L out n d)
  note r = \<open>array_rep dst M w L out\<close>
  have d64: "d < 2 ^ 64"
    using 7(4) by simp
  have op: "aw_op w < 2 ^ 64" "length out = aw_op w" "take (aw_op w) (aw_buf w) = out"
    "aw_op_limit w = L" "L \<le> length (aw_buf w)"
    using r by (auto simp: array_rep_def)
  let ?ok = "0 < d \<and> d \<le> length out \<and> length out + n \<le> L"
  show ?case
  proof (cases ?ok)
    case False
    then have "array_append_from_self w d n = Some (w, False)"
      using minus_1u_le [OF op(1) d64] op
      by (auto simp: array_append_from_self_def array_produced_def)
    with False r show ?thesis
      by (auto simp: array_writer_ops_def array_rep_def array_safe_def)
  next
    case True
    obtain b where b: "incremental_copy (aw_buf w) (aw_op w - d) (aw_op w) (aw_op w + n) L
        = Some (aw_op w + n, b)" "copied (aw_buf w) (aw_op w) (aw_op w - (aw_op w - d)) L b (aw_op w + n)"
      by (rule incremental_copy_copied [of "aw_op w - d" "aw_op w" "aw_op w + n" L "aw_buf w"])
        (use True op 7(2,3) in auto)
    have "array_append_from_self w d n = Some (w\<lparr>aw_buf := b, aw_op := aw_op w + n\<rparr>, True)"
      using True op b(1) minus_1u_le [OF op(1) d64]
      by (simp add: array_append_from_self_def array_produced_def not_le)
    moreover have "array_rep dst M (w\<lparr>aw_buf := b, aw_op := aw_op w + n\<rparr>) L (lz_copy out d n)"
      using b(2) r True op by (auto simp: array_rep_def copied_def)
    ultimately show ?thesis
      using True by (simp add: array_writer_ops_def)
  qed
qed

subsection \<open>SnappyDecompressionValidator\<close>

record validator =
  v_expected :: nat
  v_produced :: nat

definition validator_init :: validator where
  "validator_init = \<lparr>v_expected = 0, v_produced = 0\<rparr>"

definition validator_set_expected :: "validator \<Rightarrow> nat \<Rightarrow> validator" where
  "validator_set_expected w len = w\<lparr>v_expected := len\<rparr>"

definition validator_check_length :: "validator \<Rightarrow> bool" where
  "validator_check_length w = (v_expected w = v_produced w)"

definition validator_append :: "validator \<Rightarrow> byte list \<Rightarrow> nat \<Rightarrow> nat \<Rightarrow> (validator \<times> bool) option" where
  "validator_append w m p len =
     (let w = w\<lparr>v_produced := v_produced w + len\<rparr> in Some (w, v_produced w \<le> v_expected w))"

definition validator_try_fast_append ::
  "validator \<Rightarrow> byte list \<Rightarrow> nat \<Rightarrow> nat \<Rightarrow> nat \<Rightarrow> (validator \<times> bool) option" where
  "validator_try_fast_append w m p available len = Some (w, False)"

definition validator_append_from_self :: "validator \<Rightarrow> nat \<Rightarrow> nat \<Rightarrow> (validator \<times> bool) option" where
  "validator_append_from_self w offset len =
     (if v_produced w \<le> minus_1u offset then Some (w, False)
      else let w = w\<lparr>v_produced := v_produced w + len\<rparr> in Some (w, v_produced w \<le> v_expected w))"

definition validator_ops :: "validator writer_ops" where
  "validator_ops = \<lparr>w_set_expected = (\<lambda>w len. Some (validator_set_expected w len)),
     w_check_length = validator_check_length, w_append = validator_append,
     w_try_fast_append = validator_try_fast_append,
     w_append_from_self = validator_append_from_self, w_flush = Some\<rparr>"

definition validator_rep :: "validator \<Rightarrow> nat \<Rightarrow> byte list \<Rightarrow> bool" where
  "validator_rep w L out \<longleftrightarrow>
     L < 2 ^ 32 \<and> v_expected w = L \<and> v_produced w = length out \<and> length out \<le> L"

interpretation validator: snappy_writer validator_ops
  "\<lambda>w L. L < 2 ^ 32 \<and> v_produced w = 0" validator_rep "\<lambda>w. True" validator_rep "\<lambda>w. True"
proof (unfold_locales, goal_cases)
  case (7 w L out n d)
  then have "v_produced w < 2 ^ 64" "d < 2 ^ 64"
    by (auto simp: validator_rep_def)
  from minus_1u_le [OF this] 7 show ?case
    by (auto simp: validator_ops_def validator_append_from_self_def validator_rep_def Let_def)
qed (auto simp: validator_ops_def validator_set_expected_def validator_check_length_def
    validator_append_def validator_try_fast_append_def validator_rep_def Let_def)

subsection \<open>The calls\<close>

text \<open>
  \<open>scr\<close> is what the uninitialised \<open>scratch_\<close> holds, \<open>dst\<close> the caller's output buffer. The
  results are \<open>None\<close> for a memory fault and otherwise the buffer and the returned value.
\<close>

definition get_uncompressed_length :: "byte list \<Rightarrow> u32 option" where
  "get_uncompressed_length z = map_option fst (varint_parse32 z)"

definition raw_uncompress :: "byte list \<Rightarrow> byte list \<Rightarrow> byte list \<Rightarrow> (byte list \<times> bool) option" where
  "raw_uncompress scr z dst = do {
     (s, w, ok) \<leftarrow> internal_uncompress byte_array_source array_writer_ops scr z (array_writer_new dst);
     Some (aw_buf w, ok) }"

definition string_resize :: "byte list \<Rightarrow> nat \<Rightarrow> byte list" where
  "string_resize s n = take n s @ replicate (n - length s) 0"

definition uncompress ::
  "nat \<Rightarrow> byte list \<Rightarrow> byte list \<Rightarrow> byte list \<Rightarrow> (byte list \<times> bool) option" where
  "uncompress max_size scr z str =
     (case get_uncompressed_length z of
        None \<Rightarrow> Some (str, False)
      | Some ulength \<Rightarrow>
          if max_size < unat ulength then Some (str, False)
          else raw_uncompress scr z (string_resize str (unat ulength)))"

definition is_valid_compressed_buffer :: "byte list \<Rightarrow> byte list \<Rightarrow> bool option" where
  "is_valid_compressed_buffer scr z = do {
     (s, w, ok) \<leftarrow> internal_uncompress byte_array_source validator_ops scr z validator_init;
     Some ok }"

definition is_valid_compressed :: "'s source_ops \<Rightarrow> byte list \<Rightarrow> 's \<Rightarrow> bool option" where
  "is_valid_compressed S scr r = do {
     (s, w, ok) \<leftarrow> internal_uncompress S validator_ops scr r validator_init;
     Some ok }"

definition get_uncompressed_length_source ::
  "'s source_ops \<Rightarrow> byte list \<Rightarrow> 's \<Rightarrow> 's \<times> u32 option" where
  "get_uncompressed_length_source S scr r =
     (let (d, n) = read_uncompressed_length S (decompressor_init r scr) in (decompressor_exit S d, n))"

text \<open>The decompressor with the code's source and writers.\<close>

interpretation flat: snappy_decoding byte_array_source "\<lambda>s. s" array_writer_ops
    "array_fresh dst M" "array_rep dst M" "array_safe dst M" "array_rep dst M" "array_safe dst M" for dst M
  by (rule snappy_decoding.intro) (rule array_source.snappy_source_axioms, rule array_writer.snappy_writer_axioms)

lemma u32_small: "unat (n :: u32) < 2 ^ 32"
  using unsigned_less [of n, where 'a = nat] by simp

sublocale snappy_source \<subseteq> validated: snappy_decoding S content validator_ops
    "\<lambda>w L. L < 2 ^ 32 \<and> v_produced w = 0" validator_rep "\<lambda>w. True" validator_rep "\<lambda>w. True"
  by (rule snappy_decoding.intro) (rule snappy_source_axioms, rule validator.snappy_writer_axioms)

context snappy_source
begin

text \<open>The calls on a source agree with those on a buffer of its content.\<close>

lemma get_uncompressed_length_agrees:
  "snd (get_uncompressed_length_source S scr r) = get_uncompressed_length (content r)"
  using read_length_parse [of r]
  by (auto simp: get_uncompressed_length_source_def get_uncompressed_length_def
      read_uncompressed_length_def decompressor_init_def split: prod.splits option.splits)

lemma is_valid_compressed_result:
  assumes "length scr = 5" and "length (content r) < 2 ^ 32"
  shows "is_valid_compressed S scr r = Some (snappy_format (content r) \<noteq> None)"
proof -
  have f: "unat n < 2 ^ 32 \<and> v_produced validator_init = 0"
    if "varint_parse32 (content r) = Some (n, bs)" for n bs
    using u32_small [of n] by (simp add: validator_init_def)
  have "\<exists>s w ok. internal_uncompress S validator_ops scr r validator_init = Some (s, w, ok) \<and>
      (ok \<longleftrightarrow> snappy_format (content r) \<noteq> None) \<and>
      (\<forall>out. snappy_format (content r) = Some out \<longrightarrow> validator_rep w (length out) out)"
    by (rule validated.internal_uncompress_format [OF assms]) (rule f)
  then show ?thesis
    by (auto simp: is_valid_compressed_def)
qed

end

lemma raw_uncompress_result:
  assumes "length scr = 5" and "length z < 2 ^ 32"
    and "\<And>n bs. varint_parse32 z = Some (n, bs) \<Longrightarrow> unat n \<le> length dst"
  shows "\<exists>dst' ok. raw_uncompress scr z dst = Some (dst', ok) \<and>
    (ok \<longleftrightarrow> snappy_format z \<noteq> None) \<and>
    (\<forall>out. snappy_format z = Some out \<longrightarrow> dst' = out @ drop (length out) dst)"
proof -
  let ?M = "case varint_parse32 z of None \<Rightarrow> 0 | Some (n, bs) \<Rightarrow> unat n"
  have fresh: "array_fresh dst ?M (array_writer_new dst) (unat n)"
    if "varint_parse32 z = Some (n, bs)" for n bs
    using that assms(3) [OF that] u32_small [of n] by (simp add: array_fresh_def)
  have "\<exists>s w ok. internal_uncompress byte_array_source array_writer_ops scr z (array_writer_new dst)
      = Some (s, w, ok) \<and> (ok \<longleftrightarrow> snappy_format z \<noteq> None) \<and>
      (\<forall>out. snappy_format z = Some out \<longrightarrow> array_rep dst ?M w (length out) out)"
    by (rule flat.internal_uncompress_format [OF assms(1,2)]) (rule fresh)
  then obtain s w ok where
    r: "internal_uncompress byte_array_source array_writer_ops scr z (array_writer_new dst) = Some (s, w, ok)"
    "ok \<longleftrightarrow> snappy_format z \<noteq> None"
    "\<forall>out. snappy_format z = Some out \<longrightarrow> array_rep dst ?M w (length out) out"
    by blast
  have "aw_buf w = out @ drop (length out) dst" if out: "snappy_format z = Some out" for out
  proof -
    from r(3) out have rep: "array_rep dst ?M w (length out) out"
      by blast
    then show ?thesis
      by (rule array_rep_full)
  qed
  with r show ?thesis
    by (simp add: raw_uncompress_def)
qed

lemma string_resize_length [simp]: "length (string_resize s n) = n"
  by (simp add: string_resize_def min_def)

lemma snappy_format_length:
  "snappy_format z = Some out \<Longrightarrow> \<exists>n bs. varint_parse32 z = Some (n, bs) \<and> length out = unat n"
  by (auto simp: snappy_format_def split: if_splits Option.bind_splits)

text \<open>
  C13: decompression refines the format and is safe on every input. Whatever bytes it is given
  (fewer than \<open>2 ^ 32\<close>), RawUncompress with a buffer of at least the announced length ends, reads
  and writes only inside its buffers, returns true exactly when the reference decoder accepts
  the input, and then the buffer starts with the decoded bytes and is unchanged behind them.
\<close>

theorem raw_uncompress_refines:
  assumes "length scr = 5" and "length z < 2 ^ 32"
    and "\<And>n bs. varint_parse32 z = Some (n, bs) \<Longrightarrow> unat n \<le> length dst"
  shows "\<exists>dst' ok. raw_uncompress scr z dst = Some (dst', ok) \<and>
    (ok \<longleftrightarrow> snappy_format z \<noteq> None) \<and>
    (\<forall>out. snappy_format z = Some out \<longrightarrow> dst' = out @ drop (length out) dst)"
  by (rule raw_uncompress_result [OF assms])

theorem raw_uncompress_refines_witness:
  "\<exists>dst' ok. raw_uncompress [0, 0, 0, 0, 0] [9, 8, 97, 98, 99, 9, 3, 0] (replicate 12 0) = Some (dst', ok) \<and>
    (ok \<longleftrightarrow> snappy_format [9, 8, 97, 98, 99, 9, 3, 0] \<noteq> None) \<and>
    (\<forall>out. snappy_format [9, 8, 97, 98, 99, 9, 3, 0] = Some out \<longrightarrow>
      dst' = out @ drop (length out) (replicate 12 0))"
  by (rule raw_uncompress_refines) (auto simp: varint_parse32_def Let_def)

text \<open>
  C38: IsValidCompressedBuffer accepts a buffer exactly when Uncompress would decompress it, on
  every input of fewer than \<open>2 ^ 32\<close> bytes and for every string given to Uncompress.
\<close>

theorem validator_agrees:
  assumes "length scr = 5" and "length z < 2 ^ 32" and "2 ^ 32 \<le> max_size"
  shows "\<exists>str' ok. uncompress max_size scr z str = Some (str', ok) \<and>
    is_valid_compressed_buffer scr z = Some ok"
proof -
  have v: "is_valid_compressed_buffer scr z = Some (snappy_format z \<noteq> None)"
    using array_source.is_valid_compressed_result [OF assms(1,2)]
    by (simp add: is_valid_compressed_def is_valid_compressed_buffer_def)
  show ?thesis
  proof (cases "varint_parse32 z")
    case None
    with v show ?thesis
      by (simp add: uncompress_def get_uncompressed_length_def snappy_format_def)
  next
    case (Some nb)
    obtain n bs where nb: "nb = (n, bs)"
      by (cases nb)
    from raw_uncompress_result [OF assms(1,2), of "string_resize str (unat n)"] Some nb obtain str' ok
      where "raw_uncompress scr z (string_resize str (unat n)) = Some (str', ok)"
        "ok \<longleftrightarrow> snappy_format z \<noteq> None"
      by auto
    moreover have "\<not> max_size < unat n"
      using u32_small [of n] assms(3) by linarith
    ultimately show ?thesis
      using v by (simp add: uncompress_def get_uncompressed_length_def Some nb)
  qed
qed

theorem validator_agrees_witness:
  "\<exists>str' ok. uncompress (2 ^ 32) [0, 0, 0, 0, 0] [9, 8, 97, 98, 99, 9, 3, 0] [] = Some (str', ok) \<and>
    is_valid_compressed_buffer [0, 0, 0, 0, 0] [9, 8, 97, 98, 99, 9, 3, 0] = Some ok"
  by (rule validator_agrees) simp_all

lemma uncompress_format:
  assumes "length scr = 5" and "length z < 2 ^ 32" and "2 ^ 32 \<le> max_size"
    and out: "snappy_format z = Some out"
  shows "uncompress max_size scr z str = Some (out, True)"
proof -
  obtain n bs where n: "varint_parse32 z = Some (n, bs)" "length out = unat n"
    using snappy_format_length [OF out] by blast
  have "\<exists>dst' ok. raw_uncompress scr z (string_resize str (unat n)) = Some (dst', ok) \<and>
      (ok \<longleftrightarrow> snappy_format z \<noteq> None) \<and> (\<forall>out. snappy_format z = Some out \<longrightarrow>
      dst' = out @ drop (length out) (string_resize str (unat n)))"
    using n by (intro raw_uncompress_result [OF assms(1,2)]) simp
  then have "raw_uncompress scr z (string_resize str (unat n)) = Some (out, True)"
    using out n(2) by auto
  moreover have "\<not> max_size < unat n"
    using u32_small [of n] assms(3) by linarith
  ultimately show ?thesis
    by (simp add: uncompress_def get_uncompressed_length_def n(1))
qed

end
