(* ===== verification/Snappy_Sinks.thy ===== *)
theory Snappy_Sinks
  imports Snappy_Stubs
begin

section \<open>Snappy: sinks\<close>

text \<open>
  The virtual class Sink of depends/snappy/snappy-sinksource.h with its default methods and its
  one subclass UncheckedByteArraySink, of snappy-sinksource.cc. A sink lends a buffer or has
  the caller use his own scratch buffer: \<open>Some (buf, dest)\<close> is a buffer of the sink and the
  position from which the caller may write, \<open>None\<close> the scratch buffer. Append of a pointer a sink
  has lent is \<open>sk_append_own\<close>, which is given the buffer as the caller left it, Append of other
  memory \<open>sk_append\<close>.
\<close>

record 'k sink_ops =
  sk_append :: "'k \<Rightarrow> byte list \<Rightarrow> 'k option"
  sk_append_own :: "'k \<Rightarrow> byte list \<Rightarrow> nat \<Rightarrow> 'k option"
  sk_get_append_buffer :: "'k \<Rightarrow> nat \<Rightarrow> (byte list \<times> nat) option"
  sk_append_and_take :: "'k \<Rightarrow> byte list \<Rightarrow> 'k option"
  sk_get_append_buffer_variable :: "'k \<Rightarrow> nat \<Rightarrow> nat \<Rightarrow> nat \<Rightarrow> (byte list \<times> nat) option \<times> nat"

subsection \<open>The default methods\<close>

text \<open>A sink that only overrides Append, with \<open>app\<close>; it lends no buffer.\<close>

definition default_sink :: "('k \<Rightarrow> byte list \<Rightarrow> 'k option) \<Rightarrow> 'k sink_ops" where
  "default_sink app = \<lparr>sk_append = app, sk_append_own = (\<lambda>k buf n. None),
     sk_get_append_buffer = (\<lambda>k len. None), sk_append_and_take = app,
     sk_get_append_buffer_variable = (\<lambda>k min_size hint scratch_size. (None, scratch_size))\<rparr>"

subsection \<open>UncheckedByteArraySink\<close>

record unchecked_sink =
  us_buf :: "byte list"
  us_dest :: nat

definition unchecked_append :: "unchecked_sink \<Rightarrow> byte list \<Rightarrow> unchecked_sink option" where
  "unchecked_append k data = do {
     b \<leftarrow> mem_write (us_buf k) (us_dest k) data;
     Some (k\<lparr>us_buf := b, us_dest := us_dest k + length data\<rparr>) }"

definition unchecked_get_append_buffer :: "unchecked_sink \<Rightarrow> nat \<Rightarrow> (byte list \<times> nat) option" where
  "unchecked_get_append_buffer k len = Some (us_buf k, us_dest k)"

definition unchecked_append_own :: "unchecked_sink \<Rightarrow> byte list \<Rightarrow> nat \<Rightarrow> unchecked_sink option" where
  "unchecked_append_own k buf n = Some (k\<lparr>us_buf := buf, us_dest := us_dest k + n\<rparr>)"

definition unchecked_get_append_buffer_variable ::
  "unchecked_sink \<Rightarrow> nat \<Rightarrow> nat \<Rightarrow> nat \<Rightarrow> (byte list \<times> nat) option \<times> nat" where
  "unchecked_get_append_buffer_variable k min_size hint scratch_size =
     (Some (us_buf k, us_dest k), hint)"

text \<open>The deleter only frees the caller's block.\<close>

definition unchecked_append_and_take :: "unchecked_sink \<Rightarrow> byte list \<Rightarrow> unchecked_sink option" where
  "unchecked_append_and_take k data = do {
     b \<leftarrow> mem_write (us_buf k) (us_dest k) data;
     Some (k\<lparr>us_buf := b, us_dest := us_dest k + length data\<rparr>) }"

definition unchecked_sink_ops :: "unchecked_sink sink_ops" where
  "unchecked_sink_ops = \<lparr>sk_append = unchecked_append, sk_append_own = unchecked_append_own,
     sk_get_append_buffer = unchecked_get_append_buffer,
     sk_append_and_take = unchecked_append_and_take,
     sk_get_append_buffer_variable = unchecked_get_append_buffer_variable\<rparr>"

subsection \<open>The contract of a sink\<close>

text \<open>
  \<open>taken\<close> is what the sink has been given, \<open>room\<close> how much more it can take. \<open>lends\<close> holds of the
  buffers it may lend. A lent buffer holds what was asked for (GetAppendBuffer) or what
  the sink says (GetAppendBufferVariable), as snappy-sinksource.h demands; UncheckedByteArraySink
  promises more than it may have, so the law only counts up to \<open>room\<close>.
\<close>

definition lends :: "'k sink_ops \<Rightarrow> 'k \<Rightarrow> byte list \<Rightarrow> nat \<Rightarrow> bool" where
  "lends K k buf dest \<longleftrightarrow> (\<exists>n. sk_get_append_buffer K k n = Some (buf, dest)) \<or>
     (\<exists>n h s. fst (sk_get_append_buffer_variable K k n h s) = Some (buf, dest))"

locale snappy_sink =
  fixes K :: "'k sink_ops" and ok :: "'k \<Rightarrow> bool" and taken :: "'k \<Rightarrow> byte list"
    and room :: "'k \<Rightarrow> nat"
  assumes append: "ok k \<Longrightarrow> length bs \<le> room k \<Longrightarrow>
      \<exists>k'. sk_append K k bs = Some k' \<and> ok k' \<and> taken k' = taken k @ bs \<and>
        room k' + length bs = room k"
    and append_and_take: "ok k \<Longrightarrow> length bs \<le> room k \<Longrightarrow>
      \<exists>k'. sk_append_and_take K k bs = Some k' \<and> ok k' \<and> taken k' = taken k @ bs \<and>
        room k' + length bs = room k"
    and own_buffer: "ok k \<Longrightarrow> sk_get_append_buffer K k n = Some (buf, dest) \<Longrightarrow>
      dest + min n (room k) \<le> length buf"
    and own_buffer_variable: "ok k \<Longrightarrow>
      sk_get_append_buffer_variable K k n h s = (Some (buf, dest), a) \<Longrightarrow>
      dest + min a (room k) \<le> length buf"
    and append_own: "ok k \<Longrightarrow> lends K k buf dest \<Longrightarrow>
      length buf' = length buf \<Longrightarrow> take dest buf' = take dest buf \<Longrightarrow>
      dest + l \<le> length buf \<Longrightarrow> l \<le> room k \<Longrightarrow>
      \<exists>k'. sk_append_own K k buf' l = Some k' \<and> ok k' \<and>
        taken k' = taken k @ take l (drop dest buf') \<and> room k' + l = room k"
    and scratch_size: "ok k \<Longrightarrow> sk_get_append_buffer_variable K k n h s = (None, a) \<Longrightarrow> a \<le> s"

lemma unchecked_lends: "lends unchecked_sink_ops k buf dest \<longleftrightarrow> buf = us_buf k \<and> dest = us_dest k"
  by (auto simp: lends_def unchecked_sink_ops_def unchecked_get_append_buffer_def
      unchecked_get_append_buffer_variable_def)

lemma unchecked_append_result:
  assumes "us_dest k \<le> length (us_buf k)" and "length bs \<le> length (us_buf k) - us_dest k"
  shows "\<exists>k'. unchecked_append k bs = Some k' \<and> us_dest k' \<le> length (us_buf k') \<and>
    take (us_dest k') (us_buf k') = take (us_dest k) (us_buf k) @ bs \<and>
    length (us_buf k') - us_dest k' + length bs = length (us_buf k) - us_dest k"
proof -
  have "us_dest k + length bs \<le> length (us_buf k)"
    using assms by linarith
  then obtain b where b: "mem_write (us_buf k) (us_dest k) bs = Some b"
    by (simp add: mem_write_def)
  with assms mem_write_length [OF b] mem_write_take [OF b] show ?thesis
    by (simp add: unchecked_append_def)
qed

interpretation array_sink: snappy_sink unchecked_sink_ops "\<lambda>k. us_dest k \<le> length (us_buf k)"
    "\<lambda>k. take (us_dest k) (us_buf k)" "\<lambda>k. length (us_buf k) - us_dest k"
proof (unfold_locales, goal_cases)
  case (1 k bs)
  then show ?case
    using unchecked_append_result [of k bs] by (simp add: unchecked_sink_ops_def)
next
  case (2 k bs)
  then show ?case
    using unchecked_append_result [of k bs]
    by (simp add: unchecked_sink_ops_def unchecked_append_and_take_def unchecked_append_def)
next
  case (3 k n buf dest)
  then show ?case
    by (auto simp: unchecked_sink_ops_def unchecked_get_append_buffer_def)
next
  case (4 k n h s buf dest a)
  then show ?case
    by (auto simp: unchecked_sink_ops_def unchecked_get_append_buffer_variable_def)
next
  case (5 k buf dest buf' l)
  then show ?case
    unfolding unchecked_lends by (auto simp: unchecked_sink_ops_def unchecked_append_own_def take_add)
next
  case (6 k n h s a)
  then show ?case
    by (simp add: unchecked_sink_ops_def unchecked_get_append_buffer_variable_def)
qed

text \<open>A sink that appends to a string, for which the default methods are enough.\<close>

definition string_append :: "byte list \<Rightarrow> byte list \<Rightarrow> byte list option" where
  "string_append k bs = Some (k @ bs)"

interpretation string_sink: snappy_sink "default_sink string_append" "\<lambda>k. True" "\<lambda>k. k" "\<lambda>k. R - length k"
  for R
  by unfold_locales (auto simp: default_sink_def string_append_def lends_def)

end
