(* ===== verification/Snappy_Compress.thy ===== *)
theory Snappy_Compress
  imports Snappy_Fragment Snappy_Writers Snappy_Sinks
begin

section \<open>Snappy: Compress and its round trip\<close>

text \<open>
  WorkingMemory, Compress, RawCompress and the string version of Compress of
  depends/snappy/snappy.cc over the sources of Snappy_Decompress and the sinks of
  Snappy_Sinks. GetAppendBuffer returns either a buffer of the sink, then the
  fragment is compressed in place and Append finds its own pointer, or the scratch output of
  the working memory; the two cases of the sink interface below. The theory ends with the
  round trip of the codec and with the room compression needs.
\<close>

subsection \<open>Working memory\<close>

definition calculate_table_size :: "nat \<Rightarrow> nat option" where
  "calculate_table_size input_size =
     (if 16384 < input_size then Some 16384
      else if input_size < 256 then Some 256
      else do {
        l \<leftarrow> log2_floor (of_nat (input_size - 1));
        Some (2 * 2 ^ nat l) })"

record working_memory =
  wm_table :: nat
  wm_input :: nat
  wm_output :: nat

definition working_memory_new :: "nat \<Rightarrow> working_memory option" where
  "working_memory_new input_size = do {
     let max_fragment_size = min input_size 65536;
     table_size \<leftarrow> calculate_table_size max_fragment_size;
     Some \<lparr>wm_table = table_size, wm_input = max_fragment_size,
       wm_output = max_compressed_length max_fragment_size\<rparr> }"

definition get_hash_table :: "working_memory \<Rightarrow> nat \<Rightarrow> (u16 list \<times> nat) option" where
  "get_hash_table wm fragment_size = do {
     htsize \<leftarrow> calculate_table_size fragment_size;
     if wm_table wm < htsize then None else Some (replicate htsize 0, htsize) }"

subsection \<open>Compress\<close>

text \<open>The loop that gathers a fragment from several regions in the scratch input.\<close>

partial_function (option) gather ::
  "'s source_ops \<Rightarrow> working_memory \<Rightarrow> 's \<Rightarrow> byte list \<Rightarrow> nat \<Rightarrow> ('s \<times> byte list) option" where [code]:
  "gather S wm r acc num_to_read =
     (if length acc < num_to_read then
        let fragment = src_peek S r; n = min (length fragment) (num_to_read - length acc) in
        if wm_input wm < length acc + n then None
        else gather S wm (src_skip S r n) (acc @ take n fragment) num_to_read
      else Some (r, acc))"

text \<open>The input of one turn: the reader, the fragment and \<open>pending_advance\<close>.\<close>

definition next_fragment ::
  "'s source_ops \<Rightarrow> working_memory \<Rightarrow> 's \<Rightarrow> nat \<Rightarrow> ('s \<times> byte list \<times> nat) option" where
  "next_fragment S wm r num_to_read =
     (let fragment = src_peek S r; bytes_read = length fragment in
      if bytes_read = 0 then None
      else if num_to_read \<le> bytes_read then Some (r, take num_to_read fragment, num_to_read)
      else if wm_input wm < bytes_read then None
      else do {
        (r, fragment) \<leftarrow> gather S wm (src_skip S r bytes_read) fragment num_to_read;
        if length fragment \<noteq> num_to_read then None else Some (r, fragment, 0) })"

text \<open>The output of one turn, in the sink's own buffer or by way of the scratch output.\<close>

definition put_fragment ::
  "'k sink_ops \<Rightarrow> working_memory \<Rightarrow> 'k \<Rightarrow> byte list \<Rightarrow> ('k \<times> nat) option" where
  "put_fragment K wm k fragment = do {
     (table, table_size) \<leftarrow> get_hash_table wm (length fragment);
     case sk_get_append_buffer K k (max_compressed_length (length fragment)) of
       Some (buf, dest) \<Rightarrow> do {
         (end_pos, buf) \<leftarrow> compress_fragment fragment buf dest table table_size;
         k \<leftarrow> sk_append_own K k buf (end_pos - dest);
         Some (k, end_pos - dest) }
     | None \<Rightarrow> do {
         (end_pos, buf) \<leftarrow> compress_fragment fragment (replicate (wm_output wm) 0) 0 table table_size;
         k \<leftarrow> sk_append K k (take end_pos buf);
         Some (k, end_pos) } }"

function compress_loop ::
  "'s source_ops \<Rightarrow> 'k sink_ops \<Rightarrow> working_memory \<Rightarrow> 's \<Rightarrow> 'k \<Rightarrow> nat \<Rightarrow> nat \<Rightarrow> ('s \<times> 'k \<times> nat) option" where
  "compress_loop S K wm r k N written =
     (if 0 < N then do {
        let num_to_read = min N 65536;
        (r, fragment, pending_advance) \<leftarrow> next_fragment S wm r num_to_read;
        (k, n) \<leftarrow> put_fragment K wm k fragment;
        compress_loop S K wm (src_skip S r pending_advance) k (N - num_to_read) (written + n) }
      else Some (r, k, written))"
  by pat_completeness auto
termination
  by (relation "measure (\<lambda>(S, K, wm, r, k, N, written). N)") auto

declare compress_loop.simps [simp del]

definition compress ::
  "'s source_ops \<Rightarrow> 'k sink_ops \<Rightarrow> 's \<Rightarrow> 'k \<Rightarrow> ('s \<times> 'k \<times> nat) option" where
  "compress S K r k = do {
     let N = src_available S r;
     let ulength = varint_encode32 (of_nat N);
     k \<leftarrow> sk_append K k ulength;
     wm \<leftarrow> working_memory_new N;
     compress_loop S K wm r k N (length ulength) }"

subsection \<open>The calls\<close>

definition raw_compress :: "byte list \<Rightarrow> byte list \<Rightarrow> (byte list \<times> nat) option" where
  "raw_compress input compressed = do {
     (r, k, written) \<leftarrow> compress byte_array_source unchecked_sink_ops input
       \<lparr>us_buf = compressed, us_dest = 0\<rparr>;
     Some (us_buf k, us_dest k) }"

definition compress_string :: "byte list \<Rightarrow> byte list \<Rightarrow> (byte list \<times> nat) option" where
  "compress_string input compressed = do {
     let compressed = string_resize compressed (max_compressed_length (length input));
     (compressed, compressed_length) \<leftarrow> raw_compress input compressed;
     Some (string_resize compressed compressed_length, compressed_length) }"

subsection \<open>The table and the fragments\<close>

lemma calculate_table_size_result:
  obtains k where "calculate_table_size n = Some (2 ^ k)" and "table_bits k"
    and "\<And>m. m \<le> n \<Longrightarrow> \<exists>j. calculate_table_size m = Some (2 ^ j) \<and> j \<le> k \<and> table_bits j"
proof -
  have size: "\<exists>k. calculate_table_size n = Some (2 ^ k) \<and> table_bits k \<and>
      (k = 8 \<or> 2 ^ (k - 1) < n) \<and> (k = 14 \<or> n \<le> 2 ^ k)" for n
  proof -
    consider "16384 < n" | "n < 256" | "256 \<le> n" "n \<le> 16384"
      by linarith
    then show ?thesis
    proof cases
      case 1
      then show ?thesis
        by (intro exI [of _ 14]) (simp add: calculate_table_size_def table_bits_def)
    next
      case 2
      then show ?thesis
        by (intro exI [of _ 8]) (simp add: calculate_table_size_def table_bits_def)
    next
      case 3
      then have "0 < n - 1" "n - 1 < 2 ^ 32"
        by simp_all
      then obtain l where l: "log2_floor (of_nat (n - 1)) = Some (int l)" "2 ^ l \<le> n - 1"
        "n - 1 < 2 ^ Suc l"
        by (rule log2_floor_pos)
      have "(2 :: nat) ^ 7 < 2 ^ Suc l" "(2 :: nat) ^ l < 2 ^ 14"
        using l(2,3) 3 by (simp_all del: power_Suc)
      then have "7 < Suc l" "l < 14"
        by (simp_all only: power_strict_increasing_iff)
      with l 3 show ?thesis
        by (intro exI [of _ "Suc l"]) (auto simp: calculate_table_size_def table_bits_def)
    qed
  qed
  obtain k where k: "calculate_table_size n = Some (2 ^ k)" "table_bits k"
    "k = 14 \<or> n \<le> 2 ^ k"
    using size [of n] by blast
  show ?thesis
  proof (rule that [OF k(1,2)])
    fix m assume "m \<le> n"
    obtain j where j: "calculate_table_size m = Some (2 ^ j)" "table_bits j" "j = 8 \<or> 2 ^ (j - 1) < m"
      using size [of m] by blast
    have "j \<le> k"
    proof (cases "k = 14 \<or> j = 8")
      case True
      with j(2) k(2) show ?thesis
        by (auto simp: table_bits_def)
    next
      case False
      then have "(2 :: nat) ^ (j - 1) < 2 ^ k"
        using j(3) k(3) \<open>m \<le> n\<close> by linarith
      then have "j - 1 < k"
        by (simp only: power_strict_increasing_iff)
      then show ?thesis
        by simp
    qed
    with j show "\<exists>j. calculate_table_size m = Some (2 ^ j) \<and> j \<le> k \<and> table_bits j"
      by blast
  qed
qed

definition wm_ok :: "working_memory \<Rightarrow> nat \<Rightarrow> bool" where
  "wm_ok wm N \<longleftrightarrow> wm_input wm = N \<and> wm_output wm = max_compressed_length N \<and>
     (\<forall>m \<le> N. \<exists>j. get_hash_table wm m = Some (replicate (2 ^ j) 0, 2 ^ j) \<and> table_bits j)"

lemma working_memory_result:
  obtains wm where "working_memory_new N = Some wm" and "wm_ok wm (min N 65536)"
proof -
  obtain k where k: "calculate_table_size (min N 65536) = Some (2 ^ k)"
    "\<And>m. m \<le> min N 65536 \<Longrightarrow> \<exists>j. calculate_table_size m = Some (2 ^ j) \<and> j \<le> k \<and> table_bits j"
    using calculate_table_size_result by metis
  let ?wm = "\<lparr>wm_table = 2 ^ k, wm_input = min N 65536,
    wm_output = max_compressed_length (min N 65536)\<rparr>"
  have "\<exists>j. get_hash_table ?wm m = Some (replicate (2 ^ j) 0, 2 ^ j) \<and> table_bits j"
    if m: "m \<le> min N 65536" for m
  proof -
    obtain j where j: "calculate_table_size m = Some (2 ^ j)" "j \<le> k" "table_bits j"
      using k(2) [OF m] by blast
    have "\<not> (2 :: nat) ^ k < 2 ^ j"
      using j(2) by (simp add: not_less power_increasing)
    with j show ?thesis
      by (auto simp: get_hash_table_def)
  qed
  then have "wm_ok ?wm (min N 65536)"
    by (simp add: wm_ok_def)
  moreover have "working_memory_new N = Some ?wm"
    by (simp add: working_memory_new_def k(1) Let_def)
  ultimately show ?thesis
    by (rule that [rotated])
qed

context snappy_source
begin

lemma gather_result:
  assumes "length acc \<le> n" and "n - length acc \<le> length (content r)" and "n \<le> wm_input wm"
  shows "\<exists>r'. gather S wm r acc n = Some (r', acc @ take (n - length acc) (content r)) \<and>
    content r' = drop (n - length acc) (content r)"
  using assms
proof (induction "n - length acc" arbitrary: r acc rule: less_induct)
  case less
  show ?case
  proof (cases "length acc < n")
    case False
    with less.prems show ?thesis
      by (intro exI [of _ r]) (simp add: gather.simps)
  next
    case True
    obtain l where l: "l = min (length (src_peek S r)) (n - length acc)"
      by blast
    have "src_peek S r \<noteq> []"
      using peek_nonempty [of r] True less.prems(2) by force
    then have pos: "0 < l" "l \<le> n - length acc" "l \<le> length (content r)"
      and pk: "take l (src_peek S r) = take l (content r)"
      using True peek_length [of r] peek_take [of l r] by (auto simp: l)
    have c: "content (src_skip S r l) = drop l (content r)"
      using pos(3) by (rule skip_content)
    have step: "gather S wm r acc n = gather S wm (src_skip S r l) (acc @ take l (content r)) n"
    proof -
      have "\<not> wm_input wm < length acc + l"
        using True less.prems(3) pos(2) by linarith
      then show ?thesis
        using True by (subst gather.simps) (simp only: Let_def l [symmetric] pk if_True if_False simp_thms)
    qed
    have len: "length (acc @ take l (content r)) = length acc + l"
      using pos(3) by simp
    have "\<exists>r'. gather S wm (src_skip S r l) (acc @ take l (content r)) n
        = Some (r', (acc @ take l (content r))
            @ take (n - length (acc @ take l (content r))) (content (src_skip S r l))) \<and>
      content r' = drop (n - length (acc @ take l (content r))) (content (src_skip S r l))"
    proof (rule less.hyps)
      show "n - length (acc @ take l (content r)) < n - length acc"
        unfolding len using pos True by linarith
    qed (unfold len c, use less.prems pos in auto)
    moreover have "take l (content r) @ take (n - (length acc + l)) (drop l (content r))
        = take (n - length acc) (content r)"
    proof -
      have "l + (n - (length acc + l)) = n - length acc"
        using pos(2) True by linarith
      then show ?thesis
        using take_add [of l "n - (length acc + l)" "content r"] by simp
    qed
    moreover have "drop (n - (length acc + l)) (drop l (content r)) = drop (n - length acc) (content r)"
    proof -
      have "n - (length acc + l) + l = n - length acc"
        using pos(2) True by linarith
      then show ?thesis
        by simp
    qed
    ultimately show ?thesis
      unfolding step len c by (simp only: append.assoc)
  qed
qed

lemma next_fragment_result:
  assumes "0 < n" and "n \<le> length (content r)" and "n \<le> wm_input wm"
  shows "\<exists>r' p. next_fragment S wm r n = Some (r', take n (content r), p) \<and>
    content (src_skip S r' p) = drop n (content r)"
proof -
  have ne: "src_peek S r \<noteq> []"
    using peek_nonempty [of r] assms(1,2) by force
  show ?thesis
  proof (cases "n \<le> length (src_peek S r)")
    case True
    with ne peek_take [OF True] skip_content [OF assms(2)] show ?thesis
      by (simp add: next_fragment_def)
  next
    case False
    let ?b = "src_peek S r" and ?r = "src_skip S r (length (src_peek S r))"
    have b: "?b = take (length ?b) (content r)"
      using peek_take [of "length ?b" r] by simp
    have c: "content ?r = drop (length ?b) (content r)"
      using peek_length by (rule skip_content)
    have "length ?b \<le> n" "n - length ?b \<le> length (content ?r)"
      using False assms(2) by (simp_all add: c)
    from gather_result [OF this assms(3)] obtain r' where
      g: "gather S wm ?r ?b n = Some (r', ?b @ take (n - length ?b) (content ?r))"
      "content r' = drop (n - length ?b) (content ?r)"
      by blast
    have "?b @ take (n - length ?b) (content ?r) = take n (content r)"
      using take_add [of "length ?b" "n - length ?b" "content r"] False
      by (simp add: c b [symmetric])
    moreover have "content (src_skip S r' 0) = drop n (content r)"
      using skip_content [of 0 r'] g(2) False by (simp add: c)
    ultimately show ?thesis
      using g(1) ne False assms(2,3)
      by (intro exI [of _ r'] exI [of _ 0]) (simp add: next_fragment_def Let_def)
  qed
qed

end

text \<open>What a compressed fragment takes up: at most a sixtieth and one byte more than the fragment.\<close>

lemma emitted_bytes:
  assumes "emitted (take op dst) m (length dst) dst' op' (length m) 60" and "op \<le> length dst"
  obtains bs where "take op' dst' = take op dst @ bs" and "op' = op + length bs"
    and "length dst' = length dst" and "snappy_decode bs [] = Some m"
    and "60 * length bs \<le> 61 * length m + 60"
  using assms by (auto simp: emitted_def)

context snappy_sink
begin

lemma put_fragment_result:
  assumes wm: "wm_ok wm N" and f: "length f \<le> N" "length f \<le> 65536"
    and k: "ok k" and room: "length f + length f div 60 + 20 \<le> room k"
  shows "\<exists>k' bs. put_fragment K wm k f = Some (k', length bs) \<and> ok k' \<and> taken k' = taken k @ bs \<and>
    room k' + length bs = room k \<and> snappy_decode bs [] = Some f \<and>
    60 * length bs \<le> 61 * length f + 60"
proof -
  obtain j where j: "get_hash_table wm (length f) = Some (replicate (2 ^ j) 0, 2 ^ j)" "table_bits j"
    using wm f(1) by (auto simp: wm_ok_def)
  have bound: "length bs \<le> room k" if "60 * length bs \<le> 61 * length f + 60" for bs :: "byte list"
  proof -
    have "length f < 60 * (length f div 60) + 60"
      using dividend_less_div_times [of 60 "length f"] by simp
    with that room show ?thesis
      by linarith
  qed
  show ?thesis
  proof (cases "sk_get_append_buffer K k (max_compressed_length (length f))")
    case (Some bd)
    obtain buf dest where bd: "bd = (buf, dest)"
      by (cases bd)
    have lent: "lends K k buf dest"
      using Some bd by (auto simp: lends_def)
    have cap: "length f + length f div 60 + 20 \<le> max_compressed_length (length f)"
    proof -
      have "length f div 60 \<le> length f div 6"
        by (rule div_le_mono2) simp_all
      then show ?thesis by (simp add: max_compressed_length_def)
    qed
    have "dest + min (max_compressed_length (length f)) (room k) \<le> length buf"
      using own_buffer [OF k] Some bd by blast
    with cap room have b: "dest + (length f + length f div 60 + 20) \<le> length buf"
      by linarith
    from compress_fragment_result [OF f(2) j(2) refl, of dest buf] room b obtain e buf' where
      c: "compress_fragment f buf dest (replicate (2 ^ j) 0) (2 ^ j) = Some (e, buf')"
      "emitted (take dest buf) f (length buf) buf' e (length f) 60"
      by auto
    obtain bs where bs: "take e buf' = take dest buf @ bs" "e = dest + length bs"
      "length buf' = length buf" "snappy_decode bs [] = Some f" "60 * length bs \<le> 61 * length f + 60"
      using emitted_bytes [OF c(2)] b by auto
    have "take dest buf' = take dest (take e buf')"
      using bs(2) by (simp add: min_def)
    then have pre: "take dest buf' = take dest buf"
      using bs(1) b by simp
    have piece: "take (length bs) (drop dest buf') = bs"
    proof -
      have "take (length bs) (drop dest buf') = drop dest (take e buf')"
        using bs(2) by (simp add: drop_take)
      then show ?thesis
        using bs(1) b by simp
    qed
    have "dest + length bs \<le> length buf"
      using c(2) bs(2,3) by (auto simp: emitted_def)
    from append_own [OF k lent bs(3) pre this bound [OF bs(5)]] obtain k' where
      "sk_append_own K k buf' (length bs) = Some k'" "ok k'" "taken k' = taken k @ bs"
      "room k' + length bs = room k"
      unfolding piece by blast
    with j(1) Some c(1) bs(2,4,5) show ?thesis
      by (intro exI [of _ k'] exI [of _ bs]) (simp add: put_fragment_def bd)
  next
    case None
    let ?buf = "replicate (wm_output wm) (0 :: byte)"
    have "length f + length f div 60 + 20 \<le> wm_output wm"
    proof -
      have "length f div 60 \<le> N div 6"
        using f(1) by (meson div_le_mono div_le_mono2 order_trans zero_less_numeral numeral_le_iff
            semiring_norm)
      with wm f(1) show ?thesis
        by (simp add: wm_ok_def max_compressed_length_def)
    qed
    with compress_fragment_result [OF f(2) j(2) refl, of 0 ?buf] obtain e buf' where
      c: "compress_fragment f ?buf 0 (replicate (2 ^ j) 0) (2 ^ j) = Some (e, buf')"
      "emitted (take 0 ?buf) f (length ?buf) buf' e (length f) 60"
      by auto
    obtain bs where bs: "take e buf' = take 0 ?buf @ bs" "e = 0 + length bs"
      "snappy_decode bs [] = Some f" "60 * length bs \<le> 61 * length f + 60"
      using emitted_bytes [OF c(2)] by auto
    from append [OF k bound [OF bs(4)]] obtain k' where
      "sk_append K k bs = Some k'" "ok k'" "taken k' = taken k @ bs" "room k' + length bs = room k"
      by blast
    with j(1) None c(1) bs show ?thesis
      by (intro exI [of _ k'] exI [of _ bs]) (simp add: put_fragment_def)
  qed
qed

end

locale snappy_compressing =
  snappy_source S content + snappy_sink K ok taken room
  for S :: "'s source_ops" and content :: "'s \<Rightarrow> byte list"
    and K :: "'k sink_ops" and ok :: "'k \<Rightarrow> bool" and taken :: "'k \<Rightarrow> byte list"
    and room :: "'k \<Rightarrow> nat"
begin

lemma compress_loop_result:
  assumes "wm_ok wm M" and "min N 65536 \<le> M" and "N = length (content r)" and "ok k"
    and "0 < N \<Longrightarrow> 61 * N + 60 * (N div 65536) + 1320 \<le> 60 * room k"
  shows "\<exists>r' k' bs. compress_loop S K wm r k N written = Some (r', k', written + length bs) \<and>
    ok k' \<and> taken k' = taken k @ bs \<and> room k' + length bs = room k \<and>
    snappy_decode bs [] = Some (content r)"
  using assms(2-5)
proof (induction N arbitrary: r k written rule: less_induct)
  case (less N)
  show ?case
  proof (cases "0 < N")
    case False
    with less.prems show ?thesis
      by (intro exI [of _ r] exI [of _ k] exI [of _ "[]"]) (simp add: compress_loop.simps)
  next
    case True
    let ?n = "min N 65536" and ?f = "take (min N 65536) (content r)"
    have n: "0 < ?n" "?n \<le> length (content r)" "?n \<le> wm_input wm"
      using True less.prems(1,2) assms(1) by (simp_all add: wm_ok_def)
    from next_fragment_result [OF n] obtain r1 p where
      1: "next_fragment S wm r ?n = Some (r1, ?f, p)" "content (src_skip S r1 p) = drop ?n (content r)"
      by blast
    have f: "length ?f = ?n"
      using n(2) by simp
    have room: "61 * N + 60 * (N div 65536) + 1320 \<le> 60 * room k"
      by (rule less.prems(4) [OF True])
    have "length ?f + length ?f div 60 + 20 \<le> room k"
    proof -
      have "60 * (?n div 60) \<le> ?n" "?n \<le> N"
        by (rule times_div_less_eq_dividend) simp
      with room show ?thesis
        unfolding f by linarith
    qed
    from put_fragment_result [OF assms(1) _ _ less.prems(3) this] f less.prems(1)
    obtain k1 bs1 where 2: "put_fragment K wm k ?f = Some (k1, length bs1)" "ok k1"
      "taken k1 = taken k @ bs1" "room k1 + length bs1 = room k" "snappy_decode bs1 [] = Some ?f"
      "60 * length bs1 \<le> 61 * ?n + 60"
      unfolding f by auto
    let ?r = "src_skip S r1 p"
    have rest: "N - ?n = length (content ?r)"
      using 1(2) less.prems(2) by simp
    have room': "61 * (N - ?n) + 60 * ((N - ?n) div 65536) + 1320 \<le> 60 * room k1" if "0 < N - ?n"
    proof -
      have n6: "?n = 65536"
        using that by simp
      have "N div 65536 = Suc ((N - 65536) div 65536)"
        using that by (simp add: le_div_geq)
      then show ?thesis
        using room 2(4,6) that unfolding n6 by linarith
    qed
    have "N - ?n < N" "min (N - ?n) 65536 \<le> M"
      using True less.prems(1) by simp_all
    from less.IH [OF this rest 2(2) room', of "written + length bs1"] obtain r' k' bs where
      3: "compress_loop S K wm ?r k1 (N - ?n) (written + length bs1)
        = Some (r', k', written + length bs1 + length bs)"
      "ok k'" "taken k' = taken k1 @ bs" "room k' + length bs = room k1"
      "snappy_decode bs [] = Some (content ?r)"
      by blast
    have "compress_loop S K wm r k N written = Some (r', k', written + length (bs1 @ bs))"
      using True 1(1) 2(1) 3(1) by (subst compress_loop.simps) (simp add: Let_def)
    moreover have "snappy_decode (bs1 @ bs) [] = Some (content r)"
      using snappy_decode_append [OF 2(5), of bs] snappy_decode_behind [OF 3(5), of ?f] 1(2) by simp
    ultimately show ?thesis
      using 2(3,4) 3(2-4) by (intro exI [of _ r'] exI [of _ k'] exI [of _ "bs1 @ bs"]) simp
  qed
qed

lemma compress_result:
  assumes "ok k" and "max_compressed_length (length (content r)) \<le> room k"
  shows "\<exists>r' k' bs. compress S K r k = Some (r', k', length (varint_encode32 (of_nat (length (content r))) @ bs)) \<and>
    ok k' \<and> taken k' = taken k @ varint_encode32 (of_nat (length (content r))) @ bs \<and>
    room k' + length (varint_encode32 (of_nat (length (content r))) @ bs) = room k \<and>
    snappy_decode bs [] = Some (content r)"
proof -
  let ?N = "length (content r)" and ?v = "varint_encode32 (of_nat (length (content r)))"
  have v: "length ?v \<le> 5"
    by (rule varint_encode32_length)
  have "length ?v \<le> room k"
    using v assms(2) by (simp add: max_compressed_length_def)
  from append [OF assms(1) this] obtain k1 where
    1: "sk_append K k ?v = Some k1" "ok k1" "taken k1 = taken k @ ?v" "room k1 + length ?v = room k"
    by blast
  obtain wm where wm: "working_memory_new ?N = Some wm" "wm_ok wm (min ?N 65536)"
    by (rule working_memory_result)
  have "61 * ?N + 60 * (?N div 65536) + 1320 \<le> 60 * room k1"
  proof -
    have "?N < 6 * (?N div 6) + 6" "65536 * (?N div 65536) \<le> ?N"
      using dividend_less_div_times [of 6 ?N] by simp_all
    with v 1(4) assms(2) show ?thesis
      unfolding max_compressed_length_def by linarith
  qed
  from compress_loop_result [OF wm(2) order_refl refl 1(2) this, of "length ?v"] obtain r' k' bs where
    2: "compress_loop S K wm r k1 ?N (length ?v) = Some (r', k', length ?v + length bs)"
    "ok k'" "taken k' = taken k1 @ bs" "room k' + length bs = room k1"
    "snappy_decode bs [] = Some (content r)"
    by blast
  have "compress S K r k = Some (r', k', length (?v @ bs))"
    using 1(1) wm(1) 2(1) by (simp add: compress_def available_content)
  with 1 2 show ?thesis
    by (intro exI [of _ r'] exI [of _ k'] exI [of _ bs]) simp
qed

end

subsection \<open>The codec\<close>

interpretation flat_compress: snappy_compressing byte_array_source "\<lambda>s. s" unchecked_sink_ops
    "\<lambda>k. us_dest k \<le> length (us_buf k)" "\<lambda>k. take (us_dest k) (us_buf k)"
    "\<lambda>k. length (us_buf k) - us_dest k"
  by (rule snappy_compressing.intro)
    (rule array_source.snappy_source_axioms, rule array_sink.snappy_sink_axioms)

lemma raw_compress_result:
  assumes "max_compressed_length (length x) \<le> length buf"
  obtains buf' z where "raw_compress x buf = Some (buf', length z)" and "length buf' = length buf"
    and "take (length z) buf' = z" and "length z \<le> length buf"
    and "\<exists>bs. z = varint_encode32 (of_nat (length x)) @ bs \<and> snappy_decode bs [] = Some x"
proof -
  let ?k = "\<lparr>us_buf = buf, us_dest = 0\<rparr>" and ?v = "varint_encode32 (of_nat (length x))"
  obtain r k bs where c: "compress byte_array_source unchecked_sink_ops x ?k
      = Some (r, k, length (?v @ bs))"
    "us_dest k \<le> length (us_buf k)" "take (us_dest k) (us_buf k) = ?v @ bs"
    "length (us_buf k) - us_dest k + length (?v @ bs) = length buf" "snappy_decode bs [] = Some x"
    using flat_compress.compress_result [of ?k x] assms by auto
  have "us_dest k = length (?v @ bs)"
    using arg_cong [OF c(3), of length] c(2) by simp
  with c show ?thesis
    by (intro that [of "us_buf k" "?v @ bs"]) (auto simp: raw_compress_def)
qed

lemma compress_string_result:
  obtains z where "compress_string x s = Some (z, length z)"
    and "length z \<le> max_compressed_length (length x)"
    and "\<exists>bs. z = varint_encode32 (of_nat (length x)) @ bs \<and> snappy_decode bs [] = Some x"
proof -
  let ?s = "string_resize s (max_compressed_length (length x))"
  obtain buf z where r: "raw_compress x ?s = Some (buf, length z)" "length buf = length ?s"
    "take (length z) buf = z" "length z \<le> length ?s"
    "\<exists>bs. z = varint_encode32 (of_nat (length x)) @ bs \<and> snappy_decode bs [] = Some x"
    by (rule raw_compress_result [of x ?s]) simp_all
  have "string_resize buf (length z) = z"
    using r(2-4) by (simp add: string_resize_def)
  then have "compress_string x s = Some (z, length z)"
    using r(1) by (simp add: compress_string_def)
  with r(4,5) show ?thesis
    by (intro that [of z]) simp_all
qed

lemma compressed_format:
  assumes "z = varint_encode32 (of_nat (length x)) @ bs" and "snappy_decode bs [] = Some x"
    and "length x < 2 ^ 32"
  shows "snappy_format z = Some x"
  using assms by (simp add: snappy_format_def varint_parse_encode unat_of_nat_u32)

text \<open>
  C12: Compress and Uncompress are inverse. Every string whose compressed form stays below
  \<open>2 ^ 32\<close> bytes is compressed, whatever its content, without a memory fault or a failed assertion,
  to a string from which Uncompress recovers it, into any string and with any content of the
  uninitialised scratch bytes.
\<close>

theorem uncompress_compress:
  assumes "max_compressed_length (length x) < 2 ^ 32" and "length scr = 5" and "2 ^ 32 \<le> max_size"
  shows "\<exists>z. compress_string x s = Some (z, length z) \<and>
    uncompress max_size scr z s' = Some (x, True)"
proof -
  obtain z where z: "compress_string x s = Some (z, length z)"
    "length z \<le> max_compressed_length (length x)"
    "\<exists>bs. z = varint_encode32 (of_nat (length x)) @ bs \<and> snappy_decode bs [] = Some x"
    by (rule compress_string_result)
  have "length x < 2 ^ 32" "length z < 2 ^ 32"
    using assms(1) z(2) by (simp_all add: max_compressed_length_def)
  with z(3) have "snappy_format z = Some x"
    using compressed_format by blast
  from uncompress_format [OF assms(2) \<open>length z < 2 ^ 32\<close> assms(3) this] z(1) show ?thesis
    by blast
qed

theorem uncompress_compress_witness:
  "\<exists>z. compress_string (replicate 1000 97) [] = Some (z, length z) \<and>
    uncompress (2 ^ 32) [0, 0, 0, 0, 0] z [] = Some (replicate 1000 97, True)"
  by (rule uncompress_compress) (simp_all add: max_compressed_length_def)

text \<open>
  C37: RawCompress never writes outside a buffer of MaxCompressedLength bytes. For every input,
  of any length and content, and every such buffer, it ends without a memory fault or a failed
  assertion and reports a length within the buffer, although each fragment is written with less
  room than the comment of CompressFragment requires.
\<close>

theorem raw_compress_fits:
  assumes "max_compressed_length (length x) \<le> length buf"
  shows "\<exists>buf' n. raw_compress x buf = Some (buf', n) \<and> length buf' = length buf \<and>
    n \<le> length buf"
  using raw_compress_result [OF assms] by metis

theorem raw_compress_fits_witness:
  "\<exists>buf' n. raw_compress (replicate 300 7) (replicate 382 0) = Some (buf', n) \<and>
    length buf' = length (replicate 382 (0 :: byte)) \<and> n \<le> length (replicate 382 (0 :: byte))"
  by (rule raw_compress_fits) (simp add: max_compressed_length_def)

text \<open>
  From \<open>2 ^ 32\<close> bytes on the announced length is the length modulo \<open>2 ^ 32\<close>, since Encode32 takes
  32 bits of it, so Uncompress does not recover the input.
\<close>

lemma long_input_header:
  "\<exists>z. compress_string x s = Some (z, length z) \<and>
    get_uncompressed_length z = Some (of_nat (length x))"
  by (rule compress_string_result [of x s])
    (auto simp: get_uncompressed_length_def varint_parse_encode)

text \<open>A long literal whose four length bytes are all ones is taken for an empty one.\<close>

lemma long_literal_wraps: "snappy_format [0, 0xfc, 0xff, 0xff, 0xff, 0xff] = Some []"
  by (simp add: snappy_format_def varint_parse32_def snappy_decode.simps take_bytes_def Let_def)

end
