(* ===== verification/Snappy_Scatter.thy ===== *)
theory Snappy_Scatter
  imports Snappy_Writers Snappy_Sinks
begin

section \<open>Snappy: the scattered writer\<close>

text \<open>
  SnappyScatteredWriter over SnappySinkAllocator of depends/snappy/snappy.cc, the writer that
  keeps what it decompresses in blocks of 64 KiB until Flush hands them to a sink. \<open>blocks_\<close> of
  the writer and of the allocator hold the same blocks in the same order and are one list
  here, \<open>sa_blocks\<close>; \<open>op_base_\<close> is the start of its last element (null when there is none),
  \<open>op_ptr_\<close> and \<open>op_limit_\<close> are positions from there. \<open>junk\<close> is what fresh memory holds.
\<close>

subsection \<open>SnappySinkAllocator\<close>

record 'k sink_allocator =
  sa_dest :: 'k
  sa_blocks :: "byte list list"

definition allocator_new :: "'k \<Rightarrow> 'k sink_allocator" where
  "allocator_new dest = \<lparr>sa_dest = dest, sa_blocks = []\<rparr>"

definition new_chars :: "(nat \<Rightarrow> byte) \<Rightarrow> nat \<Rightarrow> byte list" where
  "new_chars junk n = map junk [0..<n]"

definition allocate :: "(nat \<Rightarrow> byte) \<Rightarrow> 'k sink_allocator \<Rightarrow> nat \<Rightarrow> 'k sink_allocator" where
  "allocate junk a n = a\<lparr>sa_blocks := sa_blocks a @ [new_chars junk n]\<rparr>"

fun flush_blocks :: "'k sink_ops \<Rightarrow> 'k \<Rightarrow> byte list list \<Rightarrow> nat \<Rightarrow> nat \<Rightarrow> 'k option" where
  "flush_blocks K k [] n size_written = Some k"
| "flush_blocks K k (b # bs) n size_written =
     (let block_size = min (length b) (n - size_written) in do {
      k \<leftarrow> sk_append_and_take K k (take block_size b);
      flush_blocks K k bs n (size_written + block_size) })"

definition allocator_flush :: "'k sink_ops \<Rightarrow> 'k sink_allocator \<Rightarrow> nat \<Rightarrow> 'k sink_allocator option" where
  "allocator_flush K a n = do {
     k \<leftarrow> flush_blocks K (sa_dest a) (sa_blocks a) n 0;
     Some (a\<lparr>sa_dest := k, sa_blocks := []\<rparr>) }"

subsection \<open>SnappyScatteredWriter\<close>

record 'k scattered =
  sc_allocator :: "'k sink_allocator"
  sc_expected :: nat
  sc_full_size :: nat
  sc_op_ptr :: nat
  sc_op_limit :: nat

text \<open>\<open>expected_\<close> is not initialised by the constructor.\<close>

definition scattered_new :: "nat \<Rightarrow> 'k sink_allocator \<Rightarrow> 'k scattered" where
  "scattered_new e a =
     \<lparr>sc_allocator = a, sc_expected = e, sc_full_size = 0, sc_op_ptr = 0, sc_op_limit = 0\<rparr>"

definition scattered_size :: "'k scattered \<Rightarrow> nat" where
  "scattered_size w = sc_full_size w + sc_op_ptr w"

definition scattered_blocks :: "'k scattered \<Rightarrow> byte list list" where
  "scattered_blocks w = sa_blocks (sc_allocator w)"

definition scattered_set_expected :: "'k scattered \<Rightarrow> nat \<Rightarrow> 'k scattered option" where
  "scattered_set_expected w len =
     (if scattered_blocks w \<noteq> [] then None else Some (w\<lparr>sc_expected := len\<rparr>))"

definition scattered_check_length :: "'k scattered \<Rightarrow> bool" where
  "scattered_check_length w = (scattered_size w = sc_expected w)"

text \<open>A memcpy of \<open>t\<close> to \<open>op_ptr_\<close>; \<open>set_block\<close> replaces the content of the last block.\<close>

definition set_block :: "byte list \<Rightarrow> 'k scattered \<Rightarrow> 'k scattered" where
  "set_block b w = w\<lparr>sc_allocator := (sc_allocator w)\<lparr>sa_blocks := butlast (scattered_blocks w) @ [b]\<rparr>\<rparr>"

definition scattered_store :: "'k scattered \<Rightarrow> byte list \<Rightarrow> 'k scattered option" where
  "scattered_store w t =
     (if t = [] then Some w
      else if scattered_blocks w = [] then None
      else do {
        b \<leftarrow> mem_write (last (scattered_blocks w)) (sc_op_ptr w) t;
        Some (set_block b w) })"

definition scattered_advance :: "nat \<Rightarrow> 'k scattered \<Rightarrow> 'k scattered" where
  "scattered_advance n w = w\<lparr>sc_op_ptr := sc_op_ptr w + n\<rparr>"

definition new_block :: "(nat \<Rightarrow> byte) \<Rightarrow> 'k scattered \<Rightarrow> 'k scattered" where
  "new_block junk w =
     (let bsize = min 65536 (sc_expected w - sc_full_size w) in
      w\<lparr>sc_allocator := allocate junk (sc_allocator w) bsize, sc_op_ptr := 0, sc_op_limit := bsize\<rparr>)"

partial_function (option) slow_append ::
  "(nat \<Rightarrow> byte) \<Rightarrow> 'k scattered \<Rightarrow> byte list \<Rightarrow> nat \<Rightarrow> nat \<Rightarrow> ('k scattered \<times> bool) option" where [code]:
  "slow_append junk w m p len =
     (let avail = sc_op_limit w - sc_op_ptr w in
      if avail < len then do {
        t \<leftarrow> mem_read m p avail;
        w \<leftarrow> scattered_store w t;
        let w = scattered_advance avail w;
        let w = w\<lparr>sc_full_size := sc_full_size w + sc_op_ptr w\<rparr>;
        if sc_op_limit w - sc_op_ptr w \<noteq> 0 then None
        else if sc_expected w < sc_full_size w + (len - avail) then Some (w, False)
        else slow_append junk (new_block junk w) m (p + avail) (len - avail) }
      else do {
        t \<leftarrow> mem_read m p len;
        w \<leftarrow> scattered_store w t;
        Some (scattered_advance len w, True) })"

definition scattered_append ::
  "(nat \<Rightarrow> byte) \<Rightarrow> 'k scattered \<Rightarrow> byte list \<Rightarrow> nat \<Rightarrow> nat \<Rightarrow> ('k scattered \<times> bool) option" where
  "scattered_append junk w m p len =
     (if len \<le> sc_op_limit w - sc_op_ptr w then do {
        t \<leftarrow> mem_read m p len;
        w \<leftarrow> scattered_store w t;
        Some (scattered_advance len w, True) }
      else slow_append junk w m p len)"

definition scattered_try_fast_append ::
  "'k scattered \<Rightarrow> byte list \<Rightarrow> nat \<Rightarrow> nat \<Rightarrow> nat \<Rightarrow> ('k scattered \<times> bool) option" where
  "scattered_try_fast_append w m p available len =
     (let space_left = sc_op_limit w - sc_op_ptr w in
      if len \<le> 16 \<and> 16 + 5 \<le> available \<and> 16 \<le> space_left then do {
        t \<leftarrow> mem_read m p 16;
        w \<leftarrow> scattered_store w t;
        Some (scattered_advance len w, True) }
      else Some (w, False))"

primrec self_append_loop ::
  "(nat \<Rightarrow> byte) \<Rightarrow> 'k scattered \<Rightarrow> nat \<Rightarrow> nat \<Rightarrow> 'k scattered option" where
  "self_append_loop junk w src 0 = Some w"
| "self_append_loop junk w src (Suc len) =
     (if length (scattered_blocks w) \<le> src div 65536 then None
      else do {
        c \<leftarrow> mem_read (scattered_blocks w ! (src div 65536)) (src mod 65536) 1;
        (w, ok) \<leftarrow> scattered_append junk w c 0 1;
        self_append_loop junk w (src + 1) len })"

definition slow_append_from_self ::
  "(nat \<Rightarrow> byte) \<Rightarrow> 'k scattered \<Rightarrow> nat \<Rightarrow> nat \<Rightarrow> ('k scattered \<times> bool) option" where
  "slow_append_from_self junk w offset len =
     (let cur = scattered_size w in
      if cur \<le> minus_1u offset then Some (w, False)
      else if sc_expected w - cur < len then Some (w, False)
      else do {
        w \<leftarrow> self_append_loop junk w (cur - offset) len;
        Some (w, True) })"

definition scattered_append_from_self ::
  "(nat \<Rightarrow> byte) \<Rightarrow> 'k scattered \<Rightarrow> nat \<Rightarrow> nat \<Rightarrow> ('k scattered \<times> bool) option" where
  "scattered_append_from_self junk w offset len =
     (let op_end = sc_op_ptr w + len in
      if minus_1u offset < sc_op_ptr w \<and> op_end \<le> sc_op_limit w then
        if scattered_blocks w = [] then None
        else do {
          (op, b) \<leftarrow> incremental_copy (last (scattered_blocks w)) (sc_op_ptr w - offset)
            (sc_op_ptr w) op_end (sc_op_limit w);
          Some ((set_block b w)\<lparr>sc_op_ptr := op\<rparr>, True) }
      else slow_append_from_self junk w offset len)"

definition scattered_flush :: "'k sink_ops \<Rightarrow> 'k scattered \<Rightarrow> 'k scattered option" where
  "scattered_flush K w = do {
     a \<leftarrow> allocator_flush K (sc_allocator w) (scattered_size w);
     Some (w\<lparr>sc_allocator := a\<rparr>) }"

definition scattered_ops :: "(nat \<Rightarrow> byte) \<Rightarrow> 'k sink_ops \<Rightarrow> 'k scattered writer_ops" where
  "scattered_ops junk K = \<lparr>w_set_expected = scattered_set_expected,
     w_check_length = scattered_check_length, w_append = scattered_append junk,
     w_try_fast_append = scattered_try_fast_append,
     w_append_from_self = scattered_append_from_self junk, w_flush = scattered_flush K\<rparr>"

subsection \<open>The calls\<close>

text \<open>
  Uncompress into a sink: with a buffer that is large enough, lent or the one byte \<open>c\<close>, a flat
  array is decompressed, otherwise block by block.
\<close>

definition uncompress_sink ::
  "'s source_ops \<Rightarrow> 'k sink_ops \<Rightarrow> (nat \<Rightarrow> byte) \<Rightarrow> nat \<Rightarrow> byte list \<Rightarrow> byte \<Rightarrow> 's \<Rightarrow> 'k \<Rightarrow>
   ('s \<times> 'k \<times> bool) option" where
  "uncompress_sink S K junk e scr c r k =
     (case read_uncompressed_length S (decompressor_init r scr) of
        (d, None) \<Rightarrow> Some (decompressor_exit S d, k, False)
      | (d, Some uncompressed_len) \<Rightarrow>
          (case sk_get_append_buffer_variable K k 1 (unat uncompressed_len) 1 of
             (lent, allocated_size) \<Rightarrow>
               if unat uncompressed_len \<le> allocated_size then
                 (case lent of
                    Some (buf, dest) \<Rightarrow> do {
                      (d, w, result) \<leftarrow> internal_uncompress_all_tags S array_writer_ops d
                        (array_writer_new (drop dest buf)) uncompressed_len;
                      k \<leftarrow> sk_append_own K k (take dest buf @ aw_buf w) (array_produced w);
                      Some (decompressor_exit S d, k, result) }
                  | None \<Rightarrow> do {
                      (d, w, result) \<leftarrow> internal_uncompress_all_tags S array_writer_ops d
                        (array_writer_new [c]) uncompressed_len;
                      t \<leftarrow> mem_read (aw_buf w) 0 (array_produced w);
                      k \<leftarrow> sk_append K k t;
                      Some (decompressor_exit S d, k, result) })
               else do {
                 (d, w, result) \<leftarrow> internal_uncompress_all_tags S (scattered_ops junk K) d
                   (scattered_new e (allocator_new k)) uncompressed_len;
                 Some (decompressor_exit S d, sa_dest (sc_allocator w), result) }))"

definition uncompress_as_much_as_possible ::
  "'s source_ops \<Rightarrow> 'k sink_ops \<Rightarrow> (nat \<Rightarrow> byte) \<Rightarrow> nat \<Rightarrow> byte list \<Rightarrow> 's \<Rightarrow> 'k \<Rightarrow>
   ('s \<times> 'k \<times> nat) option" where
  "uncompress_as_much_as_possible S K junk e scr r k = do {
     (r, w, ok) \<leftarrow> internal_uncompress S (scattered_ops junk K) scr r (scattered_new e (allocator_new k));
     Some (r, sa_dest (sc_allocator w), scattered_size w) }"

subsection \<open>What the blocks hold\<close>

text \<open>
  \<open>scattered_rep k0 w L out\<close>: \<open>out\<close> has been written so far, into blocks that are full but for the
  last, and \<open>L\<close> bytes are expected; \<open>k0\<close> is the sink, which is not used before Flush.
\<close>

definition scattered_rep :: "'k \<Rightarrow> 'k scattered \<Rightarrow> nat \<Rightarrow> byte list \<Rightarrow> bool" where
  "scattered_rep k0 w L out \<longleftrightarrow>
     L < 2 ^ 32 \<and> sc_expected w = L \<and> sa_dest (sc_allocator w) = k0 \<and>
     (scattered_blocks w = [] \<and> sc_full_size w = 0 \<and> sc_op_ptr w = 0 \<and> sc_op_limit w = 0 \<and> out = [] \<or>
      (\<exists>full b. scattered_blocks w = full @ [b] \<and> (\<forall>c \<in> set full. length c = 65536) \<and>
         sc_full_size w = 65536 * length full \<and> sc_full_size w \<le> L \<and>
         sc_op_limit w = min 65536 (L - sc_full_size w) \<and> length b = sc_op_limit w \<and>
         sc_op_ptr w \<le> sc_op_limit w \<and> out = concat full @ take (sc_op_ptr w) b))"

definition scattered_safe :: "'k \<Rightarrow> nat \<Rightarrow> 'k scattered \<Rightarrow> bool" where
  "scattered_safe k0 M w \<longleftrightarrow>
     sa_dest (sc_allocator w) = k0 \<and> length (concat (scattered_blocks w)) \<le> M"

lemma length_concat_blocks: "\<forall>c \<in> set bs. length c = n \<Longrightarrow> length (concat bs) = n * length bs"
  by (induction bs) auto

lemma scattered_repE [consumes 1, case_names Nil blocks]:
  assumes "scattered_rep k0 w L out"
  obtains "scattered_blocks w = []" "sc_full_size w = 0" "sc_op_ptr w = 0" "sc_op_limit w = 0"
      "out = []" "L < 2 ^ 32" "sc_expected w = L" "sa_dest (sc_allocator w) = k0"
  | full b where "scattered_blocks w = full @ [b]" "\<forall>c \<in> set full. length c = 65536"
      "sc_full_size w = 65536 * length full" "sc_full_size w \<le> L"
      "sc_op_limit w = min 65536 (L - sc_full_size w)" "length b = sc_op_limit w"
      "sc_op_ptr w \<le> sc_op_limit w" "out = concat full @ take (sc_op_ptr w) b"
      "length (concat full) = sc_full_size w"
      "L < 2 ^ 32" "sc_expected w = L" "sa_dest (sc_allocator w) = k0"
proof (cases "scattered_blocks w = []")
  case True
  with assms show ?thesis
    by (intro that(1)) (auto simp: scattered_rep_def)
next
  case False
  with assms obtain full b where "scattered_blocks w = full @ [b]" "\<forall>c \<in> set full. length c = 65536"
    "sc_full_size w = 65536 * length full" "sc_full_size w \<le> L"
    "sc_op_limit w = min 65536 (L - sc_full_size w)" "length b = sc_op_limit w"
    "sc_op_ptr w \<le> sc_op_limit w" "out = concat full @ take (sc_op_ptr w) b"
    "L < 2 ^ 32" "sc_expected w = L" "sa_dest (sc_allocator w) = k0"
    unfolding scattered_rep_def by blast
  then show ?thesis
    using length_concat_blocks [of full 65536] by (intro that(2)) simp_all
qed

lemma scattered_rep_size:
  assumes "scattered_rep k0 w L out"
  shows "scattered_size w = length out" and "length out \<le> L" and "sc_expected w = L"
    and "sc_op_ptr w \<le> sc_op_limit w" and "length out + (sc_op_limit w - sc_op_ptr w) \<le> L"
    and "L < 2 ^ 32"
proof -
  have "scattered_size w = length out \<and> length out \<le> L \<and> sc_expected w = L \<and>
    sc_op_ptr w \<le> sc_op_limit w \<and> length out + (sc_op_limit w - sc_op_ptr w) \<le> L \<and> L < 2 ^ 32"
    using assms
  proof (cases rule: scattered_repE)
    case Nil
    then show ?thesis
      by (simp add: scattered_size_def)
  next
    case (blocks full b)
    have "length out = sc_full_size w + sc_op_ptr w"
      using blocks(6-9) by simp
    moreover have "sc_full_size w + sc_op_limit w \<le> L"
      using blocks(4,5) by linarith
    ultimately show ?thesis
      using blocks(7,10-11) by (simp add: scattered_size_def)
  qed
  then show "scattered_size w = length out" and "length out \<le> L" and "sc_expected w = L"
    and "sc_op_ptr w \<le> sc_op_limit w" and "length out + (sc_op_limit w - sc_op_ptr w) \<le> L"
    and "L < 2 ^ 32"
    by blast+
qed

lemma scattered_rep_safe:
  assumes "scattered_rep k0 w L out"
  shows "scattered_safe k0 L w"
  using assms
proof (cases rule: scattered_repE)
  case (blocks full b)
  have "sc_full_size w + sc_op_limit w \<le> L"
    using blocks(4,5) by linarith
  with blocks(1,6,9,12) show ?thesis
    by (simp add: scattered_safe_def)
qed (simp add: scattered_safe_def)

lemma set_block_simps [simp]:
  "scattered_blocks (set_block b w) = butlast (scattered_blocks w) @ [b]"
  "sc_expected (set_block b w) = sc_expected w" "sc_full_size (set_block b w) = sc_full_size w"
  "sc_op_ptr (set_block b w) = sc_op_ptr w" "sc_op_limit (set_block b w) = sc_op_limit w"
  "sa_dest (sc_allocator (set_block b w)) = sa_dest (sc_allocator w)"
  by (simp_all add: set_block_def scattered_blocks_def)

lemma scattered_advance_simps [simp]:
  "scattered_blocks (scattered_advance n w) = scattered_blocks w"
  "sc_op_ptr (scattered_advance n w) = sc_op_ptr w + n"
  "sc_expected (scattered_advance n w) = sc_expected w"
  "sc_full_size (scattered_advance n w) = sc_full_size w"
  "sc_op_limit (scattered_advance n w) = sc_op_limit w"
  "sc_allocator (scattered_advance n w) = sc_allocator w"
  by (simp_all add: scattered_advance_def scattered_blocks_def)

lemma scattered_blocks_update [simp]:
  "scattered_blocks (w\<lparr>sc_op_ptr := i\<rparr>) = scattered_blocks w"
  "scattered_blocks (w\<lparr>sc_full_size := i\<rparr>) = scattered_blocks w"
  by (simp_all add: scattered_blocks_def)

text \<open>A block of the last block's size in its place.\<close>

lemma scattered_rep_set:
  assumes "scattered_rep k0 w L out" and "scattered_blocks w \<noteq> []"
    and "length b = length (last (scattered_blocks w))" and "op \<le> sc_op_limit w"
  shows "scattered_rep k0 ((set_block b w)\<lparr>sc_op_ptr := op\<rparr>) L
    (concat (butlast (scattered_blocks w)) @ take op b)"
  using assms by (auto elim!: scattered_repE simp: scattered_rep_def)

lemma scattered_store_rep:
  assumes r: "scattered_rep k0 w L out" and fits: "length t \<le> sc_op_limit w - sc_op_ptr w"
    and n: "n \<le> length t"
  shows "\<exists>w'. scattered_store w t = Some w' \<and> scattered_rep k0 (scattered_advance n w') L (out @ take n t)"
proof (cases "t = []")
  case True
  then have "scattered_advance n w = w"
    using n by (simp add: scattered_advance_def)
  with r True show ?thesis
    by (simp add: scattered_store_def)
next
  case False
  with r fits obtain full b where b: "scattered_blocks w = full @ [b]" "length b = sc_op_limit w"
    "sc_op_ptr w \<le> sc_op_limit w" "out = concat full @ take (sc_op_ptr w) b"
    by (cases rule: scattered_repE) auto
  then have "sc_op_ptr w + length t \<le> length b"
    using fits False by auto
  then obtain b' where b': "mem_write b (sc_op_ptr w) t = Some b'"
    by (simp add: mem_write_def)
  have "scattered_advance n (set_block b' w) = (set_block b' w)\<lparr>sc_op_ptr := sc_op_ptr w + n\<rparr>"
    by (simp add: scattered_advance_def)
  moreover have "take (sc_op_ptr w + n) b' = take (sc_op_ptr w) b @ take n t"
  proof -
    have "take (sc_op_ptr w + n) b' = take (sc_op_ptr w + n) (take (sc_op_ptr w + length t) b')"
      using n by (simp add: min_def)
    then show ?thesis
      using mem_write_take [OF b'] \<open>sc_op_ptr w + length t \<le> length b\<close> by simp
  qed
  moreover have "sc_op_ptr w + n \<le> sc_op_limit w"
    using fits n False b(3) by (cases t) auto
  ultimately have "scattered_rep k0 (scattered_advance n (set_block b' w)) L (out @ take n t)"
    using scattered_rep_set [OF r, of b' "sc_op_ptr w + n"] b mem_write_length [OF b']
    by (simp del: scattered_advance_simps)
  with b(1) b' False show ?thesis
    by (simp add: scattered_store_def)
qed

end
