(* ===== verification/Snappy_Scatter_Spec.thy ===== *)
theory Snappy_Scatter_Spec
  imports Snappy_Scatter
begin

section \<open>Snappy: the scattered writer keeps the contract of a writer\<close>

text \<open>
  Every operation of SnappyScatteredWriter, on blocks that hold what has been decompressed
  (\<open>scattered_rep\<close>), is shown to do what the contract \<open>snappy_writer\<close> asks, with any sink that
  keeps the contract \<open>snappy_sink\<close>; Flush gives the sink the bytes written so far.
\<close>

subsection \<open>Append\<close>

lemma new_block_rep:
  assumes r: "scattered_rep k0 w L out" and full: "sc_op_ptr w = sc_op_limit w"
    and fits: "sc_full_size w + sc_op_ptr w < L"
  shows "scattered_rep k0 (new_block junk (w\<lparr>sc_full_size := sc_full_size w + sc_op_ptr w\<rparr>)) L out"
    and "sc_op_ptr (new_block junk (w\<lparr>sc_full_size := sc_full_size w + sc_op_ptr w\<rparr>))
      < sc_op_limit (new_block junk (w\<lparr>sc_full_size := sc_full_size w + sc_op_ptr w\<rparr>))"
proof -
  let ?w = "new_block junk (w\<lparr>sc_full_size := sc_full_size w + sc_op_ptr w\<rparr>)"
  let ?full = "sc_full_size w + sc_op_ptr w" and ?b = "new_chars junk (min 65536 (L - (sc_full_size w + sc_op_ptr w)))"
  have exp: "sc_expected w = L" "L < 2 ^ 32" "sa_dest (sc_allocator w) = k0"
    using r by (auto simp: scattered_rep_def)
  have w: "scattered_blocks ?w = scattered_blocks w @ [?b]" "sc_full_size ?w = ?full"
    "sc_op_ptr ?w = 0" "sc_op_limit ?w = min 65536 (L - ?full)" "sc_expected ?w = L"
    "sa_dest (sc_allocator ?w) = k0"
    using exp by (simp_all add: new_block_def Let_def allocate_def scattered_blocks_def)
  have b: "length ?b = min 65536 (L - ?full)"
    by (simp add: new_chars_def)
  have all: "(\<forall>c \<in> set (scattered_blocks w). length c = 65536) \<and>
      ?full = 65536 * length (scattered_blocks w) \<and> out = concat (scattered_blocks w)"
    using r
  proof (cases rule: scattered_repE)
    case Nil
    then show ?thesis
      by simp
  next
    case (blocks full b)
    have "sc_op_limit w = 65536"
      using blocks(4,5) full fits by linarith
    with blocks full show ?thesis
      by simp
  qed
  show "scattered_rep k0 ?w L out"
    unfolding scattered_rep_def w using exp(2) all fits b
    by (intro conjI disjI2 exI [of _ "scattered_blocks w"] exI [of _ ?b]) simp_all
  show "sc_op_ptr ?w < sc_op_limit ?w"
    unfolding w using fits by simp
qed

lemma scattered_full_safe: "scattered_safe k0 M w \<Longrightarrow> scattered_safe k0 M (w\<lparr>sc_full_size := n\<rparr>)"
  by (simp add: scattered_safe_def)

lemma slow_append_result:
  assumes "scattered_rep k0 w L out" and "p + len \<le> length m"
  shows "\<exists>w' ok. slow_append junk w m p len = Some (w', ok) \<and> (ok \<longleftrightarrow> length out + len \<le> L) \<and>
    (if ok then scattered_rep k0 w' L (out @ take len (drop p m)) else scattered_safe k0 L w')"
  using assms
proof (induction "2 * len + (if sc_op_ptr w < sc_op_limit w then 0 else 1)"
    arbitrary: w out p len rule: less_induct)
  case less
  note r = \<open>scattered_rep k0 w L out\<close>
  let ?avail = "sc_op_limit w - sc_op_ptr w"
  note sz = scattered_rep_size [OF r]
  show ?case
  proof (cases "?avail < len")
    case False
    let ?t = "take len (drop p m)"
    have t: "mem_read m p len = Some ?t" "length ?t = len"
      using less.prems(2) by (simp_all add: mem_read_def)
    have "length ?t \<le> ?avail" "len \<le> length ?t"
      unfolding t(2) using False by simp_all
    from scattered_store_rep [OF r this] obtain w' where "scattered_store w ?t = Some w'"
      "scattered_rep k0 (scattered_advance len w') L (out @ take len ?t)"
      by blast
    moreover have "length out + len \<le> L"
      using sz(5) False by linarith
    ultimately show ?thesis
      using t(1) False by (subst slow_append.simps) simp
  next
    case True
    let ?t = "take ?avail (drop p m)"
    have t: "mem_read m p ?avail = Some ?t" "length ?t = ?avail"
      using less.prems(2) True by (simp_all add: mem_read_def)
    have "length ?t \<le> ?avail" "?avail \<le> length ?t"
      unfolding t(2) by simp_all
    from scattered_store_rep [OF r this] obtain w1 where w1: "scattered_store w ?t = Some w1"
      "scattered_rep k0 (scattered_advance ?avail w1) L (out @ take ?avail ?t)"
      by blast
    let ?w = "scattered_advance ?avail w1"
    have same: "sc_op_ptr w1 = sc_op_ptr w" "sc_op_limit w1 = sc_op_limit w"
      using w1(1) by (auto simp: scattered_store_def split: if_splits Option.bind_splits)
    have full: "sc_op_ptr ?w = sc_op_limit ?w"
      using sz(4) same by simp
    have out1: "take ?avail ?t = ?t"
      by simp
    note r1 = w1(2) [unfolded out1]
    note sz1 = scattered_rep_size [OF r1]
    let ?w2 = "?w\<lparr>sc_full_size := sc_full_size ?w + sc_op_ptr ?w\<rparr>"
    have size1: "sc_full_size ?w + sc_op_ptr ?w = length out + ?avail"
      using sz1(1) t(2) by (simp add: scattered_size_def)
    have step: "slow_append junk w m p len =
      (if L < length out + ?avail + (len - ?avail) then Some (?w2, False)
       else slow_append junk (new_block junk ?w2) m (p + ?avail) (len - ?avail))"
      using True t(1) w1(1) full size1 sz1(3)
      by (subst slow_append.simps) (simp add: Let_def)
    show ?thesis
    proof (cases "L < length out + ?avail + (len - ?avail)")
      case over: True
      have "scattered_safe k0 L ?w2"
        by (rule scattered_full_safe [OF scattered_rep_safe [OF r1]])
      moreover have "\<not> length out + len \<le> L"
        using over True by linarith
      ultimately show ?thesis
        using step over by simp
    next
      case False
      have fits: "sc_full_size ?w + sc_op_ptr ?w < L"
        unfolding size1 using False True by linarith
      note new = new_block_rep [OF r1 full fits, of junk]
      have dec: "2 * (len - ?avail) + (if sc_op_ptr (new_block junk ?w2) < sc_op_limit (new_block junk ?w2)
          then 0 else 1) < 2 * len + (if sc_op_ptr w < sc_op_limit w then 0 else 1)"
        using new(2) True by (cases "sc_op_ptr w < sc_op_limit w") simp_all
      have p: "p + ?avail + (len - ?avail) \<le> length m"
        using less.prems(2) True by simp
      obtain w' ok where
        IH: "slow_append junk (new_block junk ?w2) m (p + ?avail) (len - ?avail) = Some (w', ok)"
        "ok \<longleftrightarrow> length (out @ ?t) + (len - ?avail) \<le> L"
        "if ok then scattered_rep k0 w' L ((out @ ?t) @ take (len - ?avail) (drop (p + ?avail) m))
         else scattered_safe k0 L w'"
        using less.hyps [OF dec new(1) p] by blast
      have "?t @ take (len - ?avail) (drop (p + ?avail) m) = take len (drop p m)"
        using True take_add [of ?avail "len - ?avail" "drop p m"] by (simp add: add.commute)
      then have "(out @ ?t) @ take (len - ?avail) (drop (p + ?avail) m) = out @ take len (drop p m)"
        by (simp only: append_assoc)
      moreover have "length (out @ ?t) + (len - ?avail) = length out + len"
        using t(2) True by simp
      ultimately show ?thesis
        using IH step False by (simp only: if_False) blast
    qed
  qed
qed

lemma scattered_append_result:
  assumes "scattered_rep k0 w L out" and "p + len \<le> length m"
  shows "\<exists>w' ok. scattered_append junk w m p len = Some (w', ok) \<and> (ok \<longleftrightarrow> length out + len \<le> L) \<and>
    (if ok then scattered_rep k0 w' L (out @ take len (drop p m)) else scattered_safe k0 L w')"
proof (cases "len \<le> sc_op_limit w - sc_op_ptr w")
  case True
  then have "scattered_append junk w m p len = slow_append junk w m p len"
    by (simp add: scattered_append_def slow_append.simps not_less)
  with slow_append_result [OF assms] show ?thesis
    by simp
next
  case False
  with slow_append_result [OF assms] show ?thesis
    by (simp add: scattered_append_def)
qed

lemma scattered_try_fast_result:
  assumes r: "scattered_rep k0 w L out" and "p + avail \<le> length m"
  shows "\<exists>w' ok. scattered_try_fast_append w m p avail n = Some (w', ok) \<and>
    (ok \<longrightarrow> n \<le> 16 \<and> n + 5 \<le> avail \<and> length out + n \<le> L \<and>
      scattered_rep k0 w' L (out @ take n (drop p m))) \<and> (\<not> ok \<longrightarrow> w' = w)"
proof (cases "n \<le> 16 \<and> 16 + 5 \<le> avail \<and> 16 \<le> sc_op_limit w - sc_op_ptr w")
  case False
  then show ?thesis
    by (auto simp: scattered_try_fast_append_def Let_def)
next
  case True
  let ?t = "take 16 (drop p m)"
  have "p + 16 \<le> length m"
    using assms(2) True by linarith
  then have t: "mem_read m p 16 = Some ?t" "length ?t = 16"
    by (simp_all add: mem_read_def)
  have "length ?t \<le> sc_op_limit w - sc_op_ptr w" "n \<le> length ?t"
    unfolding t(2) using True by simp_all
  from scattered_store_rep [OF r this] obtain w' where w': "scattered_store w ?t = Some w'"
    "scattered_rep k0 (scattered_advance n w') L (out @ take n ?t)"
    by blast
  have "take n ?t = take n (drop p m)"
    using True by (simp add: min_def)
  moreover have "length out + n \<le> L"
    using scattered_rep_size(5) [OF r] True by linarith
  moreover have "scattered_try_fast_append w m p avail n = Some (scattered_advance n w', True)"
    using t(1) w'(1) True by (simp add: scattered_try_fast_append_def)
  ultimately show ?thesis
    using True w'(2) by (intro exI [of _ "scattered_advance n w'"] exI [of _ True]) auto
qed

subsection \<open>AppendFromSelf\<close>

lemma nth_blocks:
  assumes "\<forall>c \<in> set full. length c = n" and "0 < n" and "i < n * length full + length b" and "length b \<le> n"
  shows "i div n < Suc (length full)" and "i mod n < length ((full @ [b]) ! (i div n))"
    and "concat (full @ [b]) ! i = (full @ [b]) ! (i div n) ! (i mod n)"
proof -
  have "i div n < Suc (length full) \<and> i mod n < length ((full @ [b]) ! (i div n)) \<and>
    concat (full @ [b]) ! i = (full @ [b]) ! (i div n) ! (i mod n)"
    using assms
  proof (induction full arbitrary: i)
    case (Cons c full)
    show ?case
    proof (cases "i < n")
      case True
      with Cons.prems show ?thesis
        by (simp add: nth_append)
    next
      case False
      have "i - n < n * length full + length b"
        using Cons.prems(3) False by simp
      then have IH: "(i - n) div n < Suc (length full) \<and>
          (i - n) mod n < length ((full @ [b]) ! ((i - n) div n)) \<and>
          concat (full @ [b]) ! (i - n) = (full @ [b]) ! ((i - n) div n) ! ((i - n) mod n)"
        using Cons.IH [of "i - n"] Cons.prems by simp
      have "i div n = Suc ((i - n) div n)" "i mod n = (i - n) mod n"
        using False Cons.prems(2) by (simp_all add: le_div_geq le_mod_geq not_less)
      with IH False Cons.prems(1) show ?thesis
        by (simp add: nth_append)
    qed
  qed simp
  then show "i div n < Suc (length full)" and "i mod n < length ((full @ [b]) ! (i div n))"
    and "concat (full @ [b]) ! i = (full @ [b]) ! (i div n) ! (i mod n)"
    by blast+
qed

lemma scattered_read:
  assumes r: "scattered_rep k0 w L out" and i: "i < length out"
  shows "i div 65536 < length (scattered_blocks w)"
    and "mem_read (scattered_blocks w ! (i div 65536)) (i mod 65536) 1 = Some [out ! i]"
proof -
  obtain full b where b: "scattered_blocks w = full @ [b]" "\<forall>c \<in> set full. length c = 65536"
    "length (concat full) = 65536 * length full" "length b \<le> 65536" "sc_op_ptr w \<le> length b"
    "out = concat full @ take (sc_op_ptr w) b"
    using r i by (cases rule: scattered_repE) simp_all
  have "length out \<le> 65536 * length full + length b"
    using b(3,5,6) by simp
  then have i2: "i < 65536 * length full + length b"
    using i by simp
  note n = nth_blocks [OF b(2) _ i2 b(4)]
  have "concat (full @ [b]) = out @ drop (sc_op_ptr w) b"
    by (simp add: b(6))
  then have "out ! i = concat (full @ [b]) ! i"
    using i by (simp add: nth_append)
  with n show "i div 65536 < length (scattered_blocks w)"
    and "mem_read (scattered_blocks w ! (i div 65536)) (i mod 65536) 1 = Some [out ! i]"
    by (simp_all add: b(1) mem_read_def take_Suc hd_drop_conv_nth)
qed

lemma self_append_loop_step:
  assumes "src div 65536 < length (scattered_blocks w)"
    and "mem_read (scattered_blocks w ! (src div 65536)) (src mod 65536) 1 = Some c"
    and "scattered_append junk w c 0 1 = Some (w', ok)"
  shows "self_append_loop junk w src (Suc len) = self_append_loop junk w' (src + 1) len"
  using assms by (simp add: not_le)

lemma self_append_loop_result:
  assumes "scattered_rep k0 w L (lz_copy out d i)" and "0 < d" "d \<le> length out"
    and "length out + i + len \<le> L"
  shows "\<exists>w'. self_append_loop junk w (length out + i - d) len = Some w' \<and>
    scattered_rep k0 w' L (lz_copy out d (i + len))"
  using assms
proof (induction len arbitrary: w i)
  case (Suc len)
  let ?src = "length out + i - d" and ?o = "lz_copy out d i"
  have src: "?src < length ?o"
    using Suc.prems(2,3) by simp
  note rd = scattered_read [OF Suc.prems(1) src]
  have "\<exists>w' ok. scattered_append junk w [?o ! ?src] 0 1 = Some (w', ok) \<and> (ok \<longleftrightarrow> length ?o + 1 \<le> L) \<and>
    (if ok then scattered_rep k0 w' L (?o @ take 1 (drop 0 [?o ! ?src])) else scattered_safe k0 L w')"
    by (rule scattered_append_result [OF Suc.prems(1)]) simp
  then obtain w1 ok where w1: "scattered_append junk w [?o ! ?src] 0 1 = Some (w1, ok)"
    "ok \<longleftrightarrow> length ?o + 1 \<le> L"
    "if ok then scattered_rep k0 w1 L (?o @ take 1 (drop 0 [?o ! ?src])) else scattered_safe k0 L w1"
    by blast
  have ok: ok
    using w1(2) Suc.prems(4) by simp
  have r1: "scattered_rep k0 w1 L (lz_copy out d (Suc i))"
    using w1(3) ok by (simp add: Let_def)
  have "length out + Suc i + len \<le> L"
    using Suc.prems(4) by simp
  from Suc.IH [OF r1 Suc.prems(2,3) this] obtain w2 where w2:
    "self_append_loop junk w1 (length out + Suc i - d) len = Some w2"
    "scattered_rep k0 w2 L (lz_copy out d (Suc i + len))"
    by blast
  have next_src: "length out + Suc i - d = ?src + 1"
    using Suc.prems(3) by simp
  have "self_append_loop junk w ?src (Suc len) = self_append_loop junk w1 (?src + 1) len"
    by (rule self_append_loop_step [OF rd w1(1)])
  with w2 next_src show ?case
    by (intro exI [of _ w2]) (simp only: add_Suc_shift simp_thms)
qed simp

lemma scattered_append_self_result:
  assumes r: "scattered_rep k0 w L out" and n: "0 < n" "n \<le> 64" and d: "d < 2 ^ 33"
  shows "\<exists>w' ok. scattered_append_from_self junk w d n = Some (w', ok) \<and>
    (ok \<longleftrightarrow> 0 < d \<and> d \<le> length out \<and> length out + n \<le> L) \<and>
    (if ok then scattered_rep k0 w' L (lz_copy out d n) else scattered_safe k0 L w')"
proof -
  note sz = scattered_rep_size [OF r]
  have small: "length out < 2 ^ 64" "d < 2 ^ 64" "sc_op_ptr w < 2 ^ 64"
    using sz(1,2,6) d by (simp_all add: scattered_size_def)
  show ?thesis
  proof (cases "minus_1u d < sc_op_ptr w \<and> sc_op_ptr w + n \<le> sc_op_limit w")
    case False
    have slow: "scattered_append_from_self junk w d n = slow_append_from_self junk w d n"
      using False by (auto simp: scattered_append_from_self_def Let_def)
    show ?thesis
    proof (cases "0 < d \<and> d \<le> length out \<and> length out + n \<le> L")
      case True
      have "\<not> length out \<le> minus_1u d"
        using True minus_1u_le [OF small(1,2)] by simp
      moreover have "\<not> L - length out < n"
        using True by linarith
      moreover obtain w' where "self_append_loop junk w (length out + 0 - d) n = Some w'"
        "scattered_rep k0 w' L (lz_copy out d (0 + n))"
        using self_append_loop_result [of k0 w L out d 0 n junk] r True by auto
      ultimately show ?thesis
        using True sz by (simp add: slow slow_append_from_self_def)
    next
      case refuse: False
      then have "slow_append_from_self junk w d n = Some (w, False)"
        using minus_1u_le [OF small(1,2)] sz(1-3) by (auto simp: slow_append_from_self_def Let_def)
      then show ?thesis
        using refuse scattered_rep_safe [OF r] by (auto simp: slow)
    qed
  next
    case True
    have dd: "0 < d" "d \<le> sc_op_ptr w"
      using True minus_1u_le [OF small(3,2)] by auto
    obtain full b where b: "scattered_blocks w = full @ [b]" "length b = sc_op_limit w"
      "out = concat full @ take (sc_op_ptr w) b"
      using r dd by (cases rule: scattered_repE) simp_all
    let ?p = "sc_op_ptr w"
    obtain b' where b': "incremental_copy b (?p - d) ?p (?p + n) (sc_op_limit w) = Some (?p + n, b')"
      "copied b ?p (?p - (?p - d)) (sc_op_limit w) b' (?p + n)"
      by (rule incremental_copy_copied [of "?p - d" ?p "?p + n" "sc_op_limit w" b])
        (use True dd b(2) n in auto)
    have c: "length b' = length b" "take (?p + n) b' = lz_copy (take ?p b) d n"
      using b'(2) dd by (auto simp: copied_def)
    have "d \<le> length (take ?p b)"
      using dd sz(4) b(2) by simp
    then have "concat full @ lz_copy (take ?p b) d n = lz_copy out d n"
      using lz_copy_append [of d "take ?p b" "concat full" n] dd b(3) by simp
    then have "scattered_rep k0 ((set_block b' w)\<lparr>sc_op_ptr := ?p + n\<rparr>) L (lz_copy out d n)"
      using scattered_rep_set [OF r, of b' "?p + n"] b(1) c True by simp
    moreover have "0 < d \<and> d \<le> length out \<and> length out + n \<le> L"
    proof -
      have "?p \<le> length out"
        using sz(1) by (simp add: scattered_size_def)
      then show ?thesis
        using dd True sz(4,5) by linarith
    qed
    moreover have "scattered_append_from_self junk w d n = Some ((set_block b' w)\<lparr>sc_op_ptr := ?p + n\<rparr>, True)"
      using True b(1) b'(1) by (simp add: scattered_append_from_self_def)
    ultimately show ?thesis
      by (intro exI [of _ "(set_block b' w)\<lparr>sc_op_ptr := ?p + n\<rparr>"] exI [of _ True]) simp
  qed
qed

subsection \<open>Flush and the contract\<close>

context snappy_sink
begin

lemma flush_blocks_result:
  assumes "ok k" and "length (concat bs) \<le> room k"
  shows "\<exists>k'. flush_blocks K k bs n written = Some k' \<and> ok k' \<and>
    taken k' = taken k @ take (n - written) (concat bs)"
  using assms
proof (induction bs arbitrary: k written)
  case (Cons b bs)
  let ?s = "min (length b) (n - written)"
  have "length (take ?s b) \<le> room k"
    using Cons.prems(2) by simp
  from append_and_take [OF Cons.prems(1) this] obtain k1 where k1:
    "sk_append_and_take K k (take ?s b) = Some k1" "ok k1" "taken k1 = taken k @ take ?s b"
    "room k1 + length (take ?s b) = room k"
    by blast
  have "length (concat bs) \<le> room k1"
    using k1(4) Cons.prems(2) by simp
  from Cons.IH [OF k1(2) this, of "written + ?s"] obtain k2 where
    "flush_blocks K k1 bs n (written + ?s) = Some k2" "ok k2"
    "taken k2 = taken k1 @ take (n - (written + ?s)) (concat bs)"
    by blast
  moreover have "take ?s b @ take (n - (written + ?s)) (concat bs) = take (n - written) (concat (b # bs))"
    by (cases "length b \<le> n - written") (simp_all add: min_def)
  ultimately show ?case
    using k1 by simp
qed simp

lemma scattered_flush_result:
  assumes "scattered_safe k0 M w" and "ok k0" and "M \<le> room k0"
  shows "\<exists>w'. scattered_flush K w = Some w' \<and> ok (sa_dest (sc_allocator w')) \<and>
    taken (sa_dest (sc_allocator w')) = taken k0 @ take (scattered_size w) (concat (scattered_blocks w)) \<and>
    scattered_size w' = scattered_size w \<and> sc_expected w' = sc_expected w"
proof -
  have "length (concat (sa_blocks (sc_allocator w))) \<le> room k0" "sa_dest (sc_allocator w) = k0"
    using assms by (auto simp: scattered_safe_def scattered_blocks_def)
  with flush_blocks_result [OF assms(2), of "sa_blocks (sc_allocator w)" "scattered_size w" 0] obtain k where
    "flush_blocks K k0 (sa_blocks (sc_allocator w)) (scattered_size w) 0 = Some k" "ok k"
    "taken k = taken k0 @ take (scattered_size w) (concat (scattered_blocks w))"
    by (auto simp: scattered_blocks_def)
  with \<open>sa_dest (sc_allocator w) = k0\<close> show ?thesis
    by (simp add: scattered_flush_def allocator_flush_def scattered_size_def)
qed

end

lemma scattered_rep_prefix:
  assumes "scattered_rep k0 w L out"
  shows "take (scattered_size w) (concat (scattered_blocks w)) = out"
  using assms scattered_rep_size(1) [OF assms] by (cases rule: scattered_repE) simp_all

text \<open>What the sink \<open>k0\<close> can take bounds the length that may be announced.\<close>

definition scattered_fresh :: "('k \<Rightarrow> bool) \<Rightarrow> ('k \<Rightarrow> nat) \<Rightarrow> 'k \<Rightarrow> 'k scattered \<Rightarrow> nat \<Rightarrow> bool" where
  "scattered_fresh ok room k0 w L \<longleftrightarrow>
     L < 2 ^ 32 \<and> ok k0 \<and> L \<le> room k0 \<and> (\<exists>e. w = scattered_new e (allocator_new k0))"

definition scattered_final ::
  "('k \<Rightarrow> bool) \<Rightarrow> ('k \<Rightarrow> byte list) \<Rightarrow> 'k \<Rightarrow> 'k scattered \<Rightarrow> nat \<Rightarrow> byte list \<Rightarrow> bool" where
  "scattered_final ok taken k0 w L out \<longleftrightarrow>
     ok (sa_dest (sc_allocator w)) \<and> taken (sa_dest (sc_allocator w)) = taken k0 @ out \<and>
     scattered_size w = length out"

lemma scattered_set_expected_rep:
  assumes "L < 2 ^ 32"
  shows "\<exists>w'. scattered_set_expected (scattered_new e (allocator_new k0)) L = Some w' \<and>
    scattered_rep k0 w' L []"
proof -
  let ?w = "scattered_new L (allocator_new k0)"
  have "scattered_set_expected (scattered_new e (allocator_new k0)) L = Some ?w"
    by (simp add: scattered_set_expected_def scattered_blocks_def scattered_new_def allocator_new_def)
  moreover have "scattered_blocks ?w = []" "sc_full_size ?w = 0" "sc_op_ptr ?w = 0"
    "sc_op_limit ?w = 0" "sc_expected ?w = L" "sa_dest (sc_allocator ?w) = k0"
    by (simp_all add: scattered_blocks_def scattered_new_def allocator_new_def)
  ultimately show ?thesis
    using assms by (intro exI [of _ ?w] conjI) (simp_all only: scattered_rep_def simp_thms)
qed

lemma scattered_ops_simps [simp]:
  "w_set_expected (scattered_ops junk K) = scattered_set_expected"
  "w_check_length (scattered_ops junk K) = scattered_check_length"
  "w_append (scattered_ops junk K) = scattered_append junk"
  "w_try_fast_append (scattered_ops junk K) = scattered_try_fast_append"
  "w_append_from_self (scattered_ops junk K) = scattered_append_from_self junk"
  "w_flush (scattered_ops junk K) = scattered_flush K"
  by (simp_all add: scattered_ops_def)

text \<open>The representation, and after a refusal the state, with a sink that takes \<open>L\<close> bytes.\<close>

definition scattered_sound ::
  "('k \<Rightarrow> bool) \<Rightarrow> ('k \<Rightarrow> nat) \<Rightarrow> 'k \<Rightarrow> 'k scattered \<Rightarrow> nat \<Rightarrow> byte list \<Rightarrow> bool" where
  "scattered_sound ok room k0 w L out \<longleftrightarrow> scattered_rep k0 w L out \<and> ok k0 \<and> L \<le> room k0"

definition scattered_bounded :: "('k \<Rightarrow> bool) \<Rightarrow> ('k \<Rightarrow> nat) \<Rightarrow> 'k \<Rightarrow> 'k scattered \<Rightarrow> bool" where
  "scattered_bounded ok room k0 w \<longleftrightarrow> (\<exists>M. scattered_safe k0 M w \<and> ok k0 \<and> M \<le> room k0)"

lemma scattered_soundI:
  assumes "scattered_sound ok room k0 w L out"
    and "if b then scattered_rep k0 w' L out' else scattered_safe k0 L w'"
  shows "if b then scattered_sound ok room k0 w' L out' else scattered_bounded ok room k0 w'"
  using assms by (auto simp: scattered_sound_def scattered_bounded_def)

sublocale snappy_sink \<subseteq> scattered: snappy_writer "scattered_ops junk K" "scattered_fresh ok room k0"
  "scattered_sound ok room k0" "scattered_bounded ok room k0"
  "scattered_final ok taken k0" "\<lambda>w. ok (sa_dest (sc_allocator w))" for junk k0
proof (unfold_locales, goal_cases)
  case (1 w L)
  then obtain e where w: "w = scattered_new e (allocator_new k0)" and L: "L < 2 ^ 32" "ok k0" "L \<le> room k0"
    unfolding scattered_fresh_def by blast
  from scattered_set_expected_rep [OF L(1), of e k0] obtain w' where
    "scattered_set_expected w L = Some w'" "scattered_rep k0 w' L []"
    unfolding w by blast
  with L(2,3) show ?case
    unfolding scattered_ops_simps scattered_sound_def by blast
next
  case (2 w L out)
  then have "scattered_rep k0 w L out"
    by (simp only: scattered_sound_def)
  then show ?case
    by (rule scattered_rep_size(2))
next
  case (3 w L out)
  then have r: "scattered_rep k0 w L out" "ok k0 \<and> L \<le> room k0"
    by (simp_all only: scattered_sound_def simp_thms)
  show ?case
    unfolding scattered_bounded_def using scattered_rep_safe [OF r(1)] r(2) by (intro exI [of _ L]) simp
next
  case (4 w)
  then obtain w' where w': "scattered_flush K w = Some w'" "ok (sa_dest (sc_allocator w'))"
    "taken (sa_dest (sc_allocator w')) = taken k0 @ take (scattered_size w) (concat (scattered_blocks w))"
    "scattered_size w' = scattered_size w" "sc_expected w' = sc_expected w"
    unfolding scattered_bounded_def using scattered_flush_result by blast
  have "scattered_final ok taken k0 w' L out \<and> (scattered_check_length w' \<longleftrightarrow> length out = L)"
    if r: "scattered_rep k0 w L out" for L out
    using w'(2-5) scattered_rep_prefix [OF r] scattered_rep_size(1,3) [OF r]
    by (simp add: scattered_final_def scattered_check_length_def)
  then have "\<forall>L out. scattered_sound ok room k0 w L out \<longrightarrow>
      scattered_final ok taken k0 w' L out \<and> (scattered_check_length w' \<longleftrightarrow> length out = L)"
    by (simp add: scattered_sound_def)
  with w'(1,2) show ?case
    unfolding scattered_ops_simps by (intro exI [of _ w'] conjI)
next
  case (5 w L out p n m)
  note r = conjunct1 [OF 5(1) [unfolded scattered_sound_def]]
  from scattered_append_result [OF r 5(2), of junk] obtain w' b where a:
    "scattered_append junk w m p n = Some (w', b)" "b \<longleftrightarrow> length out + n \<le> L"
    "if b then scattered_rep k0 w' L (out @ take n (drop p m)) else scattered_safe k0 L w'"
    by (elim exE conjE) (rule that)
  from a(1,2) scattered_soundI [OF 5(1) a(3)] show ?case
    unfolding scattered_ops_simps by (intro exI [of _ w'] exI [of _ b] conjI)
next
  case (6 w L out p avail m n)
  note r = conjunct1 [OF 6(1) [unfolded scattered_sound_def]]
  from scattered_try_fast_result [OF r 6(2), of n] obtain w' b where a:
    "scattered_try_fast_append w m p avail n = Some (w', b)"
    "b \<longrightarrow> n \<le> 16 \<and> n + 5 \<le> avail \<and> length out + n \<le> L \<and>
      scattered_rep k0 w' L (out @ take n (drop p m))" "\<not> b \<longrightarrow> w' = w"
    by (elim exE conjE) (rule that)
  from a(2) 6(1) have "b \<longrightarrow> n \<le> 16 \<and> n + 5 \<le> avail \<and> length out + n \<le> L \<and>
      scattered_sound ok room k0 w' L (out @ take n (drop p m))"
    by (simp add: scattered_sound_def)
  with a(1,3) show ?case
    unfolding scattered_ops_simps by (intro exI [of _ w'] exI [of _ b] conjI)
next
  case (7 w L out n d)
  note r = conjunct1 [OF 7(1) [unfolded scattered_sound_def]]
  from scattered_append_self_result [OF r 7(2-4), of junk] obtain w' b where a:
    "scattered_append_from_self junk w d n = Some (w', b)"
    "b \<longleftrightarrow> 0 < d \<and> d \<le> length out \<and> length out + n \<le> L"
    "if b then scattered_rep k0 w' L (lz_copy out d n) else scattered_safe k0 L w'"
    by (elim exE conjE) (rule that)
  from a(1,2) scattered_soundI [OF 7(1) a(3)] show ?case
    unfolding scattered_ops_simps by (intro exI [of _ w'] exI [of _ b] conjI)
qed

end
