(* ===== verification/Snappy_Sink_Calls.thy ===== *)
theory Snappy_Sink_Calls
  imports Snappy_Scatter_Spec
begin

section \<open>Snappy: decompressing into a sink\<close>

text \<open>
  Uncompress and UncompressAsMuchAsPossible of depends/snappy/snappy.cc, from a source and into a
  sink that keep the contracts of the locales, whichever way the sink's GetAppendBufferVariable makes the
  code take.
\<close>

locale snappy_uncompressing =
  snappy_source S content + snappy_sink K ok taken room
  for S :: "'s source_ops" and content :: "'s \<Rightarrow> byte list"
    and K :: "'k sink_ops" and ok :: "'k \<Rightarrow> bool" and taken :: "'k \<Rightarrow> byte list"
    and room :: "'k \<Rightarrow> nat"

sublocale snappy_uncompressing \<subseteq> to_blocks: snappy_decoding S content "scattered_ops junk K"
    "scattered_fresh ok room k0" "scattered_sound ok room k0" "scattered_bounded ok room k0"
    "scattered_final ok taken k0" "\<lambda>w. ok (sa_dest (sc_allocator w))" for junk k0
  by (rule snappy_decoding.intro) (rule snappy_source_axioms, rule scattered.snappy_writer_axioms)

sublocale snappy_uncompressing \<subseteq> to_array: snappy_decoding S content array_writer_ops
    "array_fresh dst M" "array_rep dst M" "array_safe dst M" "array_rep dst M" "array_safe dst M" for dst M
  by (rule snappy_decoding.intro) (rule snappy_source_axioms, rule array_writer.snappy_writer_axioms)

context snappy_uncompressing
begin

lemma array_tags_result:
  assumes "window_ok content d (ip d)" and "varint_parse32 z = Some (n, unread content d (ip d))"
    and "unat n \<le> length dst"
  obtains d' w ok' where "internal_uncompress_all_tags S array_writer_ops d (array_writer_new dst) n = Some (d', w, ok')"
    and "length (aw_buf w) = length dst" and "array_produced w \<le> unat n"
    and "ok' \<longleftrightarrow> snappy_format z \<noteq> None"
    and "\<And>out. snappy_format z = Some out \<Longrightarrow> array_produced w = length out \<and> take (length out) (aw_buf w) = out"
proof -
  have f: "array_fresh dst (unat n) (array_writer_new dst) (unat n)"
    using assms(3) u32_small [of n] by (simp add: array_fresh_def)
  from to_array.all_tags_format [OF assms(1,2) f] obtain d' w ok' where
    "internal_uncompress_all_tags S array_writer_ops d (array_writer_new dst) n = Some (d', w, ok')"
    "array_safe dst (unat n) w" "ok' \<longleftrightarrow> snappy_format z \<noteq> None"
    "\<forall>out. snappy_format z = Some out \<longrightarrow> array_rep dst (unat n) w (length out) out"
    by blast
  then show ?thesis
    by (intro that [of d' w ok']) (auto simp: array_safe_def array_rep_def array_produced_def)
qed

lemma uncompress_sink_result:
  assumes scr: "length scr = 5" "length (content r) < 2 ^ 32" and k: "ok k"
    and room: "\<And>n bs. varint_parse32 (content r) = Some (n, bs) \<Longrightarrow> unat n \<le> room k"
  shows "\<exists>r' k' b. uncompress_sink S K junk e scr c r k = Some (r', k', b) \<and> ok k' \<and>
    (b \<longleftrightarrow> snappy_format (content r) \<noteq> None) \<and>
    (\<forall>out. snappy_format (content r) = Some out \<longrightarrow> taken k' = taken k @ out)"
proof -
  let ?z = "content r"
  obtain d x where d: "read_uncompressed_length S (decompressor_init r scr) = (d, x)"
    "x = map_option fst (varint_parse32 ?z)"
    "\<And>n. x = Some n \<Longrightarrow> window_ok content d (ip d) \<and> varint_parse32 ?z = Some (n, unread content d (ip d))"
    by (rule header_result [OF scr]) blast
  show ?thesis
  proof (cases x)
    case None
    with d(1,2) k show ?thesis
      by (auto simp: uncompress_sink_def snappy_format_def)
  next
    case (Some n)
    note h = conjunct1 [OF d(3) [OF Some]] conjunct2 [OF d(3) [OF Some]]
    note rm = room [OF h(2)]
    obtain lent a where v: "sk_get_append_buffer_variable K k 1 (unat n) 1 = (lent, a)"
      by (cases "sk_get_append_buffer_variable K k 1 (unat n) 1")
    note call = uncompress_sink_def d(1) Some prod.case option.case v
    show ?thesis
    proof (cases "unat n \<le> a")
      case False
      have f: "scattered_fresh ok room k (scattered_new e (allocator_new k)) (unat n)"
        unfolding scattered_fresh_def using u32_small [of n] k rm by blast
      from to_blocks.all_tags_format [OF h f, of junk] obtain d' w b where
        "internal_uncompress_all_tags S (scattered_ops junk K) d (scattered_new e (allocator_new k)) n = Some (d', w, b)"
        "ok (sa_dest (sc_allocator w))" "b \<longleftrightarrow> snappy_format ?z \<noteq> None"
        "\<forall>out. snappy_format ?z = Some out \<longrightarrow> scattered_final ok taken k w (length out) out"
        by blast
      with False show ?thesis
        unfolding call by (simp add: scattered_final_def)
    next
      case True
      show ?thesis
      proof (cases lent)
        case None
        have "a \<le> 1"
          using scratch_size [OF k] v None by blast
        with True have "unat n \<le> length [c]"
          by simp
        from array_tags_result [OF h this] obtain d' w b where w:
          "internal_uncompress_all_tags S array_writer_ops d (array_writer_new [c]) n = Some (d', w, b)"
          "length (aw_buf w) = length [c]" "array_produced w \<le> unat n" "b \<longleftrightarrow> snappy_format ?z \<noteq> None"
          "\<And>out. snappy_format ?z = Some out \<Longrightarrow> array_produced w = length out \<and> take (length out) (aw_buf w) = out"
          by blast
        let ?t = "take (array_produced w) (aw_buf w)"
        have len: "array_produced w \<le> length (aw_buf w)"
          using w(2,3) \<open>unat n \<le> length [c]\<close> by simp
        then have t: "mem_read (aw_buf w) 0 (array_produced w) = Some ?t" "length ?t = array_produced w"
          by (simp_all add: mem_read_def)
        have "length ?t \<le> room k"
          using w(3) rm t(2) by simp
        from append [OF k this] obtain k' where "sk_append K k ?t = Some k'" "ok k'" "taken k' = taken k @ ?t"
          by blast
        with w(1,4,5) t(1) True show ?thesis
          unfolding call None by auto
      next
        case (Some bd)
        obtain buf dest where bd: "bd = (buf, dest)"
          by (cases bd)
        have l: "lends K k buf dest"
          using v Some bd unfolding lends_def by (metis fst_conv)
        have own: "dest + min a (room k) \<le> length buf"
          using own_buffer_variable [OF k] v Some bd by blast
        have "unat n \<le> length (drop dest buf)"
          using own rm True by simp
        from array_tags_result [OF h this] obtain d' w b where w:
          "internal_uncompress_all_tags S array_writer_ops d (array_writer_new (drop dest buf)) n = Some (d', w, b)"
          "length (aw_buf w) = length (drop dest buf)" "array_produced w \<le> unat n" "b \<longleftrightarrow> snappy_format ?z \<noteq> None"
          "\<And>out. snappy_format ?z = Some out \<Longrightarrow> array_produced w = length out \<and> take (length out) (aw_buf w) = out"
          by blast
        let ?buf = "take dest buf @ aw_buf w"
        have b: "length ?buf = length buf" "take dest ?buf = take dest buf" "drop dest ?buf = aw_buf w"
          using own w(2) by simp_all
        have "dest + array_produced w \<le> length buf" "array_produced w \<le> room k"
          using w(2,3) rm \<open>unat n \<le> length (drop dest buf)\<close> own by simp_all
        from append_own [OF k l b(1,2) this] obtain k' where
          "sk_append_own K k ?buf (array_produced w) = Some k'" "ok k'"
          "taken k' = taken k @ take (array_produced w) (aw_buf w)"
          unfolding b(3) by blast
        with w(1,4,5) True show ?thesis
          unfolding call Some bd by auto
      qed
    qed
  qed
qed

lemma uncompress_as_much_result:
  assumes scr: "length scr = 5" "length (content r) < 2 ^ 32" and k: "ok k"
    and room: "\<And>n bs. varint_parse32 (content r) = Some (n, bs) \<Longrightarrow> unat n \<le> room k"
  shows "\<exists>r' k' n. uncompress_as_much_as_possible S K junk e scr r k = Some (r', k', n) \<and> ok k' \<and>
    (\<forall>out. snappy_format (content r) = Some out \<longrightarrow> taken k' = taken k @ out \<and> n = length out)"
proof -
  let ?w = "scattered_new e (allocator_new k)"
  have f: "scattered_fresh ok room k ?w (unat n)" if "varint_parse32 (content r) = Some (n, bs)" for n bs
    unfolding scattered_fresh_def using u32_small [of n] k room [OF that] by blast
  have "\<exists>r' w' b. internal_uncompress S (scattered_ops junk K) scr r ?w = Some (r', w', b) \<and>
    (varint_parse32 (content r) \<noteq> None \<longrightarrow> ok (sa_dest (sc_allocator w'))) \<and>
    (varint_parse32 (content r) = None \<longrightarrow> w' = ?w) \<and> (b \<longleftrightarrow> snappy_format (content r) \<noteq> None) \<and>
    (\<forall>out. snappy_format (content r) = Some out \<longrightarrow> scattered_final ok taken k w' (length out) out)"
    by (rule to_blocks.internal_uncompress_result [OF scr]) (rule f)
  then obtain r' w' b where w: "internal_uncompress S (scattered_ops junk K) scr r ?w = Some (r', w', b)"
    "varint_parse32 (content r) \<noteq> None \<longrightarrow> ok (sa_dest (sc_allocator w'))"
    "varint_parse32 (content r) = None \<longrightarrow> w' = ?w"
    "\<forall>out. snappy_format (content r) = Some out \<longrightarrow> scattered_final ok taken k w' (length out) out"
    by (elim exE conjE) (rule that)
  have "ok (sa_dest (sc_allocator w'))"
    using w(2,3) k by (cases "varint_parse32 (content r)") (simp_all add: scattered_new_def allocator_new_def)
  with w(1,4) show ?thesis
    by (auto simp: uncompress_as_much_as_possible_def scattered_final_def)
qed

end

text \<open>The two kinds of sink: the unchecked array lends its buffer, the string lends none.\<close>

interpretation array_to_array: snappy_uncompressing byte_array_source "\<lambda>s. s" unchecked_sink_ops
    "\<lambda>k. us_dest k \<le> length (us_buf k)" "\<lambda>k. take (us_dest k) (us_buf k)"
    "\<lambda>k. length (us_buf k) - us_dest k"
  by (rule snappy_uncompressing.intro)
    (rule array_source.snappy_source_axioms, rule array_sink.snappy_sink_axioms)

interpretation array_to_string: snappy_uncompressing byte_array_source "\<lambda>s. s"
    "default_sink string_append" "\<lambda>k. True" "\<lambda>k. k" "\<lambda>k. R - length k" for R
  by (rule snappy_uncompressing.intro)
    (rule array_source.snappy_source_axioms, rule string_sink.snappy_sink_axioms)

text \<open>
  C35: decompressing from a ByteArraySource, the source of the repository, into any sink that
  keeps the contract \<open>snappy_sink\<close> is safe and refines the format: whatever the input, if the sink
  has room for the length the input announces, Uncompress ends without a memory fault, returns
  true exactly when the reference decoder accepts the input, and then the sink has been given the
  decoded bytes, no more and no less, whether it lends a buffer (then the flat writer is used) or
  not (then blocks of 64 KiB are collected and handed over at the end). The contract is that of
  snappy-sinksource.h, and UncheckedByteArraySink and a sink with the default methods keep it. A
  source whose regions go beyond Available(), which that header allows, is not covered: the
  decompressor reads whole regions.
\<close>

theorem uncompress_sink_refines:
  assumes "snappy_sink K ok taken room"
    and "length scr = 5" and "length s < 2 ^ 32" and "ok k"
    and "\<And>n bs. varint_parse32 s = Some (n, bs) \<Longrightarrow> unat n \<le> room k"
  shows "\<exists>r' k' b. uncompress_sink byte_array_source K junk e scr c s k = Some (r', k', b) \<and> ok k' \<and>
    (b \<longleftrightarrow> snappy_format s \<noteq> None) \<and>
    (\<forall>out. snappy_format s = Some out \<longrightarrow> taken k' = taken k @ out)"
  by (rule snappy_uncompressing.uncompress_sink_result
      [OF snappy_uncompressing.intro [OF array_source.snappy_source_axioms assms(1)]])
    (fact assms(2-5))+

theorem uncompress_sink_refines_witness:
  "(\<exists>r' k' b. uncompress_sink byte_array_source (default_sink string_append) (\<lambda>i. 7) 0 [0, 0, 0, 0, 0] 1
      [9, 8, 97, 98, 99, 9, 3, 0] [1] = Some (r', k', b) \<and> True \<and>
    (b \<longleftrightarrow> snappy_format [9, 8, 97, 98, 99, 9, 3, 0] \<noteq> None) \<and>
    (\<forall>out. snappy_format [9, 8, 97, 98, 99, 9, 3, 0] = Some out \<longrightarrow> k' = [1] @ out)) \<and>
   (\<exists>r' k' b. uncompress_sink byte_array_source unchecked_sink_ops (\<lambda>i. 7) 0 [0, 0, 0, 0, 0] 1
      [9, 8, 97, 98, 99, 9, 3, 0] \<lparr>us_buf = replicate 12 0, us_dest = 2\<rparr> = Some (r', k', b) \<and>
    us_dest k' \<le> length (us_buf k') \<and>
    (b \<longleftrightarrow> snappy_format [9, 8, 97, 98, 99, 9, 3, 0] \<noteq> None) \<and>
    (\<forall>out. snappy_format [9, 8, 97, 98, 99, 9, 3, 0] = Some out \<longrightarrow>
      take (us_dest k') (us_buf k') = take 2 (replicate 12 0) @ out))"
proof
  show "\<exists>r' k' b. uncompress_sink byte_array_source (default_sink string_append) (\<lambda>i. 7) 0 [0, 0, 0, 0, 0] 1
      [9, 8, 97, 98, 99, 9, 3, 0] [1] = Some (r', k', b) \<and> True \<and>
    (b \<longleftrightarrow> snappy_format [9, 8, 97, 98, 99, 9, 3, 0] \<noteq> None) \<and>
    (\<forall>out. snappy_format [9, 8, 97, 98, 99, 9, 3, 0] = Some out \<longrightarrow> k' = [1] @ out)"
    by (rule uncompress_sink_refines [OF string_sink.snappy_sink_axioms [of 100]])
      (auto simp: varint_parse32_def Let_def)
  have "\<exists>r' k' b. uncompress_sink byte_array_source unchecked_sink_ops (\<lambda>i. 7) 0 [0, 0, 0, 0, 0] 1
      [9, 8, 97, 98, 99, 9, 3, 0] \<lparr>us_buf = replicate 12 0, us_dest = 2\<rparr> = Some (r', k', b) \<and>
    us_dest k' \<le> length (us_buf k') \<and>
    (b \<longleftrightarrow> snappy_format [9, 8, 97, 98, 99, 9, 3, 0] \<noteq> None) \<and>
    (\<forall>out. snappy_format [9, 8, 97, 98, 99, 9, 3, 0] = Some out \<longrightarrow>
      take (us_dest k') (us_buf k') =
        take (us_dest \<lparr>us_buf = replicate 12 0, us_dest = 2\<rparr>) (us_buf \<lparr>us_buf = replicate 12 0, us_dest = 2\<rparr>) @ out)"
    by (rule uncompress_sink_refines [OF array_sink.snappy_sink_axioms])
      (auto simp: varint_parse32_def Let_def)
  then show "\<exists>r' k' b. uncompress_sink byte_array_source unchecked_sink_ops (\<lambda>i. 7) 0 [0, 0, 0, 0, 0] 1
      [9, 8, 97, 98, 99, 9, 3, 0] \<lparr>us_buf = replicate 12 0, us_dest = 2\<rparr> = Some (r', k', b) \<and>
    us_dest k' \<le> length (us_buf k') \<and>
    (b \<longleftrightarrow> snappy_format [9, 8, 97, 98, 99, 9, 3, 0] \<noteq> None) \<and>
    (\<forall>out. snappy_format [9, 8, 97, 98, 99, 9, 3, 0] = Some out \<longrightarrow>
      take (us_dest k') (us_buf k') = take 2 (replicate 12 0) @ out)"
    by (simp only: unchecked_sink.select_convs)
qed

text \<open>
  On input that is refused the count is not what the sink was given: SlowAppend has added the
  block to \<open>full_size_\<close> when it finds that the literal does not fit, so the block is counted twice.
\<close>

lemma as_much_overcounts:
  "uncompress_as_much_as_possible byte_array_source (default_sink string_append) junk e [0, 0, 0, 0, 0]
     [2, 4, 97, 98, 0, 99] [] = Some ([], [97, 98], 4)"
proof -
  have tags: "char_table ! 4 = 2" "char_table ! 0 = 1"
    by (simp_all add: char_table_def)
  show ?thesis
    by (simp add: tags uncompress_as_much_as_possible_def internal_uncompress_def
        read_uncompressed_length_def byte_array_source_def read_length.simps overflow_early
        decompressor_init_def decompressor_exit_def internal_uncompress_all_tags_def
        decompress_all_tags_def maybe_refill_def refill_tag_def refill_fetch_def mem_read_def
        mem_write_def Let_def tag_loop.simps literal_tag_def literal_loop.simps
        scattered_try_fast_append_def scattered_append_def slow_append.simps
        scattered_set_expected_def scattered_blocks_def scattered_new_def allocator_new_def
        scattered_store_def new_block_def allocate_def new_chars_def set_block_def
        scattered_advance_def scattered_flush_def allocator_flush_def scattered_size_def
        default_sink_def string_append_def)
qed

end
