(* ===== verification/Snappy_Iovec.thy ===== *)
theory Snappy_Iovec
  imports Snappy_Writers
begin

section \<open>Snappy: the iovec writer\<close>

text \<open>
  SnappyIOVecWriter and RawUncompressToIOVec of depends/snappy/snappy.cc: decompression into a
  list of buffers of any sizes. \<open>iv_iov\<close> is their memory, so \<open>iov_len\<close> is the length of an element;
  \<open>curr_iov_\<close> is an index, \<open>curr_iov_output_\<close> a position in that buffer. Reading an iovec behind the
  last, a failed assertion and a write outside a buffer are \<open>None\<close>.
\<close>

record iovec_writer =
  iv_iov :: "byte list list"
  iv_curr :: nat
  iv_output :: nat
  iv_remaining :: nat
  iv_total :: nat
  iv_limit :: nat

definition iovec_writer_new :: "byte list list \<Rightarrow> iovec_writer" where
  "iovec_writer_new iov =
     \<lparr>iv_iov = iov, iv_curr = 0, iv_output = 0, iv_remaining = (if iov = [] then 0 else length (hd iov)),
      iv_total = 0, iv_limit = 2 ^ 64 - 1\<rparr>"

definition iovec_set_expected :: "iovec_writer \<Rightarrow> nat \<Rightarrow> iovec_writer" where
  "iovec_set_expected w len = w\<lparr>iv_limit := len\<rparr>"

definition iovec_check_length :: "iovec_writer \<Rightarrow> bool" where
  "iovec_check_length w = (iv_total w = iv_limit w)"

text \<open>A memcpy to \<open>curr_iov_output_\<close>, the update of the counters and the step to the next iovec.\<close>

definition iovec_store :: "iovec_writer \<Rightarrow> byte list \<Rightarrow> iovec_writer option" where
  "iovec_store w t =
     (if length (iv_iov w) \<le> iv_curr w then None
      else do {
        b \<leftarrow> mem_write (iv_iov w ! iv_curr w) (iv_output w) t;
        Some (w\<lparr>iv_iov := (iv_iov w)[iv_curr w := b]\<rparr>) })"

definition iovec_advance :: "nat \<Rightarrow> iovec_writer \<Rightarrow> iovec_writer" where
  "iovec_advance n w = w\<lparr>iv_output := iv_output w + n, iv_remaining := iv_remaining w - n,
     iv_total := iv_total w + n\<rparr>"

definition iovec_next :: "iovec_writer \<Rightarrow> iovec_writer" where
  "iovec_next w = w\<lparr>iv_curr := iv_curr w + 1, iv_output := 0,
     iv_remaining := length (iv_iov w ! (iv_curr w + 1))\<rparr>"

partial_function (option) append_no_check ::
  "iovec_writer \<Rightarrow> byte list \<Rightarrow> nat \<Rightarrow> nat \<Rightarrow> (iovec_writer \<times> bool) option" where [code]:
  "append_no_check w m p len =
     (if 0 < len then
        if iv_remaining w = 0 \<and> length (iv_iov w) \<le> iv_curr w + 1 then Some (w, False)
        else
          let w = (if iv_remaining w = 0 then iovec_next w else w);
            to_write = min len (iv_remaining w) in do {
          t \<leftarrow> mem_read m p to_write;
          w \<leftarrow> iovec_store w t;
          append_no_check (iovec_advance to_write w) m (p + to_write) (len - to_write) }
      else Some (w, True))"

definition iovec_append :: "iovec_writer \<Rightarrow> byte list \<Rightarrow> nat \<Rightarrow> nat \<Rightarrow> (iovec_writer \<times> bool) option" where
  "iovec_append w m p len =
     (if iv_limit w < iv_total w + len then Some (w, False) else append_no_check w m p len)"

definition iovec_try_fast_append ::
  "iovec_writer \<Rightarrow> byte list \<Rightarrow> nat \<Rightarrow> nat \<Rightarrow> nat \<Rightarrow> (iovec_writer \<times> bool) option" where
  "iovec_try_fast_append w m p available len =
     (let space_left = iv_limit w - iv_total w in
      if len \<le> 16 \<and> 16 + 5 \<le> available \<and> 16 \<le> space_left \<and> 16 \<le> iv_remaining w then do {
        t \<leftarrow> mem_read m p 16;
        w \<leftarrow> iovec_store w t;
        Some (iovec_advance len w, True) }
      else Some (w, False))"

text \<open>The search for the iovec a copy starts in, and the copy from there.\<close>

fun locate_iovec :: "byte list list \<Rightarrow> nat \<Rightarrow> nat \<Rightarrow> nat \<Rightarrow> (nat \<times> nat) option" where
  "locate_iovec iov from from_offset 0 = Some (from, from_offset)"
| "locate_iovec iov 0 from_offset offset =
     (if offset \<le> from_offset then Some (0, from_offset - offset) else None)"
| "locate_iovec iov (Suc from) from_offset offset =
     (if offset \<le> from_offset then Some (Suc from, from_offset - offset)
      else locate_iovec iov from (length (iov ! from)) (offset - from_offset))"

partial_function (option) iovec_copy ::
  "iovec_writer \<Rightarrow> nat \<Rightarrow> nat \<Rightarrow> nat \<Rightarrow> (iovec_writer \<times> bool) option" where [code]:
  "iovec_copy w from from_offset len =
     (if 0 < len then
        if iv_curr w < from then None
        else if from \<noteq> iv_curr w then
          let to_copy = min (length (iv_iov w ! from) - from_offset) len in do {
          (w, ok) \<leftarrow> append_no_check w (iv_iov w ! from) from_offset to_copy;
          if 0 < len - to_copy then iovec_copy w (from + 1) 0 (len - to_copy)
          else iovec_copy w from from_offset 0 }
        else if iv_remaining w = 0 then
          if length (iv_iov w) \<le> iv_curr w + 1 then Some (w, False)
          else iovec_copy (iovec_next w) from from_offset len
        else
          let to_copy = min (iv_remaining w) len in do {
          (op, b) \<leftarrow> incremental_copy (iv_iov w ! from) from_offset (iv_output w)
            (iv_output w + to_copy) (iv_output w + iv_remaining w);
          iovec_copy (iovec_advance to_copy (w\<lparr>iv_iov := (iv_iov w)[iv_curr w := b]\<rparr>))
            from (from_offset + to_copy) (len - to_copy) }
      else Some (w, True))"

definition iovec_append_from_self :: "iovec_writer \<Rightarrow> nat \<Rightarrow> nat \<Rightarrow> (iovec_writer \<times> bool) option" where
  "iovec_append_from_self w offset len =
     (if iv_total w \<le> minus_1u offset then Some (w, False)
      else if iv_limit w - iv_total w < len then Some (w, False)
      else if length (iv_iov w) \<le> iv_curr w then None
      else do {
        (from, from_offset) \<leftarrow> locate_iovec (iv_iov w) (iv_curr w)
          (length (iv_iov w ! iv_curr w) - iv_remaining w) offset;
        iovec_copy w from from_offset len })"

definition iovec_ops :: "iovec_writer writer_ops" where
  "iovec_ops = \<lparr>w_set_expected = (\<lambda>w len. Some (iovec_set_expected w len)),
     w_check_length = iovec_check_length, w_append = iovec_append,
     w_try_fast_append = iovec_try_fast_append, w_append_from_self = iovec_append_from_self,
     w_flush = Some\<rparr>"

definition raw_uncompress_to_iovec ::
  "'s source_ops \<Rightarrow> byte list \<Rightarrow> 's \<Rightarrow> byte list list \<Rightarrow> (byte list list \<times> bool) option" where
  "raw_uncompress_to_iovec S scr r iov = do {
     (r, w, ok) \<leftarrow> internal_uncompress S iovec_ops scr r (iovec_writer_new iov);
     Some (iv_iov w, ok) }"

end
