(* ===== verification/Snappy_Iovec_Spec.thy ===== *)
theory Snappy_Iovec_Spec
  imports Snappy_Iovec
begin

section \<open>Snappy: the iovec writer keeps the contract of a writer\<close>

text \<open>
  With buffers that hold the announced length together, of whatever sizes, empty ones included,
  every operation of SnappyIOVecWriter does what the contract \<open>snappy_writer\<close> asks.
\<close>

subsection \<open>What the buffers hold\<close>

definition iovec_content :: "iovec_writer \<Rightarrow> byte list" where
  "iovec_content w = concat (take (iv_curr w) (iv_iov w)) @ take (iv_output w) (iv_iov w ! iv_curr w)"

definition iovec_rep :: "byte list list \<Rightarrow> iovec_writer \<Rightarrow> nat \<Rightarrow> byte list \<Rightarrow> bool" where
  "iovec_rep iov w L out \<longleftrightarrow>
     L < 2 ^ 32 \<and> iv_limit w = L \<and> iv_total w = length out \<and> length out \<le> L \<and>
     map length (iv_iov w) = map length iov \<and> L \<le> length (concat iov) \<and>
     (if iov = [] then iv_remaining w = 0 \<and> out = [] \<and> iv_curr w = 0
      else iv_curr w < length iov \<and> iv_output w + iv_remaining w = length (iv_iov w ! iv_curr w) \<and>
        out = iovec_content w)"

definition iovec_fresh :: "byte list list \<Rightarrow> iovec_writer \<Rightarrow> nat \<Rightarrow> bool" where
  "iovec_fresh iov w L \<longleftrightarrow> L < 2 ^ 32 \<and> L \<le> length (concat iov) \<and> w = iovec_writer_new iov"

lemma length_concat_map: "map length xs = map length ys \<Longrightarrow> length (concat xs) = length (concat ys)"
  by (simp add: length_concat)

lemma iovec_repD:
  assumes "iovec_rep iov w L out"
  shows "L < 2 ^ 32" and "iv_limit w = L" and "iv_total w = length out" and "length out \<le> L"
    and "map length (iv_iov w) = map length iov" and "length (iv_iov w) = length iov"
    and "L \<le> length (concat (iv_iov w))"
proof -
  show "L < 2 ^ 32" and "iv_limit w = L" and "iv_total w = length out" and "length out \<le> L"
    and m: "map length (iv_iov w) = map length iov"
    using assms by (simp_all add: iovec_rep_def)
  show "length (iv_iov w) = length iov"
    using m by (rule map_eq_imp_length_eq)
  show "L \<le> length (concat (iv_iov w))"
    using length_concat_map [OF m] assms by (simp add: iovec_rep_def)
qed

lemma iovec_rep_cases:
  assumes "iovec_rep iov w L out" and "iov \<noteq> []"
  shows "iv_curr w < length (iv_iov w)" and "iv_output w + iv_remaining w = length (iv_iov w ! iv_curr w)"
    and "out = iovec_content w"
    and "length out = length (concat (take (iv_curr w) (iv_iov w))) + iv_output w"
proof -
  show c: "iv_curr w < length (iv_iov w)" and o: "iv_output w + iv_remaining w = length (iv_iov w ! iv_curr w)"
    and out: "out = iovec_content w"
    using assms iovec_repD(6) [OF assms(1)] by (simp_all add: iovec_rep_def)
  show "length out = length (concat (take (iv_curr w) (iv_iov w))) + iv_output w"
    using o out by (simp add: iovec_content_def)
qed

text \<open>A state that follows from one that represents \<open>out\<close>.\<close>

lemma iovec_rep_step:
  assumes r: "iovec_rep iov w L out" and ne: "iov \<noteq> []"
    and "iv_limit w' = iv_limit w" "iv_total w' = length out'" "length out' \<le> L"
    and m: "map length (iv_iov w') = map length (iv_iov w)"
    and c: "iv_curr w' < length (iv_iov w)"
    and "iv_output w' + iv_remaining w' = length (iv_iov w' ! iv_curr w')" "out' = iovec_content w'"
  shows "iovec_rep iov w' L out'"
  unfolding iovec_rep_def using assms iovec_repD(6) [OF r]
  by (auto simp: iovec_rep_def)

lemma iovec_rep_nonempty:
  assumes "iovec_rep iov w L out" and "length out + n \<le> L" and "0 < n"
  shows "iov \<noteq> []"
  using assms by (auto simp: iovec_rep_def)

lemma length_concat_take_Suc:
  "i < length xs \<Longrightarrow> length (concat (take (Suc i) xs)) = length (concat (take i xs)) + length (xs ! i)"
  by (simp add: take_Suc_conv_app_nth)

lemma length_concat_take_mono:
  "i \<le> j \<Longrightarrow> length (concat (take i xs)) \<le> length (concat (take j xs))"
  by (metis append_take_drop_id concat_append le_add1 length_append min_def take_take)

text \<open>While bytes are to come a full iovec is followed by another.\<close>

lemma iovec_next_rep:
  assumes r: "iovec_rep iov w L out" and more: "length out < L" and full: "iv_remaining w = 0"
  shows "iv_curr w + 1 < length (iv_iov w)" and "iovec_rep iov (iovec_next w) L out"
proof -
  have ne: "iov \<noteq> []"
    using iovec_rep_nonempty [OF r, of 1] more by simp
  note c = iovec_rep_cases [OF r ne]
  have out: "out = concat (take (Suc (iv_curr w)) (iv_iov w))"
    using c(1,2,3) full by (simp add: iovec_content_def take_Suc_conv_app_nth)
  show s: "iv_curr w + 1 < length (iv_iov w)"
  proof (rule ccontr)
    assume "\<not> iv_curr w + 1 < length (iv_iov w)"
    then have "out = concat (iv_iov w)"
      using out by simp
    with iovec_repD(7) [OF r] more show False
      by simp
  qed
  show "iovec_rep iov (iovec_next w) L out"
    by (rule iovec_rep_step [OF r ne])
      (use s out iovec_repD(3,4) [OF r] in \<open>simp_all add: iovec_next_def iovec_content_def\<close>)
qed

text \<open>A buffer of the current one's size in its place, with \<open>n\<close> more bytes written.\<close>

lemma iovec_put_rep:
  assumes r: "iovec_rep iov w L out" and ne: "iov \<noteq> []" and b: "length b = length (iv_iov w ! iv_curr w)"
    and n: "n \<le> iv_remaining w" "length out + n \<le> L"
  shows "iovec_rep iov (iovec_advance n (w\<lparr>iv_iov := (iv_iov w)[iv_curr w := b]\<rparr>)) L
    (concat (take (iv_curr w) (iv_iov w)) @ take (iv_output w + n) b)"
proof -
  note c = iovec_rep_cases [OF r ne]
  let ?w = "iovec_advance n (w\<lparr>iv_iov := (iv_iov w)[iv_curr w := b]\<rparr>)"
  have w: "iv_iov ?w = (iv_iov w)[iv_curr w := b]" "iv_curr ?w = iv_curr w"
    "iv_output ?w = iv_output w + n" "iv_remaining ?w = iv_remaining w - n"
    "iv_total ?w = iv_total w + n" "iv_limit ?w = iv_limit w"
    by (simp_all add: iovec_advance_def)
  have m: "map length ((iv_iov w)[iv_curr w := b]) = map length (iv_iov w)"
    using b c(1) by (simp add: map_update list_update_same_conv)
  have len: "length (concat (take (iv_curr w) (iv_iov w)) @ take (iv_output w + n) b) = length out + n"
    using c(2,4) b n(1) by simp
  show ?thesis
    by (rule iovec_rep_step [OF r ne], unfold w iovec_content_def)
      (use m len n b c(1,2) iovec_repD(3) [OF r] in simp_all)
qed

lemma iovec_store_rep:
  assumes r: "iovec_rep iov w L out" and ne: "iov \<noteq> []" and t: "length t \<le> iv_remaining w"
    and n: "n \<le> length t" "length out + n \<le> L"
  shows "\<exists>w'. iovec_store w t = Some w' \<and> iovec_rep iov (iovec_advance n w') L (out @ take n t) \<and>
    iv_curr w' = iv_curr w \<and> iv_remaining w' = iv_remaining w \<and> iv_output w' = iv_output w"
proof -
  note c = iovec_rep_cases [OF r ne]
  have "iv_output w + length t \<le> length (iv_iov w ! iv_curr w)"
    using c(2) t by simp
  then obtain b where b: "mem_write (iv_iov w ! iv_curr w) (iv_output w) t = Some b"
    by (simp add: mem_write_def)
  have "take (iv_output w + n) b = take (iv_output w + n) (take (iv_output w + length t) b)"
    using n(1) by (simp add: min_def)
  then have "take (iv_output w + n) b = take (iv_output w) (iv_iov w ! iv_curr w) @ take n t"
    using mem_write_take [OF b] c(2) by simp
  then have "concat (take (iv_curr w) (iv_iov w)) @ take (iv_output w + n) b = out @ take n t"
    using c(3) by (simp add: iovec_content_def)
  moreover have "n \<le> iv_remaining w"
    using t n(1) by simp
  ultimately have "iovec_rep iov (iovec_advance n (w\<lparr>iv_iov := (iv_iov w)[iv_curr w := b]\<rparr>)) L (out @ take n t)"
    using iovec_put_rep [OF r ne mem_write_length [OF b] _ n(2)] by simp
  with b c(1) show ?thesis
    by (simp add: iovec_store_def)
qed

subsection \<open>Append\<close>

text \<open>One turn of the loop, from an iovec with room or the step to one that may be empty.\<close>

lemma append_no_check_turn:
  assumes r: "iovec_rep iov w L out" and "p + len \<le> length m" and "length out + len \<le> L" and "0 < len"
  obtains w' k where "append_no_check w m p len = append_no_check w' m (p + k) (len - k)"
    and "iovec_rep iov w' L (out @ take k (drop p m))" and "k \<le> len" and "iv_curr w \<le> iv_curr w'"
    and "length (iv_iov w') - iv_curr w' + (len - k) < length (iv_iov w) - iv_curr w + len"
proof -
  have ne: "iov \<noteq> []"
    by (rule iovec_rep_nonempty [OF r assms(3,4)])
  define v where "v = (if iv_remaining w = 0 then iovec_next w else w)"
  have nx: "iv_curr w + 1 < length (iv_iov w) \<and> iovec_rep iov (iovec_next w) L out" if "iv_remaining w = 0"
    using iovec_next_rep [OF r _ that] assms(3,4) by simp
  have v: "iovec_rep iov v L out"
    using nx r by (simp add: v_def)
  have vc: "iv_curr v = (if iv_remaining w = 0 then iv_curr w + 1 else iv_curr w)"
    "length (iv_iov v) = length (iv_iov w)"
    by (simp_all add: v_def iovec_next_def)
  let ?k = "min len (iv_remaining v)"
  let ?t = "take ?k (drop p m)"
  have t: "mem_read m p ?k = Some ?t" and lt: "length ?t = ?k"
    using assms(2) by (simp_all add: mem_read_def)
  have "length ?t \<le> iv_remaining v" "?k \<le> length ?t" "length out + ?k \<le> L"
    unfolding lt using assms(3) by simp_all
  from iovec_store_rep [OF v ne this] obtain w1 where w1: "iovec_store v ?t = Some w1"
    "iovec_rep iov (iovec_advance ?k w1) L (out @ take ?k ?t)" "iv_curr w1 = iv_curr v"
    by blast
  let ?w = "iovec_advance ?k w1"
  have cw: "iv_curr ?w = iv_curr v"
    by (simp add: iovec_advance_def w1(3))
  have lw: "length (iv_iov ?w) = length (iv_iov w)"
    using iovec_repD(6) [OF w1(2)] iovec_repD(6) [OF r] by simp
  have "append_no_check w m p len = append_no_check ?w m (p + ?k) (len - ?k)"
    using assms(4) nx t w1(1) by (subst append_no_check.simps) (auto simp: Let_def simp flip: v_def)
  moreover have "iovec_rep iov ?w L (out @ ?t)"
    using w1(2) by simp
  moreover have "length (iv_iov ?w) - iv_curr ?w + (len - ?k) < length (iv_iov w) - iv_curr w + len"
    unfolding cw lw vc(1) using nx assms(4) iovec_rep_cases(1) [OF r ne]
    by (auto simp: v_def)
  ultimately show ?thesis
    using cw vc(1) by (intro that [of ?w ?k]) simp_all
qed

lemma append_no_check_result:
  assumes "iovec_rep iov w L out" and "p + len \<le> length m" and "length out + len \<le> L"
  shows "\<exists>w'. append_no_check w m p len = Some (w', True) \<and> iovec_rep iov w' L (out @ take len (drop p m)) \<and>
    iv_curr w \<le> iv_curr w'"
  using assms
proof (induction "length (iv_iov w) - iv_curr w + len" arbitrary: w out p len rule: less_induct)
  case less
  note r = \<open>iovec_rep iov w L out\<close>
  show ?case
  proof (cases "0 < len")
    case False
    with r show ?thesis
      by (simp add: append_no_check.simps)
  next
    case True
    obtain w1 k where w1: "append_no_check w m p len = append_no_check w1 m (p + k) (len - k)"
      "iovec_rep iov w1 L (out @ take k (drop p m))" "k \<le> len" "iv_curr w \<le> iv_curr w1"
      "length (iv_iov w1) - iv_curr w1 + (len - k) < length (iv_iov w) - iv_curr w + len"
      by (rule append_no_check_turn [OF less.prems True])
    have "p + k + (len - k) \<le> length m" "length (out @ take k (drop p m)) + (len - k) \<le> L"
      using less.prems(2,3) w1(3) by simp_all
    from less.hyps [OF w1(5,2) this] obtain w' where
      "append_no_check w1 m (p + k) (len - k) = Some (w', True)"
      "iovec_rep iov w' L ((out @ take k (drop p m)) @ take (len - k) (drop (p + k) m))" "iv_curr w1 \<le> iv_curr w'"
      by blast
    moreover have "take k (drop p m) @ take (len - k) (drop (p + k) m) = take len (drop p m)"
      using w1(3) take_add [of k "len - k" "drop p m"] by (simp add: add.commute)
    ultimately show ?thesis
      using w1(1,4) by simp
  qed
qed

lemma iovec_append_result:
  assumes r: "iovec_rep iov w L out" and "p + len \<le> length m"
  shows "\<exists>w' ok. iovec_append w m p len = Some (w', ok) \<and> (ok \<longleftrightarrow> length out + len \<le> L) \<and>
    (ok \<longrightarrow> iovec_rep iov w' L (out @ take len (drop p m)))"
proof (cases "length out + len \<le> L")
  case True
  with append_no_check_result [OF assms] show ?thesis
    using iovec_repD(2,3) [OF r] by (auto simp: iovec_append_def)
next
  case False
  then show ?thesis
    using iovec_repD(2,3) [OF r] by (intro exI [of _ w] exI [of _ False]) (simp add: iovec_append_def)
qed

lemma iovec_try_fast_result:
  assumes r: "iovec_rep iov w L out" and "p + avail \<le> length m"
  shows "\<exists>w' ok. iovec_try_fast_append w m p avail n = Some (w', ok) \<and>
    (ok \<longrightarrow> n \<le> 16 \<and> n + 5 \<le> avail \<and> length out + n \<le> L \<and>
      iovec_rep iov w' L (out @ take n (drop p m))) \<and> (\<not> ok \<longrightarrow> w' = w)"
proof (cases "n \<le> 16 \<and> 16 + 5 \<le> avail \<and> 16 \<le> iv_limit w - iv_total w \<and> 16 \<le> iv_remaining w")
  case False
  then show ?thesis
    by (auto simp: iovec_try_fast_append_def Let_def)
next
  case True
  let ?t = "take 16 (drop p m)"
  have "p + 16 \<le> length m"
    using assms(2) True by linarith
  then have t: "mem_read m p 16 = Some ?t" and lt: "length ?t = 16"
    by (simp_all add: mem_read_def)
  have fits: "length out + 16 \<le> L"
    using True iovec_repD(2-4) [OF r] by linarith
  then have ne: "iov \<noteq> []"
    by (rule iovec_rep_nonempty [OF r]) simp
  have "length ?t \<le> iv_remaining w" "n \<le> length ?t" "length out + n \<le> L"
    unfolding lt using True fits by simp_all
  from iovec_store_rep [OF r ne this] obtain w' where w': "iovec_store w ?t = Some w'"
    "iovec_rep iov (iovec_advance n w') L (out @ take n ?t)"
    by blast
  have "take n ?t = take n (drop p m)"
    using True by (simp add: min_def)
  moreover have "iovec_try_fast_append w m p avail n = Some (iovec_advance n w', True)"
    using t w'(1) True by (simp add: iovec_try_fast_append_def)
  ultimately show ?thesis
    using True w'(2) fits by (intro exI [of _ "iovec_advance n w'"] exI [of _ True]) auto
qed

subsection \<open>AppendFromSelf\<close>

lemma locate_iovec_result:
  assumes "offset \<le> length (concat (take from iov)) + from_offset" and "from_offset \<le> length (iov ! from)"
    and "from < length iov"
  shows "\<exists>f fo. locate_iovec iov from from_offset offset = Some (f, fo) \<and> f \<le> from \<and> fo \<le> length (iov ! f) \<and>
    length (concat (take f iov)) + fo = length (concat (take from iov)) + from_offset - offset"
  using assms
proof (induction iov "from" from_offset offset rule: locate_iovec.induct)
  case (3 iov "from" from_offset v)
  show ?case
  proof (cases "Suc v \<le> from_offset")
    case False
    have l: "length (concat (take (Suc from) iov)) = length (concat (take from iov)) + length (iov ! from)"
      using 3(4) by (intro length_concat_take_Suc) simp
    have "Suc v - from_offset \<le> length (concat (take from iov)) + length (iov ! from)"
      using 3(2) unfolding l by simp
    moreover have "from < length iov"
      using 3(4) by simp
    ultimately obtain f fo where IH: "locate_iovec iov from (length (iov ! from)) (Suc v - from_offset) = Some (f, fo)"
      "f \<le> from" "fo \<le> length (iov ! f)" "length (concat (take f iov)) + fo =
        length (concat (take from iov)) + length (iov ! from) - (Suc v - from_offset)"
      using 3(1) [OF False _ order_refl] by blast
    have "length (concat (take f iov)) + fo = length (concat (take (Suc from) iov)) + from_offset - Suc v"
      unfolding l using IH(4) False by linarith
    with IH(1-3) False show ?thesis
      by simp
  qed (use 3 in \<open>simp del: take_Suc\<close>)
qed simp_all

lemma lz_copy_short:
  assumes "k \<le> d" and "d \<le> length out"
  shows "lz_copy out d k = out @ take k (drop (length out - d) out)"
  using assms(1)
proof (induction k)
  case (Suc k)
  have "length out - d + k < length out"
    using Suc.prems assms(2) by simp
  moreover have "length (take k (drop (length out - d) out)) = k"
    using Suc.prems assms(2) by simp
  ultimately show ?case
    using Suc assms(2) by (simp add: Let_def nth_append take_Suc_conv_app_nth)
qed simp

text \<open>
  The copy from \<open>d\<close> bytes back, where \<open>d\<close> is the distance of the reading position to the end of
  what has been written.
\<close>

lemma iovec_copy_result:
  assumes "iovec_rep iov w L out" and "length out + len \<le> L" and "len \<le> 64"
    and "0 < d" and "length (concat (take from (iv_iov w))) + fo + d = length out"
    and "from \<le> iv_curr w" and "fo \<le> length (iv_iov w ! from)"
  shows "\<exists>w'. iovec_copy w from fo len = Some (w', True) \<and> iovec_rep iov w' L (lz_copy out d len)"
  using assms
proof (induction "(length (iv_iov w) - iv_curr w) + (length (iv_iov w) - from) + len"
    arbitrary: w out "from" fo len rule: less_induct)
  case less
  note r = \<open>iovec_rep iov w L out\<close>
  let ?pre = "concat (take from (iv_iov w))"
  show ?case
  proof (cases "0 < len")
    case False
    with r show ?thesis
      by (simp add: iovec_copy.simps)
  next
    case pos: True
    have ne: "iov \<noteq> []"
      by (rule iovec_rep_nonempty [OF r less.prems(2) pos])
    note c = iovec_rep_cases [OF r ne]
    have fl: "from < length (iv_iov w)"
      using c(1) less.prems(6) by simp
    show ?thesis
    proof (cases "from = iv_curr w")
      case False
      let ?b = "iv_iov w ! from"
      let ?k = "min (length ?b - fo) len"
      have lt: "from < iv_curr w"
        using False less.prems(6) by simp
      text \<open>The buffer lies whole before the end of what has been written.\<close>
      have pre: "length ?pre + length ?b \<le> length out"
        using length_concat_take_mono [of "Suc from" "iv_curr w" "iv_iov w"] lt
          length_concat_take_Suc [OF fl] c(4) by simp
      obtain rest where rest: "out = ?pre @ ?b @ rest"
      proof -
        have "take (iv_curr w) (iv_iov w) = take from (iv_iov w) @ ?b # drop (Suc from) (take (iv_curr w) (iv_iov w))"
          using id_take_nth_drop [of "from" "take (iv_curr w) (iv_iov w)"] lt c(1) by (simp add: min_def)
        then show ?thesis
          using c(3) that unfolding iovec_content_def by (metis append.assoc concat.simps(2) concat_append)
      qed
      have kd: "?k \<le> d" "d \<le> length out" "length out - d = length ?pre + fo"
        using less.prems(5) pre by simp_all
      have "drop (length out - d) out = drop fo ?b @ rest"
        unfolding kd(3) by (subst rest) (use less.prems(7) in simp)
      then have piece: "take ?k (drop (length out - d) out) = take ?k (drop fo ?b)"
        by simp
      have "fo + ?k \<le> length ?b" "length out + ?k \<le> L"
        using less.prems(2,7) by simp_all
      from append_no_check_result [OF r this] obtain w1 where w1:
        "append_no_check w ?b fo ?k = Some (w1, True)" "iovec_rep iov w1 L (lz_copy out d ?k)"
        "iv_curr w \<le> iv_curr w1"
        unfolding lz_copy_short [OF kd(1,2)] piece by blast
      show ?thesis
      proof (cases "0 < len - ?k")
        case last: False
        then have "iovec_copy w from fo len = Some (w1, True)"
          using pos less.prems(6) False w1(1)
          by (subst iovec_copy.simps) (simp add: Let_def iovec_copy.simps [of _ _ _ 0])
        moreover have "?k = len"
          using last by simp
        ultimately show ?thesis
          using w1(2) by simp
      next
        case more: True
        then have k: "?k = length ?b - fo"
          by simp
        have lens: "length (iv_iov w1) = length (iv_iov w)"
          using iovec_repD(6) [OF w1(2)] iovec_repD(6) [OF r] by simp
        have "map length (take (from + 1) (iv_iov w1)) = map length (take (from + 1) (iv_iov w))"
          using iovec_repD(5) [OF w1(2)] iovec_repD(5) [OF r] by (simp flip: take_map)
        then have pre1: "length (concat (take (from + 1) (iv_iov w1))) = length ?pre + length ?b"
          using length_concat_map length_concat_take_Suc [OF fl] by (metis Suc_eq_plus1)
        have "length (iv_iov w1) - iv_curr w1 + (length (iv_iov w1) - (from + 1)) + (len - ?k)
            < length (iv_iov w) - iv_curr w + (length (iv_iov w) - from) + len"
          using w1(3) lens fl by simp
        moreover have "length (lz_copy out d ?k) + (len - ?k) \<le> L" "len - ?k \<le> 64"
          using less.prems(2,3) by simp_all
        moreover have "length (concat (take (from + 1) (iv_iov w1))) + 0 + d = length (lz_copy out d ?k)"
          unfolding pre1 lz_copy_length k using less.prems(5,7) by simp
        moreover have "from + 1 \<le> iv_curr w1"
          using lt w1(3) by simp
        ultimately obtain w2 where "iovec_copy w1 (from + 1) 0 (len - ?k) = Some (w2, True)"
          "iovec_rep iov w2 L (lz_copy (lz_copy out d ?k) d (len - ?k))"
          using less.hyps [OF _ w1(2) _ _ less.prems(4)] by blast
        moreover have "iovec_copy w from fo len = iovec_copy w1 (from + 1) 0 (len - ?k)"
        proof -
          have "length ?b - fo < len"
            using more by linarith
          with pos less.prems(6) False w1(1) show ?thesis
            by (subst iovec_copy.simps) (simp add: Let_def)
        qed
        ultimately show ?thesis
          by (simp add: lz_copy_add)
      qed
    next
      case here: True
      show ?thesis
      proof (cases "iv_remaining w = 0")
        case True
        have nx: "iv_curr w + 1 < length (iv_iov w)" "iovec_rep iov (iovec_next w) L out"
          using iovec_next_rep [OF r _ True] less.prems(2) pos by simp_all
        have w: "iv_iov (iovec_next w) = iv_iov w" "iv_curr (iovec_next w) = iv_curr w + 1"
          by (simp_all add: iovec_next_def)
        have "length (iv_iov (iovec_next w)) - iv_curr (iovec_next w) + (length (iv_iov (iovec_next w)) - from) + len
            < length (iv_iov w) - iv_curr w + (length (iv_iov w) - from) + len"
          using nx(1) unfolding w by simp
        from less.hyps [OF this nx(2) less.prems(2-4)] less.prems(5-7) obtain w' where
          "iovec_copy (iovec_next w) from fo len = Some (w', True)" "iovec_rep iov w' L (lz_copy out d len)"
          unfolding w by auto
        moreover have "iovec_copy w from fo len = iovec_copy (iovec_next w) from fo len"
          using pos here True nx(1) by (subst iovec_copy.simps) simp
        ultimately show ?thesis
          by simp
      next
        case room: False
        let ?b = "iv_iov w ! iv_curr w" and ?o = "iv_output w" and ?k = "min (iv_remaining w) len"
        have d: "d = ?o - fo" "fo < ?o"
          using less.prems(4,5) c(4) here by simp_all
        obtain b where b: "incremental_copy ?b fo ?o (?o + ?k) (?o + iv_remaining w) = Some (?o + ?k, b)"
          "copied ?b ?o (?o - fo) (?o + iv_remaining w) b (?o + ?k)"
          by (rule incremental_copy_copied [of fo ?o "?o + ?k" "?o + iv_remaining w" ?b])
            (use d(2) c(2) less.prems(3) in auto)
        have bl: "length b = length ?b" "take (?o + ?k) b = lz_copy (take ?o ?b) d ?k"
          using b(2) d(1) by (auto simp: copied_def)
        have "d \<le> length (take ?o ?b)"
          using d c(2) by simp
        then have out: "concat (take (iv_curr w) (iv_iov w)) @ lz_copy (take ?o ?b) d ?k = lz_copy out d ?k"
          using lz_copy_append [OF less.prems(4), of "take ?o ?b"] c(3) by (simp add: iovec_content_def)
        let ?w = "iovec_advance ?k (w\<lparr>iv_iov := (iv_iov w)[iv_curr w := b]\<rparr>)"
        have w: "iovec_rep iov ?w L (lz_copy out d ?k)"
          using iovec_put_rep [OF r ne bl(1), of ?k] less.prems(2) bl(2) out by simp
        have ws: "length (iv_iov ?w) = length (iv_iov w)" "iv_curr ?w = iv_curr w"
          "take from (iv_iov ?w) = take from (iv_iov w)" "iv_iov ?w ! from = b"
          using here c(1) by (simp_all add: iovec_advance_def)
        have "length (iv_iov ?w) - iv_curr ?w + (length (iv_iov ?w) - from) + (len - ?k)
            < length (iv_iov w) - iv_curr w + (length (iv_iov w) - from) + len"
          unfolding ws using pos room by simp
        moreover have "length (lz_copy out d ?k) + (len - ?k) \<le> L" "len - ?k \<le> 64"
          using less.prems(2,3) by simp_all
        moreover have "length (concat (take from (iv_iov ?w))) + (fo + ?k) + d = length (lz_copy out d ?k)"
          unfolding ws lz_copy_length using less.prems(5) by simp
        moreover have "from \<le> iv_curr ?w" "fo + ?k \<le> length (iv_iov ?w ! from)"
          unfolding ws bl(1) using here d(2) c(2) by simp_all
        ultimately obtain w' where "iovec_copy ?w from (fo + ?k) (len - ?k) = Some (w', True)"
          "iovec_rep iov w' L (lz_copy (lz_copy out d ?k) d (len - ?k))"
          using less.hyps [OF _ w _ _ less.prems(4)] by blast
        moreover have "iovec_copy w from fo len = iovec_copy ?w from (fo + ?k) (len - ?k)"
          using pos here room b(1) by (subst iovec_copy.simps) (simp add: Let_def)
        ultimately show ?thesis
          by (simp add: lz_copy_add)
      qed
    qed
  qed
qed

lemma iovec_append_self_result:
  assumes r: "iovec_rep iov w L out" and n: "0 < n" "n \<le> 64" and d: "d < 2 ^ 33"
  shows "\<exists>w' ok. iovec_append_from_self w d n = Some (w', ok) \<and>
    (ok \<longleftrightarrow> 0 < d \<and> d \<le> length out \<and> length out + n \<le> L) \<and>
    (ok \<longrightarrow> iovec_rep iov w' L (lz_copy out d n))"
proof -
  have small: "length out < 2 ^ 64" "d < 2 ^ 64"
    using iovec_repD(1,4) [OF r] d by simp_all
  note wrap = minus_1u_le [OF small] and f = iovec_repD(2,3) [OF r]
  show ?thesis
  proof (cases "0 < d \<and> d \<le> length out \<and> length out + n \<le> L")
    case False
    then have "length out \<le> minus_1u d \<or> L - length out < n"
      using wrap n(1) by auto
    then have "iovec_append_from_self w d n = Some (w, False)"
      using f by (auto simp: iovec_append_from_self_def)
    with False show ?thesis
      by (intro exI [of _ w] exI [of _ False]) simp
  next
    case True
    have ne: "iov \<noteq> []"
      by (rule iovec_rep_nonempty [OF r, of n]) (use True n in simp_all)
    note c = iovec_rep_cases [OF r ne]
    let ?fo = "length (iv_iov w ! iv_curr w) - iv_remaining w"
    have fo: "?fo = iv_output w" "?fo \<le> length (iv_iov w ! iv_curr w)"
      using c(2) by simp_all
    have "d \<le> length (concat (take (iv_curr w) (iv_iov w))) + ?fo"
      unfolding fo(1) using True c(4) by simp
    from locate_iovec_result [OF this fo(2) c(1)] obtain i io where l:
      "locate_iovec (iv_iov w) (iv_curr w) ?fo d = Some (i, io)" "i \<le> iv_curr w"
      "io \<le> length (iv_iov w ! i)"
      "length (concat (take i (iv_iov w))) + io = length (concat (take (iv_curr w) (iv_iov w))) + ?fo - d"
      by blast
    have "length (concat (take i (iv_iov w))) + io + d = length out"
      using l(4) True c(4) unfolding fo(1) by simp
    with iovec_copy_result [OF r _ n(2) _ _ l(2,3), of d] True obtain w' where
      "iovec_copy w i io n = Some (w', True)" "iovec_rep iov w' L (lz_copy out d n)"
      by blast
    moreover have "\<not> L - length out < n" "\<not> length out \<le> minus_1u d"
      using True wrap by linarith+
    ultimately have "iovec_append_from_self w d n = Some (w', True)" "iovec_rep iov w' L (lz_copy out d n)"
      using c(1) f l(1) by (simp_all add: iovec_append_from_self_def)
    with True show ?thesis
      by blast
  qed
qed

subsection \<open>The contract and the call\<close>

lemma iovec_set_expected_rep:
  assumes "iovec_fresh iov w L"
  shows "iovec_rep iov (iovec_set_expected w L) L []"
proof (cases iov)
  case (Cons b bs)
  with assms show ?thesis
    by (simp add: iovec_fresh_def iovec_rep_def iovec_set_expected_def iovec_writer_new_def
        iovec_content_def)
qed (use assms in \<open>simp add: iovec_fresh_def iovec_rep_def iovec_set_expected_def iovec_writer_new_def\<close>)

interpretation iovec_writer: snappy_writer iovec_ops "iovec_fresh iov" "iovec_rep iov"
  "\<lambda>w. True" "iovec_rep iov" "\<lambda>w. True" for iov
proof (unfold_locales, goal_cases)
  case (1 w L)
  then show ?case
    by (simp add: iovec_ops_def iovec_set_expected_rep)
next
  case (2 w L out)
  then show ?case
    by (rule iovec_repD(4))
next
  case (4 w)
  show ?case
    by (auto simp: iovec_ops_def iovec_check_length_def iovec_rep_def)
next
  case (5 w L out p n m)
  from iovec_append_result [OF this] obtain w' b where "iovec_append w m p n = Some (w', b)"
    "b \<longleftrightarrow> length out + n \<le> L" "b \<longrightarrow> iovec_rep iov w' L (out @ take n (drop p m))"
    by blast
  then show ?case
    by (intro exI [of _ w'] exI [of _ b]) (simp add: iovec_ops_def)
next
  case (6 w L out p avail m n)
  from iovec_try_fast_result [OF this, of n] show ?case
    by (simp add: iovec_ops_def)
next
  case (7 w L out n d)
  from iovec_append_self_result [OF this] obtain w' b where "iovec_append_from_self w d n = Some (w', b)"
    "b \<longleftrightarrow> 0 < d \<and> d \<le> length out \<and> length out + n \<le> L" "b \<longrightarrow> iovec_rep iov w' L (lz_copy out d n)"
    by blast
  then show ?case
    by (intro exI [of _ w'] exI [of _ b]) (simp add: iovec_ops_def)
qed simp

interpretation to_iovec: snappy_decoding byte_array_source "\<lambda>s. s" iovec_ops "iovec_fresh iov"
    "iovec_rep iov" "\<lambda>w. True" "iovec_rep iov" "\<lambda>w. True" for iov
  by (rule snappy_decoding.intro) (rule array_source.snappy_source_axioms, rule iovec_writer.snappy_writer_axioms)

text \<open>The bytes written are the first of the buffers put together.\<close>

lemma iovec_rep_concat:
  assumes "iovec_rep iov w L out"
  shows "take (length out) (concat (iv_iov w)) = out"
proof (cases "iov = []")
  case True
  with assms show ?thesis
    by (simp add: iovec_rep_def)
next
  case False
  note c = iovec_rep_cases [OF assms False]
  have "concat (iv_iov w) = concat (take (iv_curr w) (iv_iov w)) @ iv_iov w ! iv_curr w @
      concat (drop (Suc (iv_curr w)) (iv_iov w))"
    using arg_cong [OF id_take_nth_drop [OF c(1)], of concat] by simp
  also have "\<dots> = out @ drop (iv_output w) (iv_iov w ! iv_curr w) @ concat (drop (Suc (iv_curr w)) (iv_iov w))"
    unfolding c(3) iovec_content_def by (metis append.assoc append_take_drop_id)
  finally show ?thesis
    by simp
qed

text \<open>
  C36: RawUncompressToIOVec is safe and refines the format on every input, for buffers of any
  number and sizes, empty ones included, that hold the announced length together: it ends
  without a fault, keeps the sizes of the buffers, returns true exactly when the reference
  decoder accepts the input, and then the buffers put together start with the decoded bytes,
  also where a copy reaches back into earlier buffers.
\<close>

theorem raw_uncompress_to_iovec_refines:
  assumes "length scr = 5" and "length z < 2 ^ 32"
    and "\<And>n bs. varint_parse32 z = Some (n, bs) \<Longrightarrow> unat n \<le> length (concat iov)"
  shows "\<exists>iov' ok. raw_uncompress_to_iovec byte_array_source scr z iov = Some (iov', ok) \<and>
    (ok \<longleftrightarrow> snappy_format z \<noteq> None) \<and>
    (\<forall>out. snappy_format z = Some out \<longrightarrow>
      map length iov' = map length iov \<and> take (length out) (concat iov') = out)"
proof -
  have f: "iovec_fresh iov (iovec_writer_new iov) (unat n)" if "varint_parse32 z = Some (n, bs)" for n bs
    using assms(3) [OF that] u32_small [of n] by (simp add: iovec_fresh_def)
  have "\<exists>r w ok. internal_uncompress byte_array_source iovec_ops scr z (iovec_writer_new iov) = Some (r, w, ok) \<and>
    (ok \<longleftrightarrow> snappy_format z \<noteq> None) \<and>
    (\<forall>out. snappy_format z = Some out \<longrightarrow> iovec_rep iov w (length out) out)"
    by (rule to_iovec.internal_uncompress_format [OF assms(1,2)]) (rule f)
  then obtain r w ok where w: "internal_uncompress byte_array_source iovec_ops scr z (iovec_writer_new iov) = Some (r, w, ok)"
    "ok \<longleftrightarrow> snappy_format z \<noteq> None" "\<forall>out. snappy_format z = Some out \<longrightarrow> iovec_rep iov w (length out) out"
    by blast
  have "map length (iv_iov w) = map length iov \<and> take (length out) (concat (iv_iov w)) = out"
    if "snappy_format z = Some out" for out
    using w(3) that iovec_repD(5) iovec_rep_concat by blast
  with w(1,2) show ?thesis
    by (simp add: raw_uncompress_to_iovec_def)
qed

theorem raw_uncompress_to_iovec_refines_witness:
  "\<exists>iov' ok. raw_uncompress_to_iovec byte_array_source [0, 0, 0, 0, 0] [9, 8, 97, 98, 99, 9, 3, 0]
      [[0, 0], [], [0, 0, 0, 0, 0], [0, 0, 0]] = Some (iov', ok) \<and>
    (ok \<longleftrightarrow> snappy_format [9, 8, 97, 98, 99, 9, 3, 0] \<noteq> None) \<and>
    (\<forall>out. snappy_format [9, 8, 97, 98, 99, 9, 3, 0] = Some out \<longrightarrow>
      map length iov' = map length [[0, 0], [], [0, 0, 0, 0, 0], [0, 0, 0 :: byte]] \<and>
      take (length out) (concat iov') = out)"
  by (rule raw_uncompress_to_iovec_refines) (auto simp: varint_parse32_def Let_def)

end
