(* ===== verification/Spec2Isabelle.thy ===== *)
theory Spec2Isabelle
  imports Ikcp_Transfer Iqueue Ikcp_Hooks Kcpss_Main Udp_Frames Udp_Server Proxy_Data
    Snappy_Compress Snappy_Sink_Calls Snappy_Iovec_Spec
begin

text \<open>
  A verification library of kcpss, a socks5 proxy that carries its connections over KCP, the
  reliable protocol of src/depends/kcp/ikcp.c on top of UDP datagrams.

  \<^bold>\<open>The program.\<close> A client process accepts socks5 connections (Acceptor, Channel in
  src/source/Acceptor.cpp), gives each a session id and sends what it reads, encoded by a codec
  (codec.h) and cut into frames (udp.cpp), through one KCP block to a server process. The
  server (proxy_server in kcpss.cpp, udp_server in udp.cpp) finds the block of a datagram by its
  conversation number and the channel of a frame by conversation and session; for a session it
  does not know it reads a socks5 request (socks5.h), opens the connection and answers. Both run
  in one thread on a reactor of timers and descriptors (Reactor.cpp) and read their settings
  from a file (ini.h, main in kcpss.cpp). The compression library src/depends/snappy is built
  with the program; no source of the program calls it yet.

  \<^bold>\<open>Theories and code.\<close>
  \<^item> Kcp_Prelude: words as the signed and unsigned integers of C, serial numbers, shared lemmas.
  \<^item> Ikcp_Wire, Ikcp_State: the endian coders, segments, the control block \<open>IKCPCB\<close> with its
    creation and configuration calls (ikcp.c 23 to 331 and 1184 to 1253). Queues are lists there;
    Iqueue models the macros of ikcp.h on an explicit heap and proves that they implement lists.
    Ikcp_Hooks has the allocator hooks and the log switch.
  \<^item> Ikcp_Recv, Ikcp_Send, Ikcp_Ack, Ikcp_Input, Ikcp_Flush: one theory for each path of ikcp.c,
    named after its functions, with the functional properties of each. Ikcp_Inv is the
    invariant \<open>wf_kcp\<close> they share.
  \<^item> Ikcp_Session: sequences of calls of the interface (\<open>kcp_step\<close>), those that keep the block well
    formed and those that cannot fail; Ikcp_Transfer: two blocks and a network that loses,
    repeats and reorders.
  \<^item> Fast_Codec, Endpoint, Socks5: codec.h, socket.h, socks5.h.
  \<^item> Reactor: the two tables of watchers and the memory their pointers lead to.
  \<^item> Channel: Channel and Acceptor. Closures are the constructors of \<open>callback\<close>, \<open>read_cb\<close> and
    \<open>disc_cb\<close>; the static set \<open>channels_\<close> is \<open>chan_set\<close>, live objects are \<open>chan_mem\<close>. Channel_Life
    has the invariant \<open>life_ok\<close> and the contract of a channel's callbacks.
  \<^item> Udp: udp and udp_server; Udp_Frames: sending frames and the receive loop under the contract
    of a session callback; Udp_Server: the three maps of the server.
  \<^item> Proxy: proxy_client and proxy_server; Proxy_Life: the worlds they can reach; Proxy_Data: what
    passes from one to the other.
  \<^item> Ini, Mlog, Kcpss_Main: ini.h, mlog.h with the clock, parse_config and main.
  \<^item> Snappy_Stubs, Snappy_Copy: loads and stores, bit operations and varints of
    snappy-stubs-internal.h; IncrementalCopy of snappy.cc.
  \<^item> Snappy_Format: a reference decoder of the format, which is specification and maps to no
    code. Snappy_Decompress: SnappyDecompressor over any source and any writer, None where a buffer
    is left; Snappy_Decode_Spec and Snappy_Decode_All prove that it is the reference decoder.
  \<^item> Snappy_Writers (flat array and validator), Snappy_Sinks, Snappy_Scatter with
    Snappy_Scatter_Spec (the writer of blocks for a sink), Snappy_Sink_Calls, Snappy_Iovec with
    Snappy_Iovec_Spec: the writers, each shown to keep the contract, and the calls that use them.
  \<^item> Snappy_Emit, Snappy_Match, Snappy_Fragment, Snappy_Compress: the compressor from EmitLiteral
    to Compress, the round trip and the room it needs.

  \<^bold>\<open>Conventions.\<close> \<open>None\<close> is an abort, an exit, an exception nobody catches, a failed allocation or
  undefined behaviour: a released block, a deleted channel or watcher is touched, or memory
  outside a buffer is read or written. A result
  code of the program is an int. Machine integers are words of their width and wrap. The kernel,
  the allocator, name resolution and libev are parameters: \<open>allocator\<close>, \<open>netlib\<close>, \<open>sock_os\<close> and the
  answers in \<open>env\<close> and \<open>io_env\<close>; what the program hands to the system is the \<open>trace\<close>. Each
  world extends the one of the layer below (\<open>world\<close>, \<open>udp_world\<close>, \<open>client\<close>, \<open>server\<close>).

  \<^bold>\<open>Interfaces.\<close> Locales state what one part asks of another and are interpreted on the model:
  \<open>queue_macros\<close>, \<open>codec_contract\<close>, \<open>hash_key\<close>, \<open>watcher_table\<close>, \<open>channel_hooks\<close> (on the callbacks
  of the client and of the server), \<open>session_client\<close> (on the client's session callback) and the
  ones of the KCP theories. For snappy, \<open>snappy_source\<close>, \<open>snappy_writer\<close> and \<open>snappy_sink\<close> are what
  the decompressor and the compressor ask of a Source, a DecompressionWriter and a Sink;
  \<open>snappy_decoding\<close>, \<open>snappy_compressing\<close> and \<open>snappy_uncompressing\<close> join them. They are
  interpreted on ByteArraySource, the four writers, UncheckedByteArraySink and a sink with the
  default methods.

  \<^bold>\<open>Loops.\<close> Loops over a queue, a buffer or a list of answers of the system are structural or
  have a measure, so they end. \<open>udp_recv_loop\<close>, \<open>chan_recv_loop\<close> and \<open>replace_from\<close> may run for
  ever and are partial functions; that the first returns is a theorem under its contract, and
  for the last it is shown exactly when it does. The loops of snappy over a source, a writer or
  the input are partial functions too (\<open>stitch\<close>, \<open>literal_loop\<close>, \<open>tag_loop\<close>, \<open>expand_pattern\<close>,
  \<open>scan_loop\<close>, \<open>copy_loop\<close>, \<open>fragment_loop\<close>, \<open>gather\<close>, \<open>slow_append\<close>, \<open>append_no_check\<close>,
  \<open>iovec_copy\<close>): the theorems state that the calls return on every input. An exhausted list of answers is a system call
  that has not returned yet. No definition takes fuel.

  \<^bold>\<open>What the theorems show.\<close> For KCP: the block stays well formed whatever calls are made with arguments in range; a
  sequence of calls does not fail as long as allocations are granted, the output callback stays
  set, fewer than 2^31 acknowledgements are pending and no mtu is set that is 24, above the bound
  of the theorem or too small for the segments already cut (with an mtu of 24 the next ikcp_send
  divides by zero); messages arrive unchanged and in order, each path does what its queue semantics says, time
  outs and clocks stay in bounds. For the program: the channels and their timers never touch a
  deleted object, the server's map is exact in every world it reaches under a descriptor limit of at
  most 1000, frames carry the data and the client delivers it, a generated configuration file
  starts the proxy it describes. Some theorems state what goes
  wrong: released blocks that timers or maps still point to (Udp_Server), sizes taken from the
  peer, sessions that are never forgotten (Proxy_Data), IPv4 addresses read as text (Socks5). For
  snappy: on every input of fewer than 2^32 bytes decompression ends, stays inside its buffers and
  yields what the reference decoder yields, into an array, into a list of buffers or into a
  sink; validation answers what decompression would; compression stays inside
  MaxCompressedLength bytes and is undone by decompression.

  \<^bold>\<open>Assumptions of the runs.\<close> \<open>socket\<close> and \<open>accept\<close> answer descriptors below the limit of the
  process (RLIMIT_NOFILE) or fail, and a new object or descriptor is not one in use (\<open>env_ok\<close>).
  The theorems on runs ask for a limit of at most 1000: the timer ids are 1000 + fd and
  2000 + fd, and the usual limit of 1024 allows two descriptors that share one, such as 5 and
  1005. Into a sink snappy decompresses from a source whose regions do not go beyond what is
  available, as those of ByteArraySource. snappy is taken as built for a
  64-bit little-endian machine without SSSE3 and BMI2, with its asserts on; the scratch bytes of a
  decompressor and fresh memory hold anything, iovecs do not overlap.

  \<^bold>\<open>Not modelled.\<close> The branches of snappy for other machines, which this one does not compile;
  the interpolation templates of ini.h, which nothing instantiates and which do not compile when
  they are; \<open>dump\<close> in public.h, which only prints; the choice of a clock by dlopen; the signal
  handler; ikcp_qprint, which is compiled out; the build files.
\<close>

end
